(* ===== verification/Prelude.thy ===== *)
theory Prelude
  imports Main "HOL-Library.Word" "HOL-Library.Multiset"
begin

text \<open>
  What the theories of the components share: the machine types of the sources
  (\<open>size_t\<close> is a 64-bit word, as in every build of Forkscan), the result type of
  fallible C code, checked array accesses, the loop combinator used for counted
  \<^verbatim>\<open>for\<close> loops, the address macros of \<^verbatim>\<open>src/util.h\<close>, and lemmas on words, lists and
  results that the component proofs are built from.
\<close>

unbundle bit_operations_syntax

named_theorems res_simps \<open>rewriting of sequenced results and checked accesses\<close>

section \<open>Machine types and results\<close>

type_synonym size_t = "64 word"

text \<open>
  Every way in which the modelled C code can leave its normal path: an array access
  outside the array, a dereference of a pointer that points to no object, a signed
  overflow of a C \<open>int\<close>, a call of \<^verbatim>\<open>forkscan_fatal\<close> (which never returns) and a loop
  that was cut off because it ran out of fuel.
\<close>

datatype c_error =
    Out_of_bounds
  | Null_deref
  | Int_overflow
  | Fatal string
  | No_return

type_synonym 'a res = "c_error + 'a"

definition bind_res :: "'a res \<Rightarrow> ('a \<Rightarrow> 'b res) \<Rightarrow> 'b res" where
  "bind_res m f = (case m of Inl e \<Rightarrow> Inl e | Inr x \<Rightarrow> f x)"

lemma bind_res_Inl [simp]: "bind_res (Inl e) f = Inl e"
  and bind_res_Inr [simp]: "bind_res (Inr x) f = f x"
  by (simp_all add: bind_res_def)

lemma bind_res_eq_Inr: "bind_res m f = Inr y \<longleftrightarrow> (\<exists>x. m = Inr x \<and> f x = Inr y)"
  by (cases m) auto

lemma bind_res_InrE: "bind_res m f = Inr y \<Longrightarrow> (\<And>x. m = Inr x \<Longrightarrow> f x = Inr y \<Longrightarrow> P) \<Longrightarrow> P"
  by (auto simp: bind_res_eq_Inr)

lemma bind_res_cong [fundef_cong]:
  "m = m' \<Longrightarrow> (\<And>x. m' = Inr x \<Longrightarrow> f x = f' x) \<Longrightarrow> bind_res m f = bind_res m' f'"
  by (cases m') auto

lemma bind_res_assoc: "bind_res (bind_res m f) g = bind_res m (\<lambda>x. bind_res (f x) g)"
  by (cases m) auto

section \<open>Checked arrays and counted loops\<close>

text \<open>
  An array object is the list of its elements. \<open>rd\<close> and \<open>wr\<close> are the C expressions
  \<^verbatim>\<open>a[i]\<close> and \<^verbatim>\<open>a[i] = v\<close>; outside the array the C program has no defined behaviour and
  the model stops with \<open>Out_of_bounds\<close>. \<open>memcpy\<close> copies \<open>n\<close> elements (the sources always
  copy whole \<^verbatim>\<open>size_t\<close> elements). \<open>cint\<close> marks an arithmetic result that C computes in type
  \<open>int\<close>.
\<close>

definition rd :: "'a list \<Rightarrow> int \<Rightarrow> 'a res" where
  "rd a i = (if 0 \<le> i \<and> i < int (length a) then Inr (a ! nat i) else Inl Out_of_bounds)"

definition wr :: "'a list \<Rightarrow> int \<Rightarrow> 'a \<Rightarrow> 'a list res" where
  "wr a i v = (if 0 \<le> i \<and> i < int (length a) then Inr (a[nat i := v]) else Inl Out_of_bounds)"

definition memcpy :: "'a list \<Rightarrow> nat \<Rightarrow> 'a list \<Rightarrow> nat \<Rightarrow> nat \<Rightarrow> 'a list res" where
  "memcpy dst d src s n =
     (if d + n \<le> length dst \<and> s + n \<le> length src
      then Inr (take d dst @ take n (drop s src) @ drop (d + n) dst)
      else Inl Out_of_bounds)"

definition cint :: "int \<Rightarrow> int res" where
  "cint x = (if - (2 ^ 31) \<le> x \<and> x < 2 ^ 31 then Inr x else Inl Int_overflow)"

lemma rd_ok [res_simps]: "0 \<le> i \<Longrightarrow> i < int (length a) \<Longrightarrow> rd a i = Inr (a ! nat i)"
  by (simp add: rd_def)

lemma wr_ok [res_simps]: "0 \<le> i \<Longrightarrow> i < int (length a) \<Longrightarrow> wr a i v = Inr (a[nat i := v])"
  by (simp add: wr_def)

lemma memcpy_ok [res_simps]:
  "d + n \<le> length dst \<Longrightarrow> s + n \<le> length src \<Longrightarrow>
    memcpy dst d src s n = Inr (take d dst @ take n (drop s src) @ drop (d + n) dst)"
  by (simp add: memcpy_def)

lemma memcpy_0: "d \<le> length dst \<Longrightarrow> s \<le> length src \<Longrightarrow> memcpy dst d src s 0 = Inr dst"
  by (simp add: memcpy_def)

lemma memcpy_0_D: "memcpy dst d src s 0 = Inr dst' \<Longrightarrow> dst' = dst"
  by (auto simp: memcpy_def split: if_splits)

lemma cint_ok [res_simps]: "- (2 ^ 31) \<le> x \<Longrightarrow> x < 2 ^ 31 \<Longrightarrow> cint x = Inr x"
  by (simp add: cint_def)

lemma rd_int [res_simps]: "i < length a \<Longrightarrow> rd a (int i) = Inr (a ! i)"
  by (simp add: rd_def)

lemma wr_int [res_simps]: "i < length a \<Longrightarrow> wr a (int i) v = Inr (a[i := v])"
  by (simp add: wr_def)

lemma rd_eq_Inr: "rd a i = Inr x \<longleftrightarrow> 0 \<le> i \<and> i < int (length a) \<and> x = a ! nat i"
  by (auto simp: rd_def)

lemma wr_eq_Inr: "wr a i v = Inr b \<longleftrightarrow> 0 \<le> i \<and> i < int (length a) \<and> b = a[nat i := v]"
  by (auto simp: wr_def)

lemma cint_eq_Inr: "cint x = Inr y \<longleftrightarrow> - (2 ^ 31) \<le> x \<and> x < 2 ^ 31 \<and> y = x"
  by (auto simp: cint_def)

lemma nat_int_Suc [simp]: "nat (1 + int j) = Suc j" "nat (int j + 1) = Suc j"
  by simp_all

text \<open>Division of C integers truncates towards zero.\<close>

definition cdiv :: "int \<Rightarrow> int \<Rightarrow> int" where
  "cdiv a b = sgn a * sgn b * (\<bar>a\<bar> div \<bar>b\<bar>)"

lemma cdiv_nonneg [simp]: "0 \<le> a \<Longrightarrow> 0 < b \<Longrightarrow> cdiv a b = a div b"
  by (cases "a = 0") (simp_all add: cdiv_def)

lemma cdiv_2_bounds: "s - 1 \<le> 2 * cdiv s 2" "2 * cdiv s 2 \<le> s + 1"
  by (cases s "0 :: int" rule: linorder_cases; simp add: cdiv_def; linarith)+

text \<open>The value of a C \<open>int\<close> converted to \<open>size_t\<close>: a negative one becomes huge.\<close>

definition size_of_int :: "int \<Rightarrow> int" where
  "size_of_int n = uint (word_of_int n :: size_t)"

lemma size_of_int_nonneg [simp]: "0 \<le> n \<Longrightarrow> n < 2 ^ 62 \<Longrightarrow> size_of_int n = n"
  unfolding size_of_int_def uint_word_of_int_eq by (intro take_bit_int_eq_self) simp_all

lemma sint_ucast_small: "unat (x::64 word) < 2 ^ 31 \<Longrightarrow> sint (ucast x :: 32 word) = int (unat x)"
proof -
  assume x: "unat x < 2 ^ 31"
  then have "int (unat x) < int (2 ^ 31)" by (simp only: of_nat_less_iff)
  then have ux: "uint x < 2 ^ 31" by (simp only: uint_nat of_nat_power of_nat_numeral)
  then have "uint (ucast x :: 32 word) = uint x"
    unfolding unsigned_ucast_eq by (intro take_bit_int_eq_self) simp_all
  then have "sint (ucast x :: 32 word) = uint x"
    unfolding sint_uint 
    using ux by (simp add: signed_take_bit_int_eq_self_iff order_trans [OF _ uint_ge_0])
  then show ?thesis by (simp only: uint_nat)
qed

text \<open>A \<open>size_t\<close> value stored in an \<open>int\<close> keeps its 32 low-order bits.\<close>

definition int_of_size :: "size_t \<Rightarrow> int" where
  "int_of_size w = sint (ucast w :: 32 word)"

lemma int_of_size_small [simp]: "0 \<le> n \<Longrightarrow> n < 2 ^ 31 \<Longrightarrow> int_of_size (word_of_int n) = n"
proof -
  assume n: "0 \<le> n" "n < 2 ^ 31"
  then have u: "uint (word_of_int n :: size_t) = n"
    by (simp add: uint_word_of_int_eq take_bit_int_eq_self_iff)
  then have "unat (word_of_int n :: size_t) < 2 ^ 31" using n by (simp add: unat_eq_nat_uint nat_less_iff)
  moreover have "int (unat (word_of_int n :: size_t)) = n" using u by (simp only: uint_nat)
  ultimately show ?thesis by (simp only: int_of_size_def sint_ucast_small)
qed

text \<open>\<open>for_res f [i, j, \<dots>] s\<close> runs a loop body for each index in turn on a state.\<close>

fun for_res :: "('i \<Rightarrow> 's \<Rightarrow> 's res) \<Rightarrow> 'i list \<Rightarrow> 's \<Rightarrow> 's res" where
  "for_res f [] s = Inr s"
| "for_res f (i # is) s = bind_res (f i s) (for_res f is)"

lemma for_res_append: "for_res f (is @ js) s = bind_res (for_res f is s) (for_res f js)"
  by (induction "is" arbitrary: s) (simp_all add: bind_res_assoc cong: bind_res_cong)

text \<open>The loop rule: an invariant indexed by the iterations already made.\<close>

lemma for_res_upt:
  assumes "lo \<le> hi" and "I lo s"
    and "\<And>i s. lo \<le> i \<Longrightarrow> i < hi \<Longrightarrow> I i s \<Longrightarrow> \<exists>s'. f i s = Inr s' \<and> I (Suc i) s'"
  shows "\<exists>s'. for_res f [lo..<hi] s = Inr s' \<and> I hi s'"
  using assms
proof (induction hi rule: dec_induct)
  case base
  then show ?case by simp
next
  case (step n)
  then obtain s1 where s1: "for_res f [lo..<n] s = Inr s1" "I n s1"
    by (metis less_SucI)
  with step.prems(2) [of n s1] step.hyps obtain s2 where "f n s1 = Inr s2" "I (Suc n) s2"
    by auto
  with s1 step.hyps show ?case by (simp add: for_res_append)
qed

lemma for_res_set:
  assumes "I s"
    and "\<And>i s. i \<in> set is \<Longrightarrow> I s \<Longrightarrow> \<exists>s'. f i s = Inr s' \<and> I s'"
  shows "\<exists>s'. for_res f is s = Inr s' \<and> I s'"
  using assms
proof (induction "is" arbitrary: s)
  case (Cons i "is")
  then obtain s1 where "f i s = Inr s1" "I s1" by (meson list.set_intros(1))
  with Cons show ?case by simp
qed simp

section \<open>The address macros of util.h\<close>

definition PTR_MASK :: "size_t \<Rightarrow> size_t" where
  "PTR_MASK v = v AND NOT 3"

definition PAGESIZE :: size_t where
  "PAGESIZE = 0x1000"

definition CACHELINESIZE :: size_t where
  "CACHELINESIZE = 64"

definition PAGEALIGN :: "size_t \<Rightarrow> size_t" where
  "PAGEALIGN addr = addr AND NOT (PAGESIZE - 1)"

definition MIN_OF :: "'a::linorder \<Rightarrow> 'a \<Rightarrow> 'a" where
  "MIN_OF a b = (if a < b then a else b)"

definition MAX_OF :: "'a::linorder \<Rightarrow> 'a \<Rightarrow> 'a" where
  "MAX_OF a b = (if a < b then b else a)"

lemma MIN_OF_min [simp]: "MIN_OF a b = min a b"
  and MAX_OF_max [simp]: "MAX_OF a b = max a b"
  by (auto simp: MIN_OF_def MAX_OF_def)

text \<open>An address is \<open>aligned\<close> when its two low-order bits, which Forkscan borrows, are clear.\<close>

abbreviation aligned :: "size_t \<Rightarrow> bool" where
  "aligned v \<equiv> 4 dvd unat v"

lemma unat_and_mask: "unat ((v::'a::len word) AND mask n) = unat v mod 2 ^ n"
  unfolding take_bit_eq_mask [symmetric] unsigned_take_bit_eq by (simp add: take_bit_eq_mod)

lemma unat_and_3: "unat ((v::size_t) AND 3) = unat v mod 4"
  using unat_and_mask [of v 2] by (simp add: mask_eq_exp_minus_1)

lemma unat_and_1: "unat ((v::size_t) AND 1) = unat v mod 2"
  using unat_and_mask [of v 1] by simp

lemma and_1_eq_0_iff: "(v::size_t) AND 1 = 0 \<longleftrightarrow> even (unat v)"
  by (simp add: unat_eq_zero [symmetric] unat_and_1 even_iff_mod_2_eq_zero)

lemma and_3_eq_0_iff: "(v::size_t) AND 3 = 0 \<longleftrightarrow> aligned v"
  by (simp add: unat_eq_zero [symmetric] unat_and_3 dvd_eq_mod_eq_0)

lemma unat_less_64: "unat (v::size_t) < 18446744073709551616"
  using unsigned_less [of v] by simp

lemma unat_PTR_MASK: "unat (PTR_MASK v) = unat v - unat v mod 4"
proof -
  have "PTR_MASK v OR (v AND 3) = v" and "PTR_MASK v AND (v AND 3) = 0"
    unfolding PTR_MASK_def by (rule bit_word_eqI, auto simp: bit_simps)+
  then have "v = PTR_MASK v + (v AND 3)" by (metis disjunctive_add_eq_or)
  then have "PTR_MASK v = v - (v AND 3)" by (metis add_diff_cancel_right')
  moreover have "v AND 3 \<le> v" by (simp add: word_and_le2)
  ultimately show ?thesis by (simp add: unat_sub unat_and_3)
qed

lemma unat_or_1: "even (unat v) \<Longrightarrow> unat ((v::size_t) OR 1) = unat v + 1"
proof -
  assume ev: "even (unat v)"
  then have "v AND 1 = 0" by (simp add: and_1_eq_0_iff)
  then have "v OR 1 = v + 1" by (simp add: disjunctive_add_eq_or)
  moreover have "unat v + 1 < 18446744073709551616"
    using ev unat_less_64 [of v] by presburger
  ultimately show ?thesis by (simp add: unat_word_ariths)
qed

lemma or_1_marked [simp]: "((v::size_t) OR 1) AND 1 = 1"
  by (rule bit_word_eqI) (auto simp: bit_simps)

lemma PTR_MASK_aligned [simp]: "aligned (PTR_MASK v)"
  by (simp add: unat_PTR_MASK)

lemma PTR_MASK_id: "aligned v \<Longrightarrow> PTR_MASK v = v"
  by (simp add: word_unat_eq_iff unat_PTR_MASK)

lemma PTR_MASK_idem [simp]: "PTR_MASK (PTR_MASK v) = PTR_MASK v"
  by (simp add: PTR_MASK_id)

lemma PTR_MASK_or_1 [simp]: "PTR_MASK (v OR 1) = PTR_MASK v"
  unfolding PTR_MASK_def by (rule bit_word_eqI) (auto simp: bit_simps)

lemma PTR_MASK_le: "PTR_MASK v \<le> v"
  by (simp add: PTR_MASK_def word_and_le2)

lemma le_PTR_MASK: "aligned u \<Longrightarrow> u \<le> v \<Longrightarrow> u \<le> PTR_MASK v"
  by (simp add: word_le_nat_alt unat_PTR_MASK) presburger

lemma less_aligned_iff: "aligned v \<Longrightarrow> u < v \<longleftrightarrow> PTR_MASK u < v"
  by (simp add: word_less_nat_alt unat_PTR_MASK) presburger

lemma PTR_MASK_less_imp: "PTR_MASK u < PTR_MASK v \<Longrightarrow> u < v"
  by (meson PTR_MASK_aligned PTR_MASK_le less_aligned_iff order_less_le_trans)

section \<open>Characters\<close>

text \<open>\<^verbatim>\<open>isspace\<close> in the C locale.\<close>

definition is_space :: "char \<Rightarrow> bool" where
  "is_space c \<longleftrightarrow> (of_char c :: int) = 32 \<or> 9 \<le> (of_char c :: int) \<and> (of_char c :: int) \<le> 13"

end
