(* ===== verification/Queue.thy ===== *)
theory Queue
  imports Prelude
begin

text \<open>
  The per-thread queue of retired pointers, \<^verbatim>\<open>src/queue.c\<close> and \<^verbatim>\<open>src/queue.h\<close>: a circular
  buffer whose capacity is a power of two, addressed by two absolute 64-bit indices that
  only grow. The theory defines every operation of the file on the struct \<open>queue_t\<close>, the
  invariant the operations keep, the list of queued values that a queue stands for, and
  shows that the operations implement a bounded first-in first-out queue on that list.
\<close>

section \<open>The operations of queue.c\<close>

record queue_t =
  q_e :: "size_t list"
  q_capacity :: size_t
  q_idx_head :: "64 word"
  q_idx_tail :: "64 word"

definition INDEXIFY :: "64 word \<Rightarrow> size_t \<Rightarrow> size_t" where
  "INDEXIFY abs_idx capacity = abs_idx AND (capacity - 1)"

definition forkscan_queue_init :: "queue_t \<Rightarrow> size_t list \<Rightarrow> size_t \<Rightarrow> queue_t" where
  "forkscan_queue_init q buf capacity =
     q\<lparr>q_e := buf, q_capacity := capacity, q_idx_head := 0, q_idx_tail := capacity\<rparr>"

definition forkscan_queue_is_empty :: "queue_t \<Rightarrow> bool" where
  "forkscan_queue_is_empty q \<longleftrightarrow> q_idx_head q + q_capacity q = q_idx_tail q"

definition forkscan_queue_is_full :: "queue_t \<Rightarrow> bool" where
  "forkscan_queue_is_full q \<longleftrightarrow> q_idx_head q + 1 \<ge> q_idx_tail q"

text \<open>The cast to \<open>int\<close> keeps the 32 low-order bits.\<close>

definition forkscan_queue_available :: "queue_t \<Rightarrow> int" where
  "forkscan_queue_available q = sint (ucast (q_idx_tail q - q_idx_head q - 1) :: 32 word)"

definition forkscan_queue_push :: "queue_t \<Rightarrow> size_t \<Rightarrow> queue_t res" where
  "forkscan_queue_push q value =
     bind_res (wr (q_e q) (uint (INDEXIFY (q_idx_head q) (q_capacity q))) value)
       (\<lambda>e'. Inr (q\<lparr>q_e := e', q_idx_head := q_idx_head q + 1\<rparr>))"

definition forkscan_queue_pop :: "queue_t \<Rightarrow> (size_t \<times> queue_t) res" where
  "forkscan_queue_pop q =
     bind_res (rd (q_e q) (uint (INDEXIFY (q_idx_tail q) (q_capacity q))))
       (\<lambda>ret. Inr (ret, q\<lparr>q_idx_tail := q_idx_tail q + 1\<rparr>))"

definition forkscan_queue_push_bulk :: "queue_t \<Rightarrow> size_t list \<Rightarrow> size_t \<Rightarrow> queue_t res" where
  "forkscan_queue_push_bulk q values len =
     (let idx_head = q_idx_head q;
          capacity = q_capacity q;
          head = INDEXIFY idx_head capacity;
          first_copy = MIN_OF len (capacity - head);
          second_copy = len - first_copy
      in bind_res
           (if first_copy > 0
            then bind_res (memcpy (q_e q) (unat head) values 0 (unat first_copy))
                   (\<lambda>e'. Inr (e', idx_head + first_copy))
            else Inr (q_e q, idx_head))
           (\<lambda>(e1, idx_head1).
             bind_res
               (if second_copy > 0
                then bind_res (memcpy e1 (unat (INDEXIFY idx_head1 capacity)) values
                                 (unat first_copy) (unat second_copy))
                       (\<lambda>e'. Inr (e', idx_head1 + second_copy))
                else Inr (e1, idx_head1))
               (\<lambda>(e2, idx_head2). Inr (q\<lparr>q_e := e2, q_idx_head := idx_head2\<rparr>))))"

text \<open>The result is the returned count, the filled output buffer and the queue.\<close>

definition forkscan_queue_pop_bulk ::
    "size_t list \<Rightarrow> size_t \<Rightarrow> queue_t \<Rightarrow> (int \<times> size_t list \<times> queue_t) res" where
  "forkscan_queue_pop_bulk values len q =
     (let idx_head0 = q_idx_head q;
          size0 = idx_head0 - (q_idx_tail q - q_capacity q)
      in if size0 = 0 then Inr (0, values, q)
         else let idx_head = (if size0 > len then idx_head0 - (size0 - len) else idx_head0);
                  size = (if size0 > len then len else size0);
                  popped = size;
                  head = INDEXIFY idx_head (q_capacity q);
                  start0 = INDEXIFY (q_idx_tail q) (q_capacity q)
              in bind_res
                   (if head < start0
                    then let elements = q_capacity q - start0
                         in bind_res (memcpy values 0 (q_e q) (unat start0) (unat elements))
                              (\<lambda>v. Inr (v, elements, 0))
                    else Inr (values, 0, start0))
                   (\<lambda>(values1, values_offset, start).
                     let elements = head - start
                     in bind_res
                          (if elements > 0
                           then memcpy values1 (unat values_offset) (q_e q) (unat start) (unat elements)
                           else Inr values1)
                          (\<lambda>values2. Inr (sint (ucast popped :: 32 word), values2,
                              q\<lparr>q_idx_tail := idx_head + q_capacity q\<rparr>))))"

section \<open>The queue as a list\<close>

text \<open>
  The invariant: the buffer has room for \<open>capacity\<close> values, the capacity is a power of two,
  the head index has not reached the tail index and trails it by at most the capacity.
  The values in the queue are those at the absolute indices from \<open>tail - capacity\<close> up to
  \<open>head\<close>.
\<close>

definition queue_inv :: "queue_t \<Rightarrow> bool" where
  "queue_inv q \<longleftrightarrow>
     (\<exists>k<64. unat (q_capacity q) = 2 ^ k) \<and> length (q_e q) = unat (q_capacity q) \<and>
     unat (q_idx_head q) < unat (q_idx_tail q) \<and>
     unat (q_idx_tail q) \<le> unat (q_idx_head q) + unat (q_capacity q) \<and>
     unat (q_capacity q) \<le> unat (q_idx_tail q)"

definition window :: "'a list \<Rightarrow> nat \<Rightarrow> nat \<Rightarrow> 'a list" where
  "window e lo hi = map (\<lambda>i. e ! (i mod length e)) [lo..<hi]"

definition queue_list :: "queue_t \<Rightarrow> size_t list" where
  "queue_list q =
     window (q_e q) (unat (q_idx_tail q) - unat (q_capacity q)) (unat (q_idx_head q))"

lemma length_window [simp]: "length (window e lo hi) = hi - lo"
  by (simp add: window_def)

lemma nth_window: "i < hi - lo \<Longrightarrow> window e lo hi ! i = e ! ((lo + i) mod length e)"
  by (simp add: window_def)

lemma window_append: "lo \<le> m \<Longrightarrow> m \<le> hi \<Longrightarrow> window e lo hi = window e lo m @ window e m hi"
  unfolding window_def by (metis le_iff_add map_append upt_add_eq_append)

lemma mod_back:
  assumes "0 < d" "d \<le> (c::nat)" "d \<le> h"
  shows "(h - d) mod c = (if d \<le> h mod c then h mod c - d else h mod c + c - d)"
proof -
  define q where "q = h div c"
  have h: "h = q * c + h mod c" by (simp add: q_def)
  have mc: "h mod c < c" using assms by (simp)
  show ?thesis
  proof (cases "d \<le> h mod c")
    case True
    with h have "h - d = q * c + (h mod c - d)" by simp
    then have "(h - d) mod c = (h mod c - d) mod c" by (metis mod_mult_self3)
    with True mc show ?thesis by simp
  next
    case False
    with h assms have "0 < q" by (metis add_0 gr0I mult_0)
    with h False mc assms have "h - d = (q - 1) * c + (h mod c + c - d)"
      by (cases q) (auto simp: algebra_simps)
    then have "(h - d) mod c = (h mod c + c - d) mod c" by (metis mod_mult_self3)
    with False mc show ?thesis by simp
  qed
qed

text \<open>Writing a block just past the window, without crossing the end of the buffer.\<close>

lemma window_write:
  assumes lo: "lo \<le> h" "h - lo + n \<le> length e" and n: "h mod length e + n \<le> length e" "n \<le> length vs"
    and e': "e' = take (h mod length e) e @ take n vs @ drop (h mod length e + n) e"
  shows "window e' lo (h + n) = window e lo h @ take n vs"
proof (rule nth_equalityI)
  have len: "length e' = length e" using n by (simp add: e')
  show "length (window e' lo (h + n)) = length (window e lo h @ take n vs)"
    using lo n by simp
  fix i assume "i < length (window e' lo (h + n))"
  then have i: "i < h + n - lo" by simp
  let ?c = "length e" and ?d = "h mod length e"
  show "window e' lo (h + n) ! i = (window e lo h @ take n vs) ! i"
  proof (cases "i < h - lo")
    case True
    define D where "D = h - lo - i"
    have D: "0 < D" "D \<le> ?c - n" "D \<le> h" and j: "lo + i = h - D"
      using True lo by (auto simp: D_def)
    have "(lo + i) mod ?c < ?d \<or> ?d + n \<le> (lo + i) mod ?c"
      using mod_back [of D ?c h] D n(1) j by auto
    moreover have "(lo + i) mod ?c < ?c"
      by (rule mod_less_divisor) (use D in linarith)
    ultimately have "e' ! ((lo + i) mod ?c) = e ! ((lo + i) mod ?c)"
      using n by (auto simp: e' nth_append)
    with True i show ?thesis by (simp add: nth_window nth_append len)
  next
    case False
    define m where "m = i - (h - lo)"
    have m: "m < n" "lo + i = h + m" using False i lo by (auto simp: m_def)
    have "?c > 0" using m n by auto
    then have "(lo + i) mod ?c = ?d + m"
      using m n by (metis add.commute less_le_trans mod_add_left_eq mod_less nat_add_left_cancel_less)
    then have "e' ! ((lo + i) mod ?c) = vs ! m"
      using m n by (simp add: e' nth_append)
    with False i m show ?thesis by (simp add: nth_window nth_append len m_def)
  qed
qed


lemma window_memcpy:
  assumes "lo \<le> h" "h - lo + n \<le> length e" "h mod length e + n \<le> length e" "k + n \<le> length vs"
  obtains e' where "memcpy e (h mod length e) vs k n = Inr e'" "length e' = length e"
    "window e' lo (h + n) = window e lo h @ take n (drop k vs)"
proof
  let ?e' = "take (h mod length e) e @ take n (drop k vs) @ drop (h mod length e + n) e"
  show "memcpy e (h mod length e) vs k n = Inr ?e'" and "length ?e' = length e"
    using assms by (simp_all add: memcpy_ok)
  show "window ?e' lo (h + n) = window e lo h @ take n (drop k vs)"
    by (rule window_write) (use assms in simp_all)
qed

text \<open>Reading a block out of the window, with at most one wrap at the end of the buffer.\<close>

lemma window_read:
  assumes "lo mod length e + n \<le> length e"
  shows "window e lo (lo + n) = take n (drop (lo mod length e) e)"
proof (rule nth_equalityI)
  fix i assume "i < length (window e lo (lo + n))"
  then have i: "i < n" by simp
  with assms have "(lo + i) mod length e = lo mod length e + i"
    by (metis add_less_cancel_left mod_add_left_eq mod_less order_less_le_trans)
  with i assms show "window e lo (lo + n) ! i = take n (drop (lo mod length e) e) ! i"
    by (simp add: nth_window)
qed (use assms in simp)

lemma window_read_wrap:
  assumes "lo mod length e + n = length e + m" "m \<le> length e" "length e \<noteq> 0"
  shows "window e lo (lo + n) = drop (lo mod length e) e @ take m e"
proof -
  let ?s = "lo mod length e"
  have s: "?s < length e" using assms(3) by simp
  define k where "k = length e - ?s"
  have n: "n = k + m" using assms(1) s by (simp add: k_def)
  have "(lo + k) mod length e = (?s + k) mod length e" by (simp add: mod_add_left_eq)
  then have k: "(lo + k) mod length e = 0" using s by (simp add: k_def)
  have "window e lo (lo + n) = window e lo (lo + k) @ window e (lo + k) (lo + k + m)"
    using window_append [of lo "lo + k" "lo + n" e] by (simp add: n add.assoc)
  also have "window e lo (lo + k) = drop ?s e"
    using window_read [of lo e k] s by (simp add: k_def)
  also have "window e (lo + k) (lo + k + m) = take m e"
    using window_read [of "lo + k" e m] k assms(2) by simp
  finally show ?thesis .
qed

lemma unat_INDEXIFY:
  assumes "\<exists>k<64. unat c = 2 ^ k"
  shows "unat (INDEXIFY a c) = unat a mod unat c"
proof -
  from assms obtain k where k: "k < 64" "unat c = 2 ^ k" by blast
  have "of_nat (unat c) = c" by simp
  with k have "c = 2 ^ k" by (metis of_nat_numeral of_nat_power)
  then have "c - 1 = mask k" by (simp add: mask_eq_exp_minus_1)
  with k show ?thesis by (simp add: INDEXIFY_def unat_and_mask)
qed

section \<open>Every operation on the list of queued values\<close>

lemma queue_list_length:
  "queue_inv q \<Longrightarrow>
    length (queue_list q) = unat (q_idx_head q) + unat (q_capacity q) - unat (q_idx_tail q)"
  by (simp add: queue_inv_def queue_list_def)

lemma queue_inv_index [simp]:
  "queue_inv q \<Longrightarrow> unat (INDEXIFY a (q_capacity q)) = unat a mod length (q_e q)"
  by (simp add: queue_inv_def unat_INDEXIFY)

lemma queue_invD:
  assumes "queue_inv q"
  shows "length (q_e q) = unat (q_capacity q)" "0 < unat (q_capacity q)"
    "unat (q_capacity q) \<le> unat (q_idx_tail q)"
    "unat (q_idx_tail q) \<le> unat (q_idx_head q) + unat (q_capacity q)"
    "unat (q_idx_head q) < unat (q_idx_tail q)"
  using assms by (auto simp: queue_inv_def)

lemma queue_init_ok:
  assumes "\<exists>k<64. unat capacity = 2 ^ k" and "length buf = unat capacity"
  shows "queue_inv (forkscan_queue_init q buf capacity)"
    and "queue_list (forkscan_queue_init q buf capacity) = []"
proof -
  from assms have "0 < unat capacity" by force
  with assms show "queue_inv (forkscan_queue_init q buf capacity)"
    by (simp add: queue_inv_def forkscan_queue_init_def)
  show "queue_list (forkscan_queue_init q buf capacity) = []"
    by (simp add: queue_list_def forkscan_queue_init_def window_def)
qed

lemma unat_add_1_less: "unat (a::64 word) < unat (b::64 word) \<Longrightarrow> unat (a + 1) = unat a + 1"
  using unat_less_64 [of b] by (simp add: unat_word_ariths)

lemma queue_is_empty_iff:
  assumes "queue_inv q"
  shows "forkscan_queue_is_empty q \<longleftrightarrow> queue_list q = []"
proof -
  have "forkscan_queue_is_empty q \<longleftrightarrow> q_idx_head q = q_idx_tail q - q_capacity q"
    by (auto simp: forkscan_queue_is_empty_def algebra_simps)
  also have "\<dots> \<longleftrightarrow> unat (q_idx_head q) = unat (q_idx_tail q) - unat (q_capacity q)"
    using assms by (simp add: word_unat_eq_iff unat_sub word_le_nat_alt queue_inv_def)
  also have "\<dots> \<longleftrightarrow> length (queue_list q) = 0"
    using assms by (auto simp: queue_list_length queue_inv_def)
  finally show ?thesis by simp
qed

lemma queue_is_full_iff:
  assumes "queue_inv q"
  shows "forkscan_queue_is_full q \<longleftrightarrow> length (queue_list q) = unat (q_capacity q) - 1"
proof -
  have "forkscan_queue_is_full q \<longleftrightarrow> unat (q_idx_head q) + 1 = unat (q_idx_tail q)"
    using assms unat_add_1_less [of "q_idx_head q" "q_idx_tail q"]
    by (auto simp: forkscan_queue_is_full_def word_le_nat_alt queue_inv_def)
  with assms show ?thesis by (auto simp: queue_list_length queue_inv_def)
qed


lemma queue_push_ok:
  assumes inv: "queue_inv q" and room: "\<not> forkscan_queue_is_full q"
  obtains q' where "forkscan_queue_push q v = Inr q'" "queue_inv q'"
    "queue_list q' = queue_list q @ [v]" "q_capacity q' = q_capacity q"
    "unat (q_idx_head q') = unat (q_idx_head q) + 1"
proof
  let ?c = "unat (q_capacity q)" and ?h = "unat (q_idx_head q)" and ?t = "unat (q_idx_tail q)"
  let ?i = "?h mod length (q_e q)"
  let ?q' = "q\<lparr>q_e := (q_e q)[?i := v], q_idx_head := q_idx_head q + 1\<rparr>"
  note D = queue_invD [OF inv]
  have h1: "unat (q_idx_head q + 1) = ?h + 1" by (rule unat_add_1_less [OF D(5)])
  have lt: "?h + 1 < ?t"
    using D room h1 by (simp add: forkscan_queue_is_full_def word_le_nat_alt)
  have i: "?i < length (q_e q)" using D by simp
  show "forkscan_queue_push q v = Inr ?q'"
    using inv i by (simp add: forkscan_queue_push_def wr_int uint_nat)
  show "queue_inv ?q'" using inv lt h1 by (simp add: queue_inv_def)
  have "window ((q_e q)[?i := v]) (?t - ?c) (?h + 1) = window (q_e q) (?t - ?c) ?h @ take 1 [v]"
    by (rule window_write) (use D lt i in \<open>auto simp: upd_conv_take_nth_drop Suc_le_eq\<close>)
  then show "queue_list ?q' = queue_list q @ [v]" by (simp add: queue_list_def h1)
  show "unat (q_idx_head ?q') = ?h + 1" by (simp add: h1)
qed simp

lemma queue_pop_ok:
  assumes inv: "queue_inv q" and ne: "queue_list q \<noteq> []"
    and nowrap: "unat (q_idx_tail q) + 1 < 2 ^ 64"
  obtains q' where "forkscan_queue_pop q = Inr (hd (queue_list q), q')" "queue_inv q'"
    "queue_list q' = tl (queue_list q)"
proof
  let ?c = "unat (q_capacity q)" and ?h = "unat (q_idx_head q)" and ?t = "unat (q_idx_tail q)"
  let ?q' = "q\<lparr>q_idx_tail := q_idx_tail q + 1\<rparr>"
  have len: "length (q_e q) = ?c" "0 < ?c" "?c \<le> ?t" using inv by (auto simp: queue_inv_def)
  have t1: "unat (q_idx_tail q + 1) = ?t + 1" using nowrap by (simp add: unat_word_ariths)
  have lt: "?t - ?c < ?h" using ne by (auto simp: queue_list_def window_def)
  have idx: "?t mod ?c = (?t - ?c) mod ?c" using len by (simp add: le_mod_geq)
  have ql: "queue_list q = q_e q ! (?t mod ?c) # window (q_e q) (?t - ?c + 1) ?h"
    using lt len by (simp add: queue_list_def window_def upt_rec [of "?t - ?c"] idx)
  show "forkscan_queue_pop q = Inr (hd (queue_list q), ?q')"
    using inv len by (simp add: forkscan_queue_pop_def uint_nat rd_int ql)
  show "queue_inv ?q'" using inv t1 lt by (auto simp: queue_inv_def)
  show "queue_list ?q' = tl (queue_list q)"
    using len by (simp add: ql) (simp add: queue_list_def t1 Suc_diff_le)
qed


lemma memcpy_guard:
  "memcpy e d vs k (unat n) = Inr e' \<Longrightarrow>
    (if n > 0 then bind_res (memcpy e d vs k (unat n)) (\<lambda>e'. Inr (e', i + n)) else Inr (e, i))
      = Inr (e', i + n)"
  by (auto simp: word_gt_0 dest: memcpy_0_D)

lemma queue_push_bulk_ok:
  assumes inv: "queue_inv q"
    and room: "length (queue_list q) + unat len < unat (q_capacity q)"
    and vals: "unat len \<le> length values"
  obtains q' where "forkscan_queue_push_bulk q values len = Inr q'" "queue_inv q'"
    "queue_list q' = queue_list q @ take (unat len) values"
proof -
  let ?c = "unat (q_capacity q)" and ?h = "unat (q_idx_head q)" and ?t = "unat (q_idx_tail q)"
  let ?head = "INDEXIFY (q_idx_head q) (q_capacity q)"
  note D = queue_invD [OF inv]
  define f where "f = min len (q_capacity q - ?head)"
  define s where "s = len - f"
  define i where "i = ?h mod ?c"
  have i: "i < ?c" "unat ?head = i" using inv D by (simp_all add: i_def)
  have f: "unat f = min (unat len) (?c - i)"
    using i by (simp add: f_def min_def word_le_nat_alt unat_sub)
  have s: "unat s = unat len - unat f" by (simp add: s_def f_def unat_sub)
  have fi: "i + unat f \<le> ?c" "unat f \<le> unat len" using f i by simp_all
  have small: "?h + unat len < ?t" using room inv D by (simp add: queue_list_length)
  note nowrap = small unat_less_64 [of "q_idx_tail q"]
  have hf: "unat (q_idx_head q + f) = ?h + unat f" using nowrap fi by (simp add: unat_word_ariths)
  obtain e1 where e1: "memcpy (q_e q) i values 0 (unat f) = Inr e1" "length e1 = ?c"
    "window e1 (?t - ?c) (?h + unat f) = queue_list q @ take (unat f) values"
    by (rule window_memcpy [of "?t - ?c" "?h" "unat f" "q_e q" "0" "values"])
      (use D small fi vals in \<open>auto simp: queue_list_def i_def\<close>)
  define j where "j = (?h + unat f) mod ?c"
  have j: "unat (INDEXIFY (q_idx_head q + f) (q_capacity q)) = j" using inv D hf by (simp add: j_def)
  have "j + unat s \<le> ?c"
  proof (cases "unat s = 0")
    case False
    with f s have "unat f = ?c - i" by linarith
    with i have "j = 0" unfolding j_def i_def by (metis add_diff_cancel_left' le_add_diff_inverse
      less_imp_le_nat mod_add_left_eq mod_self)
    with s room show ?thesis by linarith
  qed (use D in \<open>simp add: j_def less_imp_le_nat\<close>)
  then obtain e2 where e2: "memcpy e1 j values (unat f) (unat s) = Inr e2" "length e2 = ?c"
    "window e2 (?t - ?c) (?h + unat f + unat s)
      = (queue_list q @ take (unat f) values) @ take (unat s) (drop (unat f) values)"
    by (rule_tac window_memcpy [of "?t - ?c" "?h + unat f" "unat s" e1 "unat f" "values"])
      (use D small fi s e1 vals in \<open>auto simp: j_def\<close>)
  let ?q' = "q\<lparr>q_e := e2, q_idx_head := q_idx_head q + f + s\<rparr>"
  have hn: "unat (q_idx_head q + f + s) = ?h + unat len"
    using nowrap fi s hf by (simp add: unat_word_ariths)
  show ?thesis
  proof (rule that)
    show "forkscan_queue_push_bulk q values len = Inr ?q'"
      unfolding forkscan_queue_push_bulk_def Let_def MIN_OF_min f_def [symmetric] s_def [symmetric]
      by (simp only: i(2) memcpy_guard [OF e1(1)] bind_res_Inr prod.case j memcpy_guard [OF e2(1)])
    show "queue_inv ?q'" using inv e2 small hn by (simp add: queue_inv_def)
    show "queue_list ?q' = queue_list q @ take (unat len) values"
      using e2 fi s by (simp add: queue_list_def hn take_add [symmetric])
  qed
qed


lemma memcpy_guard':
  "memcpy e d vs k (unat n) = Inr e' \<Longrightarrow>
    (if n > 0 then memcpy e d vs k (unat n) else Inr e) = Inr e'"
  by (auto simp: word_gt_0 dest: memcpy_0_D)

lemma take_window: "n \<le> hi - lo \<Longrightarrow> take n (window e lo hi) = window e lo (lo + n)"
  and drop_window: "n \<le> hi - lo \<Longrightarrow> drop n (window e lo hi) = window e (lo + n) hi"
  by (rule nth_equalityI, simp_all add: nth_window) (simp add: window_def drop_map)

text \<open>The one or two copies that drain the window \<open>lo\<close> up to \<open>lo + n\<close> of the buffer.\<close>

lemma window_drain:
  fixes lo :: nat
  assumes n: "n < length e" "n \<le> length vs"
  defines "s \<equiv> lo mod length e" and "h \<equiv> (lo + n) mod length e"
  shows "h < s \<Longrightarrow> \<exists>v. memcpy vs 0 e s (length e - s) = Inr v \<and>
           memcpy v (length e - s) e 0 h = Inr (window e lo (lo + n) @ drop n vs)"
    and "\<not> h < s \<Longrightarrow> memcpy vs 0 e s (h - s) = Inr (window e lo (lo + n) @ drop n vs)"
proof -
  have "0 < length e" using n by linarith
  then have s: "s < length e" by (simp add: s_def)
  have "h = (s + n) mod length e" by (simp add: h_def s_def mod_add_left_eq)
  then have h: "h = (if s + n < length e then s + n else s + n - length e)"
    using s n by (simp add: mod_if [of "s + n"])
  show "\<exists>v. memcpy vs 0 e s (length e - s) = Inr v \<and>
      memcpy v (length e - s) e 0 h = Inr (window e lo (lo + n) @ drop n vs)" if "h < s"
  proof -
    from that h n s have wrap: "s + n = length e + h" "h \<le> length e" by (auto split: if_splits)
    then have "window e lo (lo + n) = drop s e @ take h e"
      using window_read_wrap [of lo e n h] \<open>0 < length e\<close> by (simp add: s_def)
    moreover have "n = length e - s + h" using wrap s by linarith
    ultimately show ?thesis using s wrap n by (simp add: memcpy_ok add.commute)
  qed
  show "memcpy vs 0 e s (h - s) = Inr (window e lo (lo + n) @ drop n vs)" if "\<not> h < s"
  proof -
    from that h n s have "h = s + n" "s + n \<le> length e" by (auto split: if_splits)
    then show ?thesis using window_read [of lo e n] n by (simp add: memcpy_ok s_def)
  qed
qed

text \<open>
  \<^verbatim>\<open>forkscan_queue_pop_bulk\<close> removes as many values as the output buffer has room for, in
  the order they were pushed, and leaves the rest of the output buffer alone.
\<close>

lemma queue_pop_bulk_ok:
  assumes inv: "queue_inv q" and vals: "unat len \<le> length values"
    and small: "unat (q_capacity q) \<le> 2 ^ 31"
    and nowrap: "unat (q_idx_head q) + unat (q_capacity q) < 2 ^ 64"
  defines "n \<equiv> min (unat len) (length (queue_list q))"
  obtains q' where "forkscan_queue_pop_bulk values len q
      = Inr (int n, take n (queue_list q) @ drop n values, q')"
    "queue_inv q'" "queue_list q' = drop n (queue_list q)" "q_capacity q' = q_capacity q"
    "q_idx_head q' = q_idx_head q"
proof -
  let ?c = "unat (q_capacity q)" and ?h = "unat (q_idx_head q)" and ?t = "unat (q_idx_tail q)"
  note D = queue_invD [OF inv]
  define lo where "lo = ?t - ?c"
  define S where "S = q_idx_head q - (q_idx_tail q - q_capacity q)"
  have ql: "queue_list q = window (q_e q) lo ?h" by (simp add: queue_list_def lo_def)
  have lo: "lo \<le> ?h" "?h - lo < ?c" "lo + ?c = ?t" using D by (auto simp: lo_def)
  have "unat (q_idx_tail q - q_capacity q) = lo"
    using D by (simp add: lo_def unat_sub word_le_nat_alt)
  then have S: "unat S = ?h - lo" using lo by (simp add: S_def unat_sub word_le_nat_alt)
  define idx where "idx = (if S > len then q_idx_head q - (S - len) else q_idx_head q)"
  define sz where "sz = (if S > len then len else S)"
  have n: "n = min (unat len) (?h - lo)" by (simp add: n_def ql)
  have sz: "unat sz = n" using S by (auto simp: sz_def n word_less_nat_alt)
  have idx: "unat idx = lo + n"
    using S lo by (auto simp: idx_def n word_less_nat_alt unat_sub word_le_nat_alt)
  have ret: "sint (ucast sz :: 32 word) = int n"
    using sint_ucast_small [of sz] sz n lo small by simp
  define head where "head = INDEXIFY idx (q_capacity q)"
  define start where "start = INDEXIFY (q_idx_tail q) (q_capacity q)"
  have head: "unat head = (lo + n) mod length (q_e q)" using inv by (simp add: head_def idx)
  have start: "unat start = lo mod length (q_e q)"
    using inv D lo by (simp add: start_def) (metis mod_add_self2)
  have cs: "unat (q_capacity q - start) = length (q_e q) - unat start"
    using D by (simp add: unat_sub word_le_nat_alt start less_imp_le_nat)
  have small_n: "n < length (q_e q)" "n \<le> length values" using n lo D vals by auto
  have out: "take n (queue_list q) = window (q_e q) lo (lo + n)"
    using n by (simp add: ql take_window)
  let ?out = "take n (queue_list q) @ drop n values"
  note drain = window_drain [OF small_n, of lo, folded head start out]
  let ?q' = "q\<lparr>q_idx_tail := idx + q_capacity q\<rparr>"
  have tail: "unat (idx + q_capacity q) = lo + n + ?c"
    using nowrap idx n lo by (simp add: unat_word_ariths)
  show ?thesis
  proof (cases "S = 0")
    case True
    with S ql have "queue_list q = []" by (simp add: window_def)
    with True inv show ?thesis
      by (intro that [of q]) (simp_all add: forkscan_queue_pop_bulk_def n_def S_def)
  next
    case False
    show ?thesis
    proof (rule that)
      show "forkscan_queue_pop_bulk values len q = Inr (int n, ?out, ?q')"
      proof (cases "head < start")
        case True
        then have "unat head < unat start" by (simp add: word_less_nat_alt)
        with drain(1) obtain v where v: "memcpy values 0 (q_e q) (unat start) (unat (q_capacity q - start)) = Inr v"
          "memcpy v (unat (q_capacity q - start)) (q_e q) 0 (unat head) = Inr ?out"
          unfolding cs by blast
        show ?thesis
          unfolding forkscan_queue_pop_bulk_def Let_def S_def [symmetric] idx_def [symmetric]
            sz_def [symmetric] head_def [symmetric] start_def [symmetric] ret
          by (simp add: False True v(1) memcpy_guard' [OF v(2)] split del: if_split cong: if_cong)
      next
        case nw: False
        then have "\<not> unat head < unat start" by (simp add: word_less_nat_alt)
        moreover have "unat (head - start) = unat head - unat start"
          using nw by (simp add: unat_sub)
        ultimately have v: "memcpy values 0 (q_e q) (unat start) (unat (head - start)) = Inr ?out"
          using drain(2) by simp
        show ?thesis
          unfolding forkscan_queue_pop_bulk_def Let_def S_def [symmetric] idx_def [symmetric]
            sz_def [symmetric] head_def [symmetric] start_def [symmetric] ret
          by (simp add: False nw memcpy_guard' [OF v] split del: if_split cong: if_cong)
      qed
      show "queue_inv ?q'" using inv tail lo n by (auto simp: queue_inv_def)
      show "queue_list ?q' = drop n (queue_list q)"
        using n by (simp add: ql drop_window) (simp add: queue_list_def tail)
    qed simp_all
  qed
qed

section \<open>The interface: a bounded first-in first-out queue\<close>

text \<open>
  What the clients of the queue rely on. \<open>invar n q\<close> says that \<open>q\<close> is well formed and that
  \<open>n\<close> more pushes can be made before the absolute 64-bit indices would wrap.
  \<open>drain k q\<close> takes up to \<open>k\<close> values out. A client run is a sequence of pushes, each made
  only when the queue is not full as \<^verbatim>\<open>forkscan_retire\<close> does, and drains.
\<close>

datatype 'a queue_op = Push 'a | Drain size_t

fun pushed :: "'a queue_op list \<Rightarrow> 'a list" where
  "pushed [] = []"
| "pushed (Push v # ops) = v # pushed ops"
| "pushed (Drain k # ops) = pushed ops"

fun fifo_run :: "('q \<Rightarrow> 'a \<Rightarrow> 'q res) \<Rightarrow> (size_t \<Rightarrow> 'q \<Rightarrow> ('a list \<times> 'q) res) \<Rightarrow> ('q \<Rightarrow> bool) \<Rightarrow>
    'a queue_op list \<Rightarrow> 'q \<Rightarrow> ('a list \<times> 'q) res" where
  "fifo_run push drain full [] q = Inr ([], q)"
| "fifo_run push drain full (Push v # ops) q =
     (if full q then Inl (Fatal ''push on a full queue'')
      else bind_res (push q v) (fifo_run push drain full ops))"
| "fifo_run push drain full (Drain k # ops) q =
     bind_res (drain k q) (\<lambda>(xs, q').
       bind_res (fifo_run push drain full ops q') (\<lambda>(ys, q''). Inr (xs @ ys, q'')))"

locale fifo_queue =
  fixes invar :: "nat \<Rightarrow> 'q \<Rightarrow> bool"
    and elems :: "'q \<Rightarrow> 'a list"
    and full :: "'q \<Rightarrow> bool"
    and push :: "'q \<Rightarrow> 'a \<Rightarrow> 'q res"
    and drain :: "size_t \<Rightarrow> 'q \<Rightarrow> ('a list \<times> 'q) res"
  assumes push_law: "invar (Suc n) q \<Longrightarrow> \<not> full q \<Longrightarrow>
      \<exists>q'. push q v = Inr q' \<and> invar n q' \<and> elems q' = elems q @ [v]"
    and drain_law: "invar n q \<Longrightarrow>
      \<exists>q'. drain k q = Inr (take (unat k) (elems q), q') \<and> invar n q' \<and>
          elems q' = drop (unat k) (elems q)"
begin

lemma history:
  "invar (n + length (pushed ops)) q \<Longrightarrow>
    (case fifo_run push drain full ops q of
       Inl err \<Rightarrow> err = Fatal ''push on a full queue''
     | Inr (out, q') \<Rightarrow> out @ elems q' = elems q @ pushed ops \<and> invar n q')"
proof (induction ops arbitrary: q)
  case (Cons op ops)
  show ?case
  proof (cases op)
    case (Push v)
    show ?thesis
    proof (cases "full q")
      case False
      with Cons.prems Push obtain q1 where
        "push q v = Inr q1" "invar (n + length (pushed ops)) q1" "elems q1 = elems q @ [v]"
        using push_law [of "n + length (pushed ops)" q v] by auto
      with Cons.IH [of q1] Push False show ?thesis by (auto split: sum.splits prod.splits)
    qed (simp add: Push)
  next
    case (Drain k)
    with Cons.prems obtain q1 where q1: "drain k q = Inr (take (unat k) (elems q), q1)"
      "invar (n + length (pushed ops)) q1" "elems q1 = drop (unat k) (elems q)"
      using drain_law [of "n + length (pushed ops)" q k] by auto
    have "take (unat k) (elems q) @ drop (unat k) (elems q) @ xs = elems q @ xs" for xs
      by (simp flip: append_assoc)
    with Cons.IH [of q1] Drain q1 show ?thesis
      by (cases "fifo_run push drain full ops q1") auto
  qed
qed simp

end

text \<open>Draining through \<^verbatim>\<open>forkscan_queue_pop_bulk\<close> into an output buffer of \<open>k\<close> slots.\<close>

definition queue_drain :: "size_t \<Rightarrow> queue_t \<Rightarrow> (size_t list \<times> queue_t) res" where
  "queue_drain k q =
     bind_res (forkscan_queue_pop_bulk (replicate (unat k) 0) k q)
       (\<lambda>(popped, out, q'). Inr (take (nat popped) out, q'))"

definition queue_invar :: "nat \<Rightarrow> queue_t \<Rightarrow> bool" where
  "queue_invar n q \<longleftrightarrow> queue_inv q \<and> unat (q_capacity q) \<le> 2 ^ 31 \<and>
     unat (q_idx_head q) + unat (q_capacity q) + n < 2 ^ 64"

interpretation ring: fifo_queue queue_invar queue_list forkscan_queue_is_full
  forkscan_queue_push queue_drain
proof
  fix n q v
  assume "queue_invar (Suc n) q" "\<not> forkscan_queue_is_full q"
  then show "\<exists>q'. forkscan_queue_push q v = Inr q' \<and> queue_invar n q' \<and>
      queue_list q' = queue_list q @ [v]"
    unfolding queue_invar_def by (metis queue_push_ok add_Suc_right add_Suc add_Suc_shift Suc_eq_plus1)
next
  fix n q k
  assume "queue_invar n q"
  then have q: "queue_inv q" "unat (q_capacity q) \<le> 2 ^ 31"
    "unat (q_idx_head q) + unat (q_capacity q) < 2 ^ 64" by (simp_all add: queue_invar_def)
  obtain q' where q': "queue_inv q'" "q_capacity q' = q_capacity q" "q_idx_head q' = q_idx_head q"
    "forkscan_queue_pop_bulk (replicate (unat k) 0) k q
      = Inr (int (min (unat k) (length (queue_list q))),
          take (min (unat k) (length (queue_list q))) (queue_list q) @
          drop (min (unat k) (length (queue_list q))) (replicate (unat k) 0), q')"
    "queue_list q' = drop (min (unat k) (length (queue_list q))) (queue_list q)"
    by (rule queue_pop_bulk_ok [OF q(1) _ q(2,3), of k "replicate (unat k) 0"]) simp_all
  from q' \<open>queue_invar n q\<close> show "\<exists>q'. queue_drain k q = Inr (take (unat k) (queue_list q), q') \<and>
      queue_invar n q' \<and> queue_list q' = drop (unat k) (queue_list q)"
    by (intro exI [of _ q']) (auto simp: queue_drain_def queue_invar_def min_def)
qed

section \<open>Properties\<close>

text \<open>
  C22: the queue is first-in first-out. In any sequence of pushes (each guarded by
  \<^verbatim>\<open>forkscan_queue_is_full\<close>) and bulk pops, no operation leaves the buffer; the values
  popped, in order, followed by the values still queued are exactly the values that were
  queued at the start followed by the values pushed. The hypothesis bounds the number of
  pushes so that the absolute 64-bit indices do not wrap.
\<close>

theorem queue_fifo_history:
  assumes "queue_invar (length (pushed ops)) q"
  shows "case fifo_run forkscan_queue_push queue_drain forkscan_queue_is_full ops q of
      Inl err \<Rightarrow> err = Fatal ''push on a full queue''
    | Inr (out, q') \<Rightarrow> out @ queue_list q' = queue_list q @ pushed ops"
  using ring.history [of 0 ops q] assms by (auto split: sum.splits prod.splits)

definition sample_queue :: queue_t where
  "sample_queue = \<lparr>q_e = [0, 0, 0, 0], q_capacity = 4, q_idx_head = 0, q_idx_tail = 4\<rparr>"

lemma sample_queue_invar: "n < 1000 \<Longrightarrow> queue_invar n sample_queue" "queue_list sample_queue = []"
  by (auto simp: queue_invar_def queue_inv_def sample_queue_def queue_list_def window_def
      intro: exI [of _ 2])

lemma sample_queue_facts:
  "queue_inv sample_queue" "q_capacity sample_queue = 4" "queue_list sample_queue = []"
  using sample_queue_invar(1) [of 0] sample_queue_invar(2)
  by (simp_all add: queue_invar_def) (simp add: sample_queue_def)

definition sample_ops :: "size_t queue_op list" where
  "sample_ops = [Push 8, Push 16, Drain 1, Push 24, Push 32, Drain 8]"

theorem queue_fifo_history_witness:
  "queue_invar (length (pushed sample_ops)) sample_queue \<and>
   (case fifo_run forkscan_queue_push queue_drain forkscan_queue_is_full sample_ops sample_queue of
      Inl err \<Rightarrow> err = Fatal ''push on a full queue''
    | Inr (out, q') \<Rightarrow> out @ queue_list q' = queue_list sample_queue @ pushed sample_ops) \<and>
   map_sum id fst (fifo_run forkscan_queue_push queue_drain forkscan_queue_is_full
     sample_ops sample_queue) = Inr [8, 16, 24, 32]"
proof (intro conjI)
  show inv: "queue_invar (length (pushed sample_ops)) sample_queue"
    by (rule sample_queue_invar) (simp add: sample_ops_def)
  show "case fifo_run forkscan_queue_push queue_drain forkscan_queue_is_full sample_ops sample_queue of
      Inl err \<Rightarrow> err = Fatal ''push on a full queue''
    | Inr (out, q') \<Rightarrow> out @ queue_list q' = queue_list sample_queue @ pushed sample_ops"
    by (rule queue_fifo_history [OF inv])
  show "map_sum id fst (fifo_run forkscan_queue_push queue_drain forkscan_queue_is_full
     sample_ops sample_queue) = Inr [8, 16, 24, 32]"
    by code_simp
qed

text \<open>
  \<^verbatim>\<open>forkscan_queue_pop_bulk\<close> never reads or writes outside the queue's buffer or the
  output buffer; it returns the number of values it copied, which is the smaller of the room
  in the output and the number queued, copies exactly the oldest values, leaves the rest of
  the output buffer as it was and keeps the remaining values queued in order.
\<close>

theorem queue_pop_bulk_oldest:
  assumes "queue_invar n q" and "unat len \<le> length values"
    and "m = min (unat len) (length (queue_list q))"
  shows "\<exists>q'. forkscan_queue_pop_bulk values len q
        = Inr (int m, take m (queue_list q) @ drop m values, q') \<and>
      queue_invar n q' \<and> queue_list q' = drop m (queue_list q)"
proof -
  from assms(1) have q: "queue_inv q" "unat (q_capacity q) \<le> 2 ^ 31"
    "unat (q_idx_head q) + unat (q_capacity q) < 2 ^ 64" by (simp_all add: queue_invar_def)
  show ?thesis
    by (rule queue_pop_bulk_ok [OF q(1) assms(2) q(2,3), folded assms(3)])
      (use assms(1) in \<open>auto simp: queue_invar_def\<close>)
qed

definition sample_queue2 :: queue_t where
  "sample_queue2 = sample_queue\<lparr>q_idx_head := 2, q_e := [8, 16, 0, 0]\<rparr>"

lemma sample_queue2_invar: "queue_invar 1 sample_queue2"
  by (auto simp: queue_invar_def queue_inv_def sample_queue_def sample_queue2_def
      intro: exI [of _ 2])

lemma sample_queue2_list: "queue_list sample_queue2 = [8, 16]"
  by code_simp

theorem queue_pop_bulk_oldest_witness:
  "queue_invar 1 sample_queue2 \<and>
   (\<exists>q'. forkscan_queue_pop_bulk [0, 0, 7] 3 sample_queue2 = Inr (2, [8, 16, 7], q') \<and>
      queue_list q' = [])"
proof -
  have "\<exists>q'. forkscan_queue_pop_bulk [0, 0, 7] 3 sample_queue2
      = Inr (int 2, take 2 (queue_list sample_queue2) @ drop 2 [0, 0, 7], q') \<and>
      queue_invar 1 q' \<and> queue_list q' = drop 2 (queue_list sample_queue2)"
    by (rule queue_pop_bulk_oldest [OF sample_queue2_invar]) (simp_all add: sample_queue2_list)
  then show ?thesis using sample_queue2_invar by (auto simp: sample_queue2_list)
qed

text \<open>
  \<^verbatim>\<open>forkscan_queue_push_bulk\<close> appends the whole block, in order and in at most two
  copies, whenever fewer than \<open>capacity\<close> values would then be queued; no access leaves the
  buffers and the invariant is kept.
\<close>

theorem queue_push_bulk_appends:
  assumes "queue_inv q" and "length (queue_list q) + unat len < unat (q_capacity q)"
    and "unat len \<le> length values"
  shows "\<exists>q'. forkscan_queue_push_bulk q values len = Inr q' \<and> queue_inv q' \<and>
      queue_list q' = queue_list q @ take (unat len) values"
  by (rule queue_push_bulk_ok [OF assms]) blast

theorem queue_push_bulk_appends_witness:
  "queue_inv sample_queue \<and>
   (\<exists>q'. forkscan_queue_push_bulk sample_queue [8, 16, 24] 3 = Inr q' \<and> queue_inv q' \<and>
      queue_list q' = [8, 16, 24])"
proof -
  have "\<exists>q'. forkscan_queue_push_bulk sample_queue [8, 16, 24] 3 = Inr q' \<and> queue_inv q' \<and>
      queue_list q' = queue_list sample_queue @ take (unat (3 :: size_t)) [8, 16, 24]"
    by (rule queue_push_bulk_appends [OF sample_queue_facts(1)]) (simp_all add: sample_queue_facts)
  then show ?thesis by (simp add: sample_queue_facts)
qed

text \<open>
  \<^verbatim>\<open>forkscan_queue_available\<close>, \<^verbatim>\<open>forkscan_queue_is_full\<close> and
  \<^verbatim>\<open>forkscan_queue_is_empty\<close> agree with the list of queued values: one slot of the buffer
  always stays free, so a queue holds at most \<open>capacity - 1\<close> values.
\<close>

theorem queue_available_exact:
  assumes "queue_inv q" and "unat (q_capacity q) \<le> 2 ^ 31"
  shows "forkscan_queue_available q = int (unat (q_capacity q)) - 1 - int (length (queue_list q)) \<and>
    (forkscan_queue_is_full q \<longleftrightarrow> forkscan_queue_available q = 0) \<and>
    (forkscan_queue_is_empty q \<longleftrightarrow> queue_list q = [])"
proof -
  note D = queue_invD [OF assms(1)]
  let ?x = "q_idx_tail q - q_idx_head q - 1"
  have "unat (q_idx_tail q - q_idx_head q) = unat (q_idx_tail q) - unat (q_idx_head q)"
    using D(5) by (simp add: unat_sub word_le_nat_alt)
  moreover have "(1::64 word) \<le> q_idx_tail q - q_idx_head q"
    using D(5) calculation by (simp add: word_le_nat_alt)
  ultimately have x: "unat ?x = unat (q_idx_tail q) - unat (q_idx_head q) - 1"
    by (simp add: unat_sub)
  then have "unat ?x < 2 ^ 31" using D assms(2) by linarith
  then have "forkscan_queue_available q = int (unat ?x)"
    by (simp add: forkscan_queue_available_def sint_ucast_small)
  then have av: "forkscan_queue_available q
      = int (unat (q_capacity q)) - 1 - int (length (queue_list q))"
    using x D assms(1) by (simp add: queue_list_length)
  have full: "forkscan_queue_is_full q \<longleftrightarrow> forkscan_queue_available q = 0"
    unfolding av queue_is_full_iff [OF assms(1)] using D(2) by linarith
  show ?thesis using av full queue_is_empty_iff [OF assms(1)] by blast
qed

theorem queue_available_exact_witness:
  "queue_inv sample_queue \<and> forkscan_queue_available sample_queue = 3"
  using queue_available_exact [OF sample_queue_facts(1)] by (simp add: sample_queue_facts)

end
