(* ===== verification/Util_Sort.thy ===== *)
theory Util_Sort
  imports Prelude
begin

text \<open>
  The in-place array utilities of \<^verbatim>\<open>src/util.c\<close>: the quicksort with an insertion sort for
  short ranges that orders the tracked addresses before a scan, the compaction of a sorted
  array with duplicates, and the deterministic shuffle. All accesses are checked and the
  midpoint of a range is computed in C's \<open>int\<close>.
\<close>

section \<open>The sort\<close>

definition swap :: "size_t list \<Rightarrow> int \<Rightarrow> int \<Rightarrow> size_t list res" where
  "swap addrs n m =
     bind_res (rd addrs n) (\<lambda>addr.
     bind_res (rd addrs m) (\<lambda>x.
     bind_res (wr addrs n x) (\<lambda>addrs'. wr addrs' m addr)))"

text \<open>The loop of \<^verbatim>\<open>partition\<close>, from index \<open>i\<close> on.\<close>

function partition_loop ::
    "size_t list \<Rightarrow> int \<Rightarrow> int \<Rightarrow> int \<Rightarrow> size_t \<Rightarrow> (size_t list \<times> int) res" where
  "partition_loop addrs i mid hi pivot_val =
     (if i < hi
      then bind_res (rd addrs i) (\<lambda>x.
             if x \<le> pivot_val
             then bind_res (swap addrs i mid)
                    (\<lambda>addrs'. partition_loop addrs' (i + 1) (mid + 1) hi pivot_val)
             else partition_loop addrs (i + 1) mid hi pivot_val)
      else Inr (addrs, mid))"
  by pat_completeness auto
termination
  by (relation "measure (\<lambda>(addrs, i, mid, hi, p). nat (hi - i))") auto

declare partition_loop.simps [simp del]

definition partition :: "size_t list \<Rightarrow> int \<Rightarrow> int \<Rightarrow> (size_t list \<times> int) res" where
  "partition addrs lo hi =
     bind_res (cint (hi + lo)) (\<lambda>s.
     let pivot = cdiv s 2 in
     bind_res (rd addrs pivot) (\<lambda>pivot_val.
     bind_res (swap addrs pivot hi) (\<lambda>addrs1.
     bind_res (partition_loop addrs1 lo lo hi pivot_val) (\<lambda>(addrs2, mid).
     bind_res (swap addrs2 mid hi) (\<lambda>addrs3. Inr (addrs3, mid))))))"

text \<open>
  The two loops of \<^verbatim>\<open>insertion_sort\<close>. The inner one stops at the start of the array, not at
  the lower end \<open>lo\<close> of the range (\<^verbatim>\<open>min\<close> in the source; \<open>hi\<close> is its \<^verbatim>\<open>max\<close>).
\<close>

function insertion_inner :: "size_t list \<Rightarrow> int \<Rightarrow> size_t list res" where
  "insertion_inner addrs j =
     (if j > 0
      then bind_res (rd addrs (j - 1)) (\<lambda>x.
           bind_res (rd addrs j) (\<lambda>y.
             if x > y
             then bind_res (swap addrs j (j - 1)) (\<lambda>addrs'. insertion_inner addrs' (j - 1))
             else Inr addrs))
      else Inr addrs)"
  by pat_completeness auto
termination
  by (relation "measure (\<lambda>(addrs, j). nat j)") auto

declare insertion_inner.simps [simp del]

function insertion_outer :: "size_t list \<Rightarrow> int \<Rightarrow> int \<Rightarrow> size_t list res" where
  "insertion_outer addrs i hi =
     (if i \<le> hi
      then bind_res (insertion_inner addrs i) (\<lambda>addrs'. insertion_outer addrs' (i + 1) hi)
      else Inr addrs)"
  by pat_completeness auto
termination
  by (relation "measure (\<lambda>(addrs, i, hi). nat (hi + 1 - i))") auto

declare insertion_outer.simps [simp del]

definition insertion_sort :: "size_t list \<Rightarrow> int \<Rightarrow> int \<Rightarrow> size_t list res" where
  "insertion_sort addrs lo hi = insertion_outer addrs (lo + 1) hi"

definition SORT_THRESHOLD :: int where
  "SORT_THRESHOLD = 16"

lemma partition_loop_mid:
  "partition_loop a i mid hi p = Inr (a', m) \<Longrightarrow> mid \<le> m \<and> m \<le> mid + max 0 (hi - i)"
proof (induction a i mid hi p rule: partition_loop.induct)
  case (1 a i mid hi p)
  show ?case
  proof (cases "i < hi")
    case True
    with "1.prems" obtain x where x: "rd a i = Inr x"
      and step: "(if x \<le> p then bind_res (swap a i mid)
          (\<lambda>a1. partition_loop a1 (i + 1) (mid + 1) hi p)
        else partition_loop a (i + 1) mid hi p) = Inr (a', m)"
      by (subst (asm) partition_loop.simps) (auto simp: bind_res_eq_Inr)
    show ?thesis
    proof (cases "x \<le> p")
      case le: True
      with step obtain a1 where "swap a i mid = Inr a1"
        "partition_loop a1 (i + 1) (mid + 1) hi p = Inr (a', m)"
        by (auto simp: bind_res_eq_Inr)
      with "1.IH"(1) [OF True x le] show ?thesis using True by fastforce
    next
      case False
      with step "1.IH"(2) [OF True x False] show ?thesis using True by fastforce
    qed
  next
    case False
    with "1.prems" show ?thesis by (subst (asm) partition_loop.simps) simp
  qed
qed

lemma partition_mid: "partition a lo hi = Inr (a', m) \<Longrightarrow> lo \<le> hi \<Longrightarrow> lo \<le> m \<and> m \<le> hi"
  by (auto simp: partition_def bind_res_eq_Inr Let_def dest!: partition_loop_mid)

text \<open>The recursion ends because the pivot's final place lies within the range.\<close>

function quicksort :: "size_t list \<Rightarrow> int \<Rightarrow> int \<Rightarrow> size_t list res" where
  "quicksort addrs lo hi =
     (if hi - lo > SORT_THRESHOLD
      then bind_res (partition addrs lo hi) (\<lambda>(addrs1, mid).
           bind_res (quicksort addrs1 lo (mid - 1)) (\<lambda>addrs2.
           quicksort addrs2 (mid + 1) hi))
      else insertion_sort addrs lo hi)"
  by pat_completeness auto
termination
  by (relation "measure (\<lambda>(addrs, lo, hi). nat (hi - lo + 1))")
    (auto simp: SORT_THRESHOLD_def dest!: partition_mid)

declare quicksort.simps [simp del]

definition forkscan_util_sort :: "size_t list \<Rightarrow> int \<Rightarrow> size_t list res" where
  "forkscan_util_sort a len = quicksort a 0 (len - 1)"

section \<open>Correctness of the sort\<close>

lemma swap_ok:
  "i < length a \<Longrightarrow> j < length a \<Longrightarrow> swap a (int i) (int j) = Inr (a[i := a ! j, j := a ! i])"
  by (simp add: swap_def res_simps)

lemma sorted_take_nth:
  "n \<le> length a \<Longrightarrow> sorted (take n a) \<longleftrightarrow> (\<forall>i j. i \<le> j \<longrightarrow> j < n \<longrightarrow> a ! i \<le> a ! j)"
  by (auto simp: sorted_iff_nth_mono)

lemma sorted_take_SucI:
  assumes "J < length a" and "\<And>p q. p < q \<Longrightarrow> q \<le> J \<Longrightarrow> a ! p \<le> a ! q"
  shows "sorted (take (Suc J) a)"
proof -
  have "a ! p \<le> a ! q" if "p \<le> q" "q < Suc J" for p q
    using that assms(2) [of p q] by (cases "p = q") auto
  with assms(1) show ?thesis by (simp add: sorted_take_nth)
qed

text \<open>Inserting element \<open>j\<close> into the sorted elements before it.\<close>

lemma insertion_inner_step:
  assumes "j \<le> J" "J < length a"
    and "\<And>p q. p < q \<Longrightarrow> q \<le> J \<Longrightarrow> p \<noteq> j \<Longrightarrow> q \<noteq> j \<Longrightarrow> a ! p \<le> a ! q"
    and "\<And>q. j < q \<Longrightarrow> q \<le> J \<Longrightarrow> a ! j \<le> a ! q"
  shows "\<exists>a'. insertion_inner a (int j) = Inr a' \<and> sorted (take (Suc J) a') \<and>
      mset a' = mset a \<and> drop (Suc J) a' = drop (Suc J) a"
  using assms
proof (induction j arbitrary: a)
  case 0
  have "a ! p \<le> a ! q" if "p < q" "q \<le> J" for p q
    using that "0.prems"(3) [of p q] "0.prems"(4) [of q] by (cases "p = 0") auto
  with "0.prems"(2) have "sorted (take (Suc J) a)" by (rule sorted_take_SucI)
  then show ?case by (simp add: insertion_inner.simps)
next
  case (Suc j)
  show ?case
  proof (cases "a ! Suc j < a ! j")
    case True
    let ?b = "a[Suc j := a ! j, j := a ! Suc j]"
    have "insertion_inner a (int (Suc j)) = insertion_inner ?b (int j)"
      using True Suc.prems swap_ok [of "Suc j" a j]
      by (subst insertion_inner.simps) (simp add: res_simps)
    moreover have "\<exists>a'. insertion_inner ?b (int j) = Inr a' \<and> sorted (take (Suc J) a') \<and>
      mset a' = mset ?b \<and> drop (Suc J) a' = drop (Suc J) ?b"
    proof (rule Suc.IH)
      show "?b ! p \<le> ?b ! q" if "p < q" "q \<le> J" "p \<noteq> j" "q \<noteq> j" for p q
        using that Suc.prems(1,2) Suc.prems(3) [of p q] Suc.prems(3) [of p j] Suc.prems(3) [of j q]
        by (auto simp: nth_list_update)
      show "?b ! j \<le> ?b ! q" if "j < q" "q \<le> J" for q
        using that True Suc.prems(1,2) Suc.prems(4) [of q] by (auto simp: nth_list_update)
    qed (use Suc.prems in auto)
    ultimately show ?thesis using Suc.prems(1,2) by (auto simp: mset_swap)
  next
    case False
    then have "insertion_inner a (int (Suc j)) = Inr a"
      using Suc.prems by (subst insertion_inner.simps) (simp add: res_simps)
    moreover have "sorted (take (Suc J) a)"
    proof -
      have "a ! p \<le> a ! q" if "p < q" "q \<le> J" for p q
        using that False Suc.prems(3) [of p q] Suc.prems(3) [of p j] Suc.prems(4) [of q] Suc.prems(1)
        by (cases "p = Suc j"; cases "q = Suc j"; cases "p = j") (auto simp: not_less)
      with Suc.prems(2) show ?thesis by (rule sorted_take_SucI)
    qed
    ultimately show ?thesis by simp
  qed
qed


lemma insertion_outer_ok:
  assumes "i \<le> n" "n \<le> length a" "sorted (take i a)"
  shows "\<exists>a'. insertion_outer a (int i) (int n - 1) = Inr a' \<and> sorted (take n a') \<and>
      mset a' = mset a \<and> drop n a' = drop n a"
  using assms
proof (induction "n - i" arbitrary: i a)
  case 0
  then show ?case by (simp add: insertion_outer.simps)
next
  case (Suc d)
  then have i: "i < n" by linarith
  have "a ! p \<le> a ! q" if "p < q" "q \<le> i" "p \<noteq> i" "q \<noteq> i" for p q
    using that Suc.prems i by (simp add: sorted_take_nth)
  with Suc.prems i obtain b where b: "insertion_inner a (int i) = Inr b" "sorted (take (Suc i) b)"
    "mset b = mset a" "drop (Suc i) b = drop (Suc i) a"
    using insertion_inner_step [of i i a] by fastforce
  have len: "length b = length a" using b(3) by (metis size_mset)
  have "\<exists>a'. insertion_outer b (int (Suc i)) (int n - 1) = Inr a' \<and> sorted (take n a') \<and>
      mset a' = mset b \<and> drop n a' = drop n b"
    by (rule Suc.hyps(1)) (use Suc i b len in auto)
  moreover have "drop n b = drop n a"
    using b(4) i by (metis Suc_leI drop_drop le_add_diff_inverse2)
  moreover have "insertion_outer a (int i) (int n - 1) = insertion_outer b (int (Suc i)) (int n - 1)"
    using i b(1) by (subst insertion_outer.simps) (simp add: add.commute)
  ultimately show ?case using b(3) by simp
qed

text \<open>
  Partitioning: the block \<open>lo \<dots> mid - 1\<close> holds elements at most the pivot value, the block
  \<open>mid \<dots> i - 1\<close> larger ones, the pivot value waits at \<open>hi\<close>.
\<close>

definition split_at :: "size_t list \<Rightarrow> nat \<Rightarrow> nat \<Rightarrow> nat \<Rightarrow> size_t \<Rightarrow> bool" where
  "split_at a lo mid i p \<longleftrightarrow>
     (\<forall>k. lo \<le> k \<longrightarrow> k < mid \<longrightarrow> a ! k \<le> p) \<and> (\<forall>k. mid \<le> k \<longrightarrow> k < i \<longrightarrow> p < a ! k)"

text \<open>\<open>b\<close> is \<open>a\<close> permuted within the indices \<open>lo \<dots> hi\<close>.\<close>

definition permuted :: "nat \<Rightarrow> nat \<Rightarrow> size_t list \<Rightarrow> size_t list \<Rightarrow> bool" where
  "permuted lo hi a b \<longleftrightarrow>
     mset b = mset a \<and> take lo b = take lo a \<and> drop (Suc hi) b = drop (Suc hi) a"

lemma permuted_length: "permuted lo hi a b \<Longrightarrow> length b = length a"
  unfolding permuted_def by (metis size_mset)

lemma permuted_refl [simp]: "permuted lo hi a a"
  by (simp add: permuted_def)

lemma permuted_trans: "permuted lo hi a b \<Longrightarrow> permuted lo hi b c \<Longrightarrow> permuted lo hi a c"
  by (simp add: permuted_def)

lemma permuted_swap:
  assumes "lo \<le> i" "i \<le> hi" "lo \<le> j" "j \<le> hi" "hi < length a"
  shows "permuted lo hi a (a[i := a ! j, j := a ! i])"
  using assms by (simp add: permuted_def mset_swap)

lemma permuted_before: "permuted lo hi a b \<Longrightarrow> i < lo \<Longrightarrow> b ! i = a ! i"
proof -
  assume "permuted lo hi a b" and i: "i < lo"
  then have "take lo b ! i = take lo a ! i" by (simp add: permuted_def)
  with i show ?thesis by simp
qed

lemma permuted_range:
  assumes "permuted lo hi a b" "lo \<le> hi" "hi < length a" "\<forall>k. lo \<le> k \<longrightarrow> k \<le> hi \<longrightarrow> P (a ! k)"
    and "lo \<le> k" "k \<le> hi"
  shows "P (b ! k)"
proof -
  let ?s = "\<lambda>xs. take (Suc hi - lo) (drop lo xs)"
  have split: "mset xs = mset (take lo xs) + mset (?s xs) + mset (drop (Suc hi) xs)"
    if "hi < length xs" for xs :: "size_t list"
  proof -
    have "xs = take lo xs @ ?s xs @ drop (Suc hi) xs"
      using assms(2) that by (metis append_take_drop_id drop_drop le_SucI le_add_diff_inverse2)
    then show ?thesis by (metis mset_append union_assoc)
  qed
  have len: "length b = length a" using assms(1) by (rule permuted_length)
  have "mset (take lo a) + mset (?s b) + mset (drop (Suc hi) a)
      = mset (take lo a) + mset (?s a) + mset (drop (Suc hi) a)"
    using split [of a] split [of b] assms(1,3) len unfolding permuted_def by metis
  then have "mset (?s b) = mset (?s a)" by simp
  then have "set (?s b) = set (?s a)" by (metis set_mset_mset)
  moreover have "b ! k \<in> set (?s b)"
    using assms(3,5,6) len by (auto simp: in_set_conv_nth intro!: exI [of _ "k - lo"])
  ultimately obtain m where "m < Suc hi - lo" "lo + m < length a" "b ! k = a ! (lo + m)"
    by (auto simp: in_set_conv_nth)
  with assms(4) show ?thesis by auto
qed

lemma partition_loop_ok:
  assumes "lo \<le> mid" "mid \<le> i" "i \<le> hi" "hi < length a" "split_at a lo mid i p" "a ! hi = p"
  shows "\<exists>a' m. partition_loop a (int i) (int mid) (int hi) p = Inr (a', int m) \<and>
      mid \<le> m \<and> m \<le> hi \<and> permuted lo hi a a' \<and> split_at a' lo m hi p \<and> a' ! hi = p"
  using assms
proof (induction "hi - i" arbitrary: i mid a)
  case 0
  then show ?case by (auto simp: partition_loop.simps)
next
  case (Suc d)
  then have i: "i < hi" by linarith
  show ?case
  proof (cases "a ! i \<le> p")
    case True
    let ?b = "a[i := a ! mid, mid := a ! i]"
    have step: "partition_loop a (int i) (int mid) (int hi) p
        = partition_loop ?b (int (Suc i)) (int (Suc mid)) (int hi) p"
      using i True Suc.prems swap_ok [of i a mid]
      by (subst partition_loop.simps) (simp add: res_simps add.commute)
    have perm: "permuted lo hi a ?b" using Suc.prems i by (intro permuted_swap) auto
    have "split_at ?b lo (Suc mid) (Suc i) p"
      using Suc.prems i True by (auto simp: split_at_def nth_list_update less_Suc_eq)
    with Suc.prems i have "\<exists>a' m. partition_loop ?b (int (Suc i)) (int (Suc mid)) (int hi) p
        = Inr (a', int m) \<and> Suc mid \<le> m \<and> m \<le> hi \<and> permuted lo hi ?b a' \<and>
        split_at a' lo m hi p \<and> a' ! hi = p"
      using Suc.hyps(2) by (intro Suc.hyps(1)) (auto simp: nth_list_update)
    then show ?thesis unfolding step using permuted_trans [OF perm] by (blast dest: Suc_leD)
  next
    case False
    have step: "partition_loop a (int i) (int mid) (int hi) p
        = partition_loop a (int (Suc i)) (int mid) (int hi) p"
      using i False Suc.prems by (subst partition_loop.simps) (simp add: res_simps add.commute)
    have "split_at a lo mid (Suc i) p"
      using Suc.prems False by (auto simp: split_at_def less_Suc_eq)
    with Suc.prems Suc.hyps(2) i show ?thesis unfolding step by (intro Suc.hyps(1)) auto
  qed
qed

lemma partition_ok:
  assumes "lo \<le> hi" "hi < length a" "lo + hi < 2 ^ 31"
  shows "\<exists>a' m. partition a (int lo) (int hi) = Inr (a', int m) \<and> lo \<le> m \<and> m \<le> hi \<and>
      permuted lo hi a a' \<and> (\<forall>k. lo \<le> k \<longrightarrow> k < m \<longrightarrow> a' ! k \<le> a' ! m) \<and>
      (\<forall>k. m < k \<longrightarrow> k \<le> hi \<longrightarrow> a' ! m \<le> a' ! k)"
proof -
  define v where "v = (hi + lo) div 2"
  define p where "p = a ! v"
  have v: "lo \<le> v" "v \<le> hi" using assms by (auto simp: v_def)
  let ?a1 = "a[v := a ! hi, hi := a ! v]"
  have perm1: "permuted lo hi a ?a1" using assms v by (intro permuted_swap) auto
  have "split_at ?a1 lo lo lo p" by (simp add: split_at_def)
  then obtain a2 m where a2: "partition_loop ?a1 (int lo) (int lo) (int hi) p = Inr (a2, int m)"
    "lo \<le> m" "m \<le> hi" "permuted lo hi ?a1 a2" "split_at a2 lo m hi p" "a2 ! hi = p"
    using partition_loop_ok [of lo lo lo hi ?a1 p] assms v by (auto simp: p_def)
  have len: "length a2 = length a" using permuted_length [OF a2(4)] by simp
  let ?a3 = "a2[m := a2 ! hi, hi := a2 ! m]"
  have "partition a (int lo) (int hi) = Inr (?a3, int m)"
  proof -
    have c: "cint (int hi + int lo) = Inr (int (hi + lo))"
      using assms(3) by (simp add: cint_def)
    have d: "cdiv (int (hi + lo)) 2 = int v" by (simp add: v_def zdiv_int)
    show ?thesis
      unfolding partition_def c bind_res_Inr Let_def d
      using swap_ok [of v a hi] swap_ok [of m a2 hi] a2 assms v len
      by (simp add: rd_int flip: p_def)
  qed
  moreover have "permuted lo hi a ?a3"
    using permuted_trans [OF permuted_trans [OF perm1 a2(4)]] permuted_swap [of lo m hi hi a2] a2 assms len
    by simp
  moreover have "\<forall>k. lo \<le> k \<longrightarrow> k < m \<longrightarrow> ?a3 ! k \<le> ?a3 ! m"
    and "\<forall>k. m < k \<longrightarrow> k \<le> hi \<longrightarrow> ?a3 ! m \<le> ?a3 ! k"
    using a2 assms len by (auto simp: nth_list_update split_at_def le_less)
  ultimately show ?thesis using a2(2,3) by blast
qed

lemma mset_take_eq:
  assumes "mset b = mset a" "drop n b = drop n a"
  shows "mset (take n b) = mset (take n a)" and "set (take n b) = set (take n a)"
proof -
  have "mset (take n b) + mset (drop n b) = mset (take n a) + mset (drop n a)"
    using assms(1) by (metis append_take_drop_id mset_append)
  then show "mset (take n b) = mset (take n a)" using assms(2) by simp
  then show "set (take n b) = set (take n a)" by (metis set_mset_mset)
qed

lemma nth_drop_eq:
  assumes "drop n b = drop n a" "n \<le> k" "k < length a" "k < length b"
  shows "b ! k = a ! k"
proof -
  have "drop n b ! (k - n) = drop n a ! (k - n)" using assms(1) by simp
  with assms(2-) show ?thesis by simp
qed

lemma quicksort_ok:
  assumes "lo \<le> n" "n \<le> length a" "n \<le> 2 ^ 30" "sorted (take lo a)"
    and "\<And>i j. i < lo \<Longrightarrow> lo \<le> j \<Longrightarrow> j < n \<Longrightarrow> a ! i \<le> a ! j"
  shows "\<exists>a'. quicksort a (int lo) (int n - 1) = Inr a' \<and> sorted (take n a') \<and>
      mset a' = mset a \<and> drop n a' = drop n a"
  using assms
proof (induction "n - lo" arbitrary: lo n a rule: less_induct)
  case less
  show ?case
  proof (cases "int n - 1 - int lo > 16")
    case False
    have "\<exists>a'. insertion_outer a (int (Suc lo)) (int n - 1) = Inr a' \<and> sorted (take n a') \<and>
        mset a' = mset a \<and> drop n a' = drop n a"
    proof (cases "lo < n")
      case True
      have "a ! p \<le> a ! q" if "p < q" "q \<le> lo" for p q
        using that less.prems True sorted_take_nth [of lo a] by (cases "q = lo") auto
      then have "sorted (take (Suc lo) a)" using True less.prems(2) by (intro sorted_take_SucI) auto
      with True less.prems show ?thesis by (intro insertion_outer_ok) auto
    next
      case False
      with less.prems show ?thesis by (simp add: insertion_outer.simps)
    qed
    with False show ?thesis
      by (subst quicksort.simps) (simp add: SORT_THRESHOLD_def insertion_sort_def add.commute)
  next
    case True
    define hi where "hi = n - 1"
    have hi: "int n - 1 = int hi" "lo < hi" "Suc hi = n" using True by (auto simp: hi_def)
    obtain a1 m where a1: "partition a (int lo) (int hi) = Inr (a1, int m)" "lo \<le> m" "m \<le> hi"
      "permuted lo hi a a1" "\<And>k. lo \<le> k \<Longrightarrow> k < m \<Longrightarrow> a1 ! k \<le> a1 ! m"
      "\<And>k. m < k \<Longrightarrow> k \<le> hi \<Longrightarrow> a1 ! m \<le> a1 ! k"
      using partition_ok [of lo hi a] hi less.prems by auto
    have len1: "length a1 = length a" using a1(4) by (rule permuted_length)
    have pre: "a1 ! i = a ! i" if "i < lo" for i
      by (rule permuted_before [OF a1(4) that])
    have low: "a1 ! i \<le> a1 ! j" if "i < lo" "lo \<le> j" "j < n" for i j
      unfolding pre [OF that(1)]
      by (rule permuted_range [OF a1(4)]) (use that hi less.prems in auto)
    have "\<exists>a2. quicksort a1 (int lo) (int m - 1) = Inr a2 \<and> sorted (take m a2) \<and>
        mset a2 = mset a1 \<and> drop m a2 = drop m a1"
      by (rule less.hyps) (use a1 len1 low hi less.prems in \<open>auto simp: permuted_def\<close>)
    then obtain a2 where a2: "quicksort a1 (int lo) (int m - 1) = Inr a2" "sorted (take m a2)"
        "mset a2 = mset a1" "drop m a2 = drop m a1" by blast
    have len2: "length a2 = length a" using a2(3) len1 by (metis size_mset)
    have same: "a2 ! k = a1 ! k" if "m \<le> k" "k < n" for k
      using that by (intro nth_drop_eq [OF a2(4)]) (use len1 len2 less.prems(2) in auto)
    have "a2 ! i \<le> a2 ! j" if "i < m" "m \<le> j" "j < n" for i j
    proof -
      have "a2 ! i \<in> set (take m a2)" using that len2 less.prems(2) by (auto simp: in_set_conv_nth)
      then have "a2 ! i \<in> set (take m a1)" using mset_take_eq(2) [OF a2(3,4)] by simp
      then obtain k where "k < m" "a2 ! i = a1 ! k" by (auto simp: in_set_conv_nth)
      moreover have "a1 ! k \<le> a1 ! m" if "k < m" for k
        using that low [of k m] a1(2,3,5) hi by (cases "k < lo") auto
      moreover have "a1 ! m \<le> a1 ! j" using that a1(6) [of j] hi by (cases "j = m") auto
      ultimately show ?thesis using that same [of j] by (metis order_trans)
    qed note mono = this
    have "\<exists>a3. quicksort a2 (int (Suc m)) (int n - 1) = Inr a3 \<and> sorted (take n a3) \<and>
        mset a3 = mset a2 \<and> drop n a3 = drop n a2"
    proof (rule less.hyps)
      have "a2 ! p \<le> a2 ! q" if "p < q" "q \<le> m" for p q
        using that mono [of p m] a2(2) a1(3) hi len2 less.prems(2)
        by (cases "q = m") (auto simp: sorted_take_nth)
      then show "sorted (take (Suc m) a2)"
        using a1(3) hi len2 less.prems(2) by (intro sorted_take_SucI) auto
      show "a2 ! i \<le> a2 ! j" if "i < Suc m" "Suc m \<le> j" "j < n" for i j
        using that mono [of i j] same [of m] same [of j] a1(6) [of j] hi by (cases "i = m") auto
    qed (use a1 len2 hi less.prems in auto)
    then obtain a3 where a3: "quicksort a2 (int m + 1) (int n - 1) = Inr a3" "sorted (take n a3)"
      "mset a3 = mset a2" "drop n a3 = drop n a2" by (auto simp: add.commute)
    have "quicksort a (int lo) (int n - 1) = Inr a3"
      unfolding hi(1) using True a1(1) a2(1) a3(1) unfolding hi(1)
      by (subst quicksort.simps) (simp add: SORT_THRESHOLD_def)
    moreover have "drop n a2 = drop n a"
      using a1(3,4) a2(4) hi by (metis drop_drop le_add_diff_inverse2 le_SucI permuted_def)
    ultimately show ?thesis using a3 a2(3) a1(4) by (auto simp: permuted_def)
  qed
qed

section \<open>Compaction and shuffle\<close>

text \<open>
  The loop of \<^verbatim>\<open>forkscan_util_compact\<close>; the result is the array and the final value of
  \<^verbatim>\<open>write\<close>.
\<close>

function compact_loop :: "size_t list \<Rightarrow> int \<Rightarrow> int \<Rightarrow> int \<Rightarrow> (size_t list \<times> int) res" where
  "compact_loop a search write len =
     (if search < len
      then bind_res (rd a search) (\<lambda>x.
           bind_res (rd a write) (\<lambda>y.
             if x = y then compact_loop a (search + 1) write len
             else if write + 1 < search
               then bind_res (wr a (write + 1) x)
                      (\<lambda>a'. compact_loop a' (search + 1) (write + 1) len)
               else compact_loop a (search + 1) (write + 1) len))
      else Inr (a, write))"
  by pat_completeness auto
termination
  by (relation "measure (\<lambda>(a, search, write, len). nat (len - search))") auto

declare compact_loop.simps [simp del]

definition forkscan_util_compact :: "size_t list \<Rightarrow> int \<Rightarrow> (size_t list \<times> int) res" where
  "forkscan_util_compact a len =
     (if len < 2 then Inr (a, 0)
      else bind_res (compact_loop a 1 0 len) (\<lambda>(a', write). Inr (a', len - (write + 1))))"

text \<open>
  \<^verbatim>\<open>forkscan_util_randomize\<close>: the loop variables are \<open>unsigned int\<close>, so the product wraps at
  32 bits before the remainder is taken; \<open>n\<close> is converted to \<open>unsigned\<close> too.
\<close>

definition randomize_target :: "32 word \<Rightarrow> 32 word \<Rightarrow> 32 word" where
  "randomize_target i n = (i * 2147483647) mod n"

definition forkscan_util_randomize :: "size_t list \<Rightarrow> int \<Rightarrow> size_t list res" where
  "forkscan_util_randomize addrs n =
     for_res (\<lambda>i addrs.
         let tmp = randomize_target (of_nat i) (of_int n)
         in if of_nat i \<noteq> tmp then swap addrs (int i) (uint tmp) else Inr addrs)
       [0..<unat (of_int n :: 32 word)] addrs"

text \<open>
  The loop keeps the already compacted prefix \<open>0 \<dots> write\<close> equal to the elements read so far
  without adjacent repetitions.
\<close>

lemma remdups_adj_snoc:
  "remdups_adj (xs @ [x]) =
     (if xs \<noteq> [] \<and> last xs = x then remdups_adj xs else remdups_adj xs @ [x])"
  by (cases xs rule: rev_cases) (auto simp: remdups_adj_append_two)

lemma compact_loop_ok:
  assumes "w < s" "s \<le> n" "n \<le> length a" "take (Suc w) a = remdups_adj xs" "xs \<noteq> []"
    and "length xs = s"
  shows "\<exists>a' w'. compact_loop a (int s) (int w) (int n) = Inr (a', int w') \<and> w' < n \<and>
      length a' = length a \<and> drop n a' = drop n a \<and>
      take (Suc w') a' = remdups_adj (xs @ take (n - s) (drop s a))"
  using assms
proof (induction "n - s" arbitrary: s w a xs)
  case 0
  then show ?case by (auto simp: compact_loop.simps)
next
  case (Suc d)
  then have s: "s < n" "s < length a" "w < length a" by linarith+
  have last: "last xs = a ! w"
  proof -
    have "last (take (Suc w) a) = a ! w" using s by (simp add: take_Suc_conv_app_nth)
    then show ?thesis using Suc.prems(4) by (simp add: last_remdups_adj)
  qed
  let ?xs = "xs @ [a ! s]"
  have rest: "xs @ take (n - s) (drop s a) = ?xs @ take (n - Suc s) (drop (Suc s) a)"
    using s Suc.hyps(2) by (metis Cons_nth_drop_Suc Suc_diff_Suc append_Cons append_Nil append_assoc take_Suc_Cons)
  show ?case
  proof (cases "a ! s = a ! w")
    case True
    then have "take (Suc w) a = remdups_adj ?xs"
      using Suc.prems last by (simp add: remdups_adj_snoc)
    with Suc s have "\<exists>a' w'. compact_loop a (int (Suc s)) (int w) (int n) = Inr (a', int w') \<and> w' < n \<and>
      length a' = length a \<and> drop n a' = drop n a \<and>
      take (Suc w') a' = remdups_adj (?xs @ take (n - Suc s) (drop (Suc s) a))"
      by (intro Suc.hyps(1)) auto
    with True s show ?thesis
      unfolding rest by (subst compact_loop.simps) (simp add: res_simps add.commute)
  next
    case False
    let ?b = "a[Suc w := a ! s]"
    have b: "length ?b = length a" "drop (Suc s) ?b = drop (Suc s) a" "drop n ?b = drop n a"
      using Suc.prems(1) s by simp_all
    have "take (Suc (Suc w)) ?b = remdups_adj ?xs"
      using False Suc.prems s last
      by (simp add: remdups_adj_snoc take_Suc_conv_app_nth [of "Suc w"] eq_commute [of "a ! w"])
    with Suc s have ih: "\<exists>a' w'. compact_loop ?b (int (Suc s)) (int (Suc w)) (int n) = Inr (a', int w') \<and> w' < n \<and>
      length a' = length ?b \<and> drop n a' = drop n ?b \<and>
      take (Suc w') a' = remdups_adj (?xs @ take (n - Suc s) (drop (Suc s) ?b))"
      by (intro Suc.hyps(1)) auto
    have "compact_loop a (int s) (int w) (int n) = compact_loop ?b (int (Suc s)) (int (Suc w)) (int n)"
    proof (cases "Suc w < s")
      case True
      with False s show ?thesis
        by (subst compact_loop.simps) (simp add: res_simps add.commute)
    next
      case eq: False
      with Suc.prems(1) have "?b = a" by (simp add: less_Suc_eq not_less_eq)
      with False s eq show ?thesis
        by (subst compact_loop.simps) (simp add: res_simps add.commute)
    qed
    with ih b show ?thesis unfolding rest by simp
  qed
qed

lemma util_sort_ok:
  assumes "n \<le> length a" "n \<le> 2 ^ 30"
  obtains a' where "forkscan_util_sort a (int n) = Inr a'" "sorted (take n a')"
    "mset a' = mset a" "drop n a' = drop n a" "length a' = length a"
  using quicksort_ok [of 0 n a] assms by (auto simp: forkscan_util_sort_def) (metis size_mset)

lemma util_compact_ok:
  assumes "n \<le> length a"
  obtains a' k where "forkscan_util_compact a (int n) = Inr (a', int (n - k))" "k \<le> n"
    "take k a' = remdups_adj (take n a)" "drop n a' = drop n a" "length a' = length a"
proof (cases "n < 2")
  case True
  then have "remdups_adj (take n a) = take n a"
    by (cases a; cases n) auto
  with True that [of a n] show ?thesis by (simp add: forkscan_util_compact_def)
next
  case False
  with assms have "take (Suc 0) a = remdups_adj [a ! 0]" by (cases a) auto
  with assms False obtain a' w where a': "compact_loop a 1 0 (int n) = Inr (a', int w)" "w < n"
    "length a' = length a" "drop n a' = drop n a"
    "take (Suc w) a' = remdups_adj ([a ! 0] @ take (n - 1) (drop 1 a))"
    using compact_loop_ok [of 0 1 n a "[a ! 0]"] by auto
  moreover have "[a ! 0] @ take (n - 1) (drop 1 a) = take n a"
    using assms False by (cases a; cases n) auto
  ultimately show ?thesis
    using False that [of a' "Suc w"] by (simp add: forkscan_util_compact_def of_nat_diff)
qed

lemma strict_remdups_adj: "sorted xs \<Longrightarrow> sorted_wrt (<) (remdups_adj (xs :: 'a::linorder list))"
  by (induction xs rule: remdups_adj.induct) (auto simp: less_le)

section \<open>Properties\<close>

text \<open>
  C27: \<^verbatim>\<open>forkscan_util_sort\<close> returns without touching memory outside the array and without
  overflowing an \<open>int\<close> for every length up to \<open>2 ^ 30\<close>; it leaves the first \<open>n\<close> elements in
  ascending order, as a permutation of what they were, and everything behind them alone.
\<close>

theorem forkscan_util_sort_sorts:
  assumes "n \<le> length a" and "n \<le> 2 ^ 30"
  shows "\<exists>a'. forkscan_util_sort a (int n) = Inr a' \<and> sorted (take n a') \<and>
    mset (take n a') = mset (take n a) \<and> drop n a' = drop n a"
  by (rule util_sort_ok [OF assms]) (blast intro: mset_take_eq(1))

theorem forkscan_util_sort_sorts_witness:
  "(\<exists>a'. forkscan_util_sort [24, 8, 16, 4, 12, 99] (int 5) = Inr a' \<and> sorted (take 5 a') \<and>
      mset (take 5 a') = mset (take 5 [24, 8, 16, 4, 12, 99]) \<and>
      drop 5 a' = drop 5 [24, 8, 16, 4, 12, 99]) \<and>
   forkscan_util_sort [24, 8, 16, 4, 12, 99] 5 = Inr [4, 8, 12, 16, 24, 99]"
proof
  show "\<exists>a'. forkscan_util_sort [24, 8, 16, 4, 12, 99] (int 5) = Inr a' \<and> sorted (take 5 a') \<and>
      mset (take 5 a') = mset (take 5 [24, 8, 16, 4, 12, 99]) \<and>
      drop 5 a' = drop 5 [24, 8, 16, 4, 12, 99]"
    by (rule forkscan_util_sort_sorts) simp_all
  show "forkscan_util_sort [24, 8, 16, 4, 12, 99] 5 = Inr [4, 8, 12, 16, 24, 99]"
    by code_simp
qed

text \<open>
  \<^verbatim>\<open>forkscan_util_compact\<close> applied to a sorted prefix leaves each of its values exactly
  once, in strictly ascending order, in front, and returns how many elements were saved.
\<close>

theorem forkscan_util_compact_strict:
  assumes "n \<le> length a" and "sorted (take n a)"
  shows "\<exists>a' k. forkscan_util_compact a (int n) = Inr (a', int n - int k) \<and> k \<le> n \<and>
    sorted_wrt (<) (take k a') \<and> set (take k a') = set (take n a) \<and> drop n a' = drop n a"
  by (rule util_compact_ok [OF assms(1)]) (use strict_remdups_adj [OF assms(2)] in auto)

theorem forkscan_util_compact_strict_witness:
  "sorted (take 4 [4, 8, 8, 16 :: size_t]) \<and>
   (\<exists>a' k. forkscan_util_compact [4, 8, 8, 16] (int 4) = Inr (a', 4 - int k) \<and> k \<le> 4 \<and>
    sorted_wrt (<) (take k a') \<and> set (take k a') = {4, 8, 16} \<and> drop 4 a' = [])"
  using forkscan_util_compact_strict [of 4 "[4, 8, 8, 16]"] by simp

text \<open>
  \<^verbatim>\<open>forkscan_util_randomize\<close> only permutes the first \<open>n\<close> elements, although its index
  computation wraps around at 32 bits.
\<close>

theorem forkscan_util_randomize_permutes:
  assumes "n \<le> length a" and "n < 2 ^ 31"
  shows "\<exists>a'. forkscan_util_randomize a (int n) = Inr a' \<and>
    mset (take n a') = mset (take n a) \<and> drop n a' = drop n a"
proof -
  let ?I = "\<lambda>b. mset b = mset a \<and> drop n b = drop n a"
  have n: "unat (of_int (int n) :: 32 word) = n" using assms(2) by (simp add: unat_of_nat)
  have "\<exists>a'. forkscan_util_randomize a (int n) = Inr a' \<and> ?I a'"
    unfolding forkscan_util_randomize_def n
  proof (rule for_res_set)
    fix i b assume i: "i \<in> set [0..<n]" and b: "?I b"
    define tmp where "tmp = randomize_target (of_nat i) (of_int (int n))"
    have len: "length b = length a" using b by (metis size_mset)
    have t: "unat tmp < n" using i n by (simp add: tmp_def randomize_target_def unat_mod)
    then have "swap b (int i) (int (unat tmp)) = Inr (b[i := b ! unat tmp, unat tmp := b ! i])"
      using i assms(1) len by (intro swap_ok) auto
    moreover have "?I (b[i := b ! unat tmp, unat tmp := b ! i])"
      using b i t assms(1) len by (simp add: mset_swap)
    ultimately show "\<exists>b'. (let tmp = randomize_target (of_nat i) (of_int (int n))
        in if of_nat i \<noteq> tmp then swap b (int i) (uint tmp) else Inr b) = Inr b' \<and> ?I b'"
      unfolding tmp_def [symmetric] Let_def uint_nat using b by (cases "of_nat i = tmp") simp_all
  qed simp
  then show ?thesis by (blast intro: mset_take_eq(1))
qed

theorem forkscan_util_randomize_permutes_witness:
  "(\<exists>a'. forkscan_util_randomize [4, 8, 12, 16, 20] (int 5) = Inr a' \<and>
      mset (take 5 a') = mset (take 5 [4, 8, 12, 16, 20]) \<and> drop 5 a' = drop 5 [4, 8, 12, 16, 20]) \<and>
   forkscan_util_randomize [4, 8, 12, 16, 20] 5 = Inr [16, 12, 8, 4, 20]"
proof
  show "\<exists>a'. forkscan_util_randomize [4, 8, 12, 16, 20] (int 5) = Inr a' \<and>
      mset (take 5 a') = mset (take 5 [4, 8, 12, 16, 20]) \<and> drop 5 a' = drop 5 [4, 8, 12, 16, 20]"
    by (rule forkscan_util_randomize_permutes) simp_all
  show "forkscan_util_randomize [4, 8, 12, 16, 20] 5 = Inr [16, 12, 8, 4, 20]" by code_simp
qed

end
