(* ===== verification/Addr_Buffer.thy ===== *)
theory Addr_Buffer
  imports Prelude
begin

text \<open>
  The struct \<open>addr_buffer_t\<close> of \<^verbatim>\<open>src/buffer.h\<close>, which carries a list of retired addresses
  through a collection, and \<^verbatim>\<open>generate_minimap\<close> of \<^verbatim>\<open>src/forkscan.c\<close>, which builds the
  coarse index that the scanner searches first. A pointer field is the address it holds; the
  two array fields hold the elements of the array objects, whose length is the number of
  slots allocated, and \<open>ab_addrs_at\<close> is the address of the address array itself.
\<close>

section \<open>The buffer struct\<close>

datatype sibling_mode_t = SIBLING_MODE_MARKING | SIBLING_MODE_DONE

record addr_buffer_t =
  ab_next :: size_t
  ab_addrs :: "size_t list"
  ab_addrs_at :: size_t
  ab_minimap :: "size_t list"
  ab_is_aggregate :: bool
  ab_n_addrs :: int
  ab_n_minimap :: int
  ab_capacity :: int
  ab_cutoff_reached :: int
  ab_sibling_mode :: sibling_mode_t
  ab_completed_children :: int
  ab_more_marking_tbd :: int
  ab_round :: int
  ab_root_counter :: int
  ab_roots_completed :: int
  ab_ref_count :: int
  ab_free_idx :: int

text \<open>Addresses on one page of the address array: \<^verbatim>\<open>PAGESIZE / sizeof(size_t)\<close>.\<close>

definition ADDRS_PER_PAGE :: int where
  "ADDRS_PER_PAGE = 512"

section \<open>The minimap\<close>

text \<open>
  The comparison of the \<open>size_t\<close> index with \<open>n_addrs\<close> converts the latter to \<open>size_t\<close>.
\<close>

function generate_minimap_loop :: "addr_buffer_t \<Rightarrow> int \<Rightarrow> addr_buffer_t res" where
  "generate_minimap_loop ab i =
     (if i < size_of_int (ab_n_addrs ab)
      then bind_res (rd (ab_addrs ab) i) (\<lambda>x.
           bind_res (wr (ab_minimap ab) (ab_n_minimap ab) x) (\<lambda>m.
           generate_minimap_loop
             (ab\<lparr>ab_minimap := m, ab_n_minimap := ab_n_minimap ab + 1\<rparr>) (i + ADDRS_PER_PAGE)))
      else Inr ab)"
  by pat_completeness auto
termination
  by (relation "measure (\<lambda>(ab, i). nat (size_of_int (ab_n_addrs ab) - i))")
    (auto simp: ADDRS_PER_PAGE_def)

declare generate_minimap_loop.simps [simp del]

definition generate_minimap :: "addr_buffer_t \<Rightarrow> addr_buffer_t res" where
  "generate_minimap ab = generate_minimap_loop (ab\<lparr>ab_n_minimap := 0\<rparr>) 0"

text \<open>Number of minimap entries for \<open>n\<close> addresses.\<close>

definition minimap_entries :: "nat \<Rightarrow> nat" where
  "minimap_entries n = (n + 511) div 512"

lemma generate_minimap_loop_ok:
  assumes "ab_n_addrs ab = int n" "n < 2 ^ 62" "n \<le> length (ab_addrs ab)"
    "minimap_entries n \<le> length (ab_minimap ab)" "ab_n_minimap ab = int m"
    "m \<le> minimap_entries n" "\<forall>k<m. ab_minimap ab ! k = ab_addrs ab ! (512 * k)"
  shows "\<exists>mm. generate_minimap_loop ab (int (512 * m))
      = Inr (ab\<lparr>ab_minimap := mm, ab_n_minimap := int (minimap_entries n)\<rparr>) \<and>
      length mm = length (ab_minimap ab) \<and>
      (\<forall>k<minimap_entries n. mm ! k = ab_addrs ab ! (512 * k))"
  using assms
proof (induction "minimap_entries n - m" arbitrary: m ab)
  case 0
  then have "m = minimap_entries n" and "\<not> 512 * m < n" by (auto simp: minimap_entries_def)
  with 0 show ?case
    by (subst generate_minimap_loop.simps)
      (auto intro!: exI [of _ "ab_minimap ab"])
next
  case (Suc d)
  then have m: "m < minimap_entries n" "512 * m < n" by (auto simp: minimap_entries_def)
  let ?x = "ab_addrs ab ! (512 * m)"
  let ?b = "ab\<lparr>ab_minimap := (ab_minimap ab)[m := ?x], ab_n_minimap := int (Suc m)\<rparr>"
  have "\<exists>mm. generate_minimap_loop ?b (int (512 * Suc m))
      = Inr (?b\<lparr>ab_minimap := mm, ab_n_minimap := int (minimap_entries n)\<rparr>) \<and>
      length mm = length (ab_minimap ?b) \<and>
      (\<forall>k<minimap_entries n. mm ! k = ab_addrs ?b ! (512 * k))"
    by (rule Suc.hyps(1)) (use Suc m in \<open>auto simp: nth_list_update less_Suc_eq\<close>)
  moreover have "generate_minimap_loop ab (int (512 * m)) = generate_minimap_loop ?b (int (512 * Suc m))"
  proof -
    have "rd (ab_addrs ab) (int (512 * m)) = Inr ?x" using Suc.prems(3) m by (intro rd_int) simp
    moreover have "wr (ab_minimap ab) (int m) ?x = Inr ((ab_minimap ab)[m := ?x])"
      using Suc.prems(4) m by (intro wr_int) simp
    moreover have "int (512 * m) < size_of_int (int n)"
      using m Suc.prems(2) by simp
    ultimately show ?thesis
      using Suc.prems(1,5)
      by (subst generate_minimap_loop.simps) (simp add: ADDRS_PER_PAGE_def algebra_simps)
  qed
  ultimately show ?case by simp
qed

lemma generate_minimap_ok:
  assumes "ab_n_addrs ab = int n" "n < 2 ^ 62" "n \<le> length (ab_addrs ab)"
    "minimap_entries n \<le> length (ab_minimap ab)"
  obtains mm where "generate_minimap ab
      = Inr (ab\<lparr>ab_minimap := mm, ab_n_minimap := int (minimap_entries n)\<rparr>)"
    "length mm = length (ab_minimap ab)"
    "\<forall>k<minimap_entries n. mm ! k = ab_addrs ab ! (512 * k)"
  using generate_minimap_loop_ok [of "ab\<lparr>ab_n_minimap := 0\<rparr>" n 0] assms
  by (auto simp: generate_minimap_def)

section \<open>Keys and marks\<close>

text \<open>
  While a buffer is scanned, bit 0 of an entry is its mark; the address proper, the entry's
  \<open>key\<close>, is what \<^verbatim>\<open>PTR_MASK\<close> leaves. A buffer is \<open>scannable\<close> when its keys ascend strictly,
  no other tag bit is set, and the minimap holds the key at the start of every page. The
  bound on the number of addresses keeps the index arithmetic within C's \<open>int\<close>.
\<close>

definition key :: "addr_buffer_t \<Rightarrow> nat \<Rightarrow> size_t" where
  "key ab i = PTR_MASK (ab_addrs ab ! i)"

definition n_of :: "addr_buffer_t \<Rightarrow> nat" where
  "n_of ab = nat (ab_n_addrs ab)"

definition marks :: "addr_buffer_t \<Rightarrow> nat set" where
  "marks ab = {i. i < n_of ab \<and> ab_addrs ab ! i AND 1 \<noteq> 0}"

definition scannable :: "addr_buffer_t \<Rightarrow> bool" where
  "scannable ab \<longleftrightarrow>
     0 < ab_n_addrs ab \<and> n_of ab \<le> length (ab_addrs ab) \<and> n_of ab \<le> 2 ^ 30 \<and>
     (\<forall>i j. i < j \<longrightarrow> j < n_of ab \<longrightarrow> key ab i < key ab j) \<and>
     (\<forall>i<n_of ab. ab_addrs ab ! i = key ab i \<or> ab_addrs ab ! i = key ab i OR 1) \<and>
     ab_n_minimap ab = int (minimap_entries (n_of ab)) \<and>
     minimap_entries (n_of ab) \<le> length (ab_minimap ab) \<and>
     (\<forall>k<minimap_entries (n_of ab). ab_minimap ab ! k = key ab (512 * k))"

lemma unmarked_entry:
  assumes "scannable ab" "i < n_of ab"
  shows "i \<notin> marks ab \<longleftrightarrow> ab_addrs ab ! i = key ab i"
proof -
  have "4 dvd unat (key ab i)" by (simp add: key_def)
  then have "even (unat (key ab i))" by presburger
  then have "key ab i AND 1 = 0" by (simp add: and_1_eq_0_iff)
  moreover have "ab_addrs ab ! i = key ab i \<or> ab_addrs ab ! i = key ab i OR 1"
    using assms by (simp add: scannable_def)
  ultimately show ?thesis using assms(2) by (auto simp: marks_def)
qed

lemma key_aligned [simp]: "aligned (key ab i)"
  by (simp add: key_def)

lemma key_inj: "scannable ab \<Longrightarrow> i < n_of ab \<Longrightarrow> j < n_of ab \<Longrightarrow> key ab i = key ab j \<Longrightarrow> i = j"
  unfolding scannable_def by (metis less_irrefl linorder_neqE_nat)

lemma key_less_iff: "scannable ab \<Longrightarrow> i < n_of ab \<Longrightarrow> j < n_of ab \<Longrightarrow> key ab i < key ab j \<longleftrightarrow> i < j"
  unfolding scannable_def by (metis less_asym linorder_neqE_nat less_irrefl)

lemma entries_ascend:
  "scannable ab \<Longrightarrow> i < j \<Longrightarrow> j < n_of ab \<Longrightarrow> ab_addrs ab ! i < ab_addrs ab ! j"
  unfolding scannable_def key_def by (blast intro: PTR_MASK_less_imp)

lemma scannable_n: "scannable ab \<Longrightarrow> ab_n_addrs ab = int (n_of ab) \<and> 0 < n_of ab"
  by (simp add: scannable_def n_of_def)

text \<open>Setting the mark of one entry, \<^verbatim>\<open>ab->addrs[loc] = target | 0x1\<close>.\<close>

definition set_mark :: "addr_buffer_t \<Rightarrow> nat \<Rightarrow> addr_buffer_t" where
  "set_mark ab i = ab\<lparr>ab_addrs := (ab_addrs ab)[i := ab_addrs ab ! i OR 1]\<rparr>"

text \<open>\<open>b\<close> is \<open>a\<close> with some marks added and nothing else changed.\<close>

definition marked_more :: "addr_buffer_t \<Rightarrow> addr_buffer_t \<Rightarrow> bool" where
  "marked_more a b \<longleftrightarrow> b = a\<lparr>ab_addrs := ab_addrs b\<rparr> \<and> length (ab_addrs b) = length (ab_addrs a) \<and>
     (\<forall>i. i < n_of a \<longrightarrow> ab_addrs b ! i = ab_addrs a ! i \<or> ab_addrs b ! i = ab_addrs a ! i OR 1) \<and>
     (\<forall>i. n_of a \<le> i \<longrightarrow> i < length (ab_addrs a) \<longrightarrow> ab_addrs b ! i = ab_addrs a ! i)"

lemma marked_more_refl [simp]: "marked_more a a"
  by (simp add: marked_more_def)

lemma marked_more_fields:
  assumes "marked_more a b"
  shows "ab_n_addrs b = ab_n_addrs a" "n_of b = n_of a" "ab_minimap b = ab_minimap a"
    "ab_n_minimap b = ab_n_minimap a" "ab_addrs_at b = ab_addrs_at a"
    "length (ab_addrs b) = length (ab_addrs a)" "ab_capacity b = ab_capacity a"
proof -
  from assms obtain xs where "b = a\<lparr>ab_addrs := xs\<rparr>" and len: "length (ab_addrs b) = length (ab_addrs a)"
    unfolding marked_more_def by blast
  then show "ab_n_addrs b = ab_n_addrs a" "n_of b = n_of a" "ab_minimap b = ab_minimap a"
    "ab_n_minimap b = ab_n_minimap a" "ab_addrs_at b = ab_addrs_at a"
    "length (ab_addrs b) = length (ab_addrs a)" "ab_capacity b = ab_capacity a"
    by (simp_all add: n_of_def)
qed

lemma marked_more_entry:
  "marked_more a b \<Longrightarrow> i < n_of a \<Longrightarrow> ab_addrs b ! i = ab_addrs a ! i \<or> ab_addrs b ! i = ab_addrs a ! i OR 1"
  by (simp add: marked_more_def)

lemma marked_more_key: "marked_more a b \<Longrightarrow> i < n_of a \<Longrightarrow> key b i = key a i"
  unfolding key_def by (metis PTR_MASK_or_1 marked_more_entry)

lemma or_1_idem [simp]: "((v::size_t) OR 1) OR 1 = v OR 1"
  by (simp add: or.assoc)

lemma marked_more_trans:
  assumes ab: "marked_more a b" and bc: "marked_more b c"
  shows "marked_more a c"
proof -
  from ab bc obtain xs ys where "b = a\<lparr>ab_addrs := xs\<rparr>" "c = b\<lparr>ab_addrs := ys\<rparr>"
    unfolding marked_more_def by blast
  then have "c = a\<lparr>ab_addrs := ab_addrs c\<rparr>" by simp
  moreover have "ab_addrs c ! i = ab_addrs a ! i \<or> ab_addrs c ! i = ab_addrs a ! i OR 1" if "i < n_of a" for i
    using marked_more_entry [OF ab that] marked_more_entry [OF bc, of i] that marked_more_fields(2) [OF ab]
    by auto
  ultimately show ?thesis
    using ab bc marked_more_fields(2) [OF ab] by (simp add: marked_more_def)
qed

lemma marked_more_marks: "marked_more a b \<Longrightarrow> marks a \<subseteq> marks b"
  unfolding marks_def using marked_more_entry marked_more_fields(2) by fastforce

lemma marked_more_scannable:
  assumes "marked_more a b" "scannable a"
  shows "scannable b"
proof -
  note F = marked_more_fields [OF assms(1)]
  have K: "key b i = key a i" if "i < n_of a" for i using marked_more_key [OF assms(1) that] .
  have E: "ab_addrs b ! i = key a i \<or> ab_addrs b ! i = key a i OR 1" if "i < n_of a" for i
    using marked_more_entry [OF assms(1) that] assms(2) that unfolding scannable_def by fastforce
  have M: "512 * k < n_of a" if "k < minimap_entries (n_of a)" for k
    using that by (simp add: minimap_entries_def)
  show ?thesis using assms(2) F K E M unfolding scannable_def by auto
qed

lemma marked_more_set_mark:
  "i < n_of ab \<Longrightarrow> n_of ab \<le> length (ab_addrs ab) \<Longrightarrow> marked_more ab (set_mark ab i)"
  by (auto simp: marked_more_def set_mark_def nth_list_update n_of_def)

lemma marks_set_mark:
  "i < n_of ab \<Longrightarrow> n_of ab \<le> length (ab_addrs ab) \<Longrightarrow> marks (set_mark ab i) = insert i (marks ab)"
  by (auto simp: marks_def set_mark_def nth_list_update n_of_def)

end
