(* ===== verification/Scan.thy ===== *)
theory Scan
  imports Addr_Buffer Util_Sort
begin

text \<open>
  The search and mark routines of \<^verbatim>\<open>src/child.c\<close>: the two-level search for an address in a
  buffer, the hinted search used for batches, the marking of what a block of memory refers
  to, and the processing of a batch of candidate roots. The memory of the snapshot is the
  parameter \<open>mem\<close> (the word stored at an address); \<open>usable\<close> stands for the allocator's
  \<^verbatim>\<open>malloc_usable_size\<close>, which is not part of the sources.
\<close>

section \<open>Searching\<close>

definition is_ref :: "addr_buffer_t \<Rightarrow> int \<Rightarrow> size_t \<Rightarrow> bool res" where
  "is_ref ab loc cmp = bind_res (rd (ab_addrs ab) loc) (\<lambda>x. Inr (PTR_MASK x = cmp))"

definition BINARY_THRESHOLD :: int where
  "BINARY_THRESHOLD = 32"

text \<open>The \<^verbatim>\<open>for\<close> loop of \<^verbatim>\<open>iterative_search\<close>; \<open>mn\<close> and \<open>mx\<close> are its \<^verbatim>\<open>min\<close> and \<^verbatim>\<open>max\<close>.\<close>

function iterative_loop :: "size_t \<Rightarrow> size_t list \<Rightarrow> int \<Rightarrow> int \<Rightarrow> int res" where
  "iterative_loop val a mn mx =
     (if mn < mx
      then bind_res (rd a mn) (\<lambda>cmp.
             if cmp = val then Inr mn
             else if cmp > val then Inr (mn - 1)
             else iterative_loop val a (mn + 1) mx)
      else Inr (mn - 1))"
  by pat_completeness auto
termination
  by (relation "measure (\<lambda>(val, a, mn, mx). nat (mx - mn))") auto

declare iterative_loop.simps [simp del]

definition iterative_search :: "size_t \<Rightarrow> size_t list \<Rightarrow> int \<Rightarrow> int \<Rightarrow> int res" where
  "iterative_search val a mn mx =
     bind_res (rd a mn) (\<lambda>x. if x > val \<or> mn = mx then Inr mn else iterative_loop val a mn mx)"

function binary_search :: "size_t \<Rightarrow> size_t list \<Rightarrow> int \<Rightarrow> int \<Rightarrow> int res" where
  "binary_search val a mn mx =
     (if mx - mn \<ge> BINARY_THRESHOLD
      then bind_res (cint (mx + mn)) (\<lambda>s.
           let mid = cdiv s 2 in
           bind_res (rd a mid) (\<lambda>cmp.
             if cmp = val then Inr mid
             else if cmp > val then binary_search val a mn mid
             else binary_search val a mid mx))
      else iterative_search val a mn mx)"
  by pat_completeness auto
termination
proof (relation "measure (\<lambda>(val, a, mn, mx). nat (mx - mn))", goal_cases)
  case (2 val a mn mx s mid cmp)
  then show ?case using cdiv_2_bounds [of s] by (auto simp: BINARY_THRESHOLD_def cint_eq_Inr)
next
  case (3 val a mn mx s mid cmp)
  then show ?case using cdiv_2_bounds [of s] by (auto simp: BINARY_THRESHOLD_def cint_eq_Inr)
qed simp

declare binary_search.simps [simp del]

text \<open>
  \<open>addr_find\<close> first finds the page in the minimap, then the address within that page.
\<close>

definition addr_find :: "size_t \<Rightarrow> addr_buffer_t \<Rightarrow> int res" where
  "addr_find val ab =
     bind_res (binary_search val (ab_minimap ab) 0 (ab_n_minimap ab)) (\<lambda>v.
     bind_res (cint (v * ADDRS_PER_PAGE)) (\<lambda>lo.
     bind_res (if v = ab_n_minimap ab - 1 then Inr (ab_n_addrs ab)
               else cint ((v + 1) * ADDRS_PER_PAGE)) (\<lambda>hi.
     binary_search val (ab_addrs ab) lo hi)))"

text \<open>
  The loop of \<open>addr_find_hint\<close>: \<open>Some\<close> is an early return with that hint; \<open>None\<close> says that the loop ran to its end.
\<close>

fun addr_find_hint_loop :: "nat \<Rightarrow> size_t \<Rightarrow> addr_buffer_t \<Rightarrow> int \<Rightarrow> int option res" where
  "addr_find_hint_loop 0 val ab hint = Inr None"
| "addr_find_hint_loop (Suc remaining) val ab hint =
     (let hint' = MIN_OF (ab_n_addrs ab) (hint + 1) in
      bind_res (rd (ab_addrs ab) hint') (\<lambda>cmp.
        if val \<le> cmp then Inr (Some hint') else addr_find_hint_loop remaining val ab hint'))"

text \<open>
  How many further entries \<open>addr_find_hint\<close> tries: those left on the cache line that holds
  \<^verbatim>\<open>ab->addrs[hint]\<close>, and \<^verbatim>\<open>sizeof(size_t)\<close> more.
\<close>

definition remaining_line :: "addr_buffer_t \<Rightarrow> int \<Rightarrow> int" where
  "remaining_line ab hint =
     (let here = ab_addrs_at ab + 8 * word_of_int hint;
          cmp_addr = (here AND NOT (CACHELINESIZE - 1)) + (CACHELINESIZE - 8)
      in sint (ucast ((cmp_addr - here) div 8) :: 32 word) + 8)"

definition addr_find_hint :: "size_t \<Rightarrow> addr_buffer_t \<Rightarrow> int \<Rightarrow> int res" where
  "addr_find_hint val ab hint =
     bind_res (rd (ab_addrs ab) hint) (\<lambda>cmp.
       if val \<le> cmp then Inr hint
       else bind_res (addr_find_hint_loop (nat (remaining_line ab hint)) val ab hint) (\<lambda>r.
              case r of Some hint' \<Rightarrow> Inr hint' | None \<Rightarrow> addr_find val ab))"

section \<open>Correctness of the search\<close>

text \<open>
  The contract of a search for \<open>val\<close> in \<open>a\<close> between \<open>lo\<close> and \<open>hi\<close>: the result \<open>r\<close> is the last
  entry that does not exceed \<open>val\<close>, or the first entry when they all exceed it.
\<close>

definition found_in :: "size_t \<Rightarrow> size_t list \<Rightarrow> nat \<Rightarrow> nat \<Rightarrow> nat \<Rightarrow> bool" where
  "found_in val a lo hi r \<longleftrightarrow> lo \<le> r \<and> r < hi \<and> (val < a ! lo \<longrightarrow> r = lo) \<and>
     (a ! lo \<le> val \<longrightarrow> a ! r \<le> val \<and> (\<forall>j. r < j \<longrightarrow> j < hi \<longrightarrow> val < a ! j))"

definition ascending :: "size_t list \<Rightarrow> nat \<Rightarrow> nat \<Rightarrow> bool" where
  "ascending a lo hi \<longleftrightarrow> (\<forall>i j. lo \<le> i \<longrightarrow> i < j \<longrightarrow> j < hi \<longrightarrow> a ! i < a ! j)"

lemma ascendingD: "ascending a lo hi \<Longrightarrow> lo \<le> i \<Longrightarrow> i < j \<Longrightarrow> j < hi \<Longrightarrow> a ! i < a ! j"
  by (simp add: ascending_def)

lemma ascending_sub: "ascending a lo hi \<Longrightarrow> lo \<le> l \<Longrightarrow> h \<le> hi \<Longrightarrow> ascending a l h"
  by (auto simp: ascending_def)

lemma iterative_loop_ok:
  assumes "lo < m" "m \<le> hi" "hi \<le> length a" "ascending a lo hi" "a ! (m - 1) < val"
  shows "\<exists>r. iterative_loop val a (int m) (int hi) = Inr (int r) \<and> m - 1 \<le> r \<and> r < hi \<and>
      a ! r \<le> val \<and> (\<forall>j. r < j \<longrightarrow> j < hi \<longrightarrow> val < a ! j)"
  using assms
proof (induction "hi - m" arbitrary: m)
  case 0
  then show ?case
    by (intro exI [of _ "m - 1"]) (auto simp: iterative_loop.simps of_nat_diff)
next
  case (Suc d)
  then have m: "m < hi" by linarith
  have unf: "iterative_loop val a (int m) (int hi) =
      (if a ! m = val then Inr (int m) else if a ! m > val then Inr (int (m - 1))
       else iterative_loop val a (int (Suc m)) (int hi))"
    using m Suc.prems by (subst iterative_loop.simps) (simp add: res_simps add.commute of_nat_diff)
  have later: "val < a ! j" if "val \<le> a ! m" "m < j" "j < hi" for j
    using ascendingD [OF Suc.prems(4), of m j] that Suc.prems(1) by auto
  consider "a ! m = val" | "a ! m > val" | "a ! m < val" by fastforce
  then show ?case
  proof cases
    case 1
    with later m show ?thesis unfolding unf by (intro exI [of _ m]) auto
  next
    case 2
    have "val < a ! j" if "m - 1 < j" "j < hi" for j
      using that later [of j] 2 by (cases "j = m") auto
    moreover have "a ! m \<noteq> val" using 2 by auto
    ultimately show ?thesis
      unfolding unf using 2 m Suc.prems by (intro exI [of _ "m - 1"]) auto
  next
    case 3
    have "\<exists>r. iterative_loop val a (int (Suc m)) (int hi) = Inr (int r) \<and> Suc m - 1 \<le> r \<and> r < hi \<and>
      a ! r \<le> val \<and> (\<forall>j. r < j \<longrightarrow> j < hi \<longrightarrow> val < a ! j)"
      by (rule Suc.hyps(1)) (use Suc 3 m in auto)
    with 3 show ?thesis unfolding unf by auto
  qed
qed

lemma iterative_search_ok:
  assumes "lo < hi" "hi \<le> length a" "ascending a lo hi"
  shows "\<exists>r. iterative_search val a (int lo) (int hi) = Inr (int r) \<and> found_in val a lo hi r"
proof -
  have rd: "rd a (int lo) = Inr (a ! lo)" using assms by (simp add: rd_int)
  have later: "val < a ! j" if "val \<le> a ! lo" "lo < j" "j < hi" for j
    using ascendingD [OF assms(3), of lo j] that by auto
  have unf: "iterative_search val a (int lo) (int hi) =
      (if a ! lo > val then Inr (int lo) else if a ! lo = val then Inr (int lo)
       else iterative_loop val a (int (Suc lo)) (int hi))"
    using assms(1) rd by (simp add: iterative_search_def iterative_loop.simps [of val a "int lo"] add.commute)
  consider "a ! lo > val" | "a ! lo = val" | "a ! lo < val" by fastforce
  then show ?thesis
  proof cases
    case 3
    with assms obtain r where "iterative_loop val a (int (Suc lo)) (int hi) = Inr (int r)"
      "lo \<le> r" "r < hi" "a ! r \<le> val" "\<forall>j. r < j \<longrightarrow> j < hi \<longrightarrow> val < a ! j"
      using iterative_loop_ok [of lo "Suc lo" hi a val] by auto
    with 3 show ?thesis unfolding unf found_in_def by (intro exI [of _ r]) auto
  qed (use later assms(1) in \<open>auto simp: unf found_in_def\<close>)
qed

lemma binary_search_ok:
  assumes "lo < hi" "hi \<le> length a" "hi \<le> 2 ^ 30" "ascending a lo hi"
  shows "\<exists>r. binary_search val a (int lo) (int hi) = Inr (int r) \<and> found_in val a lo hi r"
  using assms
proof (induction "hi - lo" arbitrary: lo hi rule: less_induct)
  case less
  show ?case
  proof (cases "32 \<le> hi - lo")
    case False
    then have "binary_search val a (int lo) (int hi) = iterative_search val a (int lo) (int hi)"
      using less.prems by (subst binary_search.simps) (auto simp: BINARY_THRESHOLD_def)
    with less.prems iterative_search_ok show ?thesis by simp
  next
    case True
    define mid where "mid = (hi + lo) div 2"
    have mid: "lo < mid" "mid < hi" using True by (auto simp: mid_def)
    have T: "32 \<le> int hi - int lo" using True by linarith
    have c: "cint (int hi + int lo) = Inr (int (hi + lo))" using less.prems by (simp add: cint_def)
    have d: "cdiv (int (hi + lo)) 2 = int mid" by (simp add: mid_def zdiv_int)
    have unf: "binary_search val a (int lo) (int hi) =
        (if a ! mid = val then Inr (int mid)
         else if a ! mid > val then binary_search val a (int lo) (int mid)
         else binary_search val a (int mid) (int hi))"
      using less.prems mid T unfolding binary_search.simps [of val a "int lo" "int hi"] c bind_res_Inr d Let_def
      by (simp add: BINARY_THRESHOLD_def rd_int)
    note asc = ascendingD [OF less.prems(4)]
    consider "a ! mid = val" | "a ! mid > val" | "a ! mid < val" by fastforce
    then show ?thesis
    proof cases
      case 1
      then show ?thesis unfolding unf found_in_def using mid asc [of lo mid] asc [of mid]
        by (intro exI [of _ mid]) auto
    next
      case 2
      have "\<exists>r. binary_search val a (int lo) (int mid) = Inr (int r) \<and> found_in val a lo mid r"
        by (rule less.hyps) (use mid less.prems ascending_sub in auto)
      moreover have "val < a ! j" if "mid \<le> j" "j < hi" for j
        using that 2 asc [of mid j] mid by (cases "j = mid") auto
      moreover have "found_in val a lo hi r" if "found_in val a lo mid r" for r
        using that mid calculation(2) unfolding found_in_def
        by (meson leI less_trans)
      moreover have "a ! mid \<noteq> val" using 2 by auto
      ultimately show ?thesis using 2 unfolding unf by auto
    next
      case 3
      have "\<exists>r. binary_search val a (int mid) (int hi) = Inr (int r) \<and> found_in val a mid hi r"
        by (rule less.hyps) (use mid less.prems ascending_sub in auto)
      with 3 mid asc [of lo mid] show ?thesis unfolding unf found_in_def by auto
    qed
  qed
qed

text \<open>
  What a search over the masked keys of a scannable buffer guarantees: every entry before the
  result lies below \<open>val\<close>, and an unmarked entry with that address is always found.
\<close>

definition locates :: "size_t \<Rightarrow> addr_buffer_t \<Rightarrow> nat \<Rightarrow> bool" where
  "locates val ab r \<longleftrightarrow> r < n_of ab \<and> (\<forall>j<r. key ab j < val) \<and>
     (\<forall>i<n_of ab. key ab i = val \<longrightarrow> i = r \<or> i \<in> marks ab)"

lemma ascending_addrs:
  "scannable ab \<Longrightarrow> hi \<le> n_of ab \<Longrightarrow> ascending (ab_addrs ab) lo hi"
  by (auto simp: ascending_def intro: entries_ascend)

lemma ascending_minimap:
  assumes "scannable ab"
  shows "ascending (ab_minimap ab) 0 (minimap_entries (n_of ab))"
proof -
  have "ab_minimap ab ! i < ab_minimap ab ! j" if "i < j" "j < minimap_entries (n_of ab)" for i j
  proof -
    from that have "512 * j < n_of ab" by (simp add: minimap_entries_def)
    with that assms show ?thesis unfolding scannable_def by auto
  qed
  then show ?thesis by (simp add: ascending_def)
qed

lemma addr_find_unfold:
  assumes "scannable ab"
  obtains v hi r where "addr_find val ab = Inr (int r)" "512 * v < n_of ab"
    "hi = (if Suc v = minimap_entries (n_of ab) then n_of ab else 512 * Suc v)"
    "512 * v < hi" "hi \<le> n_of ab"
    "found_in val (ab_minimap ab) 0 (minimap_entries (n_of ab)) v"
    "found_in val (ab_addrs ab) (512 * v) hi r"
proof -
  let ?n = "n_of ab" and ?m = "minimap_entries (n_of ab)"
  have n: "0 < ?n" "?n \<le> 2 ^ 30" "?n \<le> length (ab_addrs ab)" "?m \<le> length (ab_minimap ab)"
    "ab_n_minimap ab = int ?m" "ab_n_addrs ab = int ?n"
    using assms scannable_n [OF assms] by (simp_all add: scannable_def)
  have m: "0 < ?m" "?m \<le> 2 ^ 30" using n(1,2) by (simp_all add: minimap_entries_def)
  obtain v where v: "binary_search val (ab_minimap ab) 0 (int ?m) = Inr (int v)"
    "found_in val (ab_minimap ab) 0 ?m v"
    using binary_search_ok [of 0 ?m "ab_minimap ab" val] m n(4) ascending_minimap [OF assms] by auto
  then have vm: "v < ?m" by (simp add: found_in_def)
  define hi where "hi = (if Suc v = ?m then ?n else 512 * Suc v)"
  have hi: "512 * v < ?n" "512 * v < hi" "hi \<le> ?n"
    using vm by (auto simp: hi_def minimap_entries_def)
  obtain r where r: "binary_search val (ab_addrs ab) (int (512 * v)) (int hi) = Inr (int r)"
    "found_in val (ab_addrs ab) (512 * v) hi r"
    using binary_search_ok [of "512 * v" hi "ab_addrs ab" val] hi n ascending_addrs [OF assms hi(3)] by auto
  have c1: "cint (int v * 512) = Inr (int (512 * v))" using hi(1) n(2) by (simp add: cint_def)
  have c2: "(if int v = int ?m - 1 then Inr (int ?n) else cint ((int v + 1) * 512)) = Inr (int hi)"
    using hi n(2) vm by (auto simp: cint_def hi_def of_nat_diff)
  have "addr_find val ab = Inr (int r)"
    unfolding addr_find_def n(5,6) v(1) bind_res_Inr ADDRS_PER_PAGE_def c1 c2 r(1) ..
  with hi v(2) r(2) show ?thesis by (intro that) (auto simp: hi_def)
qed

text \<open>
  The documented result: the index closest to \<open>val\<close> without exceeding it (in its key; the
  entries behind it exceed \<open>val\<close> even with their marks), or 0 when every key exceeds \<open>val\<close>.
\<close>

lemma addr_find_ok:
  assumes sc: "scannable ab"
  obtains r where "addr_find val ab = Inr (int r)" "r < n_of ab"
    "\<And>j. r < j \<Longrightarrow> j < n_of ab \<Longrightarrow> val < ab_addrs ab ! j"
    "val < key ab 0 \<Longrightarrow> r = 0" "key ab 0 \<le> val \<Longrightarrow> key ab r \<le> val"
proof -
  let ?m = "minimap_entries (n_of ab)"
  obtain v hi r where f: "addr_find val ab = Inr (int r)" "512 * v < n_of ab"
    "hi = (if Suc v = ?m then n_of ab else 512 * Suc v)"
    "512 * v < hi" "hi \<le> n_of ab" and v: "found_in val (ab_minimap ab) 0 ?m v"
    and r: "found_in val (ab_addrs ab) (512 * v) hi r"
    by (rule addr_find_unfold [OF sc])
  have mm: "ab_minimap ab ! k = key ab (512 * k)" if "k < ?m" for k
    using sc that by (simp add: scannable_def)
  have vm: "v < ?m" "r < n_of ab" using v r f(5) by (auto simp: found_in_def)
  have key_le: "key ab j \<le> ab_addrs ab ! j" for j by (simp add: key_def PTR_MASK_le)
  have above: "val < ab_addrs ab ! j" if "r < j" "j < n_of ab" for j
  proof (cases "val < ab_addrs ab ! (512 * v)")
    case True
    then have "r = 512 * v" using r by (simp add: found_in_def)
    with True entries_ascend [OF sc that] show ?thesis by auto
  next
    case ge: False
    show ?thesis
    proof (cases "j < hi")
      case True
      with ge r that show ?thesis by (simp add: found_in_def)
    next
      case False
      with f(3) that have sv: "Suc v < ?m" "hi = 512 * Suc v" using vm by (auto split: if_splits)
      have "\<not> val < key ab 0"
      proof
        assume "val < key ab 0"
        then have "v = 0" using v mm [of 0] vm by (simp add: found_in_def)
        with \<open>val < key ab 0\<close> ge key_le [of 0] show False by auto
      qed
      then have "val < ab_minimap ab ! Suc v"
        using v sv mm [of 0] vm by (auto simp: found_in_def)
      also have "\<dots> \<le> ab_addrs ab ! hi" using mm [OF sv(1)] sv key_le by simp
      also have "\<dots> \<le> ab_addrs ab ! j"
        using False that entries_ascend [OF sc, of hi j] by (cases "hi = j") auto
      finally show ?thesis .
    qed
  qed
  have low: "r = 0" if "val < key ab 0"
  proof -
    have "v = 0" using that v mm [of 0] vm by (simp add: found_in_def)
    moreover have "val < ab_addrs ab ! 0" using that key_le [of 0] by auto
    ultimately show ?thesis using r by (simp add: found_in_def)
  qed
  have le: "key ab r \<le> val" if "key ab 0 \<le> val"
  proof (cases "val < ab_addrs ab ! (512 * v)")
    case True
    then have "key ab r = ab_minimap ab ! v" using r mm [OF vm(1)] by (simp add: found_in_def)
    with v that mm [of 0] vm show ?thesis by (auto simp: found_in_def)
  next
    case False
    then have "ab_addrs ab ! r \<le> val" using r by (simp add: found_in_def)
    with key_le [of r] show ?thesis by (rule order_trans)
  qed
  show ?thesis using that [OF f(1) vm(2) above low le] .
qed

lemma addr_find_locates:
  assumes sc: "scannable ab"
  obtains r where "addr_find val ab = Inr (int r)" "locates val ab r"
proof -
  obtain r where r: "addr_find val ab = Inr (int r)" "r < n_of ab"
    "\<And>j. r < j \<Longrightarrow> j < n_of ab \<Longrightarrow> val < ab_addrs ab ! j"
    "val < key ab 0 \<Longrightarrow> r = 0" "key ab 0 \<le> val \<Longrightarrow> key ab r \<le> val"
    using addr_find_ok [OF sc, of val] by blast
  have before: "key ab j < val" if "j < r" for j
    using that r(2,4,5) key_less_iff [OF sc, of j r]
    by (cases "val < key ab 0") (auto simp: not_less intro: less_le_trans)
  have "i = r" if "i < n_of ab" "key ab i = val" "i \<notin> marks ab" for i
  proof -
    have "ab_addrs ab ! i = val" using unmarked_entry [OF sc that(1)] that by simp
    with r(3) [of i] before [of i] that show ?thesis by (cases i r rule: linorder_cases) auto
  qed
  with r before that show ?thesis unfolding locates_def by blast
qed

text \<open>
  The hinted search stays inside the address list although its loop clamps the index to
  \<open>n_addrs\<close>, one past the end: a value that the last entry bounds is met before that.
\<close>

lemma addr_find_hint_loop_ok:
  assumes sc: "scannable ab" and "h < n_of ab" "val \<le> key ab (n_of ab - 1)"
    and "\<And>j. j \<le> h \<Longrightarrow> ab_addrs ab ! j < val"
  shows "addr_find_hint_loop k val ab (int h) = Inr None \<or>
    (\<exists>r. addr_find_hint_loop k val ab (int h) = Inr (Some (int r)) \<and> r < n_of ab \<and>
       val \<le> ab_addrs ab ! r \<and> (\<forall>j<r. ab_addrs ab ! j < val))"
  using assms(2-)
proof (induction k arbitrary: h)
  case (Suc k)
  have n: "ab_n_addrs ab = int (n_of ab)" "n_of ab \<le> length (ab_addrs ab)"
    using sc scannable_n [OF sc] by (simp_all add: scannable_def)
  have "h \<noteq> n_of ab - 1"
  proof
    assume "h = n_of ab - 1"
    then have "ab_addrs ab ! h < key ab h" using Suc.prems(2,3) by fastforce
    with PTR_MASK_le show False unfolding key_def by (metis leD)
  qed
  with Suc.prems(1) have h: "Suc h < n_of ab" by linarith
  have rd: "rd (ab_addrs ab) (int (Suc h)) = Inr (ab_addrs ab ! Suc h)" using h n by (intro rd_int) simp
  have mn: "MIN_OF (ab_n_addrs ab) (int h + 1) = int (Suc h)" using h n by simp
  have unf: "addr_find_hint_loop (Suc k) val ab (int h) =
      (if val \<le> ab_addrs ab ! Suc h then Inr (Some (int (Suc h)))
       else addr_find_hint_loop k val ab (int (Suc h)))"
    unfolding addr_find_hint_loop.simps Let_def mn rd by simp
  show ?case
  proof (cases "val \<le> ab_addrs ab ! Suc h")
    case True
    have "\<forall>j<Suc h. ab_addrs ab ! j < val" using Suc.prems(3) by (simp add: less_Suc_eq_le)
    with True h show ?thesis unfolding unf by (intro disjI2 exI [of _ "Suc h"]) simp
  next
    case False
    with Suc.IH [of "Suc h"] h Suc.prems show ?thesis unfolding unf by (auto simp: le_Suc_eq not_le)
  qed
qed simp

lemma addr_find_hint_locates:
  assumes sc: "scannable ab" and al: "aligned val" and "h < n_of ab" "val \<le> key ab (n_of ab - 1)"
    and "\<And>j. j < h \<Longrightarrow> key ab j < val"
  obtains r where "addr_find_hint val ab (int h) = Inr (int r)" "locates val ab r"
proof -
  have n: "n_of ab \<le> length (ab_addrs ab)" using sc by (simp add: scannable_def)
  have raw: "ab_addrs ab ! j < val \<longleftrightarrow> key ab j < val" for j
    unfolding key_def by (rule less_aligned_iff [OF al])
  have hit: "locates val ab r" if "r < n_of ab" "val \<le> ab_addrs ab ! r" "\<forall>j<r. ab_addrs ab ! j < val" for r
  proof -
    have "val \<le> key ab r" using that(2) al by (simp add: key_def le_PTR_MASK)
    then have "i = r" if "i < n_of ab" "key ab i = val" for i
      using that \<open>r < n_of ab\<close> key_less_iff [OF sc, of r i] \<open>\<forall>j<r. ab_addrs ab ! j < val\<close> raw [of i]
      by (cases i r rule: linorder_cases) auto
    with that raw show ?thesis by (auto simp: locates_def)
  qed
  have rd: "rd (ab_addrs ab) (int h) = Inr (ab_addrs ab ! h)" using assms(3) n by (intro rd_int) simp
  show ?thesis
  proof (cases "val \<le> ab_addrs ab ! h")
    case True
    with hit [of h] assms(3,5) raw have "locates val ab h" by blast
    with True rd that [of h] show ?thesis by (simp add: addr_find_hint_def)
  next
    case False
    have upto: "ab_addrs ab ! j < val" if "j \<le> h" for j
      using that False raw [of j] assms(5) [of j] by (cases "j = h") auto
    let ?L = "addr_find_hint_loop (nat (remaining_line ab (int h))) val ab (int h)"
    from addr_find_hint_loop_ok [OF sc assms(3,4) upto]
    consider "?L = Inr None" | r where "?L = Inr (Some (int r))" "locates val ab r"
      using hit by blast
    then show ?thesis
    proof cases
      case 1
      obtain r where "addr_find val ab = Inr (int r)" "locates val ab r" by (rule addr_find_locates [OF sc])
      with 1 False rd that [of r] show ?thesis by (simp add: addr_find_hint_def)
    next
      case 2
      with False rd that [of r] show ?thesis by (simp add: addr_find_hint_def)
    qed
  qed
qed

section \<open>Marking\<close>

record trace_stats_t =
  ts_min :: size_t
  ts_max :: size_t

text \<open>
  \<^verbatim>\<open>recursive_mark\<close>. Every recursive call follows the marking of an entry that was not yet
  marked, so the recursion is at most one deeper than the number of unmarked entries; the
  first argument bounds the depth. The recursive call passes \<open>addr\<close>, the block that is being
  read, as the source does.
\<close>

fun recursive_mark ::
    "nat \<Rightarrow> (size_t \<Rightarrow> size_t) \<Rightarrow> (size_t \<Rightarrow> size_t) \<Rightarrow> size_t \<Rightarrow> addr_buffer_t \<Rightarrow>
      trace_stats_t \<Rightarrow> addr_buffer_t res" where
  "recursive_mark 0 mem usable addr ab ts = Inl No_return"
| "recursive_mark (Suc depth) mem usable addr ab ts =
     (let ptr = PTR_MASK addr;
          n_vals = usable ptr div 8
      in for_res (\<lambda>i ab.
           let val = PTR_MASK (mem (ptr + 8 * of_nat i)) in
           if val < ts_min ts \<or> val > ts_max ts then Inr ab
           else bind_res (addr_find val ab) (\<lambda>loc.
                bind_res (is_ref ab loc val) (\<lambda>hit.
                  if hit
                  then bind_res (rd (ab_addrs ab) loc) (\<lambda>target.
                         if target AND 1 \<noteq> 0 then Inr ab
                         else bind_res (wr (ab_addrs ab) loc (target OR 1)) (\<lambda>addrs'.
                              recursive_mark depth mem usable (PTR_MASK addr)
                                (ab\<lparr>ab_addrs := addrs'\<rparr>) ts))
                  else Inr ab)))
         [0..<unat n_vals] ab)"

definition mark_depth :: "addr_buffer_t \<Rightarrow> nat" where
  "mark_depth ab = Suc (n_of ab)"

text \<open>The loop of \<^verbatim>\<open>lookup_lookaside_list\<close> over the sorted, compacted candidates.\<close>

definition lookup_step ::
    "(size_t \<Rightarrow> size_t) \<Rightarrow> (size_t \<Rightarrow> size_t) \<Rightarrow> trace_stats_t \<Rightarrow> size_t list \<Rightarrow> nat \<Rightarrow>
      addr_buffer_t \<times> int \<Rightarrow> (addr_buffer_t \<times> int) res" where
  "lookup_step mem usable ts la i = (\<lambda>(ab, cached_loc).
     bind_res (rd la (int i)) (\<lambda>cmp.
     bind_res (addr_find_hint cmp ab cached_loc) (\<lambda>loc.
     bind_res (is_ref ab loc cmp) (\<lambda>hit.
       if hit
       then bind_res (rd (ab_addrs ab) loc) (\<lambda>addr.
              if addr AND 1 = 0
              then bind_res (wr (ab_addrs ab) loc (addr OR 1)) (\<lambda>addrs'.
                   bind_res (recursive_mark (mark_depth ab) mem usable addr
                               (ab\<lparr>ab_addrs := addrs'\<rparr>) ts)
                     (\<lambda>ab'. Inr (ab', loc)))
              else Inr (ab, loc))
       else Inr (ab, loc)))))"

text \<open>The result is the buffer, the lookaside array and its new count, 0.\<close>

definition lookup_lookaside_list ::
    "(size_t \<Rightarrow> size_t) \<Rightarrow> (size_t \<Rightarrow> size_t) \<Rightarrow> addr_buffer_t \<Rightarrow> trace_stats_t \<Rightarrow>
      size_t list \<Rightarrow> int \<Rightarrow> (addr_buffer_t \<times> size_t list \<times> int) res" where
  "lookup_lookaside_list mem usable ab ts la n =
     bind_res (forkscan_util_sort la n) (\<lambda>la1.
     bind_res (forkscan_util_compact la1 n) (\<lambda>(la2, savings).
     bind_res (for_res (lookup_step mem usable ts la2) [0..<nat (n - savings)] (ab, 0))
       (\<lambda>(ab', cached_loc). Inr (ab', la2, 0))))"

section \<open>What gets marked\<close>

text \<open>The entries of \<open>ab\<close> that the block at \<open>a\<close> refers to directly.\<close>

definition refs_of :: "(size_t \<Rightarrow> size_t) \<Rightarrow> (size_t \<Rightarrow> size_t) \<Rightarrow> addr_buffer_t \<Rightarrow> size_t \<Rightarrow> nat set" where
  "refs_of mem usable ab a =
     {i. i < n_of ab \<and>
       (\<exists>j<unat (usable a div 8). PTR_MASK (mem (a + 8 * of_nat j)) = key ab i)}"

definition ts_of :: "addr_buffer_t \<Rightarrow> trace_stats_t" where
  "ts_of ab = \<lparr>ts_min = key ab 0, ts_max = key ab (n_of ab - 1)\<rparr>"

lemma finite_refs_of [simp]: "finite (refs_of mem usable ab a)"
  by (simp add: refs_of_def)

lemma refs_of_cong: "marked_more a b \<Longrightarrow> refs_of mem usable b x = refs_of mem usable a x"
  by (auto simp: refs_of_def marked_more_fields marked_more_key)

lemma ts_of_cong: "marked_more a b \<Longrightarrow> 0 < n_of a \<Longrightarrow> ts_of b = ts_of a"
  by (simp add: ts_of_def marked_more_fields marked_more_key)

lemma key_in_ts:
  "scannable ab \<Longrightarrow> i < n_of ab \<Longrightarrow> ts_min (ts_of ab) \<le> key ab i \<and> key ab i \<le> ts_max (ts_of ab)"
  using key_less_iff [of ab 0 i] key_less_iff [of ab i "n_of ab - 1"]
  by (cases "i = 0"; cases "i = n_of ab - 1") (auto simp: ts_of_def)

text \<open>The access pattern shared by the two markers: read an entry, set its mark.\<close>

lemma mark_entry:
  assumes "scannable ab" "r < n_of ab"
  shows "is_ref ab (int r) v = Inr (key ab r = v)"
    and "rd (ab_addrs ab) (int r) = Inr (ab_addrs ab ! r)"
    and "ab\<lparr>ab_addrs := (ab_addrs ab)[r := ab_addrs ab ! r OR 1]\<rparr> = set_mark ab r"
    and "wr (ab_addrs ab) (int r) x = Inr ((ab_addrs ab)[r := x])"
    and "ab_addrs ab ! r AND 1 \<noteq> 0 \<longleftrightarrow> r \<in> marks ab"
    and "marked_more ab (set_mark ab r)" and "marks (set_mark ab r) = insert r (marks ab)"
proof -
  have n: "n_of ab \<le> length (ab_addrs ab)" using assms(1) by (simp add: scannable_def)
  with assms(2) show "is_ref ab (int r) v = Inr (key ab r = v)"
    and "rd (ab_addrs ab) (int r) = Inr (ab_addrs ab ! r)"
    and "wr (ab_addrs ab) (int r) x = Inr ((ab_addrs ab)[r := x])"
    by (simp_all add: is_ref_def res_simps key_def)
  show "ab\<lparr>ab_addrs := (ab_addrs ab)[r := ab_addrs ab ! r OR 1]\<rparr> = set_mark ab r"
    by (simp add: set_mark_def)
  show "ab_addrs ab ! r AND 1 \<noteq> 0 \<longleftrightarrow> r \<in> marks ab" using assms(2) by (simp add: marks_def)
  show "marked_more ab (set_mark ab r)" "marks (set_mark ab r) = insert r (marks ab)"
    using assms(2) n by (simp_all add: marked_more_set_mark marks_set_mark)
qed

definition mark_body ::
    "nat \<Rightarrow> (size_t \<Rightarrow> size_t) \<Rightarrow> (size_t \<Rightarrow> size_t) \<Rightarrow> size_t \<Rightarrow> trace_stats_t \<Rightarrow> nat \<Rightarrow>
      addr_buffer_t \<Rightarrow> addr_buffer_t res" where
  "mark_body depth mem usable addr ts i ab =
     (let val = PTR_MASK (mem (PTR_MASK addr + 8 * of_nat i)) in
      if val < ts_min ts \<or> val > ts_max ts then Inr ab
      else bind_res (addr_find val ab) (\<lambda>loc.
           bind_res (is_ref ab loc val) (\<lambda>hit.
             if hit
             then bind_res (rd (ab_addrs ab) loc) (\<lambda>target.
                    if target AND 1 \<noteq> 0 then Inr ab
                    else bind_res (wr (ab_addrs ab) loc (target OR 1)) (\<lambda>addrs'.
                         recursive_mark depth mem usable (PTR_MASK addr)
                           (ab\<lparr>ab_addrs := addrs'\<rparr>) ts))
             else Inr ab)))"

lemma recursive_mark_Suc:
  "recursive_mark (Suc d) mem usable addr ab ts =
     for_res (mark_body d mem usable addr ts) [0..<unat (usable (PTR_MASK addr) div 8)] ab"
  by (simp add: mark_body_def [abs_def] Let_def)

text \<open>One word of the block: afterwards the entry it refers to, if any, is marked.\<close>

lemma mark_body_ok:
  assumes sc: "scannable ab" and ts: "ts = ts_of ab"
    and R: "R = refs_of mem usable ab (PTR_MASK addr)"
    and i: "i < unat (usable (PTR_MASK addr) div 8)"
    and rec: "\<And>b. marked_more ab b \<Longrightarrow> marks ab \<subset> marks b \<Longrightarrow> marks b \<subseteq> marks ab \<union> R \<Longrightarrow>
      \<exists>b'. recursive_mark d mem usable (PTR_MASK addr) b ts = Inr b' \<and> marked_more b b' \<and>
        marks b' = marks b \<union> R"
  shows "\<exists>b. mark_body d mem usable addr ts i ab = Inr b \<and> marked_more ab b \<and>
    marks b \<subseteq> marks ab \<union> R \<and>
    (\<forall>k<n_of ab. key ab k = PTR_MASK (mem (PTR_MASK addr + 8 * of_nat i)) \<longrightarrow> k \<in> marks b)"
proof -
  define val where "val = PTR_MASK (mem (PTR_MASK addr + 8 * of_nat i))"
  obtain r where r: "addr_find val ab = Inr (int r)" "locates val ab r"
    by (rule addr_find_locates [OF sc])
  then have rn: "r < n_of ab" by (simp add: locates_def)
  note E = mark_entry [OF sc rn]
  have inR: "k \<in> R" if "k < n_of ab" "key ab k = val" for k
    using that i by (auto simp: R refs_of_def val_def)
  show ?thesis
  proof (cases "val < ts_min ts \<or> val > ts_max ts")
    case True
    then have "k \<notin> marks ab \<Longrightarrow> k < n_of ab \<Longrightarrow> key ab k \<noteq> val" for k
      using key_in_ts [OF sc, of k] ts by auto
    with True show ?thesis
      by (intro exI [of _ ab]) (auto simp: mark_body_def val_def [symmetric] Let_def)
  next
    case inside: False
    show ?thesis
    proof (cases "key ab r = val \<and> r \<notin> marks ab")
      case False
      have "k \<in> marks ab" if "k < n_of ab" "key ab k = val" for k
        using that False r(2) by (auto simp: locates_def)
      with False inside r(1) E show ?thesis
        by (intro exI [of _ ab]) (auto simp: mark_body_def val_def [symmetric] Let_def)
    next
      case True
      obtain b where b: "recursive_mark d mem usable (PTR_MASK addr) (set_mark ab r) ts = Inr b"
        "marked_more (set_mark ab r) b" "marks b = marks (set_mark ab r) \<union> R"
        using rec [OF E(6)] True inR [OF rn] E(7) by auto
      have "mark_body d mem usable addr ts i ab = Inr b"
        using inside True r(1) E b(1)
        by (simp add: mark_body_def val_def [symmetric] Let_def)
      moreover have "marked_more ab b" using E(6) b(2) by (rule marked_more_trans)
      ultimately show ?thesis using b(3) E(7) inR True rn unfolding val_def [symmetric] by auto
    qed
  qed
qed

lemma recursive_mark_ok:
  assumes "scannable ab" "ts = ts_of ab" "R = refs_of mem usable ab (PTR_MASK addr)"
    and "card (R - marks ab) < d"
  shows "\<exists>b. recursive_mark d mem usable addr ab ts = Inr b \<and> marked_more ab b \<and>
    marks b = marks ab \<union> R"
  using assms
proof (induction d arbitrary: ab addr)
  case (Suc d)
  let ?n = "unat (usable (PTR_MASK addr) div 8)"
  let ?val = "\<lambda>j. PTR_MASK (mem (PTR_MASK addr + 8 * of_nat j))"
  let ?I = "\<lambda>i b. marked_more ab b \<and> marks b \<subseteq> marks ab \<union> R \<and>
      (\<forall>j<i. \<forall>k<n_of ab. key ab k = ?val j \<longrightarrow> k \<in> marks b)"
  have n: "0 < n_of ab" using scannable_n [OF Suc.prems(1)] by simp
  have "\<exists>b. for_res (mark_body d mem usable addr ts) [0..<?n] ab = Inr b \<and> ?I ?n b"
  proof (rule for_res_upt)
    fix i b assume i: "i < ?n" and I: "?I i b"
    then have b: "marked_more ab b" "marks b \<subseteq> marks ab \<union> R" by simp_all
    note F = marked_more_fields [OF b(1)] marked_more_key [OF b(1)]
    have "\<exists>c. mark_body d mem usable addr ts i b = Inr c \<and> marked_more b c \<and>
      marks c \<subseteq> marks b \<union> R \<and> (\<forall>k<n_of b. key b k = ?val i \<longrightarrow> k \<in> marks c)"
    proof (rule mark_body_ok)
      show sb: "scannable b" by (rule marked_more_scannable [OF b(1) Suc.prems(1)])
      show "ts = ts_of b" using Suc.prems(2) ts_of_cong [OF b(1) n] by simp
      show Rb: "R = refs_of mem usable b (PTR_MASK addr)" using Suc.prems(3) refs_of_cong [OF b(1)] by simp
      fix c assume c: "marked_more b c" "marks b \<subset> marks c" "marks c \<subseteq> marks b \<union> R"
      have bc: "marked_more ab c" by (rule marked_more_trans [OF b(1) c(1)])
      have fin: "finite (R - marks ab)" by (simp add: Suc.prems(3))
      have "R - marks c \<subset> R - marks ab"
        using c(2,3) marked_more_marks [OF b(1)] by auto
      then have "card (R - marks c) < card (R - marks ab)" using fin by (rule psubset_card_mono [rotated])
      then have card: "card (R - marks c) < d" using Suc.prems(4) by linarith
      show "\<exists>b'. recursive_mark d mem usable (PTR_MASK addr) c ts = Inr b' \<and> marked_more c b' \<and>
          marks b' = marks c \<union> R"
      proof (rule Suc.IH)
        show "scannable c" by (rule marked_more_scannable [OF bc Suc.prems(1)])
        show "ts = ts_of c" using Suc.prems(2) ts_of_cong [OF bc n] by simp
        show "R = refs_of mem usable c (PTR_MASK (PTR_MASK addr))"
          using Suc.prems(3) refs_of_cong [OF bc] by simp
      qed (rule card)
    qed (rule i)
    then obtain c where c: "mark_body d mem usable addr ts i b = Inr c" "marked_more b c"
      "marks c \<subseteq> marks b \<union> R" "\<forall>k<n_of b. key b k = ?val i \<longrightarrow> k \<in> marks c" by blast
    have "?I (Suc i) c"
      using I c F marked_more_trans [OF b(1) c(2)] marked_more_marks [OF c(2)]
      by (auto simp: less_Suc_eq)
    with c(1) show "\<exists>c. mark_body d mem usable addr ts i b = Inr c \<and> ?I (Suc i) c" by blast
  qed simp_all
  then obtain b where b: "recursive_mark (Suc d) mem usable addr ab ts = Inr b" "?I ?n b"
    unfolding recursive_mark_Suc by blast
  have "R \<subseteq> marks b" using b(2) by (fastforce simp: Suc.prems(3) refs_of_def)
  with b marked_more_marks [of ab b] show ?case by blast
qed simp

text \<open>The entries whose address is among the candidates, and what their blocks refer to.\<close>

definition hits :: "addr_buffer_t \<Rightarrow> size_t set \<Rightarrow> nat set" where
  "hits ab V = {i. i < n_of ab \<and> key ab i \<in> V}"

definition hits_and_refs ::
    "(size_t \<Rightarrow> size_t) \<Rightarrow> (size_t \<Rightarrow> size_t) \<Rightarrow> addr_buffer_t \<Rightarrow> size_t set \<Rightarrow> nat set" where
  "hits_and_refs mem usable ab V =
     hits ab V \<union> (\<Union>r\<in>hits ab V. refs_of mem usable ab (key ab r))"

lemma hits_cong: "marked_more a b \<Longrightarrow> hits b V = hits a V"
  by (auto simp: hits_def marked_more_fields marked_more_key)

lemma hits_and_refs_cong:
  assumes "marked_more a b"
  shows "hits_and_refs mem usable b V = hits_and_refs mem usable a V"
  unfolding hits_and_refs_def hits_cong [OF assms] refs_of_cong [OF assms]
  by (auto simp: hits_def marked_more_key [OF assms])

lemma card_bounded: "A \<subseteq> {i. i < (n::nat)} \<Longrightarrow> card A < Suc n"
  by (metis card_Collect_less_nat card_mono finite_Collect_less_nat less_Suc_eq_le)

lemma lookup_step_ok:
  assumes sc: "scannable ab" and ts: "ts = ts_of ab" and i: "i < length la"
    and v: "aligned (la ! i)" "la ! i \<le> ts_max ts" "la ! i \<in> V"
    and h: "h < n_of ab" "\<And>j. j < h \<Longrightarrow> key ab j < la ! i"
  shows "\<exists>b r. lookup_step mem usable ts la i (ab, int h) = Inr (b, int r) \<and> marked_more ab b \<and>
    r < n_of ab \<and> (\<forall>j<r. key ab j < la ! i) \<and> hits ab {la ! i} \<subseteq> marks b \<and>
    marks b \<subseteq> marks ab \<union> hits_and_refs mem usable ab V"
proof -
  have le: "la ! i \<le> key ab (n_of ab - 1)" using v(2) by (simp add: ts ts_of_def)
  obtain r where r: "addr_find_hint (la ! i) ab (int h) = Inr (int r)" "locates (la ! i) ab r"
    by (rule addr_find_hint_locates [OF sc v(1) h(1) le h(2)])
  then have rn: "r < n_of ab" "\<forall>j<r. key ab j < la ! i" by (simp_all add: locates_def)
  note E = mark_entry [OF sc rn(1)]
  have rd: "rd la (int i) = Inr (la ! i)" using i by (rule rd_int)
  show ?thesis
  proof (cases "key ab r = la ! i \<and> r \<notin> marks ab")
    case False
    then have "hits ab {la ! i} \<subseteq> marks ab" using r(2) by (auto simp: hits_def locates_def)
    moreover have "lookup_step mem usable ts la i (ab, int h) = Inr (ab, int r)"
      using False rd r(1) E by (auto simp: lookup_step_def)
    ultimately show ?thesis using rn by (intro exI [of _ ab] exI [of _ r]) auto
  next
    case True
    let ?R = "refs_of mem usable ab (key ab r)"
    have sm: "scannable (set_mark ab r)" by (rule marked_more_scannable [OF E(6) sc])
    have "card (?R - marks (set_mark ab r)) < mark_depth ab"
      unfolding mark_depth_def by (rule card_bounded) (auto simp: refs_of_def)
    then obtain b where b: "recursive_mark (mark_depth ab) mem usable (ab_addrs ab ! r) (set_mark ab r) ts = Inr b"
      "marked_more (set_mark ab r) b" "marks b = marks (set_mark ab r) \<union> ?R"
      using recursive_mark_ok [OF sm, of ts ?R mem usable "ab_addrs ab ! r" "mark_depth ab"]
        ts ts_of_cong [OF E(6)] rn(1) refs_of_cong [OF E(6)] by (auto simp: key_def)
    have "lookup_step mem usable ts la i (ab, int h) = Inr (b, int r)"
      using True rd r(1) E b(1) by (simp add: lookup_step_def)
    moreover have "marked_more ab b" using E(6) b(2) by (rule marked_more_trans)
    moreover have "hits ab {la ! i} \<subseteq> marks b"
      using True b(3) E(7) r(2) by (auto simp: hits_def locates_def)
    moreover have "r \<in> hits ab V" using True rn(1) v(3) by (simp add: hits_def)
    then have "marks b \<subseteq> marks ab \<union> hits_and_refs mem usable ab V"
      using b(3) E(7) by (auto simp: hits_and_refs_def)
    ultimately show ?thesis using rn by (intro exI [of _ b] exI [of _ r]) simp
  qed
qed

lemma lookup_loop_ok:
  assumes sc: "scannable ab" and ts: "ts = ts_of ab" and k: "k \<le> length la"
    and asc: "sorted_wrt (<) (take k la)" and V: "V = set (take k la)"
    and al: "\<forall>v\<in>V. aligned v \<and> v \<le> ts_max ts"
  shows "\<exists>b r. for_res (lookup_step mem usable ts la) [0..<k] (ab, 0) = Inr (b, int r) \<and>
    marked_more ab b \<and> hits ab V \<subseteq> marks b \<and> marks b \<subseteq> marks ab \<union> hits_and_refs mem usable ab V"
proof -
  have n: "0 < n_of ab" using scannable_n [OF sc] by simp
  let ?I = "\<lambda>i (b, c). \<exists>h. c = int h \<and> h < n_of ab \<and> marked_more ab b \<and>
      (i = 0 \<longrightarrow> h = 0) \<and> (\<forall>j<h. key ab j < la ! (i - 1)) \<and>
      hits ab (set (take i la)) \<subseteq> marks b \<and> marks b \<subseteq> marks ab \<union> hits_and_refs mem usable ab V"
  have "\<exists>s. for_res (lookup_step mem usable ts la) [0..<k] (ab, 0) = Inr s \<and> ?I k s"
  proof (rule for_res_upt)
    fix i s assume i: "i < k" and I: "?I i s"
    then obtain b h where s: "s = (b, int h)" "h < n_of ab" "marked_more ab b" "i = 0 \<longrightarrow> h = 0"
      "\<forall>j<h. key ab j < la ! (i - 1)" "hits ab (set (take i la)) \<subseteq> marks b"
      "marks b \<subseteq> marks ab \<union> hits_and_refs mem usable ab V" by (cases s) auto
    note F = marked_more_fields [OF s(3)] marked_more_key [OF s(3)] hits_cong [OF s(3)]
      hits_and_refs_cong [OF s(3)] ts_of_cong [OF s(3) n]
    have step: "la ! (i - 1) < la ! i" if "0 < i"
      using asc that i k sorted_wrt_nth_less [OF asc, of "i - 1" i] by simp
    have hb: "key b j < la ! i" if "j < h" for j
      using that s(2,4,5) step F(8) [of j] by (cases "i = 0") (auto intro: less_trans)
    have iV: "la ! i \<in> V" using i k by (auto simp: V in_set_conv_nth)
    have "\<exists>c r. lookup_step mem usable ts la i (b, int h) = Inr (c, int r) \<and> marked_more b c \<and>
      r < n_of b \<and> (\<forall>j<r. key b j < la ! i) \<and> hits b {la ! i} \<subseteq> marks c \<and>
      marks c \<subseteq> marks b \<union> hits_and_refs mem usable b V"
      by (rule lookup_step_ok [OF marked_more_scannable [OF s(3) sc]])
        (use ts F i k iV al hb s(2) in auto)
    then obtain c r where c: "lookup_step mem usable ts la i s = Inr (c, int r)" "marked_more b c"
      "r < n_of ab" "\<forall>j<r. key ab j < la ! i" "hits ab {la ! i} \<subseteq> marks c"
      "marks c \<subseteq> marks b \<union> hits_and_refs mem usable ab V" using s(1) F by auto
    have "hits ab (set (take (Suc i) la)) = hits ab (set (take i la)) \<union> hits ab {la ! i}"
      using i k by (auto simp: take_Suc_conv_app_nth hits_def)
    with c s(6,7) marked_more_trans [OF s(3) c(2)] marked_more_marks [OF c(2)]
    show "\<exists>s'. lookup_step mem usable ts la i s = Inr s' \<and> ?I (Suc i) s'"
      by (intro exI [of _ "(c, int r)"]) auto
  qed (use n in \<open>auto simp: hits_def\<close>)
  then show ?thesis unfolding V by auto
qed

lemma lookup_lookaside_ok:
  assumes sc: "scannable ab" and n: "n \<le> length la" "n \<le> 2 ^ 30"
    and al: "\<forall>v\<in>set (take n la). aligned v \<and> v \<le> ts_max (ts_of ab)"
  obtains b la' where "lookup_lookaside_list mem usable ab (ts_of ab) la (int n) = Inr (b, la', 0)"
    "length la' = length la" "marked_more ab b" "hits ab (set (take n la)) \<subseteq> marks b"
    "marks b \<subseteq> marks ab \<union> hits_and_refs mem usable ab (set (take n la))"
proof -
  obtain la1 where la1: "forkscan_util_sort la (int n) = Inr la1" "sorted (take n la1)"
    "mset la1 = mset la" "drop n la1 = drop n la" "length la1 = length la"
    by (rule util_sort_ok [OF n])
  obtain la2 k where la2: "forkscan_util_compact la1 (int n) = Inr (la2, int (n - k))" "k \<le> n"
    "take k la2 = remdups_adj (take n la1)" "length la2 = length la1"
    by (rule util_compact_ok [of n la1]) (use n(1) la1(5) in auto)
  have V: "set (take k la2) = set (take n la)"
    using la2(3) mset_take_eq(2) [OF la1(3,4)] by simp
  have asc: "sorted_wrt (<) (take k la2)" using la2(3) strict_remdups_adj [OF la1(2)] by simp
  have k: "nat (int n - int (n - k)) = k" using la2(2) by simp
  have kl: "k \<le> length la2" using la2(2,4) la1(5) n(1) by linarith
  have al2: "\<forall>v\<in>set (take k la2). aligned v \<and> v \<le> ts_max (ts_of ab)" using al V by simp
  obtain b r where b: "for_res (lookup_step mem usable (ts_of ab) la2) [0..<k] (ab, 0) = Inr (b, int r)"
    "marked_more ab b" "hits ab (set (take k la2)) \<subseteq> marks b"
    "marks b \<subseteq> marks ab \<union> hits_and_refs mem usable ab (set (take k la2))"
    using lookup_loop_ok [OF sc refl kl asc refl al2] by blast
  show ?thesis
  proof (rule that)
    show "lookup_lookaside_list mem usable ab (ts_of ab) la (int n) = Inr (b, la2, 0)"
      unfolding lookup_lookaside_list_def la1(1) bind_res_Inr la2(1) prod.case k b(1) ..
    show "length la2 = length la" using la2(4) la1(5) by simp
  qed (use b V in simp_all)
qed

section \<open>The search interface\<close>

text \<open>
  What the marking code needs of a search: on a scannable buffer it returns a place that
  \<open>locates\<close> the value. Both the two-level search and a plain binary search over the whole
  address list (the debugging check of \<^verbatim>\<open>lookup_lookaside_list\<close>) provide it, so they decide
  membership alike.
\<close>

locale address_search =
  fixes find :: "size_t \<Rightarrow> addr_buffer_t \<Rightarrow> int res"
  assumes finds: "scannable ab \<Longrightarrow> \<exists>r. find val ab = Inr (int r) \<and> locates val ab r"
begin

lemma unmarked_membership:
  assumes "scannable ab" "val \<notin> key ab ` marks ab"
  shows "bind_res (find val ab) (\<lambda>loc. is_ref ab loc val) = Inr (\<exists>i<n_of ab. key ab i = val)"
proof -
  from finds [OF assms(1)] obtain r where r: "find val ab = Inr (int r)" "locates val ab r" by blast
  then have "r < n_of ab" by (simp add: locates_def)
  with r assms show ?thesis using mark_entry(1) [OF assms(1), of r val] by (auto simp: locates_def)
qed

lemma reports_tracked:
  assumes "scannable ab" "bind_res (find val ab) (\<lambda>loc. is_ref ab loc val) = Inr True"
  shows "\<exists>i<n_of ab. key ab i = val"
proof -
  from finds [OF assms(1)] obtain r where r: "find val ab = Inr (int r)" "locates val ab r" by blast
  then have "r < n_of ab" by (simp add: locates_def)
  with r assms show ?thesis using mark_entry(1) [OF assms(1), of r val] by auto
qed

lemma membership_upto_marks:
  assumes "scannable ab" "i < n_of ab" "key ab i = val" "i \<notin> marks ab"
  shows "find val ab = Inr (int i)"
  using finds [OF assms(1), of val] assms by (auto simp: locates_def)

end

interpretation two_level: address_search addr_find
  by unfold_locales (metis addr_find_locates)

definition flat_find :: "size_t \<Rightarrow> addr_buffer_t \<Rightarrow> int res" where
  "flat_find val ab = binary_search val (ab_addrs ab) 0 (ab_n_addrs ab)"

interpretation flat: address_search flat_find
proof
  fix ab val assume sc: "scannable ab"
  have n: "ab_n_addrs ab = int (n_of ab)" "0 < n_of ab" "n_of ab \<le> length (ab_addrs ab)" "n_of ab \<le> 2 ^ 30"
    using sc scannable_n [OF sc] by (simp_all add: scannable_def)
  obtain r where r: "flat_find val ab = Inr (int r)" "found_in val (ab_addrs ab) 0 (n_of ab) r"
    using binary_search_ok [of 0 "n_of ab" "ab_addrs ab" val] n ascending_addrs [OF sc, of "n_of ab" 0]
    by (auto simp: flat_find_def)
  have raw: "key ab j \<le> ab_addrs ab ! j" for j by (simp add: key_def PTR_MASK_le)
  have before: "key ab j < val" if "j < r" for j
    using that r(2) raw [of j] entries_ascend [OF sc that] by (auto simp: found_in_def not_less [symmetric])
  have "i = r" if "i < n_of ab" "key ab i = val" "i \<notin> marks ab" for i
  proof -
    have "ab_addrs ab ! i = val" using unmarked_entry [OF sc that(1)] that by simp
    moreover have "ab_addrs ab ! 0 \<le> ab_addrs ab ! i"
      using entries_ascend [OF sc, of 0 i] that(1) by (cases "i = 0") auto
    ultimately show ?thesis using r(2) before [of i] that by (auto simp: found_in_def) (metis less_irrefl linorder_neqE_nat)
  qed
  with r before show "\<exists>r. flat_find val ab = Inr (int r) \<and> locates val ab r"
    unfolding locates_def found_in_def by blast
qed

section \<open>Properties\<close>

text \<open>A buffer of three addresses, each block holding a reference to the next one.\<close>

definition sample_ab :: addr_buffer_t where
  "sample_ab = \<lparr>ab_next = 0, ab_addrs = [0x1000, 0x2000, 0x3000, 0], ab_addrs_at = 0x7000,
     ab_minimap = [0x1000], ab_is_aggregate = True, ab_n_addrs = 3, ab_n_minimap = 1,
     ab_capacity = 4, ab_cutoff_reached = 0, ab_sibling_mode = SIBLING_MODE_MARKING,
     ab_completed_children = 0, ab_more_marking_tbd = 0, ab_round = 0, ab_root_counter = 0,
     ab_roots_completed = 0, ab_ref_count = 0, ab_free_idx = 0\<rparr>"

definition sample_mem :: "size_t \<Rightarrow> size_t" where
  "sample_mem a = (if a = 0x1000 then 0x2000 else if a = 0x2000 then 0x3000 else 0)"

definition sample_usable :: "size_t \<Rightarrow> size_t" where
  "sample_usable a = 16"

lemma less_3_cases: "(i::nat) < 3 \<longleftrightarrow> i = 0 \<or> i = 1 \<or> i = 2"
  by auto

lemma sample_ab_entries:
  "ab_addrs sample_ab ! 0 = 0x1000" "ab_addrs sample_ab ! Suc 0 = 0x2000"
  "ab_addrs sample_ab ! 1 = 0x2000" "ab_addrs sample_ab ! 2 = 0x3000" "n_of sample_ab = 3"
  by (simp_all add: sample_ab_def n_of_def)

lemma sample_ab_unmarked: "marks sample_ab = {}"
proof -
  have "ab_addrs sample_ab ! i AND 1 = 0" if "i < 3" for i
  proof -
    from that consider "i = 0" | "i = 1" | "i = 2" by linarith
    then show ?thesis by cases (simp_all add: sample_ab_entries)
  qed
  then show ?thesis by (auto simp: marks_def sample_ab_entries)
qed

lemma sample_ab_facts:
  "n_of sample_ab = 3" "key sample_ab 0 = 0x1000" "key sample_ab (Suc 0) = 0x2000"
  "key sample_ab 2 = 0x3000" "marks sample_ab = {}"
  by (simp_all add: key_def PTR_MASK_def sample_ab_entries sample_ab_unmarked)

lemma sample_ab_scannable: "scannable sample_ab"
proof -
  have "key sample_ab i < key sample_ab j" if "i < j" "j < 3" for i j
  proof -
    from that consider "i = 0" "j = Suc 0" | "i = 0" "j = 2" | "i = Suc 0" "j = 2" by linarith
    then show ?thesis by cases (simp_all add: sample_ab_facts)
  qed
  moreover have "ab_addrs sample_ab ! i = key sample_ab i" if "i < 3" for i
  proof -
    from that consider "i = 0" | "i = Suc 0" | "i = 2" by linarith
    then show ?thesis by cases (simp_all add: sample_ab_facts sample_ab_entries)
  qed
  ultimately show ?thesis
    using sample_ab_facts by (simp add: scannable_def minimap_entries_def) (simp add: sample_ab_def)
qed

lemma sample_ts: "ts_of sample_ab = \<lparr>ts_min = 0x1000, ts_max = 0x3000\<rparr>"
  using sample_ab_facts by (simp add: ts_of_def numeral_2_eq_2)

text \<open>
  C23: \<^verbatim>\<open>addr_find\<close> always returns an index of the address list, never leaves the minimap or
  the list, and returns the index closest to the value without exceeding it: the key there is
  at most the value (unless the value lies below every key, then the index is 0) and every
  later entry is greater. The property holds also while marks are being set in the list,
  which the minimap does not reflect.
\<close>

theorem addr_find_closest:
  assumes "scannable ab"
  shows "\<exists>r. addr_find val ab = Inr (int r) \<and> r < n_of ab \<and>
    (\<forall>j. r < j \<longrightarrow> j < n_of ab \<longrightarrow> val < ab_addrs ab ! j) \<and>
    (if val < key ab 0 then r = 0 else key ab r \<le> val)"
  by (rule addr_find_ok [OF assms, of val]) (auto simp: not_less)

theorem addr_find_closest_witness:
  "scannable sample_ab \<and>
   (\<exists>r. addr_find 0x2ff0 sample_ab = Inr (int r) \<and> r < n_of sample_ab \<and>
    (\<forall>j. r < j \<longrightarrow> j < n_of sample_ab \<longrightarrow> 0x2ff0 < ab_addrs sample_ab ! j) \<and>
    (if 0x2ff0 < key sample_ab 0 then r = 0 else key sample_ab r \<le> 0x2ff0)) \<and>
   addr_find 0x2ff0 sample_ab = Inr 1"
proof (intro conjI)
  show "addr_find 0x2ff0 sample_ab = Inr 1" by code_simp
qed (use sample_ab_scannable in \<open>rule addr_find_closest | assumption\<close>)+

text \<open>
  C26: the two-level search through the minimap and a plain binary search over the whole list
  decide alike whether an address is tracked, unless its entry is marked already; neither ever
  reports an address that is not tracked. The exception is needed: the mark is part of the entry the
  plain search compares, but not of the minimap.
\<close>

theorem addr_find_equiv_flat:
  assumes "scannable ab"
  shows "(val \<notin> key ab ` marks ab \<longrightarrow>
      bind_res (addr_find val ab) (\<lambda>loc. is_ref ab loc val) = bind_res (flat_find val ab) (\<lambda>loc. is_ref ab loc val) \<and>
      bind_res (addr_find val ab) (\<lambda>loc. is_ref ab loc val) = Inr (\<exists>i<n_of ab. key ab i = val)) \<and>
    (bind_res (addr_find val ab) (\<lambda>loc. is_ref ab loc val) = Inr True \<or>
     bind_res (flat_find val ab) (\<lambda>loc. is_ref ab loc val) = Inr True \<longrightarrow> (\<exists>i<n_of ab. key ab i = val))"
proof -
  note member = two_level.unmarked_membership [OF assms, of val] flat.unmarked_membership [OF assms, of val]
  have "(\<exists>i<n_of ab. key ab i = val)"
    if "bind_res (addr_find val ab) (\<lambda>loc. is_ref ab loc val) = Inr True \<or>
      bind_res (flat_find val ab) (\<lambda>loc. is_ref ab loc val) = Inr True"
    using that two_level.reports_tracked [OF assms] flat.reports_tracked [OF assms] by (elim disjE)
  then show ?thesis
    by (intro conjI impI) (rule trans [OF member(1) sym [OF member(2)]] member(1), assumption+ | blast)+
qed

theorem addr_find_equiv_flat_witness:
  "scannable (set_mark sample_ab 0) \<and>
   bind_res (flat_find 0x2000 (set_mark sample_ab 0)) (\<lambda>loc. is_ref (set_mark sample_ab 0) loc 0x2000) = Inr True"
proof -
  let ?b = "set_mark sample_ab 0"
  have n: "0 < n_of sample_ab" using sample_ab_scannable by (simp add: scannable_def n_of_def)
  have "marked_more sample_ab ?b" by (rule mark_entry(6) [OF sample_ab_scannable n])
  then have sc: "scannable ?b" and same: "n_of ?b = n_of sample_ab" "\<And>i. i < n_of sample_ab \<Longrightarrow> key ?b i = key sample_ab i"
    using sample_ab_scannable marked_more_scannable marked_more_fields marked_more_key by blast+
  have m: "marks ?b = {0}" using mark_entry(7) [OF sample_ab_scannable n] sample_ab_facts(5) by simp
  have "\<exists>i<n_of ?b. key ?b i = 0x2000"
    using sample_ab_facts same by (intro exI [of _ "Suc 0"]) simp
  then have tracked: "(\<exists>i<n_of ?b. key ?b i = 0x2000) = True" by blast
  have "0x2000 \<notin> key ?b ` marks ?b" using m same n sample_ab_facts by simp
  from mp [OF conjunct1 [OF addr_find_equiv_flat [OF sc]] this] show ?thesis unfolding tracked using sc by metis
qed

text \<open>
  C24: with a depth of one more than the number of tracked addresses, \<^verbatim>\<open>recursive_mark\<close>
  returns, stays inside its arrays, and marks exactly the entries that the given block refers
  to directly: no mark is lost, no other entry is marked and no address changes.
\<close>

theorem recursive_mark_direct:
  assumes "scannable ab" and "n_of ab < depth"
  shows "\<exists>b. recursive_mark depth mem usable addr ab (ts_of ab) = Inr b \<and> marked_more ab b \<and>
    marks b = marks ab \<union> refs_of mem usable ab (PTR_MASK addr)"
proof (rule recursive_mark_ok [OF assms(1) refl refl])
  have "card (refs_of mem usable ab (PTR_MASK addr) - marks ab) < Suc (n_of ab)"
    by (rule card_bounded) (auto simp: refs_of_def)
  with assms(2) show "card (refs_of mem usable ab (PTR_MASK addr) - marks ab) < depth" by linarith
qed

theorem recursive_mark_direct_witness:
  "scannable sample_ab \<and>
   (\<exists>b. recursive_mark 4 sample_mem sample_usable 0x1000 sample_ab (ts_of sample_ab) = Inr b \<and>
    marked_more sample_ab b \<and>
    marks b = marks sample_ab \<union> refs_of sample_mem sample_usable sample_ab (PTR_MASK 0x1000))"
  using sample_ab_scannable recursive_mark_direct [OF sample_ab_scannable, of 4] sample_ab_facts(1)
  by auto

text \<open>
  C2: processing a batch of candidate roots. The batch is sorted and compacted, every tracked
  address among the candidates ends up marked, whatever was marked before; only those and
  entries their blocks refer to directly are marked; the addresses themselves, the minimap and
  the other fields stay as they were; the batch is emptied. No array access is out of bounds,
  including the hinted search whose index is clamped one past the end.
\<close>

theorem lookup_lookaside_marks_roots:
  assumes "scannable ab" and "n \<le> length la" and "n \<le> 2 ^ 30"
    and "\<forall>v\<in>set (take n la). aligned v \<and> v \<le> ts_max (ts_of ab)"
  shows "\<exists>b la'. lookup_lookaside_list mem usable ab (ts_of ab) la (int n) = Inr (b, la', 0) \<and>
    length la' = length la \<and> marked_more ab b \<and> hits ab (set (take n la)) \<subseteq> marks b \<and>
    marks b \<subseteq> marks ab \<union> hits_and_refs mem usable ab (set (take n la))"
  by (rule lookup_lookaside_ok [OF assms, of mem usable]) blast

theorem lookup_lookaside_marks_roots_witness:
  "\<exists>b la'. lookup_lookaside_list sample_mem sample_usable sample_ab (ts_of sample_ab)
       [0x3000, 0x1000, 0x3000, 0] (int 3) = Inr (b, la', 0) \<and>
    hits sample_ab {0x1000, 0x3000} \<subseteq> marks b"
proof -
  let ?la = "[0x3000, 0x1000, 0x3000, 0 :: size_t]"
  have "\<exists>b la'. lookup_lookaside_list sample_mem sample_usable sample_ab (ts_of sample_ab) ?la (int 3)
      = Inr (b, la', 0) \<and> length la' = length ?la \<and> marked_more sample_ab b \<and>
    hits sample_ab (set (take 3 ?la)) \<subseteq> marks b \<and>
    marks b \<subseteq> marks sample_ab \<union> hits_and_refs sample_mem sample_usable sample_ab (set (take 3 ?la))"
    by (rule lookup_lookaside_marks_roots [OF sample_ab_scannable]) (simp_all add: sample_ts)
  then show ?thesis by (auto simp: insert_commute)
qed

text \<open>
  The entries reachable from a set of candidate roots through tracked blocks: what a
  collection has to keep.
\<close>

inductive reachable ::
    "(size_t \<Rightarrow> size_t) \<Rightarrow> (size_t \<Rightarrow> size_t) \<Rightarrow> addr_buffer_t \<Rightarrow> size_t set \<Rightarrow> nat \<Rightarrow> bool"
  for mem usable ab V where
  root: "i \<in> hits ab V \<Longrightarrow> reachable mem usable ab V i"
| follow: "reachable mem usable ab V i \<Longrightarrow> k \<in> refs_of mem usable ab (key ab i) \<Longrightarrow>
    reachable mem usable ab V k"

text \<open>
  C25: the marking is not transitive, because the recursive call of \<^verbatim>\<open>recursive_mark\<close> passes
  the block it is reading instead of the block it has just found. In a chain of three tracked
  blocks of which a root refers to the first, the third is reachable but stays unmarked, so
  it counts as unreferenced.
\<close>

theorem marking_misses_reachable:
  "\<exists>b la'. lookup_lookaside_list sample_mem sample_usable sample_ab (ts_of sample_ab) [0x1000] 1
      = Inr (b, la', 0) \<and>
    marks b = {0, 1} \<and> reachable sample_mem sample_usable sample_ab {0x1000} 2"
proof -
  have run: "map_sum id (\<lambda>(b, la', n). (ab_addrs b, ab_n_addrs b, n))
     (lookup_lookaside_list sample_mem sample_usable sample_ab
        \<lparr>ts_min = 0x1000, ts_max = 0x3000\<rparr> [0x1000] 1)
     = Inr ([0x1001, 0x2001, 0x3000, 0], 3, 0)" by code_simp
  have "reachable sample_mem sample_usable sample_ab {0x1000} 0"
    by (rule reachable.root) (simp add: hits_def sample_ab_facts)
  then have "reachable sample_mem sample_usable sample_ab {0x1000} (Suc 0)"
    by (rule reachable.follow)
      (simp add: refs_of_def sample_ab_facts sample_usable_def sample_mem_def PTR_MASK_def exI [of _ "0::nat"])
  then have "reachable sample_mem sample_usable sample_ab {0x1000} 2"
    by (rule reachable.follow)
      (simp add: refs_of_def sample_ab_facts sample_usable_def sample_mem_def PTR_MASK_def exI [of _ "0::nat"])
  moreover obtain b la' where "lookup_lookaside_list sample_mem sample_usable sample_ab (ts_of sample_ab)
      [0x1000] 1 = Inr (b, la', 0)" "ab_addrs b = [0x1001, 0x2001, 0x3000, 0]" "ab_n_addrs b = 3"
    using run unfolding sample_ts by (auto simp: map_sum_def split: sum.splits prod.splits)
  moreover have "marks b = {0, 1}" if "ab_addrs b = [0x1001, 0x2001, 0x3000, 0]" "ab_n_addrs b = 3" for b
    using that by (auto simp: marks_def n_of_def less_3_cases)
  ultimately show ?thesis by blast
qed

end
