(* ===== verification/Roots.thy ===== *)
theory Roots
  imports Scan
begin

text \<open>
  The search for roots, \<^verbatim>\<open>find_roots\<close> of \<^verbatim>\<open>src/child.c\<close>: a range of memory is read word by word,
  except for the blocks that are being tracked and the blocks known to be dead; every word that
  could be an address of the buffer is put aside in the lookaside list, which is looked up
  whenever it is full.
\<close>

section \<open>The code\<close>

definition LOOKASIDE_SZ :: int where
  "LOOKASIDE_SZ = 0x4000"

text \<open>What the scan works on: the shared buffer and the process's own lookaside list.\<close>

record roots_t =
  rt_ab :: addr_buffer_t
  g_lookaside_list :: "size_t list"
  g_lookaside_count :: int

text \<open>\<^verbatim>\<open>update_addr_loc\<close> moves to the next address to avoid.\<close>

definition update_addr_loc :: "int \<Rightarrow> addr_buffer_t \<Rightarrow> (int \<times> size_t) res" where
  "update_addr_loc idx buf =
     bind_res (cint (idx + 1)) (\<lambda>idx.
     if ab_n_addrs buf > idx
     then bind_res (rd (ab_addrs buf) idx) (\<lambda>a. Inr (idx, PTR_MASK a))
     else Inr (idx, - 1))"

text \<open>The body and the loop that read one stretch of memory.\<close>

definition scan_word ::
    "(size_t \<Rightarrow> size_t) \<Rightarrow> (size_t \<Rightarrow> size_t) \<Rightarrow> trace_stats_t \<Rightarrow> size_t \<Rightarrow> roots_t \<Rightarrow> roots_t res" where
  "scan_word mem usable ts low r =
     (let cmp = PTR_MASK (mem low) in
      if cmp < ts_min ts \<or> cmp > ts_max ts then Inr r
      else
        bind_res (wr (g_lookaside_list r) (g_lookaside_count r) cmp) (\<lambda>la.
        let n = g_lookaside_count r + 1 in
        if n < LOOKASIDE_SZ then Inr (r\<lparr>g_lookaside_list := la, g_lookaside_count := n\<rparr>)
        else bind_res (lookup_lookaside_list mem usable (rt_ab r) ts la n) (\<lambda>(ab, la, n).
             Inr (r\<lparr>rt_ab := ab, g_lookaside_list := la, g_lookaside_count := n\<rparr>))))"

fun scan_words ::
    "nat \<Rightarrow> (size_t \<Rightarrow> size_t) \<Rightarrow> (size_t \<Rightarrow> size_t) \<Rightarrow> trace_stats_t \<Rightarrow> size_t \<Rightarrow> size_t \<Rightarrow> roots_t \<Rightarrow>
      (size_t \<times> roots_t) res" where
  "scan_words 0 mem usable ts low stop r = (if low < stop then Inl No_return else Inr (low, r))"
| "scan_words (Suc k) mem usable ts low stop r =
     (if low < stop
      then bind_res (scan_word mem usable ts low r) (\<lambda>r. scan_words k mem usable ts (low + 8) stop r)
      else Inr (low, r))"

text \<open>
  One round of the outer loop, up to the next address to avoid and past its block, and the
  loop; \<open>k\<close> bounds the number of rounds.
\<close>

definition find_roots_round ::
    "(size_t \<Rightarrow> size_t) \<Rightarrow> (size_t \<Rightarrow> size_t) \<Rightarrow> trace_stats_t \<Rightarrow> addr_buffer_t \<Rightarrow> size_t \<Rightarrow> size_t \<Rightarrow>
      int \<times> size_t \<Rightarrow> int \<times> size_t \<Rightarrow> roots_t \<Rightarrow> (size_t \<times> (int \<times> size_t) \<times> (int \<times> size_t) \<times> roots_t) res" where
  "find_roots_round mem usable ts deadrefs low high = (\<lambda>(pool_idx, pool_addr) (dead_idx, dead_addr) r.
     let guarded_addr = MIN_OF pool_addr dead_addr;
         next_stopping_point = MIN_OF guarded_addr high
     in
     bind_res (scan_words (Suc (unat (next_stopping_point - low))) mem usable ts low next_stopping_point r) (\<lambda>(low, r).
     if next_stopping_point = guarded_addr
     then
       let low = low + usable guarded_addr in
       if guarded_addr = pool_addr
       then bind_res (update_addr_loc pool_idx (rt_ab r)) (\<lambda>pool. Inr (low, pool, (dead_idx, dead_addr), r))
       else bind_res (update_addr_loc dead_idx deadrefs) (\<lambda>dead. Inr (low, (pool_idx, pool_addr), dead, r))
     else Inr (low, (pool_idx, pool_addr), (dead_idx, dead_addr), r)))"

fun find_roots_loop ::
    "nat \<Rightarrow> (size_t \<Rightarrow> size_t) \<Rightarrow> (size_t \<Rightarrow> size_t) \<Rightarrow> trace_stats_t \<Rightarrow> addr_buffer_t \<Rightarrow> size_t \<Rightarrow> size_t \<Rightarrow>
      int \<times> size_t \<Rightarrow> int \<times> size_t \<Rightarrow> roots_t \<Rightarrow> roots_t res" where
  "find_roots_loop 0 mem usable ts deadrefs low high pool dead r = (if low < high then Inl No_return else Inr r)"
| "find_roots_loop (Suc k) mem usable ts deadrefs low high pool dead r =
     (if low < high
      then bind_res (find_roots_round mem usable ts deadrefs low high pool dead r) (\<lambda>(low, pool, dead, r).
           find_roots_loop k mem usable ts deadrefs low high pool dead r)
      else Inr r)"

text \<open>Where the search starts: behind the tracked or dead block that holds \<open>low\<close>, if any.\<close>

definition skip_block :: "(size_t \<Rightarrow> size_t) \<Rightarrow> size_t \<Rightarrow> int \<Rightarrow> size_t \<Rightarrow> addr_buffer_t \<Rightarrow>
    (size_t \<times> int \<times> size_t) res" where
  "skip_block usable low idx addr buf =
     (if addr \<le> low
      then
        let sz = usable addr; low = (if addr + sz > low then addr + sz else low) in
        bind_res (update_addr_loc idx buf) (\<lambda>loc. Inr (low, loc))
      else Inr (low, idx, addr))"

definition find_roots ::
    "(size_t \<Rightarrow> size_t) \<Rightarrow> (size_t \<Rightarrow> size_t) \<Rightarrow> size_t \<Rightarrow> size_t \<Rightarrow> addr_buffer_t \<Rightarrow> roots_t \<Rightarrow> roots_t res" where
  "find_roots mem usable low high deadrefs r =
     (let ab = rt_ab r in
      bind_res (rd (ab_addrs ab) 0) (\<lambda>first.
      bind_res (rd (ab_addrs ab) (ab_n_addrs ab - 1)) (\<lambda>final.
      let ts = \<lparr>ts_min = PTR_MASK first, ts_max = PTR_MASK final\<rparr> in
      bind_res (addr_find low ab) (\<lambda>pool_idx.
      bind_res (rd (ab_addrs ab) pool_idx) (\<lambda>a.
      bind_res (skip_block usable low pool_idx (PTR_MASK a) ab) (\<lambda>(low, pool).
      bind_res
        (if ab_n_addrs deadrefs > 0
         then
           bind_res (binary_search low (ab_addrs deadrefs) 0 (ab_n_addrs deadrefs)) (\<lambda>dead_idx.
           bind_res (rd (ab_addrs deadrefs) dead_idx) (\<lambda>dead_addr.
           skip_block usable low dead_idx dead_addr deadrefs))
         else Inr (low, 0, - 1)) (\<lambda>(low, dead).
      find_roots_loop (Suc (n_of ab + n_of deadrefs)) mem usable ts deadrefs low high pool dead r)))))))"

section \<open>Reading words\<close>

text \<open>
  The progress of a scan: \<open>V\<close> are the values read so far. Each tracked address among them is
  marked or waits in the lookaside list; nothing else is marked but what they and their blocks
  refer to.
\<close>

definition recorded :: "(size_t \<Rightarrow> size_t) \<Rightarrow> (size_t \<Rightarrow> size_t) \<Rightarrow> addr_buffer_t \<Rightarrow> size_t set \<Rightarrow> roots_t \<Rightarrow> bool" where
  "recorded mem usable ab V r \<longleftrightarrow> marked_more ab (rt_ab r) \<and>
     length (g_lookaside_list r) = nat LOOKASIDE_SZ \<and> 0 \<le> g_lookaside_count r \<and> g_lookaside_count r < LOOKASIDE_SZ \<and>
     (let P = set (take (nat (g_lookaside_count r)) (g_lookaside_list r)) in
      P \<subseteq> V \<and> (\<forall>v\<in>P. aligned v \<and> v \<le> ts_max (ts_of ab)) \<and>
      hits ab V \<subseteq> marks (rt_ab r) \<union> hits ab P \<and>
      marks (rt_ab r) \<subseteq> marks ab \<union> hits_and_refs mem usable ab V)"

lemma hits_Un: "hits ab (A \<union> B) = hits ab A \<union> hits ab B"
  by (auto simp: hits_def)

lemma hits_mono: "A \<subseteq> B \<Longrightarrow> hits ab A \<subseteq> hits ab B"
  by (auto simp: hits_def)

lemma hits_and_refs_mono: "A \<subseteq> B \<Longrightarrow> hits_and_refs mem usable ab A \<subseteq> hits_and_refs mem usable ab B"
  unfolding hits_and_refs_def using hits_mono [of A B ab] by blast

lemma LOOKASIDE_nat: "nat LOOKASIDE_SZ = 16384" "LOOKASIDE_SZ = 16384"
  by (simp_all add: LOOKASIDE_SZ_def)

text \<open>Looking up what waits.\<close>

lemma flush_ok:
  assumes sc: "scannable ab" and m: "marked_more ab b" and n: "n \<le> length la" "n \<le> 16384"
    and P: "set (take n la) \<subseteq> V" "\<forall>v\<in>set (take n la). aligned v \<and> v \<le> ts_max (ts_of ab)"
    and h: "hits ab V \<subseteq> marks b \<union> hits ab (set (take n la))" "marks b \<subseteq> marks ab \<union> hits_and_refs mem usable ab V"
  shows "\<exists>c la'. lookup_lookaside_list mem usable b (ts_of ab) la (int n) = Inr (c, la', 0) \<and> length la' = length la \<and>
    marked_more ab c \<and> hits ab V \<subseteq> marks c \<and> marks c \<subseteq> marks ab \<union> hits_and_refs mem usable ab V"
proof -
  have ts: "ts_of b = ts_of ab" by (rule ts_of_cong [OF m]) (use scannable_n [OF sc] in simp)
  obtain c la' where c: "lookup_lookaside_list mem usable b (ts_of b) la (int n) = Inr (c, la', 0)" "length la' = length la"
    "marked_more b c" "hits b (set (take n la)) \<subseteq> marks c"
    "marks c \<subseteq> marks b \<union> hits_and_refs mem usable b (set (take n la))"
    by (rule lookup_lookaside_ok [OF marked_more_scannable [OF m sc] n(1), of mem usable]) (use n(2) P(2) ts in simp_all)
  have "hits ab V \<subseteq> marks c"
    using h(1) c(4) marked_more_marks [OF c(3)] hits_cong [OF m] by auto
  moreover have "marks c \<subseteq> marks ab \<union> hits_and_refs mem usable ab V"
    using c(5) h(2) hits_and_refs_mono [OF P(1), of mem usable ab] hits_and_refs_cong [OF m] by blast
  ultimately show ?thesis using c marked_more_trans [OF m c(3)] ts by auto
qed

lemma scan_word_ok:
  assumes sc: "scannable ab" and r: "recorded mem usable ab V r"
  shows "\<exists>r'. scan_word mem usable (ts_of ab) w r = Inr r' \<and> recorded mem usable ab (insert (PTR_MASK (mem w)) V) r'"
proof -
  let ?v = "PTR_MASK (mem w)" and ?la = "g_lookaside_list r"
  have "0 \<le> g_lookaside_count r" "g_lookaside_count r < 16384" using r by (auto simp: recorded_def LOOKASIDE_nat)
  then obtain k where n: "g_lookaside_count r = int k" "k < 16384" by (auto elim: nonneg_int_cases)
  have len: "length ?la = 16384" and m: "marked_more ab (rt_ab r)" using r by (auto simp: recorded_def LOOKASIDE_nat)
  let ?P = "set (take k ?la)"
  have P: "?P \<subseteq> V" "\<forall>v\<in>?P. aligned v \<and> v \<le> ts_max (ts_of ab)" "hits ab V \<subseteq> marks (rt_ab r) \<union> hits ab ?P"
    "marks (rt_ab r) \<subseteq> marks ab \<union> hits_and_refs mem usable ab V"
    using r n by (auto simp: recorded_def Let_def)
  have up: "hits_and_refs mem usable ab V \<subseteq> hits_and_refs mem usable ab (insert ?v V)"
    by (rule hits_and_refs_mono) blast
  show ?thesis
  proof (cases "?v < ts_min (ts_of ab) \<or> ?v > ts_max (ts_of ab)")
    case True
    have "i \<notin> hits ab {?v}" for i
    proof
      assume "i \<in> hits ab {?v}"
      then have i: "i < n_of ab" "key ab i = ?v" by (auto simp: hits_def)
      from key_in_ts [OF sc i(1)] i(2) True show False by (auto dest: leD)
    qed
    then have "hits ab (insert ?v V) = hits ab V" using hits_Un [of ab "{?v}" V] by auto
    then have "recorded mem usable ab (insert ?v V) r" using r up by (auto simp: recorded_def Let_def)
    then show ?thesis using True by (simp add: scan_word_def)
  next
    case False
    let ?la' = "?la[k := ?v]"
    have t: "take (Suc k) ?la' = take k ?la @ [?v]" using n len by (simp add: take_Suc_conv_app_nth)
    then have P': "set (take (Suc k) ?la') = insert ?v ?P" by simp
    have h': "hits ab (insert ?v V) \<subseteq> marks (rt_ab r) \<union> hits ab (insert ?v ?P)"
      using P(3) hits_Un [of ab "{?v}" V] hits_Un [of ab "{?v}" ?P] by auto
    have m': "marks (rt_ab r) \<subseteq> marks ab \<union> hits_and_refs mem usable ab (insert ?v V)" using P(4) up by blast
    have al: "\<forall>v\<in>insert ?v ?P. aligned v \<and> v \<le> ts_max (ts_of ab)" using P(2) False by (auto simp: not_less)
    show ?thesis
    proof (cases "Suc k < 16384")
      case True
      then have "scan_word mem usable (ts_of ab) w r = Inr (r\<lparr>g_lookaside_list := ?la', g_lookaside_count := int (Suc k)\<rparr>)"
        using False n len by (simp add: scan_word_def wr_def LOOKASIDE_nat Let_def)
      moreover have "recorded mem usable ab (insert ?v V) (r\<lparr>g_lookaside_list := ?la', g_lookaside_count := int (Suc k)\<rparr>)"
        using True n len m P(1) P' h' m' al by (auto simp: recorded_def Let_def LOOKASIDE_nat)
      ultimately show ?thesis by blast
    next
      case full: False
      obtain c la where c: "lookup_lookaside_list mem usable (rt_ab r) (ts_of ab) ?la' (int (Suc k)) = Inr (c, la, 0)"
        "length la = length ?la'" "marked_more ab c" "hits ab (insert ?v V) \<subseteq> marks c"
        "marks c \<subseteq> marks ab \<union> hits_and_refs mem usable ab (insert ?v V)"
        using flush_ok [OF sc m, of "Suc k" ?la' "insert ?v V" mem usable] n len P(1) P' h' m' al by auto
      have "scan_word mem usable (ts_of ab) w r = Inr (r\<lparr>rt_ab := c, g_lookaside_list := la, g_lookaside_count := 0\<rparr>)"
        using False n len full c(1) by (simp add: scan_word_def wr_def LOOKASIDE_nat Let_def add.commute)
      moreover have "recorded mem usable ab (insert ?v V) (r\<lparr>rt_ab := c, g_lookaside_list := la, g_lookaside_count := 0\<rparr>)"
        using c n len by (auto simp: recorded_def LOOKASIDE_nat)
      ultimately show ?thesis by blast
    qed
  qed
qed

text \<open>The values of the words between two addresses (numbers divisible by 8).\<close>

definition words :: "nat \<Rightarrow> nat \<Rightarrow> nat set" where
  "words lo hi = {w. lo \<le> w \<and> w < hi \<and> 8 dvd w}"

definition val_at :: "(size_t \<Rightarrow> size_t) \<Rightarrow> nat \<Rightarrow> size_t" where
  "val_at mem w = PTR_MASK (mem (of_nat w))"

lemma words_step: "8 dvd lo \<Longrightarrow> lo < hi \<Longrightarrow> words lo hi = insert lo (words (lo + 8) hi)"
  unfolding words_def by (auto simp: dvd_def)

lemma words_empty [simp]: "hi \<le> lo \<Longrightarrow> words lo hi = {}"
  by (auto simp: words_def)

lemma words_split: "lo \<le> m \<Longrightarrow> m \<le> hi \<Longrightarrow> words lo hi = words lo m \<union> words m hi"
  by (auto simp: words_def)

lemma unat_add_8: "8 dvd unat (stop :: size_t) \<Longrightarrow> 8 dvd unat low \<Longrightarrow> low < stop \<Longrightarrow>
    unat (low + 8) = unat low + 8 \<and> unat low + 8 \<le> unat stop"
proof -
  assume a: "8 dvd unat stop" "8 dvd unat low" "low < stop"
  then have "unat low < unat stop" by (simp add: word_less_nat_alt)
  then have le: "unat low + 8 \<le> unat stop" using a(1,2) by (auto simp: dvd_def)
  moreover have "unat stop < 18446744073709551616" by (rule unat_less_64)
  ultimately show ?thesis by (simp add: unat_word_ariths)
qed

lemma scan_words_ok:
  assumes sc: "scannable ab" and "recorded mem usable ab V r" and "low \<le> stop"
    and "8 dvd unat low" and stop: "8 dvd unat stop" and "unat stop - unat low < 8 * k"
  shows "\<exists>r'. scan_words k mem usable (ts_of ab) low stop r = Inr (stop, r') \<and>
    recorded mem usable ab (V \<union> val_at mem ` words (unat low) (unat stop)) r'"
  using assms(2-4,6)
proof (induction k arbitrary: low V r)
  case (Suc k)
  show ?case
  proof (cases "low < stop")
    case True
    note nxt = unat_add_8 [OF stop Suc.prems(3) True]
    obtain r1 where r1: "scan_word mem usable (ts_of ab) low r = Inr r1"
      "recorded mem usable ab (insert (PTR_MASK (mem low)) V) r1"
      using scan_word_ok [OF sc Suc.prems(1)] by blast
    have "low + 8 \<le> stop" "8 dvd unat (low + 8)" "unat stop - unat (low + 8) < 8 * k"
      using nxt Suc.prems(3,4) True by (auto simp: word_le_nat_alt word_less_nat_alt)
    from Suc.IH [OF r1(2) this] obtain r' where r': "scan_words k mem usable (ts_of ab) (low + 8) stop r1 = Inr (stop, r')"
      "recorded mem usable ab (insert (PTR_MASK (mem low)) V \<union> val_at mem ` words (unat (low + 8)) (unat stop)) r'" by blast
    have "words (unat low) (unat stop) = insert (unat low) (words (unat (low + 8)) (unat stop))"
      using words_step [of "unat low" "unat stop"] Suc.prems(3) True nxt by (simp add: word_less_nat_alt)
    then have "insert (PTR_MASK (mem low)) V \<union> val_at mem ` words (unat (low + 8)) (unat stop) =
        V \<union> val_at mem ` words (unat low) (unat stop)" by (simp add: val_at_def)
    with r' True r1(1) show ?thesis by simp
  next
    case False
    then show ?thesis using Suc.prems(1,2) by simp
  qed
qed (simp add: word_le_nat_alt word_less_nat_alt)

section \<open>The blocks that are left out\<close>

text \<open>
  What the allocator promises of the blocks it has handed out, the tracked and the dead ones:
  they start and end on word boundaries, they do not reach the end of the address space and
  they do not overlap.
\<close>

definition blocks_ok :: "(size_t \<Rightarrow> size_t) \<Rightarrow> size_t set \<Rightarrow> bool" where
  "blocks_ok usable S \<longleftrightarrow>
     (\<forall>p\<in>S. 8 dvd unat p \<and> 8 dvd unat (usable p) \<and> unat p + unat (usable p) < 2 ^ 64 \<and>
        (\<forall>q\<in>S. p < q \<longrightarrow> unat p + unat (usable p) \<le> unat q))"

definition in_block :: "(size_t \<Rightarrow> size_t) \<Rightarrow> size_t set \<Rightarrow> nat \<Rightarrow> bool" where
  "in_block usable S w \<longleftrightarrow> (\<exists>p\<in>S. unat p \<le> w \<and> w < unat p + unat (usable p))"

definition tracked_keys :: "addr_buffer_t \<Rightarrow> size_t set" where
  "tracked_keys ab = key ab ` {..<n_of ab}"

definition dead_addrs_of :: "addr_buffer_t \<Rightarrow> size_t set" where
  "dead_addrs_of d = (\<lambda>i. ab_addrs d ! i) ` {..<n_of d}"

text \<open>The list of dead references: sorted, apart from the tracked addresses.\<close>

definition deadrefs_ok :: "addr_buffer_t \<Rightarrow> bool" where
  "deadrefs_ok d \<longleftrightarrow> 0 \<le> ab_n_addrs d \<and> n_of d \<le> length (ab_addrs d) \<and> n_of d \<le> 2 ^ 30 \<and>
     ascending (ab_addrs d) 0 (n_of d) \<and> (\<forall>i<n_of d. aligned (ab_addrs d ! i))"

definition snapshot_ok :: "(size_t \<Rightarrow> size_t) \<Rightarrow> addr_buffer_t \<Rightarrow> addr_buffer_t \<Rightarrow> bool" where
  "snapshot_ok usable ab d \<longleftrightarrow> scannable ab \<and> deadrefs_ok d \<and>
     tracked_keys ab \<inter> dead_addrs_of d = {} \<and> blocks_ok usable (tracked_keys ab \<union> dead_addrs_of d)"

lemma block_end:
  assumes "blocks_ok usable S" "p \<in> S"
  shows "unat (p + usable p) = unat p + unat (usable p)" "8 dvd unat (p + usable p)" "8 dvd unat p"
    "\<And>q. q \<in> S \<Longrightarrow> p < q \<Longrightarrow> p + usable p \<le> q"
proof -
  have b: "8 dvd unat p" "8 dvd unat (usable p)" "unat p + unat (usable p) < 2 ^ 64"
    "\<forall>q\<in>S. p < q \<longrightarrow> unat p + unat (usable p) \<le> unat q"
    using assms by (auto simp: blocks_ok_def)
  then show e: "unat (p + usable p) = unat p + unat (usable p)" by (simp add: unat_word_ariths)
  show "8 dvd unat (p + usable p)" "8 dvd unat p" using b e by auto
  show "p + usable p \<le> q" if "q \<in> S" "p < q" for q using b(4) that e by (simp add: word_le_nat_alt)
qed

section \<open>The search\<close>

definition pool_loc :: "addr_buffer_t \<Rightarrow> nat \<Rightarrow> int \<times> size_t" where
  "pool_loc ab i = (int i, if i < n_of ab then key ab i else - 1)"

definition dead_loc :: "addr_buffer_t \<Rightarrow> nat \<Rightarrow> int \<times> size_t" where
  "dead_loc d i = (int i, if i < n_of d then ab_addrs d ! i else - 1)"

lemma update_pool:
  assumes "scannable ab" "marked_more ab b" "i < n_of ab"
  shows "update_addr_loc (int i) b = Inr (pool_loc ab (Suc i))"
proof -
  have n: "ab_n_addrs b = int (n_of ab)" "n_of ab \<le> length (ab_addrs b)" "n_of ab \<le> 2 ^ 30"
    using assms marked_more_fields [OF assms(2)] scannable_n [OF assms(1)] by (auto simp: scannable_def)
  have "PTR_MASK (ab_addrs b ! Suc i) = key ab (Suc i)" if "Suc i < n_of ab"
    using marked_more_key [OF assms(2) that] by (simp add: key_def)
  then show ?thesis using n assms(3) by (auto simp: update_addr_loc_def pool_loc_def cint_def rd_def add.commute)
qed

lemma update_dead:
  assumes "deadrefs_ok d" "i < n_of d"
  shows "update_addr_loc (int i) d = Inr (dead_loc d (Suc i))"
proof -
  have n: "ab_n_addrs d = int (n_of d)" "n_of d \<le> length (ab_addrs d)" "n_of d \<le> 2 ^ 30"
    using assms by (auto simp: deadrefs_ok_def n_of_def)
  have "PTR_MASK (ab_addrs d ! Suc i) = ab_addrs d ! Suc i" if "Suc i < n_of d"
    using assms that by (intro PTR_MASK_id) (simp add: deadrefs_ok_def)
  then show ?thesis using n assms(2) by (auto simp: update_addr_loc_def dead_loc_def cint_def rd_def add.commute)
qed

text \<open>Between two rounds, no block that is still ahead begins before the place that was reached.\<close>

definition ahead :: "addr_buffer_t \<Rightarrow> addr_buffer_t \<Rightarrow> size_t \<Rightarrow> nat \<Rightarrow> nat \<Rightarrow> bool" where
  "ahead ab d low i j \<longleftrightarrow> i \<le> n_of ab \<and> j \<le> n_of d \<and> 8 dvd unat low \<and>
     (\<forall>k. i \<le> k \<longrightarrow> k < n_of ab \<longrightarrow> low \<le> key ab k) \<and> (\<forall>k. j \<le> k \<longrightarrow> k < n_of d \<longrightarrow> low \<le> ab_addrs d ! k)"

lemma snapshot_member:
  "i < n_of ab \<Longrightarrow> key ab i \<in> tracked_keys ab \<union> dead_addrs_of d"
  "j < n_of d \<Longrightarrow> ab_addrs d ! j \<in> tracked_keys ab \<union> dead_addrs_of d"
  by (auto simp: tracked_keys_def dead_addrs_of_def)

lemma snapshot_apart:
  "snapshot_ok usable ab d \<Longrightarrow> i < n_of ab \<Longrightarrow> j < n_of d \<Longrightarrow> key ab i \<noteq> ab_addrs d ! j"
  unfolding snapshot_ok_def tracked_keys_def dead_addrs_of_def by blast

lemma dead_less: "snapshot_ok usable ab d \<Longrightarrow> j < k \<Longrightarrow> k < n_of d \<Longrightarrow> ab_addrs d ! j < ab_addrs d ! k"
  by (auto simp: snapshot_ok_def deadrefs_ok_def intro: ascendingD)

lemma ahead_pool:
  assumes sn: "snapshot_ok usable ab d" and a: "ahead ab d low i j" and i: "i < n_of ab"
    and first: "\<forall>k. j \<le> k \<longrightarrow> k < n_of d \<longrightarrow> key ab i \<le> ab_addrs d ! k"
  shows "ahead ab d (key ab i + usable (key ab i)) (Suc i) j"
proof -
  let ?S = "tracked_keys ab \<union> dead_addrs_of d"
  have b: "blocks_ok usable ?S" and sc: "scannable ab" using sn by (auto simp: snapshot_ok_def)
  note e = block_end [OF b snapshot_member(1) [OF i]]
  have "key ab i + usable (key ab i) \<le> key ab k" if "Suc i \<le> k" "k < n_of ab" for k
    using e(4) snapshot_member(1) [OF that(2)] key_less_iff [OF sc i that(2)] that by simp
  moreover have "key ab i + usable (key ab i) \<le> ab_addrs d ! k" if "j \<le> k" "k < n_of d" for k
    using e(4) snapshot_member(2) [OF that(2)] first snapshot_apart [OF sn i that(2)] that by (simp add: order_less_le)
  ultimately show ?thesis using a i e(2) by (simp add: ahead_def)
qed

lemma ahead_dead:
  assumes sn: "snapshot_ok usable ab d" and a: "ahead ab d low i j" and j: "j < n_of d"
    and first: "\<forall>k. i \<le> k \<longrightarrow> k < n_of ab \<longrightarrow> ab_addrs d ! j \<le> key ab k"
  shows "ahead ab d (ab_addrs d ! j + usable (ab_addrs d ! j)) i (Suc j)"
proof -
  let ?S = "tracked_keys ab \<union> dead_addrs_of d"
  have b: "blocks_ok usable ?S" using sn by (auto simp: snapshot_ok_def)
  note e = block_end [OF b snapshot_member(2) [OF j]]
  have "ab_addrs d ! j + usable (ab_addrs d ! j) \<le> ab_addrs d ! k" if "Suc j \<le> k" "k < n_of d" for k
    using e(4) snapshot_member(2) [OF that(2)] dead_less [OF sn _ that(2)] that by simp
  moreover have "ab_addrs d ! j + usable (ab_addrs d ! j) \<le> key ab k" if "i \<le> k" "k < n_of ab" for k
    using e(4) snapshot_member(1) [OF that(2)] first snapshot_apart [OF sn that(2) j] that by (auto simp: order_less_le)
  ultimately show ?thesis using a j e(2) by (simp add: ahead_def)
qed

text \<open>What a stretch of the search promises: the words it did not read are in blocks.\<close>

definition stretch :: "(size_t \<Rightarrow> size_t) \<Rightarrow> addr_buffer_t \<Rightarrow> addr_buffer_t \<Rightarrow> size_t \<Rightarrow> size_t \<Rightarrow> size_t \<Rightarrow> nat set \<Rightarrow> bool" where
  "stretch usable ab d low low' high W \<longleftrightarrow> low \<le> low' \<and> W \<subseteq> words (unat low) (unat high) \<and>
     (\<forall>w\<in>words (unat low) (min (unat low') (unat high)). w \<notin> W \<longrightarrow> in_block usable (tracked_keys ab \<union> dead_addrs_of d) w)"

lemma stretch_block:
  assumes b: "blocks_ok usable S" and S: "S = tracked_keys ab \<union> dead_addrs_of d" "p \<in> S" and p: "low \<le> p" "p \<le> high"
  shows "stretch usable ab d low (p + usable p) high (words (unat low) (unat p))"
proof -
  note e = block_end [OF b S(2)]
  have "low \<le> p + usable p" using p(1) e(1) by (simp add: word_le_nat_alt)
  moreover have "words (unat low) (unat p) \<subseteq> words (unat low) (unat high)"
    using p by (auto simp: words_def word_le_nat_alt)
  moreover have "in_block usable S w"
    if "w \<in> words (unat low) (min (unat (p + usable p)) (unat high))" "w \<notin> words (unat low) (unat p)" for w
    using that S(2) e(1) by (auto simp: words_def in_block_def not_less intro!: bexI [of _ p])
  ultimately show ?thesis by (simp add: stretch_def S(1))
qed

lemma not_minus_1: "aligned v \<Longrightarrow> v \<noteq> - 1" "8 dvd unat (u :: size_t) \<Longrightarrow> u \<noteq> - 1"
proof -
  have "unat (- 1 :: size_t) = 18446744073709551615" by (simp add: unsigned_minus_1_eq_mask mask_eq_exp_minus_1)
  then show "aligned v \<Longrightarrow> v \<noteq> - 1" "8 dvd unat u \<Longrightarrow> u \<noteq> - 1" by auto
qed

definition round_done :: "(size_t \<Rightarrow> size_t) \<Rightarrow> (size_t \<Rightarrow> size_t) \<Rightarrow> addr_buffer_t \<Rightarrow> addr_buffer_t \<Rightarrow> size_t set \<Rightarrow> size_t \<Rightarrow>
    size_t \<Rightarrow> nat \<Rightarrow> nat \<Rightarrow> size_t \<Rightarrow> nat \<Rightarrow> nat \<Rightarrow> roots_t \<Rightarrow> bool" where
  "round_done mem usable ab d V low high i j low' i' j' r' \<longleftrightarrow>
     ahead ab d low' i' j' \<and> (i' + j' = i + j + 1 \<or> \<not> low' < high) \<and>
     (\<exists>W. stretch usable ab d low low' high W \<and> recorded mem usable ab (V \<union> val_at mem ` W) r')"

lemma find_roots_round_ok:
  assumes sn: "snapshot_ok usable ab d" and r: "recorded mem usable ab V r" and a: "ahead ab d low i j"
    and lt: "low < high" and al: "8 dvd unat high"
  shows "\<exists>low' i' j' r'. find_roots_round mem usable (ts_of ab) d low high (pool_loc ab i) (dead_loc d j) r =
      Inr (low', pool_loc ab i', dead_loc d j', r') \<and> round_done mem usable ab d V low high i j low' i' j' r'"
proof -
  let ?S = "tracked_keys ab \<union> dead_addrs_of d"
  have sc: "scannable ab" and dok: "deadrefs_ok d" and b: "blocks_ok usable ?S" using sn by (auto simp: snapshot_ok_def)
  have low8: "8 dvd unat low" and ij: "i \<le> n_of ab" "j \<le> n_of d" using a by (auto simp: ahead_def)
  let ?p = "snd (pool_loc ab i)" and ?q = "snd (dead_loc d j)"
  define g where "g = min ?p ?q"
  define stop where "stop = min g high"
  have p: "low \<le> ?p" "?p = - 1 \<or> i < n_of ab \<and> ?p = key ab i"
    and q: "low \<le> ?q" "?q = - 1 \<or> j < n_of d \<and> ?q = ab_addrs d ! j"
    using a by (auto simp: ahead_def pool_loc_def dead_loc_def)
  have g: "g = - 1 \<or> g \<in> ?S"
    using p(2) q(2) snapshot_member [of i ab d] snapshot_member(2) [of j d ab] by (auto simp: g_def min_def)
  have high: "high < - 1" using not_minus_1(2) [OF al] by (simp add: order_less_le)
  have stop_g: "stop = g \<longleftrightarrow> g \<le> high" and stop8: "8 dvd unat stop" and ls: "low \<le> stop"
    using g block_end(3) [OF b, of g] high al p(1) q(1) lt by (auto simp: stop_def g_def min_def)
  have k: "unat stop - unat low < 8 * Suc (unat (stop - low))" using ls by (simp add: unat_sub word_le_nat_alt)
  obtain r' where r': "scan_words (Suc (unat (stop - low))) mem usable (ts_of ab) low stop r = Inr (stop, r')"
    "recorded mem usable ab (V \<union> val_at mem ` words (unat low) (unat stop)) r'"
    using scan_words_ok [OF sc r ls low8 stop8 k] by blast
  have m: "marked_more ab (rt_ab r')" using r'(2) by (simp add: recorded_def)
  have run: "find_roots_round mem usable (ts_of ab) d low high (pool_loc ab i) (dead_loc d j) r =
      (if stop = g then
         if g = ?p then bind_res (update_addr_loc (int i) (rt_ab r')) (\<lambda>pool. Inr (stop + usable g, pool, dead_loc d j, r'))
         else bind_res (update_addr_loc (int j) d) (\<lambda>dead. Inr (stop + usable g, pool_loc ab i, dead, r'))
       else Inr (stop, pool_loc ab i, dead_loc d j, r'))"
    using r'(1) by (simp add: find_roots_round_def pool_loc_def dead_loc_def g_def stop_def Let_def)
  have pf: "g \<le> key ab k" if "i \<le> k" "k < n_of ab" for k
  proof -
    have "g \<le> key ab i" using that by (simp add: g_def pool_loc_def)
    also have "\<dots> \<le> key ab k" using key_less_iff [OF sc, of i k] that by (cases "i = k") auto
    finally show ?thesis .
  qed
  have qf: "g \<le> ab_addrs d ! k" if "j \<le> k" "k < n_of d" for k
  proof -
    have "g \<le> ab_addrs d ! j" using that by (simp add: g_def dead_loc_def)
    also have "\<dots> \<le> ab_addrs d ! k" using dead_less [OF sn, of j k] that by (cases "j = k") auto
    finally show ?thesis .
  qed
  show ?thesis
  proof (cases "stop = g")
    case False
    then have "ahead ab d high i j" using ij al stop_g pf qf by (fastforce simp: ahead_def not_le)
    moreover have "stop = high" using False by (simp add: stop_def min_def split: if_splits)
    moreover have "stretch usable ab d low high high (words (unat low) (unat high))" using lt by (simp add: stretch_def)
    ultimately have "round_done mem usable ab d V low high i j high i j r'"
      using r'(2) by (auto simp: round_done_def)
    then show ?thesis using run False \<open>stop = high\<close> by auto
  next
    case True
    then have "g \<in> ?S" using g high stop_g by auto
    moreover have "low \<le> g" using p(1) q(1) by (simp add: g_def)
    ultimately have st: "stretch usable ab d low (g + usable g) high (words (unat low) (unat g))"
      using stretch_block [OF b refl] True stop_g by blast
    show ?thesis
    proof (cases "g = ?p")
      case gp: True
      then have i: "i < n_of ab" "g = key ab i" using p(2) high True stop_g by auto
      have "ahead ab d (g + usable g) (Suc i) j" unfolding i(2) by (intro ahead_pool [OF sn a i(1)]) (use qf i(2) in blast)
      then have "round_done mem usable ab d V low high i j (g + usable g) (Suc i) j r'"
        using st r'(2) True by (auto simp: round_done_def)
      then show ?thesis using run True gp update_pool [OF sc m i(1)] by auto
    next
      case False
      then have "g = ?q" by (simp add: g_def min_def split: if_splits)
      then have j: "j < n_of d" "g = ab_addrs d ! j" using q(2) high True stop_g by auto
      have "ahead ab d (g + usable g) i (Suc j)" unfolding j(2) by (intro ahead_dead [OF sn a j(1)]) (use pf j(2) in blast)
      then have "round_done mem usable ab d V low high i j (g + usable g) i (Suc j) r'"
        using st r'(2) True by (auto simp: round_done_def)
      then show ?thesis using run True False update_dead [OF dok j(1)] by auto
    qed
  qed
qed

definition covers :: "(size_t \<Rightarrow> size_t) \<Rightarrow> addr_buffer_t \<Rightarrow> addr_buffer_t \<Rightarrow> size_t \<Rightarrow> size_t \<Rightarrow> nat set \<Rightarrow> bool" where
  "covers usable ab d low high W \<longleftrightarrow> W \<subseteq> words (unat low) (unat high) \<and>
     (\<forall>w\<in>words (unat low) (unat high). w \<notin> W \<longrightarrow> in_block usable (tracked_keys ab \<union> dead_addrs_of d) w)"

lemma stretch_covers:
  assumes s: "stretch usable ab d low low' high W" and c: "covers usable ab d low' high W2"
  shows "covers usable ab d low high (W \<union> W2)"
proof -
  have le: "unat low \<le> unat low'" using s by (simp add: stretch_def word_le_nat_alt)
  then have sub: "words (unat low') (unat high) \<subseteq> words (unat low) (unat high)" by (auto simp: words_def)
  have "w \<in> words (unat low) (min (unat low') (unat high)) \<or> w \<in> words (unat low') (unat high)"
    if "w \<in> words (unat low) (unat high)" for w
    using that by (auto simp: words_def)
  then show ?thesis using s c sub unfolding stretch_def covers_def by blast
qed

lemma find_roots_loop_ok:
  assumes sn: "snapshot_ok usable ab d" and al: "8 dvd unat high"
    and "recorded mem usable ab V r" "ahead ab d low i j" "n_of ab + n_of d < k + i + j \<or> high \<le> low"
  shows "\<exists>r' W. find_roots_loop k mem usable (ts_of ab) d low high (pool_loc ab i) (dead_loc d j) r = Inr r' \<and>
    covers usable ab d low high W \<and> recorded mem usable ab (V \<union> val_at mem ` W) r'"
  using assms(3-)
proof (induction k arbitrary: V r low i j)
  case 0
  then have "high \<le> low" by (auto simp: ahead_def)
  then show ?case using "0.prems"(1)
    by (intro exI [of _ r] exI [of _ "{}"]) (auto simp: covers_def word_le_nat_alt not_less)
next
  case (Suc k)
  show ?case
  proof (cases "low < high")
    case lt: True
    obtain low' i' j' r' where f: "find_roots_round mem usable (ts_of ab) d low high (pool_loc ab i) (dead_loc d j) r =
        Inr (low', pool_loc ab i', dead_loc d j', r')" and don: "round_done mem usable ab d V low high i j low' i' j' r'"
      using find_roots_round_ok [OF sn Suc.prems(1,2) lt al] by blast
    then obtain W where W: "stretch usable ab d low low' high W" "recorded mem usable ab (V \<union> val_at mem ` W) r'"
      and a: "ahead ab d low' i' j'" "i' + j' = i + j + 1 \<or> \<not> low' < high" by (auto simp: round_done_def)
    have "n_of ab + n_of d < k + i' + j' \<or> high \<le> low'" using a(2) Suc.prems(3) lt by auto
    from Suc.IH [OF W(2) a(1) this] obtain r2 W2 where r2:
      "find_roots_loop k mem usable (ts_of ab) d low' high (pool_loc ab i') (dead_loc d j') r' = Inr r2"
      "covers usable ab d low' high W2" "recorded mem usable ab (V \<union> val_at mem ` W \<union> val_at mem ` W2) r2" by blast
    have "recorded mem usable ab (V \<union> val_at mem ` (W \<union> W2)) r2" using r2(3) by (simp add: image_Un Un_assoc)
    then show ?thesis using f lt r2(1) stretch_covers [OF W(1) r2(2)] by (auto simp del: find_roots_loop.simps(1))
  next
    case False
    moreover have "unat high \<le> unat low" using False by (simp add: word_less_nat_alt)
    ultimately show ?thesis using Suc.prems(1)
      by (intro exI [of _ r] exI [of _ "{}"]) (simp add: covers_def)
  qed
qed

text \<open>Where the search starts.\<close>

lemma skip_stretch:
  assumes b: "blocks_ok usable S" and S: "S = tracked_keys ab \<union> dead_addrs_of d" "p \<in> S" and low: "p \<le> low" "8 dvd unat low"
    and l: "low' = (if p + usable p > low then p + usable p else low)"
  shows "stretch usable ab d low low' high {}" "8 dvd unat low'" "\<And>q. q \<in> S \<Longrightarrow> p < q \<Longrightarrow> low \<le> q \<Longrightarrow> low' \<le> q"
proof -
  note e = block_end [OF b S(2)]
  have "in_block usable S w" if "w \<in> words (unat low) (unat low')" for w
  proof -
    have "unat low \<le> w" "w < unat low'" using that by (auto simp: words_def)
    then have "unat p \<le> w" "w < unat p + unat (usable p)" using l e(1) low(1) by (auto simp: word_le_nat_alt split: if_splits)
    then show ?thesis using S(2) by (auto simp: in_block_def)
  qed
  moreover have "words (unat low) (min (unat low') (unat high)) \<subseteq> words (unat low) (unat low')" by (auto simp: words_def)
  ultimately show "stretch usable ab d low low' high {}" using l S(1) by (auto simp: stretch_def)
  show "8 dvd unat low'" using l e(2) low(2) by simp
  show "low' \<le> q" if "q \<in> S" "p < q" "low \<le> q" for q using e(4) that l by simp
qed

lemma skip_pool_ok:
  assumes sn: "snapshot_ok usable ab d" and m: "marked_more ab b" and low: "8 dvd unat low"
  shows "\<exists>i a low' i'. addr_find low b = Inr (int i) \<and> rd (ab_addrs b) (int i) = Inr a \<and>
    skip_block usable low (int i) (PTR_MASK a) b = Inr (low', pool_loc ab i') \<and> i' \<le> n_of ab \<and> 8 dvd unat low' \<and>
    (\<forall>k. i' \<le> k \<longrightarrow> k < n_of ab \<longrightarrow> low' \<le> key ab k) \<and> stretch usable ab d low low' high {}"
proof -
  have sc: "scannable ab" and bl: "blocks_ok usable (tracked_keys ab \<union> dead_addrs_of d)" using sn by (auto simp: snapshot_ok_def)
  have scb: "scannable b" by (rule marked_more_scannable [OF m sc])
  have n: "n_of b = n_of ab" "0 < n_of ab" and k: "\<And>i. i < n_of ab \<Longrightarrow> key b i = key ab i"
    using marked_more_fields(2) [OF m] scannable_n [OF sc] marked_more_key [OF m] by auto
  obtain i where i: "addr_find low b = Inr (int i)" "i < n_of b" "\<And>j. i < j \<Longrightarrow> j < n_of b \<Longrightarrow> low < ab_addrs b ! j"
    "low < key b 0 \<Longrightarrow> i = 0" "key b 0 \<le> low \<Longrightarrow> key b i \<le> low"
    using addr_find_ok [OF scb, of low] by blast
  let ?a = "ab_addrs b ! i"
  have rd: "rd (ab_addrs b) (int i) = Inr ?a" using i(2) scb by (intro rd_int) (simp add: scannable_def)
  have a: "PTR_MASK ?a = key ab i" using k i(2) n by (simp add: key_def)
  have later: "low \<le> key ab j" if "i < j" "j < n_of ab" for j
  proof -
    have "low \<le> PTR_MASK (ab_addrs b ! j)"
      by (rule le_PTR_MASK) (use i(3) [of j] that n low in \<open>auto intro: dvd_trans [of 4 8] less_imp_le\<close>)
    then show ?thesis using k [OF that(2)] by (simp add: key_def)
  qed
  show ?thesis
  proof (cases "key ab i \<le> low")
    case True
    define low' where "low' = (if key ab i + usable (key ab i) > low then key ab i + usable (key ab i) else low)"
    note sk = skip_stretch [OF bl refl snapshot_member(1) [of i ab d] True low low'_def]
    have "low' \<le> key ab j" if "Suc i \<le> j" "j < n_of ab" for j
      using sk(3) [OF _ snapshot_member(1) [OF that(2)]] key_less_iff [OF sc, of i j] later [of j] i(2) n that by auto
    moreover have "skip_block usable low (int i) (PTR_MASK ?a) b = Inr (low', pool_loc ab (Suc i))"
      using True a update_pool [OF sc m] i(2) n by (simp add: skip_block_def low'_def Let_def)
    ultimately show ?thesis using sk(1,2) i(1,2) n rd by (intro exI [of _ i] exI [of _ ?a] exI [of _ low'] exI [of _ "Suc i"]) auto
  next
    case False
    then have "\<not> key b 0 \<le> low" using i(2,5) k [of i] n by auto
    then have "i = 0" using i(4) by (simp add: not_le)
    then have "low \<le> key ab j" if "j < n_of ab" for j using False later [of j] that by (cases "j = 0") auto
    moreover have "skip_block usable low (int i) (PTR_MASK ?a) b = Inr (low, pool_loc ab i)"
      using False a i(2) n by (simp add: skip_block_def pool_loc_def)
    moreover have "stretch usable ab d low low high {}" by (simp add: stretch_def)
    ultimately show ?thesis using i(1,2) n rd low by (intro exI [of _ i] exI [of _ ?a] exI [of _ low] exI [of _ i]) auto
  qed
qed

lemma skip_dead_ok:
  assumes sn: "snapshot_ok usable ab d" and low: "8 dvd unat low" and i: "i \<le> n_of ab"
    and pool: "\<forall>k. i \<le> k \<longrightarrow> k < n_of ab \<longrightarrow> low \<le> key ab k"
  shows "\<exists>low' j'. (if ab_n_addrs d > 0
         then
           bind_res (binary_search low (ab_addrs d) 0 (ab_n_addrs d)) (\<lambda>dead_idx.
           bind_res (rd (ab_addrs d) dead_idx) (\<lambda>dead_addr.
           skip_block usable low dead_idx dead_addr d))
         else Inr (low, 0, - 1)) = Inr (low', dead_loc d j') \<and> ahead ab d low' i j' \<and> stretch usable ab d low low' high {}"
proof (cases "n_of d = 0")
  case True
  then have "\<not> ab_n_addrs d > 0" using sn by (simp add: snapshot_ok_def deadrefs_ok_def n_of_def)
  then show ?thesis using True low i pool
    by (intro exI [of _ low] exI [of _ 0]) (simp add: dead_loc_def ahead_def stretch_def)
next
  case False
  have d: "deadrefs_ok d" and bl: "blocks_ok usable (tracked_keys ab \<union> dead_addrs_of d)" using sn by (auto simp: snapshot_ok_def)
  have n: "ab_n_addrs d = int (n_of d)" "n_of d \<le> length (ab_addrs d)" "n_of d \<le> 2 ^ 30" "ascending (ab_addrs d) 0 (n_of d)"
    using d by (auto simp: deadrefs_ok_def n_of_def)
  obtain j where j: "binary_search low (ab_addrs d) (int 0) (int (n_of d)) = Inr (int j)" "found_in low (ab_addrs d) 0 (n_of d) j"
    using binary_search_ok [OF _ n(2-4), of low] False by auto
  let ?a = "ab_addrs d ! j"
  have jn: "j < n_of d" using j(2) by (simp add: found_in_def)
  have rd: "rd (ab_addrs d) (int j) = Inr ?a" using jn n(2) by (intro rd_int) simp
  have run: "(if ab_n_addrs d > 0
         then
           bind_res (binary_search low (ab_addrs d) 0 (ab_n_addrs d)) (\<lambda>dead_idx.
           bind_res (rd (ab_addrs d) dead_idx) (\<lambda>dead_addr.
           skip_block usable low dead_idx dead_addr d))
         else Inr (low, 0, - 1)) = skip_block usable low (int j) ?a d"
    using False n(1) j(1) rd by simp
  show ?thesis
  proof (cases "?a \<le> low")
    case True
    define low' where "low' = (if ?a + usable ?a > low then ?a + usable ?a else low)"
    note sk = skip_stretch [OF bl refl snapshot_member(2) [of j d ab, OF jn] True low low'_def]
    have "low' \<le> ab_addrs d ! k" if "Suc j \<le> k" "k < n_of d" for k
    proof -
      have "ab_addrs d ! 0 \<le> low" using True dead_less [OF sn, of 0 j] jn by (cases "j = 0") auto
      then have "low < ab_addrs d ! k" using j(2) that by (simp add: found_in_def)
      then show ?thesis using sk(3) [OF snapshot_member(2) [OF that(2)]] dead_less [OF sn, of j k] that by simp
    qed
    moreover have "low' \<le> key ab k" if "i \<le> k" "k < n_of ab" for k
    proof -
      have le: "low \<le> key ab k" using pool that by blast
      with True have "?a \<le> key ab k" by (rule order_trans)
      then have "?a < key ab k" using snapshot_apart [OF sn that(2) jn] by (simp add: order_less_le)
      then show ?thesis using sk(3) [OF snapshot_member(1) [OF that(2)]] le by blast
    qed
    ultimately have "ahead ab d low' i (Suc j)" using i jn sk(2) by (auto simp: ahead_def)
    moreover have "skip_block usable low (int j) ?a d = Inr (low', dead_loc d (Suc j))"
      using True update_dead [OF d jn] by (simp add: skip_block_def low'_def Let_def)
    ultimately show ?thesis using run sk(1) by auto
  next
    case False
    then have "j = 0" using j(2) by (auto simp: found_in_def not_le)
    then have "low \<le> ab_addrs d ! k" if "k < n_of d" for k
      using False dead_less [OF sn, of 0 k] that by (cases "k = 0") auto
    then have "ahead ab d low i j" using i jn low pool by (simp add: ahead_def)
    moreover have "skip_block usable low (int j) ?a d = Inr (low, dead_loc d j)"
      using False jn by (simp add: skip_block_def dead_loc_def)
    moreover have "stretch usable ab d low low high {}" by (simp add: stretch_def)
    ultimately show ?thesis using run by auto
  qed
qed

lemma find_roots_ok:
  assumes sn: "snapshot_ok usable ab d" and r: "recorded mem usable ab V r"
    and al: "8 dvd unat low" "8 dvd unat high"
  shows "\<exists>r' W. find_roots mem usable low high d r = Inr r' \<and> covers usable ab d low high W \<and>
    recorded mem usable ab (V \<union> val_at mem ` W) r'"
proof -
  have sc: "scannable ab" using sn by (simp add: snapshot_ok_def)
  let ?b = "rt_ab r"
  have m: "marked_more ab ?b" using r by (simp add: recorded_def)
  have n: "0 < n_of ab" "n_of ?b = n_of ab" "ab_n_addrs ?b = int (n_of ab)" "n_of ab \<le> length (ab_addrs ?b)"
    using scannable_n [OF sc] marked_more_fields [OF m] sc by (auto simp: scannable_def)
  have ends: "rd (ab_addrs ?b) 0 = Inr (ab_addrs ?b ! 0)" "rd (ab_addrs ?b) (int (n_of ab) - 1) = Inr (ab_addrs ?b ! (n_of ab - 1))"
    using n by (auto simp: rd_def nat_diff_distrib)
  have ts: "\<lparr>ts_min = PTR_MASK (ab_addrs ?b ! 0), ts_max = PTR_MASK (ab_addrs ?b ! (n_of ab - 1))\<rparr> = ts_of ab"
    using ts_of_cong [OF m n(1)] n(2) by (simp add: ts_of_def key_def)
  obtain i a low1 i1 where p: "addr_find low ?b = Inr (int i)" "rd (ab_addrs ?b) (int i) = Inr a"
    "skip_block usable low (int i) (PTR_MASK a) ?b = Inr (low1, pool_loc ab i1)" "i1 \<le> n_of ab" "8 dvd unat low1"
    "\<forall>k. i1 \<le> k \<longrightarrow> k < n_of ab \<longrightarrow> low1 \<le> key ab k" "stretch usable ab d low low1 high {}"
    using skip_pool_ok [OF sn m al(1), of high] by blast
  obtain low2 j2 where q: "(if ab_n_addrs d > 0
         then
           bind_res (binary_search low1 (ab_addrs d) 0 (ab_n_addrs d)) (\<lambda>dead_idx.
           bind_res (rd (ab_addrs d) dead_idx) (\<lambda>dead_addr.
           skip_block usable low1 dead_idx dead_addr d))
         else Inr (low1, 0, - 1)) = Inr (low2, dead_loc d j2)" "ahead ab d low2 i1 j2" "stretch usable ab d low1 low2 high {}"
    using skip_dead_ok [OF sn p(5,4,6), of high] by blast
  obtain r' W where w: "find_roots_loop (Suc (n_of ab + n_of d)) mem usable (ts_of ab) d low2 high (pool_loc ab i1) (dead_loc d j2) r = Inr r'"
    "covers usable ab d low2 high W" "recorded mem usable ab (V \<union> val_at mem ` W) r'"
    using find_roots_loop_ok [OF sn al(2) r q(2), of "Suc (n_of ab + n_of d)"] by auto
  have "find_roots mem usable low high d r = Inr r'"
    unfolding find_roots_def Let_def n(3) ends bind_res_Inr p(1-3) prod.case q(1) ts n(2) w(1) ..
  moreover have "covers usable ab d low high W"
    using stretch_covers [OF p(7) stretch_covers [OF q(3) w(2)]] by simp
  ultimately show ?thesis using w(3) by blast
qed

section \<open>Properties\<close>

text \<open>A process that starts to scan: nothing read, nothing waiting.\<close>

definition roots_init :: "addr_buffer_t \<Rightarrow> roots_t" where
  "roots_init ab = \<lparr>rt_ab = ab, g_lookaside_list = replicate (nat LOOKASIDE_SZ) 0, g_lookaside_count = 0\<rparr>"

lemma recorded_init: "recorded mem usable ab {} (roots_init ab)"
  by (simp add: recorded_def roots_init_def LOOKASIDE_nat hits_def)

definition sample_dead :: addr_buffer_t where
  "sample_dead = sample_ab\<lparr>ab_n_addrs := 0\<rparr>"

lemma sample_keys: "tracked_keys sample_ab = {0x1000, 0x2000, 0x3000}" "dead_addrs_of sample_dead = {}"
proof -
  have "{..<3 :: nat} = {0, Suc 0, 2}" by auto
  then show "tracked_keys sample_ab = {0x1000, 0x2000, 0x3000}" by (simp add: tracked_keys_def sample_ab_facts)
  show "dead_addrs_of sample_dead = {}" by (simp add: dead_addrs_of_def sample_dead_def n_of_def)
qed

lemma sample_snapshot: "snapshot_ok sample_usable sample_ab sample_dead"
proof -
  have "n_of sample_dead = 0" "deadrefs_ok sample_dead"
    by (simp_all add: sample_dead_def n_of_def deadrefs_ok_def ascending_def)
  moreover have "blocks_ok sample_usable {0x1000, 0x2000, 0x3000}"
    by (auto simp: blocks_ok_def sample_usable_def)
  ultimately show ?thesis using sample_ab_scannable by (simp add: snapshot_ok_def sample_keys)
qed

text \<open>
  C3: scanning a range of memory for roots returns, without an access out of bounds, whatever
  blocks begin or end in the range. Every word of the range that is not inside a tracked or a
  dead block is read, each tracked address among the words read is then marked or waits in the
  lookaside list, and only addresses that were read, and what their blocks refer to, are marked.
\<close>

theorem find_roots_complete:
  assumes "snapshot_ok usable ab deadrefs" and "recorded mem usable ab V r"
    and "8 dvd unat low" and "8 dvd unat high"
  shows "\<exists>r' W. find_roots mem usable low high deadrefs r = Inr r' \<and> W \<subseteq> words (unat low) (unat high) \<and>
    (\<forall>w\<in>words (unat low) (unat high). \<not> in_block usable (tracked_keys ab \<union> dead_addrs_of deadrefs) w \<longrightarrow> w \<in> W) \<and>
    recorded mem usable ab (V \<union> val_at mem ` W) r'"
  using find_roots_ok [OF assms] unfolding covers_def by blast

theorem find_roots_complete_witness:
  "\<exists>r' W. find_roots (\<lambda>a. if a = 0x8008 then 0x2002 else 0) sample_usable 0x8000 0x8010 sample_dead (roots_init sample_ab) = Inr r' \<and>
    0x8008 \<in> W \<and> hits sample_ab {0x2000} \<subseteq>
      marks (rt_ab r') \<union> hits sample_ab (set (take (nat (g_lookaside_count r')) (g_lookaside_list r')))"
proof -
  let ?mem = "\<lambda>a :: size_t. if a = 0x8008 then 0x2002 else 0 :: size_t"
  obtain r' W where w: "find_roots ?mem sample_usable 0x8000 0x8010 sample_dead (roots_init sample_ab) = Inr r'"
    "\<forall>w\<in>words (unat (0x8000 :: size_t)) (unat (0x8010 :: size_t)).
       \<not> in_block sample_usable (tracked_keys sample_ab \<union> dead_addrs_of sample_dead) w \<longrightarrow> w \<in> W"
    "recorded ?mem sample_usable sample_ab ({} \<union> val_at ?mem ` W) r'"
    using find_roots_complete [OF sample_snapshot recorded_init [of ?mem sample_usable], of "0x8000" "0x8010"] by auto
  have "\<not> in_block sample_usable (tracked_keys sample_ab \<union> dead_addrs_of sample_dead) 0x8008"
    by (simp add: in_block_def sample_keys sample_usable_def)
  then have "0x8008 \<in> W" using w(2) by (simp add: words_def)
  moreover have "val_at ?mem 0x8008 = 0x2000" by (simp add: val_at_def PTR_MASK_def)
  ultimately have "{0x2000} \<subseteq> {} \<union> val_at ?mem ` W" by force
  from hits_mono [OF this, of sample_ab]
  have "hits sample_ab {0x2000} \<subseteq> marks (rt_ab r') \<union> hits sample_ab (set (take (nat (g_lookaside_count r')) (g_lookaside_list r')))"
    using w(3) unfolding recorded_def Let_def by blast
  with w(1) \<open>0x8008 \<in> W\<close> show ?thesis by blast
qed

end
