(* ===== verification/Store.thy ===== *)
theory Store
  imports Prelude "HOL-Library.AList"
begin

text \<open>
  Objects behind pointers. A store lists the objects of one struct type by the address they
  live at; reading or writing through a pointer that holds no object is an error value. The
  theory has the loops over a pointer chain that the C code uses and relates linked
  structures to lists of addresses: a path of \<open>next\<close> pointers, and a circular doubly linked
  list. A loop over a chain gets as many steps as the store has objects and one more: a walk
  that needs more has come back to an object it has already seen, so it never returns.
\<close>

section \<open>Loads and stores\<close>

type_synonym 'a store = "(size_t \<times> 'a) list"

definition ld :: "'a store \<Rightarrow> size_t \<Rightarrow> 'a res" where
  "ld s p =
     (if p = 0 then Inl Null_deref
      else case map_of s p of None \<Rightarrow> Inl Out_of_bounds | Some v \<Rightarrow> Inr v)"

definition modify :: "'a store \<Rightarrow> size_t \<Rightarrow> ('a \<Rightarrow> 'a) \<Rightarrow> 'a store res" where
  "modify s p f = bind_res (ld s p) (\<lambda>v. Inr (AList.update p (f v) s))"

lemma ld_ok [simp]: "p \<noteq> 0 \<Longrightarrow> map_of s p = Some v \<Longrightarrow> ld s p = Inr v"
  by (simp add: ld_def)

lemma ld_eq_Inr: "ld s p = Inr v \<longleftrightarrow> p \<noteq> 0 \<and> map_of s p = Some v"
  by (auto simp: ld_def split: option.splits)

lemma modify_ok [simp]:
  "p \<noteq> 0 \<Longrightarrow> map_of s p = Some v \<Longrightarrow> modify s p f = Inr (AList.update p (f v) s)"
  by (simp add: modify_def)

lemma map_of_update [simp]: "map_of (AList.update k v s) = (map_of s)(k \<mapsto> v)"
  by (simp add: update_conv')

lemma length_update_old [simp]: "map_of s k \<noteq> None \<Longrightarrow> length (AList.update k v s) = length s"
  by (induction s) auto

lemma update_twice [simp]: "AList.update k v (AList.update k w s) = AList.update k v s"
  by (induction s) auto

text \<open>A chain of distinct live objects is no longer than the store.\<close>

lemma chain_length:
  assumes "distinct ps" "\<forall>p\<in>set ps. map_of s p \<noteq> None"
  shows "length ps \<le> length s"
proof -
  have "set ps \<subseteq> fst ` set s" using assms(2) by (auto simp: map_of_eq_None_iff)
  then have "card (set ps) \<le> card (fst ` set s)" by (intro card_mono) auto
  also have "\<dots> \<le> length s" using card_image_le [of "set s" fst] card_length [of s] by simp
  finally show ?thesis using distinct_card [OF assms(1)] by simp
qed

section \<open>Chains of pointers\<close>

fun path :: "('a \<Rightarrow> size_t) \<Rightarrow> 'a store \<Rightarrow> size_t \<Rightarrow> size_t list \<Rightarrow> size_t \<Rightarrow> bool" where
  "path nxt s p [] q \<longleftrightarrow> p = q"
| "path nxt s p (a # as) q \<longleftrightarrow>
     p = a \<and> a \<noteq> 0 \<and> (case map_of s a of None \<Rightarrow> False | Some v \<Rightarrow> path nxt s (nxt v) as q)"

lemma path_append: "path nxt s p (as @ bs) q \<longleftrightarrow> (\<exists>r. path nxt s p as r \<and> path nxt s r bs q)"
  by (induction as arbitrary: p) (auto split: option.splits)

lemma path_live: "path nxt s p ps q \<Longrightarrow> a \<in> set ps \<Longrightarrow> a \<noteq> 0 \<and> (\<exists>v. map_of s a = Some v)"
  by (induction ps arbitrary: p) (auto split: option.splits)

lemma path_cong:
  assumes "path nxt s p ps q"
    and "\<And>a v. a \<in> set ps \<Longrightarrow> map_of s a = Some v \<Longrightarrow> \<exists>w. map_of t a = Some w \<and> nxt w = nxt v"
  shows "path nxt t p ps q"
  using assms
proof (induction ps arbitrary: p)
  case (Cons a as)
  then obtain v where v: "map_of s a = Some v" "path nxt s (nxt v) as q" "p = a" "a \<noteq> 0"
    by (auto split: option.splits)
  moreover obtain w where "map_of t a = Some w" "nxt w = nxt v" using Cons.prems(2) [of a] v by auto
  moreover have "path nxt t (nxt v) as q" by (rule Cons.IH [OF v(2)]) (simp add: Cons.prems(2))
  ultimately show ?case by simp
qed simp

text \<open>Writing an object outside the chain leaves the chain.\<close>

lemma path_frame [simp]: "a \<notin> set ps \<Longrightarrow> path nxt (AList.update a v s) p ps q = path nxt s p ps q"
  by (induction ps arbitrary: p) (auto split: option.splits)

lemma path_head: "path nxt s p ps 0 \<Longrightarrow> (p = 0) = (ps = [])"
  by (cases ps) auto

lemma path_first: "path nxt s p ps q \<Longrightarrow> ps \<noteq> [] \<Longrightarrow> p = hd ps"
  by (cases ps) auto

text \<open>A chain that ends in null is determined by its start and visits no object twice.\<close>

lemma path_unique:
  "path nxt s p ps 0 \<Longrightarrow> path nxt s p qs 0 \<Longrightarrow> ps = qs"
proof (induction ps arbitrary: p qs)
  case Nil then show ?case by (cases qs) auto
next
  case (Cons a as) then show ?case by (cases qs) (auto split: option.splits)
qed

lemma path_distinct: "path nxt s p ps 0 \<Longrightarrow> distinct ps"
proof (induction ps arbitrary: p)
  case (Cons a as)
  then obtain v where v: "map_of s a = Some v" "path nxt s (nxt v) as 0" by (auto split: option.splits)
  have "a \<notin> set as"
  proof
    assume "a \<in> set as"
    then obtain bs cs where as: "as = bs @ a # cs" by (auto dest: split_list)
    with v(2) have "path nxt s a (a # cs) 0" by (auto simp: path_append)
    moreover have "path nxt s a (a # as) 0" using Cons.prems by simp
    ultimately have "a # cs = a # as" by (rule path_unique)
    with as show False by simp
  qed
  with Cons.IH [OF v(2)] show ?case by simp
qed simp

lemma chain_fuel: "path nxt s p ps 0 \<Longrightarrow> length ps < Suc (length s)"
  using chain_length [OF path_distinct, of nxt s p ps s] path_live [of nxt s p ps 0] by (fastforce simp: less_Suc_eq_le)

section \<open>The search loop\<close>

text \<open>\<^verbatim>\<open>while (!stop(p)) p = p->next;\<close>\<close>

fun seek :: "nat \<Rightarrow> ('a \<Rightarrow> bool) \<Rightarrow> ('a \<Rightarrow> size_t) \<Rightarrow> 'a store \<Rightarrow> size_t \<Rightarrow> size_t res" where
  "seek 0 stop nxt s p = Inl No_return"
| "seek (Suc k) stop nxt s p =
     bind_res (ld s p) (\<lambda>v. if stop v then Inr p else seek k stop nxt s (nxt v))"

lemma seek_ok:
  assumes "path nxt s p (as @ b # bs) q" "length as < k" "map_of s b = Some w" "stop w"
    and "\<And>a v. a \<in> set as \<Longrightarrow> map_of s a = Some v \<Longrightarrow> \<not> stop v"
  shows "seek k stop nxt s p = Inr b"
  using assms
proof (induction as arbitrary: p k)
  case Nil then show ?case by (cases k) auto
next
  case (Cons a as)
  then obtain v k' where "map_of s a = Some v" "k = Suc k'" "p = a" "a \<noteq> 0" "\<not> stop v"
    by (cases k) (auto split: option.splits)
  with Cons show ?case by auto
qed

text \<open>A circular list in which no object stops the loop is walked for ever.\<close>

lemma seek_diverges:
  assumes "path nxt s p ps p" "ps \<noteq> []" "\<And>a v. a \<in> set ps \<Longrightarrow> map_of s a = Some v \<Longrightarrow> \<not> stop v"
  shows "seek k stop nxt s p = Inl No_return"
proof -
  have "seek k stop nxt s r = Inl No_return" if "path nxt s r qs p" "set qs \<subseteq> set ps" for r qs
    using that
  proof (induction k arbitrary: r qs)
    case (Suc k)
    obtain us where us: "path nxt s r us p" "set us \<subseteq> set ps" "us \<noteq> []"
      using Suc.prems assms(1,2) by (metis path.simps(1) subset_refl)
    then obtain a as v where "us = a # as" "r = a" "a \<noteq> 0" "map_of s a = Some v" "path nxt s (nxt v) as p"
      by (cases us) (auto split: option.splits)
    with us assms(3) [of a v] Suc.IH [of "nxt v" as] show ?case by simp
  qed simp
  from this [OF assms(1)] show ?thesis by simp
qed

section \<open>Circular doubly linked lists\<close>

text \<open>
  The neighbouring pairs of a circular sequence, the last element with the first included.
\<close>

definition edges :: "'a list \<Rightarrow> ('a \<times> 'a) set" where
  "edges ps = set (zip ps (rotate1 ps))"

definition inner :: "'a list \<Rightarrow> ('a \<times> 'a) set" where
  "inner ps = set (zip ps (tl ps))"

lemma edges_Nil [simp]: "edges [] = {}"
  by (simp add: edges_def)

lemma edges_inner: "ps \<noteq> [] \<Longrightarrow> edges ps = insert (last ps, hd ps) (inner ps)"
proof -
  assume "ps \<noteq> []"
  then obtain qs z where ps: "ps = qs @ [z]" by (metis append_butlast_last_id)
  have "rotate1 (qs @ [z]) = tl (qs @ [z]) @ [hd (qs @ [z])]" by (cases qs) auto
  moreover have "zip (qs @ [z]) (tl (qs @ [z]) @ [y]) = zip qs (tl (qs @ [z])) @ [(z, y)]" for y
    by (subst zip_append) auto
  moreover have "zip (qs @ [z]) (tl (qs @ [z])) = zip qs (tl (qs @ [z]))"
    by (subst zip_append1) (cases qs, auto)
  ultimately show ?thesis unfolding edges_def inner_def ps by simp
qed

lemma inner_append: "as \<noteq> [] \<Longrightarrow> bs \<noteq> [] \<Longrightarrow>
    inner (as @ bs) = inner as \<union> inner bs \<union> {(last as, hd bs)}"
proof (induction as)
  case (Cons a as)
  then show ?case by (cases as; cases bs) (auto simp: inner_def)
qed simp

lemma edges_rotate: "edges (as @ bs) = edges (bs @ as)"
  by (cases "as = []"; cases "bs = []") (auto simp: edges_inner inner_append)

lemma edges_snoc:
  "ps \<noteq> [] \<Longrightarrow> edges (ps @ [m]) = inner ps \<union> {(last ps, m), (m, hd ps)}"
  by (auto simp: edges_inner inner_append) (auto simp: inner_def)

lemma inner_distinct:
  "distinct ps \<Longrightarrow> (a, b) \<in> inner ps \<Longrightarrow> a \<noteq> last ps \<and> b \<noteq> hd ps \<and> a \<in> set ps \<and> b \<in> set ps"
proof (induction ps)
  case (Cons p ps)
  then show ?case by (cases ps) (auto simp: inner_def dest: set_zip_leftD set_zip_rightD)
qed (simp add: inner_def)

definition ring_links :: "('a \<Rightarrow> size_t) \<Rightarrow> ('a \<Rightarrow> size_t) \<Rightarrow> 'a store \<Rightarrow> size_t list \<Rightarrow> bool" where
  "ring_links nxt prv s ps \<longleftrightarrow>
     distinct ps \<and> 0 \<notin> set ps \<and> (\<forall>p\<in>set ps. map_of s p \<noteq> None) \<and>
     (\<forall>a b. (a, b) \<in> edges ps \<longrightarrow> nxt (the (map_of s a)) = b \<and> prv (the (map_of s b)) = a)"

lemma ring_links_rotate: "ring_links nxt prv s (as @ bs) \<longleftrightarrow> ring_links nxt prv s (bs @ as)"
  unfolding ring_links_def edges_rotate [of as bs] by auto

lemma ring_links_live:
  assumes "ring_links nxt prv s ps" "p \<in> set ps"
  shows "p \<noteq> 0" "\<exists>v. map_of s p = Some v"
  using assms by (auto simp: ring_links_def)

lemma ring_links_cong:
  assumes "\<And>a. a \<in> set ps \<Longrightarrow> map_of t a = map_of s a"
  shows "ring_links nxt prv t ps = ring_links nxt prv s ps"
proof -
  have "x \<in> set ps \<and> y \<in> set ps" if "(x, y) \<in> edges ps" for x y
    using that by (auto simp: edges_def dest: set_zip_leftD set_zip_rightD)
  then show ?thesis using assms by (auto simp: ring_links_def)
qed

text \<open>Around the circle there is a path from the first node back to itself.\<close>

lemma inner_path:
  assumes "ps \<noteq> []" "\<forall>p\<in>set ps. p \<noteq> 0 \<and> map_of s p \<noteq> None"
    and "\<forall>a b. (a, b) \<in> inner ps \<longrightarrow> nxt (the (map_of s a)) = b"
  shows "path nxt s (hd ps) ps (nxt (the (map_of s (last ps))))"
  using assms
proof (induction ps)
  case (Cons p ps)
  then show ?case by (cases ps) (auto simp: inner_def)
qed simp

lemma ring_links_path:
  assumes "ring_links nxt prv s ps" "ps \<noteq> []"
  shows "path nxt s (hd ps) ps (hd ps)"
proof -
  have "nxt (the (map_of s (last ps))) = hd ps" using assms by (auto simp: ring_links_def edges_inner)
  with inner_path [OF assms(2), of s nxt] assms show ?thesis by (auto simp: ring_links_def edges_inner)
qed

lemma ring_links_hd_last:
  assumes "ring_links nxt prv s ps" "ps \<noteq> []"
  shows "prv (the (map_of s (hd ps))) = last ps" "nxt (the (map_of s (last ps))) = hd ps"
  using assms by (auto simp: ring_links_def edges_inner)

text \<open>
  Splicing: the effect of the four pointer writes that put a node \<open>m\<close> before the node \<open>c\<close>, and
  of the two writes that take \<open>c\<close> out.
\<close>

lemma ring_insert:
  assumes ring: "ring_links nxt prv s (c # zs)" and m: "m \<noteq> 0" "m \<notin> set (c # zs)"
    and live: "\<forall>a\<in>set (m # c # zs). map_of t a \<noteq> None"
    and new: "nxt (the (map_of t m)) = c" "prv (the (map_of t m)) = last (c # zs)"
      "nxt (the (map_of t (last (c # zs)))) = m" "prv (the (map_of t c)) = m"
    and old: "\<And>a. a \<in> set (c # zs) \<Longrightarrow> a \<noteq> last (c # zs) \<Longrightarrow> nxt (the (map_of t a)) = nxt (the (map_of s a))"
      "\<And>a. a \<in> set zs \<Longrightarrow> prv (the (map_of t a)) = prv (the (map_of s a))"
  shows "ring_links nxt prv t (c # zs @ [m])"
proof -
  have d: "distinct (c # zs)" "0 \<notin> set (c # zs)" using ring by (auto simp: ring_links_def)
  have "nxt (the (map_of t a)) = b \<and> prv (the (map_of t b)) = a" if "(a, b) \<in> edges (c # zs @ [m])" for a b
  proof -
    from that consider "(a, b) \<in> inner (c # zs)" | "a = last (c # zs)" "b = m" | "a = m" "b = c"
      using edges_snoc [of "c # zs" m] by auto
    then show ?thesis
    proof cases
      case 1
      then have "nxt (the (map_of s a)) = b" "prv (the (map_of s b)) = a"
        using ring by (auto simp: ring_links_def edges_inner)
      with inner_distinct [OF d(1) 1] old show ?thesis by auto
    qed (use new in auto)
  qed
  then show ?thesis using d m live by (auto simp: ring_links_def)
qed

lemma ring_remove:
  assumes ring: "ring_links nxt prv s (c # zs)" and zs: "zs \<noteq> []"
    and live: "\<forall>a\<in>set zs. map_of t a \<noteq> None"
    and new: "nxt (the (map_of t (last zs))) = hd zs" "prv (the (map_of t (hd zs))) = last zs"
    and old: "\<And>a. a \<in> set zs \<Longrightarrow> a \<noteq> last zs \<Longrightarrow> nxt (the (map_of t a)) = nxt (the (map_of s a))"
      "\<And>a. a \<in> set zs \<Longrightarrow> a \<noteq> hd zs \<Longrightarrow> prv (the (map_of t a)) = prv (the (map_of s a))"
  shows "ring_links nxt prv t zs"
proof -
  have d: "distinct zs" "0 \<notin> set zs" using ring by (auto simp: ring_links_def)
  have sub: "inner zs \<subseteq> inner (c # zs)" using zs by (cases zs) (auto simp: inner_def)
  have "nxt (the (map_of t a)) = b \<and> prv (the (map_of t b)) = a" if "(a, b) \<in> inner zs" for a b
  proof -
    have "nxt (the (map_of s a)) = b" "prv (the (map_of s b)) = a"
      using ring that sub by (auto simp: ring_links_def edges_inner)
    with inner_distinct [OF d(1) that] old show ?thesis by auto
  qed
  then show ?thesis using d live new zs by (auto simp: ring_links_def edges_inner)
qed

lemma ring_neighbours:
  assumes "ring_links nxt prv s (c # zs)" "zs \<noteq> []"
  shows "nxt (the (map_of s c)) = hd zs" "prv (the (map_of s c)) = last zs"
proof -
  have "(c, hd zs) \<in> inner (c # zs)" using assms(2) by (cases zs) (auto simp: inner_def)
  with assms show "nxt (the (map_of s c)) = hd zs" by (auto simp: ring_links_def edges_inner)
  show "prv (the (map_of s c)) = last zs" using assms by (auto simp: ring_links_def edges_inner)
qed

end
