(* ===== verification/Alloc.thy ===== *)
theory Alloc
  imports Store
begin

text \<open>
  Forkscan's own memory, \<^verbatim>\<open>src/alloc.c\<close> and \<^verbatim>\<open>src/alloc.h\<close>: every block the library maps is
  recorded in a circular doubly linked list of metadata nodes, sorted by address, whose nodes
  live in pages the module maps itself. The scanner uses the list to cut Forkscan's memory
  out of the ranges it searches. The calls \<^verbatim>\<open>mmap\<close> and \<^verbatim>\<open>munmap\<close> of the operating system are
  parameters: they see the mappings that exist and give a start address, or fail. The lists are
  only read and changed under a lock. Mapping and unmapping take it several times (for a metadata node,
  for the list, for giving the node back) and call the system in between, so two of them can overlap, and a
  block is for a moment mapped and not recorded. Here each of them is one step: the histories are of complete
  operations, one after the other. \<^verbatim>\<open>mprotect\<close> only decides about a diagnostic message and is left out.
\<close>

section \<open>The operations of alloc.c\<close>

record memory_metadata_t =
  md_addr :: size_t
  md_length :: size_t
  md_reason :: string
  md_next :: size_t
  md_prev :: size_t

record mem_range_t =
  mr_low :: size_t
  mr_high :: size_t

record os_t =
  os_mmap :: "(size_t \<times> size_t) list \<Rightarrow> size_t \<Rightarrow> bool \<Rightarrow> size_t option"
  os_munmap :: "(size_t \<times> size_t) list \<Rightarrow> size_t \<Rightarrow> size_t \<Rightarrow> bool"

record alloc_state =
  al_nodes :: "memory_metadata_t store"
  al_free_list :: size_t
  al_alloc_list :: size_t
  al_mapped :: "(size_t \<times> size_t) list"

definition ALLOC_BLOCKSIZE :: size_t where
  "ALLOC_BLOCKSIZE = PAGESIZE"

text \<open>\<^verbatim>\<open>sizeof(memory_metadata_t)\<close>: five fields of eight bytes.\<close>

definition METADATA_SIZE :: size_t where
  "METADATA_SIZE = 40"

definition LOW_ADDR :: "memory_metadata_t \<Rightarrow> size_t" where
  "LOW_ADDR m = md_addr m"

definition HIGH_ADDR :: "memory_metadata_t \<Rightarrow> size_t" where
  "HIGH_ADDR m = LOW_ADDR m + md_length m"

definition mmap_wrap :: "os_t \<Rightarrow> size_t \<Rightarrow> bool \<Rightarrow> alloc_state \<Rightarrow> (size_t \<times> alloc_state) res" where
  "mmap_wrap os sz shared st =
     (case os_mmap os (al_mapped st) sz shared of
        None \<Rightarrow> Inl (Fatal ''failed mmap().'')
      | Some ptr \<Rightarrow> Inr (ptr, st\<lparr>al_mapped := (ptr, sz) # al_mapped st\<rparr>))"

definition munmap_wrap :: "os_t \<Rightarrow> size_t \<Rightarrow> size_t \<Rightarrow> alloc_state \<Rightarrow> int \<times> alloc_state" where
  "munmap_wrap os addr len st =
     (if os_munmap os (al_mapped st) addr len
      then (0, st\<lparr>al_mapped := remove1 (addr, len) (al_mapped st)\<rparr>)
      else (- 1, st))"

definition metadata_do_insert :: "size_t \<Rightarrow> alloc_state \<Rightarrow> alloc_state res" where
  "metadata_do_insert meta st =
     (let s = al_nodes st; alloc_list = al_alloc_list st in
      if alloc_list = 0
      then bind_res (modify s meta (\<lambda>m. m\<lparr>md_next := meta, md_prev := meta\<rparr>)) (\<lambda>s1.
           Inr (st\<lparr>al_nodes := s1, al_alloc_list := meta\<rparr>))
      else
        bind_res (ld s alloc_list) (\<lambda>head.
        bind_res (ld s (md_prev head)) (\<lambda>tail.
        bind_res (ld s meta) (\<lambda>m.
        if HIGH_ADDR tail \<le> LOW_ADDR m
        then
          bind_res (modify s meta (\<lambda>m. m\<lparr>md_prev := md_prev head\<rparr>)) (\<lambda>s1.
          bind_res (modify s1 meta (\<lambda>m. m\<lparr>md_next := alloc_list\<rparr>)) (\<lambda>s2.
          bind_res (ld s2 alloc_list) (\<lambda>h.
          bind_res (modify s2 (md_prev h) (\<lambda>p. p\<lparr>md_next := meta\<rparr>)) (\<lambda>s3.
          bind_res (modify s3 alloc_list (\<lambda>h. h\<lparr>md_prev := meta\<rparr>)) (\<lambda>s4.
          Inr (st\<lparr>al_nodes := s4\<rparr>))))))
        else
          bind_res (seek (Suc (length s)) (\<lambda>c. \<not> LOW_ADDR c < HIGH_ADDR m) md_next s alloc_list) (\<lambda>cur.
          bind_res (modify s meta (\<lambda>m. m\<lparr>md_next := cur\<rparr>)) (\<lambda>s1.
          bind_res (ld s1 cur) (\<lambda>c.
          bind_res (modify s1 meta (\<lambda>m. m\<lparr>md_prev := md_prev c\<rparr>)) (\<lambda>s2.
          bind_res (ld s2 cur) (\<lambda>c.
          bind_res (modify s2 (md_prev c) (\<lambda>p. p\<lparr>md_next := meta\<rparr>)) (\<lambda>s3.
          bind_res (modify s3 cur (\<lambda>c. c\<lparr>md_prev := meta\<rparr>)) (\<lambda>s4.
          Inr (st\<lparr>al_nodes := s4,
                  al_alloc_list := if cur = alloc_list then meta else alloc_list\<rparr>))))))))))))"

definition metadata_insert :: "size_t \<Rightarrow> alloc_state \<Rightarrow> alloc_state res" where
  "metadata_insert meta st = metadata_do_insert meta st"

text \<open>
  The list is circular, so the search for an address that is not in it never ends; the test
  for a null result after the loop can not succeed.
\<close>

definition metadata_remove :: "size_t \<Rightarrow> alloc_state \<Rightarrow> (size_t \<times> alloc_state) res" where
  "metadata_remove addr st =
     (let s = al_nodes st in
      bind_res (seek (Suc (length s)) (\<lambda>c. \<not> md_addr c \<noteq> addr) md_next s (al_alloc_list st)) (\<lambda>cur.
      if cur = 0 then Inl (Fatal ''internal error'')
      else
        bind_res (ld s cur) (\<lambda>c.
        bind_res (modify s (md_next c) (\<lambda>n. n\<lparr>md_prev := md_prev c\<rparr>)) (\<lambda>s1.
        bind_res (ld s1 cur) (\<lambda>c.
        bind_res (modify s1 (md_prev c) (\<lambda>p. p\<lparr>md_next := md_next c\<rparr>)) (\<lambda>s2.
        bind_res (ld s2 cur) (\<lambda>c.
        let alloc_list = (if cur = al_alloc_list st then md_next c else al_alloc_list st) in
        bind_res (modify s2 cur (\<lambda>c. c\<lparr>md_next := 0, md_prev := 0\<rparr>)) (\<lambda>s3.
        Inr (cur, st\<lparr>al_nodes := s3, al_alloc_list := alloc_list\<rparr>)))))))))"

text \<open>
  The objects of a page fresh from \<^verbatim>\<open>mmap\<close> are zero. The loop over the rest of the page
  threads its nodes onto the free list.
\<close>

definition zero_node :: memory_metadata_t where
  "zero_node = \<lparr>md_addr = 0, md_length = 0, md_reason = [], md_next = 0, md_prev = 0\<rparr>"

lemma carve_offset:
  assumes "offset < ALLOC_BLOCKSIZE - METADATA_SIZE"
  shows "unat offset < 4056" "unat (offset + METADATA_SIZE) = unat offset + 40"
proof -
  show less: "unat offset < 4056"
    using assms by (simp add: ALLOC_BLOCKSIZE_def METADATA_SIZE_def PAGESIZE_def word_less_nat_alt)
  then have "unat offset + unat METADATA_SIZE < 2 ^ 64" by (simp add: METADATA_SIZE_def)
  then show "unat (offset + METADATA_SIZE) = unat offset + 40"
    by (subst unat_add_lem [THEN iffD1]) (simp_all add: METADATA_SIZE_def)
qed

function metadata_carve ::
    "size_t \<Rightarrow> size_t \<Rightarrow> memory_metadata_t store \<Rightarrow> size_t \<Rightarrow> memory_metadata_t store \<times> size_t" where
  "metadata_carve p offset s free_list =
     (if offset < ALLOC_BLOCKSIZE - METADATA_SIZE
      then let node = p + offset in
        metadata_carve p (offset + METADATA_SIZE)
          (AList.update node (zero_node\<lparr>md_next := free_list\<rparr>) s) node
      else (s, free_list))"
  by pat_completeness auto

termination
proof (relation "measure (\<lambda>(p, offset, s, free_list). 4096 - unat offset)")
  fix p offset s free_list x
  assume "offset < ALLOC_BLOCKSIZE - METADATA_SIZE"
  from carve_offset [OF this]
  show "((p, offset + METADATA_SIZE, AList.update x (zero_node\<lparr>md_next := free_list\<rparr>) s, x),
      p, offset, s, free_list) \<in> measure (\<lambda>(p, offset, s, free_list). 4096 - unat offset)" by simp
qed simp

declare metadata_carve.simps [simp del]

definition metadata_new :: "os_t \<Rightarrow> alloc_state \<Rightarrow> (size_t \<times> alloc_state) res" where
  "metadata_new os st =
     bind_res
       (if al_free_list st = 0
        then
          bind_res (mmap_wrap os ALLOC_BLOCKSIZE False st) (\<lambda>(p, st).
          bind_res (metadata_do_insert p
             (st\<lparr>al_nodes := AList.update p
                    (zero_node\<lparr>md_addr := p, md_length := ALLOC_BLOCKSIZE\<rparr>) (al_nodes st)\<rparr>)) (\<lambda>st.
          let (s, free_list) = metadata_carve p METADATA_SIZE (al_nodes st) (al_free_list st) in
          Inr (st\<lparr>al_nodes := s, al_free_list := free_list\<rparr>)))
        else Inr st) (\<lambda>st.
     let ret = al_free_list st in
     bind_res (ld (al_nodes st) ret) (\<lambda>n.
     Inr (ret, st\<lparr>al_free_list := md_next n\<rparr>)))"

definition metadata_free :: "size_t \<Rightarrow> alloc_state \<Rightarrow> alloc_state res" where
  "metadata_free meta st =
     bind_res (modify (al_nodes st) meta (\<lambda>m. m\<lparr>md_next := al_free_list st\<rparr>)) (\<lambda>s.
     Inr (st\<lparr>al_nodes := s, al_free_list := meta\<rparr>))"

text \<open>The two loops of \<^verbatim>\<open>metadata_break_range\<close> leave when they are back at the start of the list.\<close>

fun break_advance :: "nat \<Rightarrow> memory_metadata_t store \<Rightarrow> size_t \<Rightarrow> size_t \<Rightarrow> size_t \<Rightarrow> size_t res" where
  "break_advance 0 s alloc_list low cur = Inl No_return"
| "break_advance (Suc k) s alloc_list low cur =
     bind_res (ld s cur) (\<lambda>m.
     if HIGH_ADDR m \<le> low
     then if md_next m = alloc_list then Inr alloc_list
          else break_advance k s alloc_list low (md_next m)
     else Inr cur)"

fun break_skip :: "nat \<Rightarrow> memory_metadata_t store \<Rightarrow> size_t \<Rightarrow> mem_range_t \<Rightarrow> size_t \<Rightarrow>
    (mem_range_t \<times> size_t) res" where
  "break_skip 0 s alloc_list ret cur = Inl No_return"
| "break_skip (Suc k) s alloc_list ret cur =
     bind_res (ld s cur) (\<lambda>m.
     if LOW_ADDR m \<le> mr_low ret
     then let ret = (if HIGH_ADDR m \<ge> mr_low ret
                     then ret\<lparr>mr_low := MIN_OF (HIGH_ADDR m) (mr_high ret)\<rparr> else ret)
          in if md_next m = alloc_list then Inr (ret, alloc_list)
             else break_skip k s alloc_list ret (md_next m)
     else Inr (ret, cur))"

text \<open>Returns the chunk and the remaining range.\<close>

definition metadata_break_range :: "alloc_state \<Rightarrow> mem_range_t \<Rightarrow> (mem_range_t \<times> mem_range_t) res" where
  "metadata_break_range st big_range =
     (let s = al_nodes st; alloc_list = al_alloc_list st; ret = big_range in
      bind_res (break_advance (Suc (length s)) s alloc_list (mr_low ret) alloc_list) (\<lambda>cur.
      bind_res (ld s cur) (\<lambda>m.
      bind_res
        (if HIGH_ADDR m > mr_low ret \<and> LOW_ADDR m < mr_high ret
         then bind_res (break_skip (Suc (length s)) s alloc_list ret cur) (\<lambda>(ret, cur).
              bind_res (ld s cur) (\<lambda>m.
              Inr (if LOW_ADDR m > mr_low ret
                   then ret\<lparr>mr_high := MIN_OF (LOW_ADDR m) (mr_high ret)\<rparr> else ret)))
         else Inr ret) (\<lambda>ret.
      Inr (ret, big_range\<lparr>mr_low := mr_high ret\<rparr>)))))"

definition alloc_mmap :: "os_t \<Rightarrow> size_t \<Rightarrow> string \<Rightarrow> bool \<Rightarrow> alloc_state \<Rightarrow> (size_t \<times> alloc_state) res" where
  "alloc_mmap os sz reason shared st =
     bind_res (metadata_new os st) (\<lambda>(meta, st).
     bind_res (modify (al_nodes st) meta (\<lambda>m. m\<lparr>md_length := sz\<rparr>)) (\<lambda>s.
     bind_res (mmap_wrap os sz shared (st\<lparr>al_nodes := s\<rparr>)) (\<lambda>(ptr, st).
     bind_res (modify (al_nodes st) meta (\<lambda>m. m\<lparr>md_addr := ptr, md_reason := reason\<rparr>)) (\<lambda>s.
     bind_res (metadata_insert meta (st\<lparr>al_nodes := s\<rparr>)) (\<lambda>st.
     bind_res (ld (al_nodes st) meta) (\<lambda>m.
     Inr (md_addr m, st)))))))"

definition forkscan_alloc_mmap :: "os_t \<Rightarrow> size_t \<Rightarrow> string \<Rightarrow> alloc_state \<Rightarrow> (size_t \<times> alloc_state) res" where
  "forkscan_alloc_mmap os sz reason st = alloc_mmap os sz reason False st"

definition forkscan_alloc_mmap_shared ::
    "os_t \<Rightarrow> size_t \<Rightarrow> string \<Rightarrow> alloc_state \<Rightarrow> (size_t \<times> alloc_state) res" where
  "forkscan_alloc_mmap_shared os sz reason st = alloc_mmap os sz reason True st"

definition forkscan_alloc_munmap :: "os_t \<Rightarrow> size_t \<Rightarrow> alloc_state \<Rightarrow> alloc_state res" where
  "forkscan_alloc_munmap os ptr st =
     bind_res (metadata_remove ptr st) (\<lambda>(meta, st).
     if meta = 0 then Inl (Fatal ''lost track of memory.'')
     else
       bind_res (ld (al_nodes st) meta) (\<lambda>m.
       let (rc, st) = munmap_wrap os (md_addr m) (md_length m) st in
       if rc \<noteq> 0 then Inl (Fatal ''failed munmap().'')
       else metadata_free meta st))"

definition forkscan_alloc_next_subrange :: "alloc_state \<Rightarrow> mem_range_t \<Rightarrow> (mem_range_t \<times> mem_range_t) res" where
  "forkscan_alloc_next_subrange st big_range = metadata_break_range st big_range"

section \<open>The sorted list of tracked blocks\<close>

definition lo_of :: "memory_metadata_t store \<Rightarrow> size_t \<Rightarrow> nat" where
  "lo_of s p = unat (md_addr (the (map_of s p)))"

definition hi_of :: "memory_metadata_t store \<Rightarrow> size_t \<Rightarrow> nat" where
  "hi_of s p = lo_of s p + unat (md_length (the (map_of s p)))"

text \<open>A block is not empty and does not reach the end of the address space.\<close>

definition block_ok :: "memory_metadata_t store \<Rightarrow> size_t \<Rightarrow> bool" where
  "block_ok s p \<longleftrightarrow> lo_of s p < hi_of s p \<and> hi_of s p < 2 ^ 64"

definition tracked :: "memory_metadata_t store \<Rightarrow> size_t list \<Rightarrow> bool" where
  "tracked s ps \<longleftrightarrow>
     ring_links md_next md_prev s ps \<and> sorted_wrt (\<lambda>p q. hi_of s p \<le> lo_of s q) ps \<and>
     (\<forall>p\<in>set ps. block_ok s p)"

text \<open>The blocks of two stores agree on a set of nodes.\<close>

definition same_blocks :: "memory_metadata_t store \<Rightarrow> memory_metadata_t store \<Rightarrow> bool" where
  "same_blocks s t \<longleftrightarrow>
     (\<forall>p. map_option (\<lambda>m. (md_addr m, md_length m, md_reason m)) (map_of t p)
        = map_option (\<lambda>m. (md_addr m, md_length m, md_reason m)) (map_of s p))"

lemma same_blocks_refl [simp]: "same_blocks s s"
  by (simp add: same_blocks_def)

lemma same_blocks_trans: "same_blocks s t \<Longrightarrow> same_blocks t u \<Longrightarrow> same_blocks s u"
  by (simp add: same_blocks_def)

lemma same_blocks_None: "same_blocks s t \<Longrightarrow> map_of t p = None \<longleftrightarrow> map_of s p = None"
  unfolding same_blocks_def
  by (drule spec [of _ p]) (cases "map_of t p"; cases "map_of s p"; simp)

lemma same_blocks_the:
  assumes "same_blocks s t"
  shows "md_addr (the (map_of t p)) = md_addr (the (map_of s p))"
    and "md_length (the (map_of t p)) = md_length (the (map_of s p))"
proof -
  have "map_option (\<lambda>m. (md_addr m, md_length m, md_reason m)) (map_of t p)
      = map_option (\<lambda>m. (md_addr m, md_length m, md_reason m)) (map_of s p)"
    using assms by (simp add: same_blocks_def)
  then show "md_addr (the (map_of t p)) = md_addr (the (map_of s p))"
    and "md_length (the (map_of t p)) = md_length (the (map_of s p))"
    by (cases "map_of t p"; cases "map_of s p"; simp)+
qed

lemma same_blocks_bounds [simp]:
  assumes "same_blocks s t"
  shows "lo_of t = lo_of s" "hi_of t = hi_of s" "block_ok t = block_ok s"
  using same_blocks_the [OF assms] by (auto simp: lo_of_def hi_of_def block_ok_def fun_eq_iff)

lemma same_blocks_update:
  assumes "map_of s p = Some v" "md_addr w = md_addr v" "md_length w = md_length v" "md_reason w = md_reason v"
  shows "same_blocks s (AList.update p w s)"
  using assms by (simp add: same_blocks_def)

lemma unat_LOW: "map_of s p = Some m \<Longrightarrow> unat (LOW_ADDR m) = lo_of s p"
  by (simp add: LOW_ADDR_def lo_of_def)

lemma unat_HIGH: "map_of s p = Some m \<Longrightarrow> block_ok s p \<Longrightarrow> unat (HIGH_ADDR m) = hi_of s p"
  unfolding HIGH_ADDR_def LOW_ADDR_def block_ok_def
  by (subst unat_add_lem [THEN iffD1]) (auto simp: lo_of_def hi_of_def)

lemma tracked_live:
  assumes "tracked s ps" "p \<in> set ps"
  obtains m where "p \<noteq> 0" "map_of s p = Some m" "unat (LOW_ADDR m) = lo_of s p"
    "unat (HIGH_ADDR m) = hi_of s p" "lo_of s p < hi_of s p"
  using assms ring_links_live [of md_next md_prev s ps p] unat_LOW unat_HIGH
  unfolding tracked_def block_ok_def by (metis block_ok_def)

lemma tracked_bounds:
  assumes "tracked s ps" "p \<in> set ps" "map_of s p = Some m"
  shows "unat (LOW_ADDR m) = lo_of s p" "unat (HIGH_ADDR m) = hi_of s p" "lo_of s p < hi_of s p"
  using assms unat_LOW unat_HIGH by (auto simp: tracked_def block_ok_def)

lemma tracked_length: "tracked s ps \<Longrightarrow> length ps \<le> length s"
  by (rule chain_length) (auto simp: tracked_def ring_links_def)

text \<open>The last block is the highest one.\<close>

lemma tracked_order:
  assumes "tracked s (as @ c # bs)" "p \<in> set bs" shows "hi_of s c \<le> lo_of s p"
  using assms by (auto simp: tracked_def sorted_wrt_append)

lemma tracked_le_last:
  assumes "tracked s ps" "p \<in> set ps" shows "hi_of s p \<le> hi_of s (last ps)"
proof (cases "p = last ps")
  case False
  obtain as bs where ps: "ps = as @ p # bs" using split_list [OF assms(2)] by blast
  with False have l: "last ps \<in> set bs" by (cases bs) auto
  then have "hi_of s p \<le> lo_of s (last ps)" using tracked_order [of s as p bs] assms(1) ps by blast
  moreover have "lo_of s (last ps) < hi_of s (last ps)"
    using assms(1) l ps by (auto simp: tracked_def block_ok_def)
  ultimately show ?thesis by simp
qed simp

subsection \<open>Insertion\<close>

text \<open>
  The result of the pointer writes of both insertion branches: the node \<open>m\<close> stands before
  \<open>c\<close>, the other fields and the other nodes are as before.
\<close>

definition spliced :: "size_t \<Rightarrow> size_t \<Rightarrow> memory_metadata_t store \<Rightarrow> memory_metadata_t store" where
  "spliced m c s =
     (let q = md_prev (the (map_of s c));
          s2 = AList.update m ((the (map_of s m))\<lparr>md_next := c, md_prev := q\<rparr>) s;
          s3 = AList.update q ((the (map_of s2 q))\<lparr>md_next := m\<rparr>) s2
      in AList.update c ((the (map_of s3 c))\<lparr>md_prev := m\<rparr>) s3)"

lemma spliced_frame: "a \<notin> set (m # c # zs) \<Longrightarrow> ring_links md_next md_prev s (c # zs) \<Longrightarrow>
    map_of (spliced m c s) a = map_of s a"
  using ring_links_hd_last(1) [of md_next md_prev s "c # zs"]
  by (auto simp: spliced_def Let_def split: if_splits)

lemma spliced_blocks:
  assumes "ring_links md_next md_prev s (c # zs)" "map_of s m = Some vm" "m \<notin> set (c # zs)"
  shows "same_blocks s (spliced m c s)"
proof -
  have q: "md_prev (the (map_of s c)) \<in> set (c # zs)"
    using ring_links_hd_last(1) [OF assms(1)] by auto
  with assms show ?thesis
    using ring_links_live(2) [OF assms(1) q] ring_links_live(2) [OF assms(1), of c]
    by (auto simp: spliced_def same_blocks_def Let_def)
qed

lemma spliced_ring:
  assumes ring: "ring_links md_next md_prev s (c # zs)"
    and m: "map_of s m = Some vm" "m \<noteq> 0" "m \<notin> set (c # zs)"
  shows "ring_links md_next md_prev (spliced m c s) (c # zs @ [m])"
proof (rule ring_insert [OF ring m(2,3)])
  have q: "md_prev (the (map_of s c)) = last (c # zs)"
    using ring_links_hd_last(1) [OF ring] by simp
  have mq: "m \<noteq> last (c # zs)" "m \<noteq> c" using m(3) last_in_set [of "c # zs"] by auto
  have live: "\<exists>v. map_of s a = Some v" if "a \<in> set (c # zs)" for a
    using ring_links_live(2) [OF ring that] .
  show "\<forall>a\<in>set (m # c # zs). map_of (spliced m c s) a \<noteq> None"
    using live m(1) by (auto simp: spliced_def Let_def)
  show "md_next (the (map_of (spliced m c s) m)) = c"
    "md_prev (the (map_of (spliced m c s) m)) = last (c # zs)"
    using mq q by (simp_all add: spliced_def Let_def)
  show "md_next (the (map_of (spliced m c s) (last (c # zs)))) = m"
    using mq q by (simp add: spliced_def Let_def)
  show "md_prev (the (map_of (spliced m c s) c)) = m" by (simp add: spliced_def Let_def)
  show "md_next (the (map_of (spliced m c s) a)) = md_next (the (map_of s a))"
    if "a \<in> set (c # zs)" "a \<noteq> last (c # zs)" for a
    using that mq q m(3) by (auto simp: spliced_def Let_def)
  show "md_prev (the (map_of (spliced m c s) a)) = md_prev (the (map_of s a))" if "a \<in> set zs" for a
    using that mq q m(3) ring by (auto simp: spliced_def Let_def ring_links_def)
qed

lemma append_writes:
  assumes ring: "ring_links md_next md_prev s (c # zs)" and vc: "map_of s c = Some vc"
    and m: "map_of s m = Some vm" "m \<noteq> 0" "m \<notin> set (c # zs)"
  shows "bind_res (modify s m (\<lambda>v. v\<lparr>md_prev := md_prev vc\<rparr>)) (\<lambda>s1.
         bind_res (modify s1 m (\<lambda>v. v\<lparr>md_next := c\<rparr>)) (\<lambda>s2.
         bind_res (ld s2 c) (\<lambda>h.
         bind_res (modify s2 (md_prev h) (\<lambda>p. p\<lparr>md_next := m\<rparr>)) (\<lambda>s3.
         bind_res (modify s3 c (\<lambda>h. h\<lparr>md_prev := m\<rparr>)) f)))) = f (spliced m c s)"
    and "bind_res (modify s m (\<lambda>v. v\<lparr>md_next := c\<rparr>)) (\<lambda>s1.
         bind_res (ld s1 c) (\<lambda>h.
         bind_res (modify s1 m (\<lambda>v. v\<lparr>md_prev := md_prev h\<rparr>)) (\<lambda>s2.
         bind_res (ld s2 c) (\<lambda>h.
         bind_res (modify s2 (md_prev h) (\<lambda>p. p\<lparr>md_next := m\<rparr>)) (\<lambda>s3.
         bind_res (modify s3 c (\<lambda>h. h\<lparr>md_prev := m\<rparr>)) f))))) = f (spliced m c s)"
proof -
  have q: "md_prev vc = last (c # zs)" using ring_links_hd_last(1) [OF ring] vc by simp
  then have qin: "md_prev vc \<in> set (c # zs)" by (metis last_in_set list.distinct(1))
  obtain vq where vq: "map_of s (md_prev vc) = Some vq" "md_prev vc \<noteq> 0"
    using ring_links_live [OF ring qin] by auto
  have ne: "c \<noteq> 0" "m \<noteq> c" "m \<noteq> md_prev vc"
    using ring_links_live(1) [OF ring, of c] m(3) qin by auto
  have comm: "vm\<lparr>md_prev := a, md_next := b\<rparr> = vm\<lparr>md_next := b, md_prev := a\<rparr>" for a b by simp
  show "bind_res (modify s m (\<lambda>v. v\<lparr>md_prev := md_prev vc\<rparr>)) (\<lambda>s1.
         bind_res (modify s1 m (\<lambda>v. v\<lparr>md_next := c\<rparr>)) (\<lambda>s2.
         bind_res (ld s2 c) (\<lambda>h.
         bind_res (modify s2 (md_prev h) (\<lambda>p. p\<lparr>md_next := m\<rparr>)) (\<lambda>s3.
         bind_res (modify s3 c (\<lambda>h. h\<lparr>md_prev := m\<rparr>)) f)))) = f (spliced m c s)"
    using vc vq m(1,2) ne by (cases "c = md_prev vc") (simp_all add: spliced_def Let_def comm)
  show "bind_res (modify s m (\<lambda>v. v\<lparr>md_next := c\<rparr>)) (\<lambda>s1.
         bind_res (ld s1 c) (\<lambda>h.
         bind_res (modify s1 m (\<lambda>v. v\<lparr>md_prev := md_prev h\<rparr>)) (\<lambda>s2.
         bind_res (ld s2 c) (\<lambda>h.
         bind_res (modify s2 (md_prev h) (\<lambda>p. p\<lparr>md_next := m\<rparr>)) (\<lambda>s3.
         bind_res (modify s3 c (\<lambda>h. h\<lparr>md_prev := m\<rparr>)) f))))) = f (spliced m c s)"
    using vc vq m(1,2) ne by (cases "c = md_prev vc") (simp_all add: spliced_def Let_def)
qed

text \<open>A node whose block overlaps no tracked block finds its place in the sorted list.\<close>

definition fits :: "memory_metadata_t store \<Rightarrow> size_t list \<Rightarrow> size_t \<Rightarrow> bool" where
  "fits s ps m \<longleftrightarrow> m \<noteq> 0 \<and> m \<notin> set ps \<and> map_of s m \<noteq> None \<and> block_ok s m \<and>
     (\<forall>p\<in>set ps. hi_of s p \<le> lo_of s m \<or> hi_of s m \<le> lo_of s p)"

definition head_of :: "size_t list \<Rightarrow> size_t" where
  "head_of ps = (if ps = [] then 0 else hd ps)"

definition inserted ::
    "alloc_state \<Rightarrow> size_t list \<Rightarrow> size_t \<Rightarrow> alloc_state \<Rightarrow> size_t list \<Rightarrow> bool" where
  "inserted st ps m st' ps' \<longleftrightarrow>
     tracked (al_nodes st') ps' \<and> (\<exists>as bs. ps = as @ bs \<and> ps' = as @ m # bs) \<and>
     same_blocks (al_nodes st) (al_nodes st') \<and>
     (\<forall>a. a \<notin> set (m # ps) \<longrightarrow> map_of (al_nodes st') a = map_of (al_nodes st) a) \<and>
     al_alloc_list st' = head_of ps' \<and> al_free_list st' = al_free_list st \<and> al_mapped st' = al_mapped st"

lemma inserted_splice:
  assumes tr: "tracked (al_nodes st) (as @ bs)" and fit: "fits (al_nodes st) (as @ bs) m"
    and rot: "c # zs = bs @ as"
    and pos: "\<forall>p\<in>set as. hi_of (al_nodes st) p \<le> lo_of (al_nodes st) m"
      "\<forall>p\<in>set bs. hi_of (al_nodes st) m \<le> lo_of (al_nodes st) p"
    and st': "st' = st\<lparr>al_nodes := spliced m c (al_nodes st), al_alloc_list := head_of (as @ m # bs)\<rparr>"
  shows "inserted st (as @ bs) m st' (as @ m # bs)"
proof -
  let ?s = "al_nodes st" and ?t = "spliced m c (al_nodes st)"
  have ring: "ring_links md_next md_prev ?s (c # zs)"
    using tr ring_links_rotate [of md_next md_prev ?s bs as] by (simp add: tracked_def rot)
  obtain vm where m: "map_of ?s m = Some vm" "m \<noteq> 0" "m \<notin> set (c # zs)"
    using fit by (auto simp: fits_def rot)
  have blocks: "same_blocks ?s ?t" by (rule spliced_blocks [OF ring m(1,3)])
  have "ring_links md_next md_prev ?t (bs @ (as @ [m]))"
    using spliced_ring [OF ring m] rot by (simp flip: append_Cons append_assoc)
  then have "ring_links md_next md_prev ?t (as @ m # bs)"
    using ring_links_rotate [of md_next md_prev ?t bs "as @ [m]"] by simp
  moreover have "sorted_wrt (\<lambda>p q. hi_of ?s p \<le> lo_of ?s q) (as @ m # bs)"
    using tr pos by (auto simp: tracked_def sorted_wrt_append)
  ultimately have "tracked ?t (as @ m # bs)"
    using tr fit by (auto simp: tracked_def fits_def same_blocks_bounds [OF blocks])
  moreover have "map_of ?t a = map_of ?s a" if "a \<notin> set (m # as @ bs)" for a
    using spliced_frame [OF _ ring, of a m] that arg_cong [OF rot, of set] by auto
  ultimately show ?thesis using blocks unfolding inserted_def st' by (auto intro: exI [of _ as])
qed

lemma insert_position:
  assumes tr: "tracked s ps" and fit: "fits s ps m" and above: "hi_of s m \<le> lo_of s (last ps)" and ne: "ps \<noteq> []"
  shows "\<exists>as b bs. ps = as @ b # bs \<and> (\<forall>p\<in>set as. lo_of s p < hi_of s m) \<and> \<not> lo_of s b < hi_of s m \<and>
    (\<forall>p\<in>set as. hi_of s p \<le> lo_of s m) \<and> (\<forall>p\<in>set (b # bs). hi_of s m \<le> lo_of s p)"
proof -
  obtain as b bs where split: "ps = as @ b # bs" and as: "\<forall>p\<in>set as. lo_of s p < hi_of s m"
    and b: "\<not> lo_of s b < hi_of s m"
    using split_list_first_propE [of ps "\<lambda>p. \<not> lo_of s p < hi_of s m"] above last_in_set [OF ne]
    by (metis not_less)
  have "hi_of s p \<le> lo_of s m" if "p \<in> set as" for p
  proof -
    have "p \<in> set ps" "lo_of s p < hi_of s m" using that as split by auto
    with fit show ?thesis unfolding fits_def by (metis not_less)
  qed
  moreover have "hi_of s m \<le> lo_of s p" if "p \<in> set bs" for p
    using tracked_order [of s as b bs p] tr split b that by (auto simp: tracked_def block_ok_def)
  ultimately show ?thesis using split as b by (intro exI [of _ as] exI [of _ b] exI [of _ bs]) auto
qed

lemma metadata_do_insert_ok:
  assumes tr: "tracked (al_nodes st) ps" and fit: "fits (al_nodes st) ps m"
    and head: "al_alloc_list st = head_of ps"
  shows "\<exists>st' ps'. metadata_do_insert m st = Inr st' \<and> inserted st ps m st' ps'"
proof (cases ps)
  case Nil
  obtain vm where m: "map_of (al_nodes st) m = Some vm" "m \<noteq> 0" "block_ok (al_nodes st) m"
    using fit by (auto simp: fits_def)
  let ?s = "AList.update m (vm\<lparr>md_next := m, md_prev := m\<rparr>) (al_nodes st)"
  have "same_blocks (al_nodes st) ?s" using m(1) by (simp add: same_blocks_update)
  then have "inserted st [] m (st\<lparr>al_nodes := ?s, al_alloc_list := m\<rparr>) [m]"
    using m by (auto simp: inserted_def tracked_def ring_links_def edges_def head_of_def)
  with m head Nil show ?thesis by (auto simp: metadata_do_insert_def head_of_def Let_def)
next
  case (Cons c zs)
  let ?s = "al_nodes st"
  have ring: "ring_links md_next md_prev ?s (c # zs)" using tr Cons by (simp add: tracked_def)
  obtain vc where c: "c \<noteq> 0" "map_of ?s c = Some vc" using tracked_live [OF tr, of c] Cons by auto
  obtain vl where l: "map_of ?s (last ps) = Some vl" "last ps \<noteq> 0" "unat (HIGH_ADDR vl) = hi_of ?s (last ps)"
    using tracked_live [OF tr, of "last ps"] Cons last_in_set by blast
  have prev: "md_prev vc = last ps" using ring_links_hd_last(1) [OF ring] c Cons by simp
  obtain vm where m: "map_of ?s m = Some vm" "m \<noteq> 0" "m \<notin> set (c # zs)" "block_ok ?s m"
    using fit Cons by (auto simp: fits_def)
  have lds: "al_alloc_list st = c" "ld ?s c = Inr vc" "ld ?s (md_prev vc) = Inr vl" "ld ?s m = Inr vm"
    using head c prev l m(1,2) by (simp_all add: head_of_def Cons)
  note eval = metadata_do_insert_def Let_def lds c(1) bind_res_Inr if_False
  show ?thesis
  proof (cases "HIGH_ADDR vl \<le> LOW_ADDR vm")
    case True
    let ?st = "st\<lparr>al_nodes := spliced m c ?s, al_alloc_list := head_of (ps @ m # [])\<rparr>"
    have "hi_of ?s (last ps) \<le> lo_of ?s m"
      using True l(3) unat_LOW [OF m(1)] by (simp add: word_le_nat_alt)
    then have "hi_of ?s p \<le> lo_of ?s m" if "p \<in> set ps" for p
      using tracked_le_last [OF tr that] by simp
    then have "inserted st (ps @ []) m ?st (ps @ m # [])"
      by (intro inserted_splice) (use tr fit Cons in simp_all)
    moreover have "metadata_do_insert m st = Inr ?st"
      by (simp only: eval True if_True append_writes(1) [OF ring c(2) m(1,2,3)])
        (simp add: head_of_def lds Cons)
    ultimately show ?thesis by auto
  next
    case False
    then have above: "hi_of ?s m \<le> lo_of ?s (last ps)"
      using l(3) unat_LOW [OF m(1)] fit Cons by (auto simp: word_le_nat_alt fits_def)
    obtain as b bs where split: "ps = as @ b # bs"
      and b: "\<forall>p\<in>set as. lo_of ?s p < hi_of ?s m" "\<not> lo_of ?s b < hi_of ?s m"
      and pos: "\<forall>p\<in>set as. hi_of ?s p \<le> lo_of ?s m" "\<forall>p\<in>set (b # bs). hi_of ?s m \<le> lo_of ?s p"
      using insert_position [OF tr fit above] Cons by blast
    obtain vb where vb: "map_of ?s b = Some vb" "unat (LOW_ADDR vb) = lo_of ?s b"
      using tracked_live [OF tr, of b] split by auto
    let ?st = "st\<lparr>al_nodes := spliced m b ?s, al_alloc_list := head_of (as @ m # b # bs)\<rparr>"
    have ins: "inserted st (as @ b # bs) m ?st (as @ m # b # bs)"
      by (rule inserted_splice [where zs = "bs @ as", OF _ _ _ pos]) (use tr fit split in simp_all)
    have sk: "seek (Suc (length ?s)) (\<lambda>c. \<not> LOW_ADDR c < HIGH_ADDR vm) md_next ?s c = Inr b"
    proof (rule seek_ok [where as = as and bs = bs])
      show "path md_next ?s c (as @ b # bs) c"
        using ring_links_path [OF ring] split [symmetric] Cons by simp
      show "length as < Suc (length ?s)"
        using tracked_length [OF tr] split by simp
      show "\<not> LOW_ADDR vb < HIGH_ADDR vm"
        using b(2) vb unat_HIGH [OF m(1,4)] by (simp add: word_less_nat_alt)
      show "\<not> \<not> LOW_ADDR v < HIGH_ADDR vm" if "a \<in> set as" "map_of ?s a = Some v" for a v
        using unat_LOW [OF that(2)] unat_HIGH [OF m(1,4)] b(1) that(1)
        by (simp add: word_less_nat_alt)
    qed (rule vb(1))
    have rg: "ring_links md_next md_prev ?s (b # bs @ as)"
      using ring_links_rotate [of md_next md_prev ?s as "b # bs"] tr split by (simp add: tracked_def)
    have hd: "(if b = c then m else c) = head_of (as @ m # b # bs)"
      using split Cons ring by (cases as) (auto simp: head_of_def ring_links_def)
    have out: "m \<notin> set (b # bs @ as)" using fit split by (auto simp: fits_def)
    have "metadata_do_insert m st = Inr ?st"
      by (simp only: eval False sk append_writes(2) [OF rg vb(1) m(1,2) out] hd)
    then show ?thesis using ins split by metis
  qed
qed

subsection \<open>Removal\<close>

definition unlinked :: "size_t \<Rightarrow> memory_metadata_t store \<Rightarrow> memory_metadata_t store" where
  "unlinked c s =
     (let v = the (map_of s c);
          s1 = AList.update (md_next v) ((the (map_of s (md_next v)))\<lparr>md_prev := md_prev v\<rparr>) s;
          s2 = AList.update (md_prev v) ((the (map_of s1 (md_prev v)))\<lparr>md_next := md_next v\<rparr>) s1
      in AList.update c (v\<lparr>md_next := 0, md_prev := 0\<rparr>) s2)"

lemma unlinked_ok:
  assumes ring: "ring_links md_next md_prev s (c # zs)" and zs: "zs \<noteq> []" and vc: "map_of s c = Some vc"
  shows "bind_res (modify s (md_next vc) (\<lambda>n. n\<lparr>md_prev := md_prev vc\<rparr>)) (\<lambda>s1.
         bind_res (ld s1 c) (\<lambda>w.
         bind_res (modify s1 (md_prev w) (\<lambda>p. p\<lparr>md_next := md_next w\<rparr>)) (\<lambda>s2.
         bind_res (ld s2 c) (\<lambda>w.
         bind_res (modify s2 c (\<lambda>c. c\<lparr>md_next := 0, md_prev := 0\<rparr>)) (f w)))))
       = f vc (unlinked c s)" (is ?eval)
    and "ring_links md_next md_prev (unlinked c s) zs"
    and "same_blocks s (unlinked c s)"
    and "\<And>a. a \<notin> set (c # zs) \<Longrightarrow> map_of (unlinked c s) a = map_of s a"
proof -
  have nb: "md_next vc = hd zs" "md_prev vc = last zs"
    using ring_neighbours [OF ring zs] vc by simp_all
  have mem: "hd zs \<in> set zs" "last zs \<in> set zs" using zs by simp_all
  have ne: "hd zs \<noteq> c" "last zs \<noteq> c" "c \<noteq> 0" "hd zs \<noteq> 0" "last zs \<noteq> 0"
    using ring mem by (auto simp: ring_links_def)
  obtain vn vp where v: "map_of s (hd zs) = Some vn" "map_of s (last zs) = Some vp"
    using ring_links_live(2) [OF ring, of "hd zs"] ring_links_live(2) [OF ring, of "last zs"] mem by auto
  note v_simps = unlinked_def Let_def nb v vc
  show ?eval using ne by (cases "hd zs = last zs") (simp_all add: v_simps)
  show "ring_links md_next md_prev (unlinked c s) zs"
  proof (rule ring_remove [OF ring zs])
    show "\<forall>a\<in>set zs. map_of (unlinked c s) a \<noteq> None"
      using ring by (auto simp: v_simps ring_links_def)
    show "md_next (the (map_of (unlinked c s) (last zs))) = hd zs"
      "md_prev (the (map_of (unlinked c s) (hd zs))) = last zs"
      using ne by (simp_all add: v_simps)
    show "md_next (the (map_of (unlinked c s) a)) = md_next (the (map_of s a))"
      if "a \<in> set zs" "a \<noteq> last zs" for a
      using that ne ring by (auto simp: v_simps ring_links_def)
    show "md_prev (the (map_of (unlinked c s) a)) = md_prev (the (map_of s a))"
      if "a \<in> set zs" "a \<noteq> hd zs" for a
      using that ne ring by (auto simp: v_simps ring_links_def)
  qed
  show "same_blocks s (unlinked c s)" using ne by (auto simp: v_simps same_blocks_def)
  show "map_of (unlinked c s) a = map_of s a" if "a \<notin> set (c # zs)" for a
    using that mem by (auto simp: v_simps)
qed

definition removed ::
    "alloc_state \<Rightarrow> size_t list \<Rightarrow> alloc_state \<Rightarrow> size_t list \<Rightarrow> bool" where
  "removed st ps st' ps' \<longleftrightarrow>
     tracked (al_nodes st') ps' \<and> same_blocks (al_nodes st) (al_nodes st') \<and>
     (\<forall>a. a \<notin> set ps \<longrightarrow> map_of (al_nodes st') a = map_of (al_nodes st) a) \<and>
     al_alloc_list st' = head_of ps' \<and> al_free_list st' = al_free_list st \<and> al_mapped st' = al_mapped st"

text \<open>The block that starts at an address is found and taken out, unless it is the only one.\<close>

lemma metadata_remove_ok:
  assumes tr: "tracked (al_nodes st) (as @ c # bs)" and more: "as @ bs \<noteq> []"
    and vc: "map_of (al_nodes st) c = Some vc" and head: "al_alloc_list st = head_of (as @ c # bs)"
  shows "\<exists>st'. metadata_remove (md_addr vc) st = Inr (c, st') \<and> removed st (as @ c # bs) st' (as @ bs)"
proof -
  let ?s = "al_nodes st"
  have ring: "ring_links md_next md_prev ?s (c # bs @ as)"
    using tr ring_links_rotate [of md_next md_prev ?s as "c # bs"] by (simp add: tracked_def)
  have c: "c \<noteq> 0" "lo_of ?s c = unat (md_addr vc)"
    using tracked_live [OF tr, of c] vc by (auto simp: lo_of_def)
  have start: "al_alloc_list st = hd (as @ c # bs)" using head by (simp add: head_of_def)
  have sk: "seek (Suc (length ?s)) (\<lambda>c. \<not> md_addr c \<noteq> md_addr vc) md_next ?s (al_alloc_list st) = Inr c"
  proof (rule seek_ok [OF _ _ vc])
    show "path md_next ?s (al_alloc_list st) (as @ c # bs) (hd (as @ c # bs))"
      unfolding start by (rule ring_links_path [where prv = md_prev]) (use tr in \<open>simp_all add: tracked_def\<close>)
    show "length as < Suc (length ?s)" using tracked_length [OF tr] by simp
    show "\<not> \<not> md_addr v \<noteq> md_addr vc" if "a \<in> set as" "map_of ?s a = Some v" for a v
    proof -
      have "hi_of ?s a \<le> lo_of ?s c" using tr that(1) by (auto simp: tracked_def sorted_wrt_append)
      moreover have "lo_of ?s a < hi_of ?s a" using tr that(1) by (simp add: tracked_def block_ok_def)
      ultimately show ?thesis using that(2) c(2) by (auto simp: lo_of_def)
    qed
  qed simp
  note un = unlinked_ok [OF ring _ vc]
  have zs: "bs @ as \<noteq> []" using more by auto
  let ?head = "if c = al_alloc_list st then md_next vc else al_alloc_list st"
  let ?st = "st\<lparr>al_nodes := unlinked c ?s, al_alloc_list := ?head\<rparr>"
  have "metadata_remove (md_addr vc) st = Inr (c, ?st)"
    unfolding metadata_remove_def Let_def sk bind_res_Inr ld_ok [OF c(1) vc] using c(1)
    by (simp only: if_False un(1) [OF zs])
  moreover have "?head = head_of (as @ bs)"
    using more start ring ring_neighbours(1) [OF ring zs] vc
    by (cases as) (auto simp: head_of_def ring_links_def)
  moreover have "tracked (unlinked c ?s) (as @ bs)"
    using tr un(2) [OF zs] ring_links_rotate [of md_next md_prev "unlinked c ?s" bs as]
    by (auto simp: tracked_def sorted_wrt_append same_blocks_bounds [OF un(3) [OF zs]])
  moreover have "same_blocks ?s (unlinked c ?s)" by (rule un(3) [OF zs])
  moreover have "map_of (unlinked c ?s) a = map_of ?s a" if "a \<notin> set (as @ c # bs)" for a
    using un(4) [OF zs] that by auto
  ultimately show ?thesis by (auto simp: removed_def)
qed

section \<open>The state of the allocator\<close>

text \<open>
  What the operating system promises of \<^verbatim>\<open>mmap\<close> without a requested address: a length of zero
  is refused; a block it gives is not at null, stays below the end of the address space and
  overlaps no mapping that exists. \<^verbatim>\<open>munmap\<close> of an existing mapping succeeds.
\<close>

definition mmap_fresh :: "os_t \<Rightarrow> bool" where
  "mmap_fresh os \<longleftrightarrow>
     (\<forall>maps sz shared p. os_mmap os maps sz shared = Some p \<longrightarrow>
        sz \<noteq> 0 \<and> p \<noteq> 0 \<and> unat p + unat sz < 2 ^ 64 \<and>
        (\<forall>(a, l)\<in>set maps. unat p + unat sz \<le> unat a \<or> unat a + unat l \<le> unat p))"

definition munmap_works :: "os_t \<Rightarrow> bool" where
  "munmap_works os \<longleftrightarrow> (\<forall>maps a l. (a, l) \<in> set maps \<longrightarrow> os_munmap os maps a l)"

definition block_of :: "memory_metadata_t store \<Rightarrow> size_t \<Rightarrow> size_t \<times> size_t" where
  "block_of s p = (md_addr (the (map_of s p)), md_length (the (map_of s p)))"

text \<open>A node that describes the page it stands in.\<close>

definition meta_page :: "memory_metadata_t store \<Rightarrow> size_t \<Rightarrow> bool" where
  "meta_page s p \<longleftrightarrow> block_of s p = (p, ALLOC_BLOCKSIZE)"

definition in_page :: "size_t \<Rightarrow> size_t \<Rightarrow> bool" where
  "in_page p a \<longleftrightarrow> unat p \<le> unat a \<and> unat a < unat p + 4096"

text \<open>
  The invariant: \<open>ps\<close> are the nodes of the sorted circular list and describe exactly the
  mappings that exist; \<open>fs\<close> are the nodes of the free list; every node stands in a page that
  the list describes.
\<close>

definition alloc_inv :: "alloc_state \<Rightarrow> size_t list \<Rightarrow> size_t list \<Rightarrow> bool" where
  "alloc_inv st ps fs \<longleftrightarrow>
     tracked (al_nodes st) ps \<and> al_alloc_list st = head_of ps \<and>
     path md_next (al_nodes st) (al_free_list st) fs 0 \<and> set fs \<inter> set ps = {} \<and>
     mset (al_mapped st) = mset (map (block_of (al_nodes st)) ps) \<and>
     (\<forall>a. map_of (al_nodes st) a \<noteq> None \<longrightarrow> (\<exists>p\<in>set ps. meta_page (al_nodes st) p \<and> in_page p a))"

lemma unat_page_offset: "k < 4096 \<Longrightarrow> unat (p :: size_t) + 4096 < 2 ^ 64 \<Longrightarrow> unat (p + of_nat k) = unat p + k"
proof -
  assume k: "k < 4096" "unat p + 4096 < 2 ^ 64"
  have "unat (of_nat k :: size_t) = k" using k by (simp add: unsigned_of_nat take_bit_nat_eq_self_iff)
  then show ?thesis using k by (subst unat_add_lem [THEN iffD1]) auto
qed

lemma metadata_carve_ok:
  assumes p: "p \<noteq> 0" "unat p + 4096 < 2 ^ 64"
    and fresh: "\<forall>k. unat off \<le> k \<longrightarrow> k < 4096 \<longrightarrow> map_of s (p + of_nat k) = None"
    and fl: "path md_next s fl fs 0"
  shows "\<exists>s' fl' gs. metadata_carve p off s fl = (s', fl') \<and> path md_next s' fl' (gs @ fs) 0 \<and>
    (\<forall>g\<in>set gs. in_page p g \<and> map_of s g = None) \<and> (unat off < 4056 \<longrightarrow> gs \<noteq> []) \<and>
    (\<forall>a. a \<notin> set gs \<longrightarrow> map_of s' a = map_of s a)"
  using assms
proof (induction p off s fl arbitrary: fs rule: metadata_carve.induct)
  case (1 p off s fl)
  show ?case
  proof (cases "off < ALLOC_BLOCKSIZE - METADATA_SIZE")
    case True
    note off = carve_offset [OF True]
    let ?node = "p + off"
    let ?s = "AList.update ?node (zero_node\<lparr>md_next := fl\<rparr>) s"
    have node: "unat ?node = unat p + unat off" using unat_page_offset [of "unat off" p] off "1.prems" by simp
    have "?node \<noteq> 0" using node "1.prems"(1) by (metis add_is_0 unat_0 unat_eq_zero)
    moreover have new: "map_of s ?node = None" using "1.prems"(3) [rule_format, of "unat off"] off by simp
    moreover have nf: "?node \<notin> set fs" using path_live [OF "1.prems"(4)] new by fastforce
    ultimately have fl: "path md_next ?s ?node (?node # fs) 0" using "1.prems"(4) by simp
    have "map_of ?s (p + of_nat k) = None" if "unat (off + METADATA_SIZE) \<le> k" "k < 4096" for k
    proof -
      have "unat (p + of_nat k) = unat p + k" by (rule unat_page_offset) (use that "1.prems" in auto)
      then have "p + of_nat k \<noteq> ?node" using that(1) off(2) node by force
      then show ?thesis using that off(2) "1.prems"(3) by simp
    qed
    then obtain s' fl' gs where IH: "metadata_carve p (off + METADATA_SIZE) ?s ?node = (s', fl')"
      "path md_next s' fl' (gs @ ?node # fs) 0" "\<forall>g\<in>set gs. in_page p g \<and> map_of ?s g = None"
      "\<forall>a. a \<notin> set gs \<longrightarrow> map_of s' a = map_of ?s a"
      using "1.IH" [OF True refl "1.prems"(1,2) _ fl] by blast
    show ?thesis
    proof (intro exI conjI)
      show "metadata_carve p off s fl = (s', fl')"
        using IH(1) True by (subst metadata_carve.simps) (simp add: Let_def)
      show "path md_next s' fl' ((gs @ [?node]) @ fs) 0" using IH(2) by simp
      show "\<forall>g\<in>set (gs @ [?node]). in_page p g \<and> map_of s g = None"
        using IH(3) new node off by (auto simp: in_page_def split: if_splits)
      show "\<forall>a. a \<notin> set (gs @ [?node]) \<longrightarrow> map_of s' a = map_of s a" using IH(4) by auto
    qed simp
  next
    case False
    then have "metadata_carve p off s fl = (s, fl)" by (subst metadata_carve.simps) simp
    moreover have "\<not> unat off < 4056"
      using False by (simp add: ALLOC_BLOCKSIZE_def METADATA_SIZE_def PAGESIZE_def word_less_nat_alt)
    ultimately show ?thesis using "1.prems"(4)
      by (intro exI [of _ s] exI [of _ fl] exI [of _ "[]"]) simp
  qed
qed

lemma bounds_cong:
  assumes "map_of t a = map_of s a"
  shows "lo_of t a = lo_of s a" "hi_of t a = hi_of s a" "block_ok t a = block_ok s a"
    "block_of t a = block_of s a" "meta_page t a = meta_page s a"
  using assms by (simp_all add: lo_of_def hi_of_def block_ok_def block_of_def meta_page_def)

lemma tracked_cong:
  assumes same: "\<And>a. a \<in> set ps \<Longrightarrow> map_of t a = map_of s a" and tr: "tracked s ps"
  shows "tracked t ps"
proof -
  have "sorted_wrt (\<lambda>p q. hi_of t p \<le> lo_of t q) ps"
  proof (rule sorted_wrt_mono_rel)
    show "sorted_wrt (\<lambda>p q. hi_of s p \<le> lo_of s q) ps" using tr by (simp add: tracked_def)
  qed (simp add: bounds_cong [OF same])
  moreover have "block_ok t p" if "p \<in> set ps" for p
    using that tr bounds_cong(3) [OF same [OF that]] by (simp add: tracked_def)
  ultimately show ?thesis using tr ring_links_cong [of ps t s md_next md_prev] same
    by (simp add: tracked_def)
qed

lemma same_blocks_block_of [simp]: "same_blocks s t \<Longrightarrow> block_of t = block_of s"
  "same_blocks s t \<Longrightarrow> meta_page t = meta_page s"
  using same_blocks_the by (auto simp: block_of_def meta_page_def fun_eq_iff)

lemma block_of_bounds: "block_of s p = (a, l) \<Longrightarrow> lo_of s p = unat a \<and> hi_of s p = unat a + unat l"
  by (auto simp: block_of_def lo_of_def hi_of_def)

lemma alloc_inv_mapped: "alloc_inv st ps fs \<Longrightarrow> set (al_mapped st) = block_of (al_nodes st) ` set ps"
  unfolding alloc_inv_def by (metis image_set mset_eq_setD)

definition apart :: "size_t \<Rightarrow> size_t \<Rightarrow> (size_t \<times> size_t) list \<Rightarrow> bool" where
  "apart p sz maps \<longleftrightarrow> sz \<noteq> 0 \<and> p \<noteq> 0 \<and> unat p + unat sz < 2 ^ 64 \<and>
     (\<forall>(a, l)\<in>set maps. unat p + unat sz \<le> unat a \<or> unat a + unat l \<le> unat p)"

lemma mmap_apart: "mmap_fresh os \<Longrightarrow> os_mmap os maps sz shared = Some p \<Longrightarrow> apart p sz maps"
  by (simp add: mmap_fresh_def apart_def)

text \<open>Recording a mapping that is apart from the others keeps the invariant.\<close>

lemma record_block:
  assumes inv: "alloc_inv st ps fs" and ap: "apart p sz (al_mapped st)"
    and m: "m \<noteq> 0" "m \<notin> set ps" "m \<notin> set fs"
    and v: "md_addr v = p" "md_length v = sz"
    and page: "(\<exists>q\<in>set ps. meta_page (al_nodes st) q \<and> in_page q m) \<or> m = p \<and> sz = ALLOC_BLOCKSIZE"
    and st1: "st1 = st\<lparr>al_mapped := (p, sz) # al_mapped st, al_nodes := AList.update m v (al_nodes st)\<rparr>"
  shows "\<exists>st2 ps'. metadata_do_insert m st1 = Inr st2 \<and> alloc_inv st2 ps' fs \<and>
    al_mapped st2 = (p, sz) # al_mapped st \<and> al_free_list st2 = al_free_list st \<and>
    same_blocks (al_nodes st1) (al_nodes st2) \<and> set ps' = insert m (set ps) \<and>
    (\<forall>a. a \<notin> set (m # ps) \<longrightarrow> map_of (al_nodes st2) a = map_of (al_nodes st1) a)"
proof -
  let ?s = "al_nodes st" and ?t = "al_nodes st1"
  have tr: "tracked ?t ps" by (rule tracked_cong [of _ _ ?s]) (use m(2) inv in \<open>auto simp: st1 alloc_inv_def\<close>)
  have new: "block_of ?t m = (p, sz)" using v by (simp add: st1 block_of_def)
  have old: "block_of ?t q = block_of ?s q" "meta_page ?t q = meta_page ?s q" if "q \<in> set ps" for q
    using that m(2) by (auto simp: st1 block_of_def meta_page_def)
  have sz: "0 < unat sz" using ap by (simp add: apart_def unat_gt_0)
  have fit: "fits ?t ps m"
    unfolding fits_def
  proof (intro conjI ballI)
    show "block_ok ?t m" using block_of_bounds [OF new] ap sz by (simp add: block_ok_def apart_def)
    fix q assume q: "q \<in> set ps"
    obtain a l where al: "block_of ?t q = (a, l)" by fastforce
    then have "(a, l) \<in> set (al_mapped st)" using alloc_inv_mapped [OF inv] old(1) [OF q] q by force
    then have "unat p + unat sz \<le> unat a \<or> unat a + unat l \<le> unat p" using ap by (auto simp: apart_def)
    then show "hi_of ?t q \<le> lo_of ?t m \<or> hi_of ?t m \<le> lo_of ?t q"
      using block_of_bounds [OF new] block_of_bounds [OF al] by auto
  qed (use m in \<open>simp_all add: st1\<close>)
  have "al_alloc_list st1 = head_of ps" using inv by (simp add: st1 alloc_inv_def)
  from metadata_do_insert_ok [OF tr fit this] obtain st2 ps' where ins: "metadata_do_insert m st1 = Inr st2"
    "inserted st1 ps m st2 ps'" by blast
  then obtain as bs where ps: "ps = as @ bs" "ps' = as @ m # bs" by (auto simp: inserted_def)
  have blocks: "same_blocks ?t (al_nodes st2)" and kept: "\<And>a. a \<notin> set (m # ps) \<Longrightarrow> map_of (al_nodes st2) a = map_of ?t a"
    using ins(2) by (auto simp: inserted_def)
  have "path md_next (al_nodes st2) (al_free_list st2) fs 0"
  proof (rule path_cong)
    show "path md_next ?s (al_free_list st2) fs 0"
      using inv ins(2) by (simp add: alloc_inv_def inserted_def st1)
    show "\<exists>w. map_of (al_nodes st2) a = Some w \<and> md_next w = md_next v"
      if "a \<in> set fs" "map_of ?s a = Some v" for a v
      using that m(3) inv kept [of a] by (auto simp: st1 alloc_inv_def)
  qed
  moreover have "\<exists>q\<in>set ps'. meta_page (al_nodes st2) q \<and> in_page q a" if "map_of (al_nodes st2) a \<noteq> None" for a
  proof (cases "a = m")
    case False
    then have "map_of ?s a \<noteq> None" using that same_blocks_None [OF blocks, of a] by (simp add: st1)
    then obtain q where "q \<in> set ps" "meta_page ?s q" "in_page q a" using inv by (auto simp: alloc_inv_def)
    then show ?thesis using blocks old(2) ps by auto
  next
    case True
    from page show ?thesis
    proof
      assume "\<exists>q\<in>set ps. meta_page ?s q \<and> in_page q m"
      then show ?thesis using True blocks old(2) ps by auto
    next
      assume "m = p \<and> sz = ALLOC_BLOCKSIZE"
      then have "meta_page (al_nodes st2) m" "in_page m a"
        using True new blocks by (auto simp: meta_page_def in_page_def)
      then show ?thesis using ps by auto
    qed
  qed
  moreover have "map (block_of (al_nodes st2)) as = map (block_of ?s) as"
    "map (block_of (al_nodes st2)) bs = map (block_of ?s) bs" "block_of (al_nodes st2) m = (p, sz)"
    using blocks old(1) new ps by auto
  then have "mset (al_mapped st2) = mset (map (block_of (al_nodes st2)) ps')"
    using inv ins(2) ps unfolding alloc_inv_def inserted_def st1
    by (simp del: mset_map add: mset_map [symmetric] cong: map_cong)
  ultimately have "alloc_inv st2 ps' fs"
    using ins(2) m(3) inv ps by (auto simp: alloc_inv_def inserted_def st1)
  moreover have "set ps' = insert m (set ps)" using ps by auto
  moreover have "al_mapped st2 = (p, sz) # al_mapped st" "al_free_list st2 = al_free_list st"
    using ins(2) by (simp_all add: inserted_def st1)
  ultimately show ?thesis using ins(1) blocks kept by blast
qed

text \<open>
  Taking a metadata node, which may have to map a page first. The node is on neither list and
  stands in a recorded page.
\<close>

definition spare :: "alloc_state \<Rightarrow> size_t list \<Rightarrow> size_t list \<Rightarrow> size_t \<Rightarrow> bool" where
  "spare st ps fs m \<longleftrightarrow> m \<noteq> 0 \<and> m \<notin> set ps \<and> m \<notin> set fs \<and> map_of (al_nodes st) m \<noteq> None"

lemma spareD_page:
  "alloc_inv st ps fs \<Longrightarrow> spare st ps fs m \<Longrightarrow> \<exists>q\<in>set ps. meta_page (al_nodes st) q \<and> in_page q m"
  by (auto simp: alloc_inv_def spare_def)

lemma pop_free_ok:
  assumes inv: "alloc_inv st ps (m # fs)"
  shows "\<exists>v. map_of (al_nodes st) m = Some v \<and> m \<noteq> 0 \<and> al_free_list st = m \<and>
    alloc_inv (st\<lparr>al_free_list := md_next v\<rparr>) ps fs \<and> spare (st\<lparr>al_free_list := md_next v\<rparr>) ps fs m"
proof -
  have p: "path md_next (al_nodes st) (al_free_list st) (m # fs) 0" using inv by (simp add: alloc_inv_def)
  then obtain v where "map_of (al_nodes st) m = Some v" "m \<noteq> 0" "al_free_list st = m"
    "path md_next (al_nodes st) (md_next v) fs 0" by (auto split: option.splits)
  with inv path_distinct [OF p] show ?thesis by (auto simp: alloc_inv_def spare_def)
qed

lemma fresh_page_unused:
  assumes inv: "alloc_inv st ps fs" and ap: "apart p ALLOC_BLOCKSIZE (al_mapped st)" and k: "k < 4096"
  shows "map_of (al_nodes st) (p + of_nat k) = None"
proof (rule ccontr)
  let ?a = "p + of_nat k"
  assume "map_of (al_nodes st) ?a \<noteq> None"
  then obtain q where q: "q \<in> set ps" "meta_page (al_nodes st) q" "in_page q ?a"
    using inv by (auto simp: alloc_inv_def)
  then have "(q, ALLOC_BLOCKSIZE) \<in> set (al_mapped st)"
    using alloc_inv_mapped [OF inv] by (force simp: meta_page_def)
  with ap have "unat p + 4096 \<le> unat q \<or> unat q + 4096 \<le> unat p"
    by (auto simp: apart_def ALLOC_BLOCKSIZE_def PAGESIZE_def)
  moreover have "unat ?a = unat p + k"
    by (rule unat_page_offset) (use ap k in \<open>auto simp: apart_def ALLOC_BLOCKSIZE_def PAGESIZE_def\<close>)
  ultimately show False using q(3) k by (auto simp: in_page_def)
qed

text \<open>At most one metadata page is mapped on the way.\<close>

definition page_added :: "os_t \<Rightarrow> (size_t \<times> size_t) list \<Rightarrow> (size_t \<times> size_t) list \<Rightarrow> bool" where
  "page_added os maps maps' \<longleftrightarrow> maps' = maps \<or>
     (\<exists>p. os_mmap os maps ALLOC_BLOCKSIZE False = Some p \<and> maps' = (p, ALLOC_BLOCKSIZE) # maps)"

text \<open>New metadata nodes appear only in pages that overlap none of the old mappings.\<close>

definition nodes_grow :: "alloc_state \<Rightarrow> alloc_state \<Rightarrow> bool" where
  "nodes_grow st st' \<longleftrightarrow> (\<forall>a. map_of (al_nodes st') a \<noteq> None \<longrightarrow>
     map_of (al_nodes st) a \<noteq> None \<or> (\<exists>p. apart p ALLOC_BLOCKSIZE (al_mapped st) \<and> in_page p a))"

lemma nodes_growI:
  assumes "\<And>a. map_of (al_nodes st') a \<noteq> None \<Longrightarrow> map_of (al_nodes st) a = None \<Longrightarrow>
    \<exists>p. apart p ALLOC_BLOCKSIZE (al_mapped st) \<and> in_page p a"
  shows "nodes_grow st st'"
  using assms unfolding nodes_grow_def by blast

lemma carve_inv:
  assumes p: "p \<noteq> 0" "unat p + 4096 < 2 ^ 64" and inv: "alloc_inv st ps fs" and fl: "al_free_list st = 0"
    and page: "meta_page (al_nodes st) p" "p \<in> set ps"
    and fresh: "\<And>k. 40 \<le> k \<Longrightarrow> k < 4096 \<Longrightarrow> map_of (al_nodes st) (p + of_nat k) = None" and fs: "fs = []"
  shows "\<exists>s' m gs. metadata_carve p METADATA_SIZE (al_nodes st) 0 = (s', m) \<and>
    alloc_inv (st\<lparr>al_nodes := s', al_free_list := m\<rparr>) ps (m # gs) \<and>
    (\<forall>a. map_of s' a \<noteq> None \<longrightarrow> map_of (al_nodes st) a \<noteq> None \<or> in_page p a)"
proof -
  let ?s = "al_nodes st"
  obtain s' fl' hs where c: "metadata_carve p 40 ?s 0 = (s', fl')" "path md_next s' fl' hs 0" "hs \<noteq> []"
    and hs: "\<forall>g\<in>set hs. in_page p g \<and> map_of ?s g = None"
    and kept: "\<forall>a. a \<notin> set hs \<longrightarrow> map_of s' a = map_of ?s a"
    using metadata_carve_ok [OF p, of 40 ?s 0 "[]"] fresh by auto
  have out: "a \<notin> set hs" if "a \<in> set ps" for a
    using that hs inv by (auto simp: alloc_inv_def tracked_def ring_links_def)
  then have same: "map_of s' a = map_of ?s a" if "a \<in> set ps" for a using that kept by blast
  note cong = bounds_cong [OF same]
  have "tracked s' ps" by (rule tracked_cong [OF same]) (use inv in \<open>simp_all add: alloc_inv_def\<close>)
  moreover have "map (block_of s') ps = map (block_of ?s) ps" using cong(4) by simp
  moreover have "\<exists>q\<in>set ps. meta_page s' q \<and> in_page q a" if "map_of s' a \<noteq> None" for a
  proof (cases "a \<in> set hs")
    case False
    then have "map_of ?s a \<noteq> None" using that kept by simp
    then obtain q where "q \<in> set ps" "meta_page ?s q" "in_page q a" using inv by (auto simp: alloc_inv_def)
    then show ?thesis using cong(5) [of q] by auto
  qed (use hs page cong(5) [of p] in auto)
  ultimately have "alloc_inv (st\<lparr>al_nodes := s', al_free_list := fl'\<rparr>) ps hs"
    using c(2) inv out by (auto simp: alloc_inv_def simp del: mset_map cong: map_cong)
  moreover obtain gs where "hs = fl' # gs" using c(2,3) by (cases hs) auto
  moreover have "map_of ?s a \<noteq> None \<or> in_page p a" if "map_of s' a \<noteq> None" for a
    using that hs kept by (cases "a \<in> set hs") auto
  ultimately show ?thesis using c(1) unfolding METADATA_SIZE_def by blast
qed

lemma metadata_new_ok:
  assumes os: "mmap_fresh os" and inv: "alloc_inv st ps fs"
  shows "metadata_new os st = Inl (Fatal ''failed mmap().'') \<and>
      os_mmap os (al_mapped st) ALLOC_BLOCKSIZE False = None \<or>
    (\<exists>m st' ps' fs'. metadata_new os st = Inr (m, st') \<and> alloc_inv st' ps' fs' \<and> spare st' ps' fs' m \<and>
       page_added os (al_mapped st) (al_mapped st') \<and> nodes_grow st st')"
proof (cases fs)
  case (Cons m fs')
  with pop_free_ok inv obtain v where "map_of (al_nodes st) m = Some v" "m \<noteq> 0" "al_free_list st = m"
    "alloc_inv (st\<lparr>al_free_list := md_next v\<rparr>) ps fs'" "spare (st\<lparr>al_free_list := md_next v\<rparr>) ps fs' m"
    by blast
  then show ?thesis by (auto simp: metadata_new_def Let_def page_added_def nodes_grow_def)
next
  case Nil
  then have empty: "al_free_list st = 0" using inv by (simp add: alloc_inv_def)
  show ?thesis
  proof (cases "os_mmap os (al_mapped st) ALLOC_BLOCKSIZE False")
    case None
    then show ?thesis using empty by (simp add: metadata_new_def mmap_wrap_def)
  next
    case (Some p)
    note ap = mmap_apart [OF os Some]
    have p: "p \<noteq> 0" "unat p + 4096 < 2 ^ 64" using ap by (auto simp: apart_def ALLOC_BLOCKSIZE_def PAGESIZE_def)
    have unused: "map_of (al_nodes st) p = None" using fresh_page_unused [OF inv ap, of 0] by simp
    have live: "map_of (al_nodes st) a \<noteq> None" if "a \<in> set ps" for a
      using inv that by (auto simp: alloc_inv_def tracked_def ring_links_def)
    define v where "v = zero_node\<lparr>md_addr := p, md_length := ALLOC_BLOCKSIZE\<rparr>"
    define st1 where "st1 = st\<lparr>al_mapped := (p, ALLOC_BLOCKSIZE) # al_mapped st,
       al_nodes := AList.update p v (al_nodes st)\<rparr>"
    have "p \<notin> set ps" "p \<notin> set fs" "md_addr v = p" "md_length v = ALLOC_BLOCKSIZE"
      using unused live [of p] Nil by (auto simp: v_def)
    from record_block [OF inv ap p(1) this disjI2 [OF conjI [OF refl refl]] st1_def] empty
    obtain st2 ps' where ins: "metadata_do_insert p st1 = Inr st2" "alloc_inv st2 ps' fs"
      "al_mapped st2 = (p, ALLOC_BLOCKSIZE) # al_mapped st" "al_free_list st2 = 0"
      "same_blocks (al_nodes st1) (al_nodes st2)" "set ps' = insert p (set ps)" by auto
    have page: "meta_page (al_nodes st2) p" "p \<in> set ps'"
      using ins(5,6) by (simp_all add: meta_page_def block_of_def st1_def v_def)
    have "map_of (al_nodes st2) (p + of_nat k) = None" if "40 \<le> k" "k < 4096" for k
      using fresh_page_unused [OF inv ap that(2)] same_blocks_None [OF ins(5), of "p + of_nat k"]
        unat_page_offset [OF that(2) p(2)] that(1) by (auto simp: st1_def)
    from carve_inv [OF p ins(2,4) page this Nil] obtain s' m gs where
      carve: "metadata_carve p METADATA_SIZE (al_nodes st2) 0 = (s', m)"
      "alloc_inv (st2\<lparr>al_nodes := s', al_free_list := m\<rparr>) ps' (m # gs)"
      "\<And>a. map_of s' a \<noteq> None \<Longrightarrow> map_of (al_nodes st2) a \<noteq> None \<or> in_page p a" by blast
    from pop_free_ok [OF carve(2)] obtain v where v: "map_of s' m = Some v" "m \<noteq> 0"
      "alloc_inv (st2\<lparr>al_nodes := s', al_free_list := md_next v\<rparr>) ps' gs"
      "spare (st2\<lparr>al_nodes := s', al_free_list := md_next v\<rparr>) ps' gs m" by auto
    have "in_page p a" if "map_of s' a \<noteq> None" "map_of (al_nodes st) a = None" for a
      using carve(3) [OF that(1)] same_blocks_None [OF ins(5), of a] that(2)
      by (cases "a = p") (auto simp: st1_def in_page_def)
    then have "nodes_grow st (st2\<lparr>al_nodes := s', al_free_list := md_next v\<rparr>)"
      using ap by (intro nodes_growI) auto
    moreover have "metadata_new os st = Inr (m, st2\<lparr>al_nodes := s', al_free_list := md_next v\<rparr>)"
      using Some empty ins(1,4) carve(1) v(1,2) by (simp add: metadata_new_def mmap_wrap_def Let_def st1_def v_def)
    moreover have "page_added os (al_mapped st) (al_mapped st2)" using Some ins(3) by (simp add: page_added_def)
    ultimately show ?thesis using v(3,4) by fastforce
  qed
qed

text \<open>A block that holds no metadata node: one that a caller of the allocator asked for.\<close>

definition data_block :: "alloc_state \<Rightarrow> size_t \<Rightarrow> bool" where
  "data_block st ptr \<longleftrightarrow> map_of (al_nodes st) ptr = None"

lemma apart_page:
  assumes "alloc_inv st ps fs" "apart p sz (al_mapped st)" "q \<in> set ps" "meta_page (al_nodes st) q"
  shows "\<not> in_page q p"
proof -
  have "(q, ALLOC_BLOCKSIZE) \<in> set (al_mapped st)"
    using alloc_inv_mapped [OF assms(1)] assms(3,4) by (force simp: meta_page_def)
  then show ?thesis using assms(2) unat_gt_0 [of sz]
    by (auto simp: apart_def in_page_def ALLOC_BLOCKSIZE_def PAGESIZE_def)
qed

text \<open>The operating system refuses the metadata page or the block itself.\<close>

definition mmap_refuses :: "os_t \<Rightarrow> (size_t \<times> size_t) list \<Rightarrow> size_t \<Rightarrow> bool \<Rightarrow> bool" where
  "mmap_refuses os maps sz shared \<longleftrightarrow>
     os_mmap os maps ALLOC_BLOCKSIZE False = None \<or>
     (\<exists>maps'. page_added os maps maps' \<and> os_mmap os maps' sz shared = None)"

lemma alloc_mmap_ok:
  assumes os: "mmap_fresh os" and inv: "alloc_inv st ps fs"
  shows "alloc_mmap os sz reason shared st = Inl (Fatal ''failed mmap().'') \<and>
      mmap_refuses os (al_mapped st) sz shared \<or>
    (\<exists>p st' ps' fs' maps. alloc_mmap os sz reason shared st = Inr (p, st') \<and> alloc_inv st' ps' fs' \<and>
       page_added os (al_mapped st) maps \<and> apart p sz maps \<and> al_mapped st' = (p, sz) # maps \<and> data_block st' p \<and>
       nodes_grow st st' \<and> os_mmap os maps sz shared = Some p)"
proof -
  consider "metadata_new os st = Inl (Fatal ''failed mmap().'')" "os_mmap os (al_mapped st) ALLOC_BLOCKSIZE False = None"
    | m st1 ps1 fs1 where "metadata_new os st = Inr (m, st1)" "alloc_inv st1 ps1 fs1" "spare st1 ps1 fs1 m"
      "page_added os (al_mapped st) (al_mapped st1)" "nodes_grow st st1"
    using metadata_new_ok [OF os inv] by auto
  then show ?thesis
  proof cases
    case 1
    then show ?thesis by (simp add: alloc_mmap_def mmap_refuses_def)
  next
    case 2
    obtain w where w: "map_of (al_nodes st1) m = Some w" and m: "m \<noteq> 0" "m \<notin> set ps1" "m \<notin> set fs1"
      using 2(3) by (auto simp: spare_def)
    show ?thesis
    proof (cases "os_mmap os (al_mapped st1) sz shared")
      case None
      then show ?thesis using 2(1,4) w m by (auto simp: alloc_mmap_def mmap_wrap_def mmap_refuses_def)
    next
      case (Some p)
      note ap = mmap_apart [OF os Some]
      define v where "v = w\<lparr>md_length := sz, md_addr := p, md_reason := reason\<rparr>"
      define st2 where "st2 = st1\<lparr>al_mapped := (p, sz) # al_mapped st1, al_nodes := AList.update m v (al_nodes st1)\<rparr>"
      have "md_addr v = p" "md_length v = sz" by (simp_all add: v_def)
      from record_block [OF 2(2) ap m this disjI1 [OF spareD_page [OF 2(2,3)]] st2_def] obtain st3 ps'
        where ins: "metadata_do_insert m st2 = Inr st3" "alloc_inv st3 ps' fs1"
          "al_mapped st3 = (p, sz) # al_mapped st1" "same_blocks (al_nodes st2) (al_nodes st3)" by auto
      have "map_of (al_nodes st3) m \<noteq> None" using same_blocks_None [OF ins(4), of m] by (simp add: st2_def)
      then obtain u where u: "map_of (al_nodes st3) m = Some u" by blast
      then have "md_addr u = p" using same_blocks_the(1) [OF ins(4), of m] by (simp add: st2_def v_def)
      then have "alloc_mmap os sz reason shared st = Inr (p, st3)"
        using 2(1) w m Some u ins(1)
        by (simp add: alloc_mmap_def mmap_wrap_def metadata_insert_def st2_def v_def)
      moreover have "data_block st3 p"
        unfolding data_block_def
      proof (rule ccontr)
        assume "map_of (al_nodes st3) p \<noteq> None"
        then have "\<exists>q\<in>set ps1. meta_page (al_nodes st1) q \<and> in_page q p"
          using spareD_page [OF 2(2,3)] same_blocks_None [OF ins(4), of p] 2(2)
          by (cases "p = m") (auto simp: st2_def alloc_inv_def)
        then show False using apart_page [OF 2(2) ap] by blast
      qed
      moreover have "map_of (al_nodes st1) a \<noteq> None" if "map_of (al_nodes st3) a \<noteq> None" for a
        using same_blocks_None [OF ins(4), of a] that w by (cases "a = m") (auto simp: st2_def)
      then have "nodes_grow st st3" using 2(5) unfolding nodes_grow_def by blast
      ultimately show ?thesis using ins(2,3) 2(4) ap Some by blast
    qed
  qed
qed

text \<open>Unmapping a block a caller asked for forgets exactly that block and reuses its node.\<close>

lemma munmap_ok:
  assumes os: "munmap_works os" and inv: "alloc_inv st ps fs"
    and blk: "(ptr, len) \<in> set (al_mapped st)" "data_block st ptr"
  shows "\<exists>st' ps' c. forkscan_alloc_munmap os ptr st = Inr st' \<and> alloc_inv st' ps' (c # fs) \<and>
    al_mapped st' = remove1 (ptr, len) (al_mapped st) \<and> (\<forall>q. data_block st q \<longrightarrow> data_block st' q)"
proof -
  let ?s = "al_nodes st"
  have tr: "tracked ?s ps" and head: "al_alloc_list st = head_of ps" using inv by (simp_all add: alloc_inv_def)
  obtain c where c: "c \<in> set ps" "block_of ?s c = (ptr, len)" using alloc_inv_mapped [OF inv] blk(1) by auto
  then obtain as bs where ps: "ps = as @ c # bs" by (meson split_list)
  obtain vc where vc: "map_of ?s c = Some vc" "c \<noteq> 0" using tracked_live [OF tr c(1)] by blast
  have v: "md_addr vc = ptr" "md_length vc = len" using c(2) vc by (simp_all add: block_of_def)
  have nopage: "\<not> meta_page ?s c" using blk(2) c(2) vc by (auto simp: meta_page_def data_block_def)
  have others: "q \<in> set (as @ bs)" if "q \<in> set ps" "meta_page ?s q" for q using that nopage ps by auto
  have "\<exists>q\<in>set ps. meta_page ?s q" using inv vc by (auto simp: alloc_inv_def)
  then have more: "as @ bs \<noteq> []" using others by fastforce
  obtain st1 where rm: "metadata_remove ptr st = Inr (c, st1)" "removed st ps st1 (as @ bs)"
    using metadata_remove_ok [OF _ more vc(1)] tr head ps v by auto
  have blocks: "same_blocks ?s (al_nodes st1)" using rm(2) by (simp add: removed_def)
  obtain w where w: "map_of (al_nodes st1) c = Some w" "md_addr w = ptr" "md_length w = len"
    using same_blocks_None [OF blocks, of c] same_blocks_the [OF blocks, of c] vc v by auto
  let ?t = "AList.update c (w\<lparr>md_next := al_free_list st\<rparr>) (al_nodes st1)"
  define st2 where "st2 = st1\<lparr>al_mapped := remove1 (ptr, len) (al_mapped st), al_nodes := ?t, al_free_list := c\<rparr>"
  have out: "c \<notin> set (as @ bs)" using tr ps by (auto simp: tracked_def ring_links_def)
  have blocks2: "same_blocks ?s ?t"
    using same_blocks_trans [OF blocks same_blocks_update [OF w(1)]] by simp
  have live: "map_of (al_nodes st2) a \<noteq> None \<Longrightarrow> map_of ?s a \<noteq> None" for a
    using same_blocks_None [OF blocks, of a] vc
    by (cases "map_of ?s a") (auto simp: st2_def split: if_splits)
  have "forkscan_alloc_munmap os ptr st = Inr st2"
    using rm w vc(2) os blk(1)
    by (simp add: forkscan_alloc_munmap_def munmap_wrap_def metadata_free_def munmap_works_def removed_def st2_def)
  moreover have "alloc_inv st2 (as @ bs) (c # fs)"
    unfolding alloc_inv_def
  proof (intro conjI allI impI)
    show "tracked (al_nodes st2) (as @ bs)"
      by (rule tracked_cong [of _ _ "al_nodes st1"]) (use out rm(2) in \<open>auto simp: st2_def removed_def\<close>)
    show "al_alloc_list st2 = head_of (as @ bs)" using rm(2) by (simp add: st2_def removed_def)
    show "path md_next (al_nodes st2) (al_free_list st2) (c # fs) 0"
    proof -
      have "path md_next ?t (al_free_list st) fs 0"
      proof (rule path_cong)
        show "path md_next ?s (al_free_list st) fs 0" using inv by (simp add: alloc_inv_def)
        show "\<exists>w. map_of ?t a = Some w \<and> md_next w = md_next v" if "a \<in> set fs" "map_of ?s a = Some v" for a v
          using that rm(2) inv c(1) by (auto simp: removed_def alloc_inv_def)
      qed
      then show ?thesis using vc(2) by (simp add: st2_def)
    qed
    show "set (c # fs) \<inter> set (as @ bs) = {}" using out inv ps by (auto simp: alloc_inv_def)
    show "mset (al_mapped st2) = mset (map (block_of (al_nodes st2)) (as @ bs))"
      using inv blocks2 c(2) ps by (simp add: alloc_inv_def st2_def)
    fix a assume "map_of (al_nodes st2) a \<noteq> None"
    then obtain q where "q \<in> set ps" "meta_page ?s q" "in_page q a"
      using inv live [of a] by (auto simp: alloc_inv_def)
    then show "\<exists>p\<in>set (as @ bs). meta_page (al_nodes st2) p \<and> in_page p a"
      using others [of q] blocks2 by (auto simp: st2_def)
  qed
  moreover have "al_mapped st2 = remove1 (ptr, len) (al_mapped st)" by (simp add: st2_def)
  moreover have "data_block st2 q" if "data_block st q" for q using that live [of q] by (cases "map_of (al_nodes st2) q") (auto simp: data_block_def)
  ultimately show ?thesis by blast
qed

lemma data_block_kept:
  assumes "alloc_inv st ps fs" "nodes_grow st st'" "(q, l) \<in> set (al_mapped st)" "data_block st q"
  shows "data_block st' q"
proof (rule ccontr)
  assume "\<not> data_block st' q"
  then obtain p where p: "apart p ALLOC_BLOCKSIZE (al_mapped st)" "in_page p q"
    using assms(2,4) by (auto simp: nodes_grow_def data_block_def)
  obtain c where "c \<in> set ps" "block_of (al_nodes st) c = (q, l)" using alloc_inv_mapped [OF assms(1)] assms(3) by auto
  then have "0 < unat l"
    using assms(1) block_of_bounds [of "al_nodes st" c q l] by (auto simp: alloc_inv_def tracked_def block_ok_def)
  then show False using p assms(3) by (auto simp: apart_def in_page_def ALLOC_BLOCKSIZE_def PAGESIZE_def)
qed

section \<open>Cutting Forkscan's memory out of a range\<close>

text \<open>The addresses a list of mappings covers.\<close>

definition covered :: "(size_t \<times> size_t) list \<Rightarrow> size_t \<Rightarrow> bool" where
  "covered maps x \<longleftrightarrow> (\<exists>(a, l)\<in>set maps. unat a \<le> unat x \<and> unat x < unat a + unat l)"

definition in_range :: "mem_range_t \<Rightarrow> size_t \<Rightarrow> bool" where
  "in_range r x \<longleftrightarrow> mr_low r \<le> x \<and> x < mr_high r"

lemma covered_nodes:
  assumes "alloc_inv st ps fs"
  shows "covered (al_mapped st) x \<longleftrightarrow>
    (\<exists>p\<in>set ps. lo_of (al_nodes st) p \<le> unat x \<and> unat x < hi_of (al_nodes st) p)"
  unfolding covered_def alloc_inv_mapped [OF assms] by (auto simp: block_of_def lo_of_def hi_of_def)

lemma break_advance_ok:
  assumes "path md_next s p qs h" "qs \<noteq> []" "length qs < k" "tracked s ps" "set qs \<subseteq> set ps" "h \<notin> set (tl qs)"
  shows "break_advance k s h low p =
    (case dropWhile (\<lambda>q. hi_of s q \<le> unat low) qs of [] \<Rightarrow> Inr h | q # _ \<Rightarrow> Inr q)"
  using assms
proof (induction qs arbitrary: p k)
  case (Cons q qs)
  note prems = Cons.prems and IH = Cons.IH
  obtain m where m: "p = q" "q \<noteq> 0" "map_of s q = Some m" "path md_next s (md_next m) qs h"
    using prems(1) by (auto split: option.splits)
  have hi: "HIGH_ADDR m \<le> low \<longleftrightarrow> hi_of s q \<le> unat low"
    using tracked_bounds(2) [OF prems(4) _ m(3)] prems(5) by (simp add: word_le_nat_alt)
  obtain k' where k: "k = Suc k'" using prems(3) by (cases k) auto
  show ?case
  proof (cases qs)
    case Nil
    then show ?thesis using m hi k by simp
  next
    case (Cons r rs)
    then have r: "md_next m = r" "r \<noteq> h" "h \<notin> set (tl qs)" using m(4) prems(6) by auto
    have "break_advance k' s h low r = (case dropWhile (\<lambda>q. hi_of s q \<le> unat low) qs of [] \<Rightarrow> Inr h | q # _ \<Rightarrow> Inr q)"
      by (rule IH [OF _ _ _ prems(4)]) (use m(4) r prems(3,5) Cons k in simp_all)
    then show ?thesis using m hi k r by simp
  qed
qed simp

definition skipped :: "memory_metadata_t store \<Rightarrow> mem_range_t \<Rightarrow> size_t \<Rightarrow> size_t list \<Rightarrow> size_t list \<Rightarrow> bool" where
  "skipped s ret low us vs \<longleftrightarrow> mr_low ret \<le> low \<and> low \<le> mr_high ret \<and>
     (\<forall>x. mr_low ret \<le> x \<longrightarrow> x < low \<longrightarrow> (\<exists>u\<in>set us. lo_of s u \<le> unat x \<and> unat x < hi_of s u)) \<and>
     (\<forall>u\<in>set us. lo_of s u \<le> unat low \<and> (hi_of s u \<le> unat low \<or> low = mr_high ret)) \<and>
     (vs \<noteq> [] \<longrightarrow> unat low < lo_of s (hd vs))"

lemma skipped_Nil:
  assumes "mr_low ret \<le> mr_high ret" shows "skipped s ret (mr_low ret) [] []"
  unfolding skipped_def
proof (intro conjI allI impI)
  fix x assume "mr_low ret \<le> x" "x < mr_low ret"
  then have False by (rule leD [THEN notE])
  then show "\<exists>u\<in>set []. lo_of s u \<le> unat x \<and> unat x < hi_of s u" ..
qed (use assms in simp_all)

text \<open>One round of the loop, and the rounds that follow it.\<close>

lemma skipped_step:
  assumes b: "lo_of s q \<le> unat (mr_low ret)" "mr_low ret \<le> mr_high ret" "unat hi = hi_of s q"
    and low1: "low1 = (if mr_low ret \<le> hi then min hi (mr_high ret) else mr_low ret)"
    and rest: "skipped s (ret\<lparr>mr_low := low1\<rparr>) low us vs"
  shows "skipped s ret low (q # us) vs"
proof -
  have 1: "mr_low ret \<le> low1" "low1 \<le> mr_high ret" "hi \<le> low1 \<or> low1 = mr_high ret"
    using b(2) by (auto simp: low1 min_def)
  have low: "low1 \<le> low" "low \<le> mr_high ret" using rest by (simp_all add: skipped_def)
  have "\<exists>u\<in>set (q # us). lo_of s u \<le> unat x \<and> unat x < hi_of s u" if "mr_low ret \<le> x" "x < low" for x
  proof (cases "x < low1")
    case True
    then have "x < hi" using that(1) by (auto simp: low1 split: if_splits)
    then show ?thesis using b(1,3) that(1) by (auto simp: word_le_nat_alt word_less_nat_alt)
  qed (use rest that in \<open>auto simp: skipped_def not_less\<close>)
  moreover have "lo_of s q \<le> unat low" using b(1) 1(1) low(1) by (simp add: word_le_nat_alt)
  moreover have "hi_of s q \<le> unat low \<or> low = mr_high ret"
    using 1(3) low b(3) by (metis order.antisym order.trans word_le_nat_alt)
  ultimately show ?thesis using rest 1(1) low by (auto simp: skipped_def)
qed

lemma break_skip_ok:
  assumes "path md_next s p qs h" "qs \<noteq> []" "length qs < k" "tracked s ps" "set qs \<subseteq> set ps" "h \<notin> set (tl qs)"
    and "mr_low ret \<le> mr_high ret"
  shows "\<exists>low us vs. break_skip k s h ret p = Inr (ret\<lparr>mr_low := low\<rparr>, if vs = [] then h else hd vs) \<and>
    qs = us @ vs \<and> skipped s ret low us vs"
  using assms
proof (induction qs arbitrary: p k ret)
  case (Cons q qs)
  note prems = Cons.prems and IH = Cons.IH
  obtain m where m: "p = q" "q \<noteq> 0" "map_of s q = Some m" "path md_next s (md_next m) qs h"
    using prems(1) by (auto split: option.splits)
  note b = tracked_bounds [OF prems(4) _ m(3)]
  have q: "q \<in> set ps" using prems(5) by simp
  obtain k' where k: "k = Suc k'" using prems(3) by (cases k) auto
  show ?case
  proof (cases "LOW_ADDR m \<le> mr_low ret")
    case False
    then have "skipped s ret (mr_low ret) [] (q # qs)"
      using b(1) [OF q] prems(7) by (auto simp: skipped_def word_le_nat_alt word_less_nat_alt)
    moreover have "break_skip k s h ret p = Inr (ret, q)" using False m k by simp
    ultimately show ?thesis by (intro exI [of _ "mr_low ret"] exI [of _ "[]"] exI [of _ "q # qs"]) simp
  next
    case True
    define low1 where "low1 = (if mr_low ret \<le> HIGH_ADDR m then min (HIGH_ADDR m) (mr_high ret) else mr_low ret)"
    let ?ret = "ret\<lparr>mr_low := low1\<rparr>"
    have ret1: "(if mr_low ret \<le> HIGH_ADDR m then ret\<lparr>mr_low := MIN_OF (HIGH_ADDR m) (mr_high ret)\<rparr> else ret) = ?ret"
      by (simp add: low1_def)
    have lo: "lo_of s q \<le> unat (mr_low ret)" using True b(1) [OF q] by (simp add: word_le_nat_alt)
    have le: "mr_low ?ret \<le> mr_high ?ret" using prems(7) by (simp add: low1_def)
    note step = skipped_step [OF lo prems(7) b(2) [OF q] low1_def]
    have run: "break_skip k s h ret p =
        (if md_next m = h then Inr (?ret, h) else break_skip k' s h ?ret (md_next m))"
      using True by (simp only: k m(1) break_skip.simps ld_ok [OF m(2,3)] bind_res_Inr Let_def ret1 if_True)
    show ?thesis
    proof (cases qs)
      case Nil
      then have "md_next m = h" using m(4) by simp
      moreover have "skipped s ?ret low1 [] []" using skipped_Nil [OF le] by simp
      ultimately show ?thesis using run step [of low1 "[]" "[]"] Nil
        by (intro exI [of _ low1] exI [of _ "[q]"] exI [of _ "[]"]) simp
    next
      case (Cons r rs)
      then have r: "md_next m = r" "r \<noteq> h" "h \<notin> set (tl qs)" using m(4) prems(6) by auto
      have "\<exists>low us vs. break_skip k' s h ?ret r = Inr (?ret\<lparr>mr_low := low\<rparr>, if vs = [] then h else hd vs) \<and>
          qs = us @ vs \<and> skipped s ?ret low us vs"
        by (rule IH [OF _ _ _ prems(4)]) (use m(4) r prems(3,5) Cons k le in simp_all)
      then obtain low us vs where *: "break_skip k' s h ?ret r = Inr (?ret\<lparr>mr_low := low\<rparr>, if vs = [] then h else hd vs)"
        "qs = us @ vs" "skipped s ?ret low us vs" by blast
      with run r step [OF *(3)] show ?thesis
        by (intro exI [of _ low] exI [of _ "q # us"] exI [of _ vs]) simp
    qed
  qed
qed simp

text \<open>
  The contract of one cut: the chunk lies in the range and holds none of Forkscan's memory,
  what was skipped before it is all Forkscan's, it ends only where the range ends or at memory of
  Forkscan's, the range that remains starts at the end of the chunk, and it has become shorter.
\<close>

definition good_cut :: "(size_t \<Rightarrow> bool) \<Rightarrow> mem_range_t \<Rightarrow> mem_range_t \<Rightarrow> bool" where
  "good_cut owned r ret \<longleftrightarrow>
     mr_low r \<le> mr_low ret \<and> mr_low ret \<le> mr_high ret \<and> mr_high ret \<le> mr_high r \<and>
     (\<forall>x. in_range ret x \<longrightarrow> \<not> owned x) \<and>
     (\<forall>x. mr_low r \<le> x \<longrightarrow> x < mr_low ret \<longrightarrow> owned x) \<and>
     (mr_high ret = mr_high r \<or> owned (mr_high ret)) \<and>
     (mr_low r < mr_high r \<longrightarrow> mr_low r < mr_high ret)"

lemma tracked_tail:
  assumes "tracked s ps" "ps = ds @ q # rest" "p \<in> set (q # rest)"
  shows "lo_of s q \<le> lo_of s p"
  using assms tracked_order [of s ds q rest p] by (auto simp: tracked_def block_ok_def)

lemma good_cut_skipped:
  assumes inv: "alloc_inv st ps fs" and ps: "ps = ds @ us @ vs"
    and ds: "\<forall>d\<in>set ds. hi_of (al_nodes st) d \<le> unat (mr_low r)"
    and sk: "skipped (al_nodes st) r low us vs" and lt: "mr_low r < mr_high r"
    and high: "high = (if vs = [] then mr_high r else if unat (mr_high r) \<le> lo_of (al_nodes st) (hd vs)
      then mr_high r else md_addr (the (map_of (al_nodes st) (hd vs))))"
  shows "good_cut (covered (al_mapped st)) r \<lparr>mr_low = low, mr_high = high\<rparr>"
proof -
  let ?s = "al_nodes st"
  have tr: "tracked ?s ps" using inv by (simp add: alloc_inv_def)
  have hv: "unat high \<le> lo_of ?s v" if v: "v \<in> set vs" for v
  proof -
    obtain w ws where vs: "vs = w # ws" using v by (cases vs) auto
    then have "lo_of ?s w \<le> lo_of ?s v" using tracked_tail [OF tr, of "ds @ us" w ws v] v ps by simp
    then show ?thesis using vs high by (auto simp: lo_of_def)
  qed
  have low: "mr_low r \<le> low" "low \<le> mr_high r" using sk by (simp_all add: skipped_def)
  have hi: "high = mr_high r \<or> vs \<noteq> [] \<and> unat high = lo_of ?s (hd vs) \<and> unat high < unat (mr_high r)"
    using high by (auto simp: lo_of_def split: if_splits)
  then have le: "low \<le> high" "high \<le> mr_high r" "mr_low r < high"
    using low lt sk by (auto simp: skipped_def word_le_nat_alt word_less_nat_alt)
  have "\<not> covered (al_mapped st) x" if "low \<le> x" "x < high" for x
  proof
    assume "covered (al_mapped st) x"
    then obtain p where p: "p \<in> set ps" "lo_of ?s p \<le> unat x" "unat x < hi_of ?s p"
      using covered_nodes [OF inv] by blast
    then consider "p \<in> set ds" | "p \<in> set us" | "p \<in> set vs" using ps by auto
    then show False
    proof cases
      case 1
      then have "hi_of ?s p \<le> unat (mr_low r)" using ds by blast
      then show False using p(3) low(1) that(1) unfolding word_le_nat_alt by linarith
    next
      case 2
      then have "hi_of ?s p \<le> unat low \<or> low = mr_high r" using sk by (simp add: skipped_def)
      then show False using p(3) that le(2) unfolding word_le_nat_alt word_less_nat_alt by (auto dest: order.strict_trans2)
    next
      case 3
      then show False using hv p(2) that(2) unfolding word_less_nat_alt by fastforce
    qed
  qed
  moreover have "covered (al_mapped st) x" if "mr_low r \<le> x" "x < low" for x
    using sk that covered_nodes [OF inv, of x] ps by (auto simp: skipped_def)
  moreover have "covered (al_mapped st) high \<or> high = mr_high r"
  proof (rule disjCI)
    assume "high \<noteq> mr_high r"
    then have v: "hd vs \<in> set ps" "unat high = lo_of ?s (hd vs)" using hi ps by auto
    then have "unat high < hi_of ?s (hd vs)" using tr by (auto simp: tracked_def block_ok_def)
    then show "covered (al_mapped st) high" using v covered_nodes [OF inv, of high] by auto
  qed
  ultimately show ?thesis using low le by (auto simp: good_cut_def in_range_def)
qed

lemma good_cut_whole:
  assumes inv: "alloc_inv st ps fs" and ps: "ps = ds @ rest"
    and ds: "\<forall>d\<in>set ds. hi_of (al_nodes st) d \<le> unat (mr_low r)"
    and rest: "\<forall>q\<in>set rest. unat (mr_high r) \<le> lo_of (al_nodes st) q" and le: "mr_low r \<le> mr_high r"
  shows "good_cut (covered (al_mapped st)) r r"
proof -
  have "\<not> covered (al_mapped st) x" if "in_range r x" for x
  proof
    assume "covered (al_mapped st) x"
    then obtain p where p: "p \<in> set ds \<or> p \<in> set rest" "lo_of (al_nodes st) p \<le> unat x"
      "unat x < hi_of (al_nodes st) p" using covered_nodes [OF inv] ps by auto
    have "unat (mr_low r) \<le> unat x" "unat x < unat (mr_high r)"
      using that by (simp_all add: in_range_def word_le_nat_alt word_less_nat_alt)
    with p ds rest show False by (meson leD le_trans less_le_trans)
  qed
  moreover have "covered (al_mapped st) x" if "mr_low r \<le> x" "x < mr_low r" for x
    using leD [OF that(1)] that(2) by contradiction
  ultimately show ?thesis using le unfolding good_cut_def by blast
qed

lemma break_inside:
  assumes inv: "alloc_inv st ps fs" and ps: "ps = ds @ q # rest"
    and ds: "\<forall>d\<in>set ds. hi_of (al_nodes st) d \<le> unat (mr_low r)" and lt: "mr_low r < mr_high r"
  shows "\<exists>ret. bind_res (break_skip (Suc (length (al_nodes st))) (al_nodes st) (hd ps) r q) (\<lambda>(ret, cur).
      bind_res (ld (al_nodes st) cur) (\<lambda>m. Inr (if LOW_ADDR m > mr_low ret
        then ret\<lparr>mr_high := MIN_OF (LOW_ADDR m) (mr_high ret)\<rparr> else ret))) = Inr ret \<and>
    good_cut (covered (al_mapped st)) r ret"
proof -
  let ?s = "al_nodes st"
  have tr: "tracked ?s ps" and ne: "ps \<noteq> []" using inv ps by (auto simp: alloc_inv_def)
  have dist: "distinct ps" using tr by (simp add: tracked_def ring_links_def)
  have path: "path md_next ?s (hd ps) ps (hd ps)"
    by (rule ring_links_path [where prv = md_prev]) (use tr ne in \<open>simp_all add: tracked_def\<close>)
  have pq: "path md_next ?s q (q # rest) (hd ps)" using path unfolding ps by (auto simp: path_append)
  have nq: "hd ps \<notin> set (tl (q # rest))" using dist ps by (cases ds) auto
  have sub: "set (q # rest) \<subseteq> set ps" and len: "length (q # rest) < Suc (length ?s)"
    using tracked_length [OF tr] ps by auto
  obtain low us vs where sk: "q # rest = us @ vs" "skipped ?s r low us vs"
    "break_skip (Suc (length ?s)) ?s (hd ps) r q = Inr (r\<lparr>mr_low := low\<rparr>, if vs = [] then hd ps else hd vs)"
    using break_skip_ok [OF pq list.distinct(2) len tr sub nq order.strict_implies_order [OF lt]] by blast
  define high where "high = (if vs = [] then mr_high r else if unat (mr_high r) \<le> lo_of ?s (hd vs)
    then mr_high r else md_addr (the (map_of ?s (hd vs))))"
  let ?c = "if vs = [] then hd ps else hd vs"
  obtain m2 where c: "?c \<noteq> 0" "map_of ?s ?c = Some m2" "unat (LOW_ADDR m2) = lo_of ?s ?c"
    using tracked_live [OF tr, of ?c] sk(1) ps ne by (metis Un_iff hd_in_set set_append)
  have fin: "(if low < LOW_ADDR m2 then r\<lparr>mr_low := low, mr_high := MIN_OF (LOW_ADDR m2) (mr_high r)\<rparr>
      else r\<lparr>mr_low := low\<rparr>) = \<lparr>mr_low = low, mr_high = high\<rparr>"
  proof (cases "vs = []")
    case True
    then have "lo_of ?s q \<le> unat low" using sk(1,2) by (auto simp: skipped_def)
    moreover have "lo_of ?s (hd ps) \<le> lo_of ?s q"
      using tracked_tail [OF tr, of "[]" "hd ps" "tl ps" q] ne ps by (cases ps) auto
    ultimately have "\<not> low < LOW_ADDR m2" using c(3) True by (simp add: word_less_nat_alt)
    then show ?thesis using True by (cases r) (simp add: high_def)
  next
    case False
    then have "low < LOW_ADDR m2" using sk(2) c(3) by (simp add: skipped_def word_less_nat_alt)
    moreover have "high = min (LOW_ADDR m2) (mr_high r)"
      using False c by (auto simp: high_def min_def LOW_ADDR_def word_le_nat_alt intro: word_unat_eq_iff [THEN iffD2])
    ultimately show ?thesis by (cases r) simp
  qed
  have sel: "mr_low (r\<lparr>mr_low := low\<rparr>) = low" "mr_high (r\<lparr>mr_low := low\<rparr>) = mr_high r"
    "mr_high \<lparr>mr_low = low, mr_high = high\<rparr> = high" by simp_all
  have "bind_res (break_skip (Suc (length ?s)) ?s (hd ps) r q) (\<lambda>(ret, cur).
      bind_res (ld ?s cur) (\<lambda>m. Inr (if LOW_ADDR m > mr_low ret
        then ret\<lparr>mr_high := MIN_OF (LOW_ADDR m) (mr_high ret)\<rparr> else ret))) = Inr \<lparr>mr_low = low, mr_high = high\<rparr>"
    by (simp only: sk(3) bind_res_Inr prod.case ld_ok [OF c(1,2)] sel fin)
  moreover have "good_cut (covered (al_mapped st)) r \<lparr>mr_low = low, mr_high = high\<rparr>"
    by (rule good_cut_skipped [OF inv _ ds sk(2) lt high_def]) (use ps sk(1) in simp)
  ultimately show ?thesis by blast
qed

lemma break_range_ok:
  assumes inv: "alloc_inv st ps fs" and ne: "ps \<noteq> []" and lt: "mr_low r < mr_high r"
  shows "\<exists>ret. metadata_break_range st r = Inr (ret, r\<lparr>mr_low := mr_high ret\<rparr>) \<and> good_cut (covered (al_mapped st)) r ret"
proof -
  let ?s = "al_nodes st" and ?P = "\<lambda>q. hi_of (al_nodes st) q \<le> unat (mr_low r)"
  have tr: "tracked ?s ps" using inv by (simp add: alloc_inv_def)
  have h: "al_alloc_list st = hd ps" using inv ne by (simp add: alloc_inv_def head_of_def)
  have path: "path md_next ?s (hd ps) ps (hd ps)"
    by (rule ring_links_path [where prv = md_prev]) (use tr ne in \<open>simp_all add: tracked_def\<close>)
  have dist: "distinct ps" using tr by (simp add: tracked_def ring_links_def)
  then have nh: "hd ps \<notin> set (tl ps)" using ne by (cases ps) auto
  define ds where "ds = takeWhile ?P ps"
  have ds: "\<forall>d\<in>set ds. ?P d" by (auto simp: ds_def dest: set_takeWhileD)
  have adv: "break_advance (Suc (length ?s)) ?s (hd ps) (mr_low r) (hd ps) =
      (case dropWhile ?P ps of [] \<Rightarrow> Inr (hd ps) | q # _ \<Rightarrow> Inr q)"
    by (rule break_advance_ok [OF path ne _ tr]) (use tracked_length [OF tr] nh in simp_all)
  show ?thesis
  proof (cases "dropWhile ?P ps")
    case Nil
    then have all: "\<forall>p\<in>set ps. ?P p" by (simp add: dropWhile_eq_Nil_conv)
    obtain m where m: "hd ps \<noteq> 0" "map_of ?s (hd ps) = Some m" "unat (HIGH_ADDR m) = hi_of ?s (hd ps)"
      using tracked_live [OF tr, of "hd ps"] ne by (metis hd_in_set)
    then have "\<not> mr_low r < HIGH_ADDR m" using all ne by (simp add: word_less_nat_alt not_less)
    then have "metadata_break_range st r = Inr (r, r\<lparr>mr_low := mr_high r\<rparr>)"
      using adv Nil h m by (simp add: metadata_break_range_def)
    moreover have "good_cut (covered (al_mapped st)) r r"
      by (rule good_cut_whole [OF inv, of ps "[]"]) (use all lt in simp_all)
    ultimately show ?thesis by blast
  next
    case (Cons q rest)
    have ps: "ps = ds @ q # rest" unfolding ds_def Cons [symmetric] by simp
    have q: "\<not> ?P q" using Cons by (metis hd_dropWhile list.distinct(1) list.sel(1))
    obtain m where m: "q \<noteq> 0" "map_of ?s q = Some m" "unat (LOW_ADDR m) = lo_of ?s q" "unat (HIGH_ADDR m) = hi_of ?s q"
      using tracked_live [OF tr, of q] ps by auto
    have up: "mr_low r < HIGH_ADDR m" using q m(4) by (simp add: word_less_nat_alt)
    have adv': "break_advance (Suc (length ?s)) ?s (hd ps) (mr_low r) (hd ps) = Inr q" using adv Cons by simp
    show ?thesis
    proof (cases "LOW_ADDR m < mr_high r")
      case False
      then have "unat (mr_high r) \<le> lo_of ?s q" using m(3) by (simp add: word_less_nat_alt)
      then have "\<forall>p\<in>set (q # rest). unat (mr_high r) \<le> lo_of ?s p"
        using tracked_tail [OF tr ps] order_trans by blast
      then have "good_cut (covered (al_mapped st)) r r" using good_cut_whole [OF inv ps ds] lt by simp
      moreover have "metadata_break_range st r = Inr (r, r\<lparr>mr_low := mr_high r\<rparr>)"
        using adv' h m(1,2) False by (simp add: metadata_break_range_def)
      ultimately show ?thesis by blast
    next
      case True
      then show ?thesis
        using break_inside [OF inv ps ds lt] up h adv' m(1,2) by (auto simp only: metadata_break_range_def Let_def
          bind_res_Inr ld_ok [OF m(1,2)] simp_thms if_True)
    qed
  qed
qed

section \<open>Interfaces\<close>

text \<open>What the collection of ranges needs: a source of cuts for some set of owned addresses.\<close>

locale subrange_cutter =
  fixes next_subrange :: "'s \<Rightarrow> mem_range_t \<Rightarrow> (mem_range_t \<times> mem_range_t) res"
    and ready :: "'s \<Rightarrow> bool"
    and owned :: "'s \<Rightarrow> size_t \<Rightarrow> bool"
  assumes cut: "ready st \<Longrightarrow> mr_low r < mr_high r \<Longrightarrow>
    \<exists>ret. next_subrange st r = Inr (ret, r\<lparr>mr_low := mr_high ret\<rparr>) \<and> good_cut (owned st) r ret"
begin

text \<open>A cut loses no foreign address: each one is in the chunk or in the range that remains.\<close>

lemma cut_complete:
  assumes "ready st" "mr_low r < mr_high r"
  obtains ret where "next_subrange st r = Inr (ret, r\<lparr>mr_low := mr_high ret\<rparr>)"
    "\<And>x. in_range r x \<Longrightarrow> \<not> owned st x \<Longrightarrow> in_range ret x \<or> in_range (r\<lparr>mr_low := mr_high ret\<rparr>) x"
    "\<And>x. in_range ret x \<Longrightarrow> in_range r x \<and> \<not> owned st x"
    "mr_low r < mr_high ret" "mr_high ret \<le> mr_high r" "mr_low ret \<le> mr_high ret"
proof -
  obtain ret where ret: "next_subrange st r = Inr (ret, r\<lparr>mr_low := mr_high ret\<rparr>)" "good_cut (owned st) r ret"
    using cut [OF assms] by blast
  have "in_range ret x \<or> in_range (r\<lparr>mr_low := mr_high ret\<rparr>) x" if "in_range r x" "\<not> owned st x" for x
    using ret(2) that unfolding good_cut_def in_range_def by (auto simp: not_less)
  moreover have "in_range r x \<and> \<not> owned st x" if "in_range ret x" for x
    using ret(2) that unfolding good_cut_def in_range_def by (auto intro: order_trans less_le_trans)
  ultimately show thesis using that [OF ret(1)] ret(2) assms(2) by (simp add: good_cut_def)
qed

end

definition alloc_ok :: "alloc_state \<Rightarrow> bool" where
  "alloc_ok st \<longleftrightarrow> (\<exists>ps fs. alloc_inv st ps fs)"

definition alloc_ready :: "alloc_state \<Rightarrow> bool" where
  "alloc_ready st \<longleftrightarrow> al_alloc_list st \<noteq> 0 \<and> alloc_ok st"

definition forkscan_memory :: "alloc_state \<Rightarrow> size_t \<Rightarrow> bool" where
  "forkscan_memory st x \<longleftrightarrow> covered (al_mapped st) x"

interpretation alloc_cut: subrange_cutter forkscan_alloc_next_subrange alloc_ready forkscan_memory
proof
  fix st and r :: mem_range_t assume "alloc_ready st" and lt: "mr_low r < mr_high r"
  then obtain ps fs where inv: "alloc_inv st ps fs" "al_alloc_list st \<noteq> 0" by (auto simp: alloc_ready_def alloc_ok_def)
  then have "ps \<noteq> []" by (auto simp: alloc_inv_def head_of_def)
  from break_range_ok [OF inv(1) this lt]
  show "\<exists>ret. forkscan_alloc_next_subrange st r = Inr (ret, r\<lparr>mr_low := mr_high ret\<rparr>) \<and>
      good_cut (forkscan_memory st) r ret"
    by (auto simp: forkscan_alloc_next_subrange_def good_cut_def forkscan_memory_def)
qed

section \<open>Histories\<close>

definition alloc_init :: alloc_state where
  "alloc_init = \<lparr>al_nodes = [], al_free_list = 0, al_alloc_list = 0, al_mapped = []\<rparr>"

text \<open>The states the allocator can be in: callers unmap only blocks they were given.\<close>

inductive alloc_reach :: "os_t \<Rightarrow> alloc_state \<Rightarrow> bool" for os where
  init: "alloc_reach os alloc_init"
| mmap: "alloc_reach os st \<Longrightarrow> alloc_mmap os sz reason shared st = Inr (p, st') \<Longrightarrow> alloc_reach os st'"
| munmap: "alloc_reach os st \<Longrightarrow> (ptr, len) \<in> set (al_mapped st) \<Longrightarrow> data_block st ptr \<Longrightarrow>
    forkscan_alloc_munmap os ptr st = Inr st' \<Longrightarrow> alloc_reach os st'"

lemma alloc_init_inv: "alloc_inv alloc_init [] []"
  by (simp add: alloc_inv_def alloc_init_def tracked_def ring_links_def head_of_def)

lemma alloc_reach_inv:
  assumes "mmap_fresh os" "munmap_works os" "alloc_reach os st"
  shows "\<exists>ps fs. alloc_inv st ps fs"
  using assms(3)
proof induction
  case init
  then show ?case using alloc_init_inv by blast
next
  case (mmap st sz reason shared p st')
  then show ?case using alloc_mmap_ok [OF assms(1), of st _ _ sz reason shared] by fastforce
next
  case (munmap st ptr len st')
  then show ?case using munmap_ok [OF assms(2) _ munmap.hyps(2,3)] by fastforce
qed

definition blocks_apart :: "(size_t \<times> size_t) list \<Rightarrow> bool" where
  "blocks_apart maps \<longleftrightarrow>
     (\<forall>(a, l)\<in>set maps. \<forall>(b, k)\<in>set maps.
        (a, l) = (b, k) \<or> unat a + unat l \<le> unat b \<or> unat b + unat k \<le> unat a)"

lemma alloc_inv_apart: "alloc_inv st ps fs \<Longrightarrow> blocks_apart (al_mapped st)"
proof -
  assume inv: "alloc_inv st ps fs"
  let ?s = "al_nodes st"
  have tr: "tracked ?s ps" using inv by (simp add: alloc_inv_def)
  have "p = q \<or> hi_of ?s p \<le> lo_of ?s q \<or> hi_of ?s q \<le> lo_of ?s p" if pq: "p \<in> set ps" "q \<in> set ps" for p q
  proof -
    from pq(1) obtain as bs where ps: "ps = as @ p # bs" by (meson split_list)
    with pq(2) consider "q = p" | "q \<in> set as" | "q \<in> set bs" by auto
    then show ?thesis using tr ps by cases (auto simp: tracked_def sorted_wrt_append)
  qed
  then show ?thesis unfolding blocks_apart_def alloc_inv_mapped [OF inv]
    by (fastforce simp: block_of_def lo_of_def hi_of_def)
qed

section \<open>Properties\<close>

text \<open>An operating system that maps each block above all earlier ones.\<close>

definition maps_top :: "(size_t \<times> size_t) list \<Rightarrow> int" where
  "maps_top maps = foldr (\<lambda>(a, l) t. max t (uint a + uint l)) maps 0x10000"

definition sample_os :: os_t where
  "sample_os = \<lparr>os_mmap = \<lambda>maps sz shared.
       if sz \<noteq> 0 \<and> maps_top maps + uint sz < 2 ^ 64 then Some (word_of_int (maps_top maps)) else None,
     os_munmap = \<lambda>maps a l. (a, l) \<in> set maps\<rparr>"

lemma maps_top_ge: "(a, l) \<in> set maps \<Longrightarrow> uint a + uint l \<le> maps_top maps"
  and maps_top_pos: "0x10000 \<le> maps_top maps"
  by (induction maps) (auto simp: maps_top_def)

lemma sample_os_ok: "mmap_fresh sample_os" "munmap_works sample_os"
proof -
  have "apart p sz maps" if "os_mmap sample_os maps sz shared = Some p" for maps sz shared p
  proof -
    have p: "sz \<noteq> 0" "maps_top maps + uint sz < 2 ^ 64" "p = word_of_int (maps_top maps)"
      using that by (auto simp: sample_os_def split: if_splits)
    have "maps_top maps < 2 ^ 64" "0 \<le> maps_top maps" using p(2) maps_top_pos [of maps] uint_ge_0 [of sz] by linarith+
    then have up: "uint p = maps_top maps" using p(3) by (simp add: uint_word_of_int_eq take_bit_int_eq_self_iff)
    have nat: "unat a + unat l \<le> unat p \<longleftrightarrow> uint a + uint l \<le> uint p" for a l
      unfolding uint_nat by linarith
    have "int (unat p + unat sz) < int (2 ^ 64)" using p(2) up unfolding uint_nat by simp
    then have "unat p + unat sz < 2 ^ 64" unfolding of_nat_less_iff .
    moreover have "p \<noteq> 0" using up maps_top_pos [of maps] by auto
    ultimately show ?thesis using p(1) maps_top_ge by (auto simp: apart_def nat up)
  qed
  then show "mmap_fresh sample_os" by (simp add: mmap_fresh_def apart_def)
  show "munmap_works sample_os" by (simp add: munmap_works_def sample_os_def)
qed

text \<open>The state after a caller has mapped two pages.\<close>

lemma sample_mmaps: "\<not> mmap_refuses sample_os [] 0x2000 shared"
  by (auto simp: mmap_refuses_def page_added_def sample_os_def maps_top_def ALLOC_BLOCKSIZE_def PAGESIZE_def)

lemma sample_alloc:
  obtains st p where "forkscan_alloc_mmap sample_os 0x2000 ''reclaimer'' alloc_init = Inr (p, st)"
    "alloc_ok st" "alloc_reach sample_os st" "(p, 0x2000) \<in> set (al_mapped st)" "data_block st p"
    "0 \<notin> fst ` set (al_mapped st)" "al_alloc_list st \<noteq> 0"
proof -
  obtain p st ps fs maps where run: "alloc_mmap sample_os 0x2000 ''reclaimer'' False alloc_init = Inr (p, st)"
    "alloc_inv st ps fs" "al_mapped st = (p, 0x2000) # maps" "data_block st p" "apart p 0x2000 maps"
    "page_added sample_os [] maps"
    using alloc_mmap_ok [OF sample_os_ok(1) alloc_init_inv, of "0x2000" "''reclaimer''" False] sample_mmaps [of False]
    by (auto simp: alloc_init_def)
  moreover have "alloc_reach sample_os st" using alloc_reach.mmap [OF alloc_reach.init run(1)] .
  moreover have "al_alloc_list st \<noteq> 0"
  proof
    assume "al_alloc_list st = 0"
    then have "ps = []" using run(2) by (cases ps) (auto simp: alloc_inv_def head_of_def tracked_def ring_links_def)
    then show False using run(2,3) by (simp add: alloc_inv_def)
  qed
  moreover have "0 \<notin> fst ` set (al_mapped st)"
    using run(3,5,6) by (auto simp: apart_def page_added_def dest!: mmap_apart [OF sample_os_ok(1)])
  ultimately show thesis using that [of p st] by (auto simp: forkscan_alloc_mmap_def alloc_ok_def)
qed

text \<open>
  C28: between the operations of every history of mapping and unmapping, the circular list records
  exactly the blocks that are mapped, in the order of their addresses, its forward and
  backward links agree, the free list is a separate chain, and no two blocks overlap.
\<close>

theorem alloc_history_tracked:
  assumes "mmap_fresh os" and "munmap_works os" and "alloc_reach os st"
  shows "(\<exists>ps fs. alloc_inv st ps fs) \<and> blocks_apart (al_mapped st)"
  using alloc_reach_inv [OF assms] alloc_inv_apart by blast

theorem alloc_history_tracked_witness:
  "\<exists>st p. alloc_reach sample_os st \<and> (p, 0x2000) \<in> set (al_mapped st) \<and>
     (\<exists>ps fs. alloc_inv st ps fs) \<and> blocks_apart (al_mapped st)"
  using sample_alloc alloc_history_tracked [OF sample_os_ok] by metis

text \<open>
  \<^verbatim>\<open>forkscan_alloc_mmap\<close> and \<^verbatim>\<open>forkscan_alloc_mmap_shared\<close> stop the program only when the
  operating system refuses a mapping; otherwise they return a new block that overlaps nothing
  mapped before, record it (and at most one new page of metadata nodes), and keep the records
  of all others.
\<close>

theorem forkscan_alloc_mmap_tracks:
  assumes "mmap_fresh os" and "alloc_ok st"
    and "f = forkscan_alloc_mmap \<and> shared = False \<or> f = forkscan_alloc_mmap_shared \<and> shared = True"
  shows "f os sz reason st = Inl (Fatal ''failed mmap().'') \<and> mmap_refuses os (al_mapped st) sz shared \<or>
    (\<exists>p st' maps. f os sz reason st = Inr (p, st') \<and> alloc_ok st' \<and>
       page_added os (al_mapped st) maps \<and> apart p sz maps \<and> al_mapped st' = (p, sz) # maps)"
proof -
  obtain ps fs where "alloc_inv st ps fs" using assms(2) by (auto simp: alloc_ok_def)
  from alloc_mmap_ok [OF assms(1) this, of sz reason shared] assms(3) show ?thesis
    by (fastforce simp: forkscan_alloc_mmap_def forkscan_alloc_mmap_shared_def alloc_ok_def)
qed

theorem forkscan_alloc_mmap_tracks_witness:
  "\<exists>p st'. forkscan_alloc_mmap_shared sample_os 0x2000 ''aggregate'' alloc_init = Inr (p, st') \<and>
     alloc_ok st' \<and> (p, 0x2000) \<in> set (al_mapped st')"
proof -
  have "alloc_ok alloc_init" using alloc_init_inv by (auto simp: alloc_ok_def)
  moreover have "\<not> mmap_refuses sample_os (al_mapped alloc_init) 0x2000 True"
    using sample_mmaps by (simp add: alloc_init_def)
  ultimately show ?thesis
    using forkscan_alloc_mmap_tracks [OF sample_os_ok(1), of alloc_init forkscan_alloc_mmap_shared True
      "0x2000" "''aggregate''"] by force
qed

text \<open>
  Unmapping a block that a caller was given returns, forgets exactly that block and keeps
  the records of all others.
\<close>

theorem forkscan_alloc_munmap_forgets:
  assumes "munmap_works os" and "alloc_ok st" and "(ptr, len) \<in> set (al_mapped st)" and "data_block st ptr"
  shows "\<exists>st'. forkscan_alloc_munmap os ptr st = Inr st' \<and> alloc_ok st' \<and>
    al_mapped st' = remove1 (ptr, len) (al_mapped st)"
proof -
  obtain ps fs where "alloc_inv st ps fs" using assms(2) by (auto simp: alloc_ok_def)
  from munmap_ok [OF assms(1) this assms(3,4)] show ?thesis by (auto simp: alloc_ok_def)
qed

theorem forkscan_alloc_munmap_forgets_witness:
  "\<exists>p st st'. forkscan_alloc_mmap sample_os 0x2000 ''reclaimer'' alloc_init = Inr (p, st) \<and>
     forkscan_alloc_munmap sample_os p st = Inr st' \<and> alloc_ok st' \<and>
     al_mapped st' = remove1 (p, 0x2000) (al_mapped st)"
  using sample_alloc forkscan_alloc_munmap_forgets [OF sample_os_ok(2)] by metis

text \<open>
  C29: unmapping an address at which no recorded block starts never returns: the search goes
  around the circular list for ever, whatever number of steps it is given, and the test for a
  missing record after the loop is never reached.
\<close>

theorem munmap_untracked_hangs:
  assumes "alloc_ok st" and "al_alloc_list st \<noteq> 0" and "ptr \<notin> fst ` set (al_mapped st)"
  shows "forkscan_alloc_munmap os ptr st = Inl No_return \<and>
    (\<forall>k. seek k (\<lambda>c. \<not> md_addr c \<noteq> ptr) md_next (al_nodes st) (al_alloc_list st) = Inl No_return)"
proof -
  obtain ps fs where inv: "alloc_inv st ps fs" using assms(1) by (auto simp: alloc_ok_def)
  then have ps: "ps \<noteq> []" "al_alloc_list st = hd ps" and tr: "tracked (al_nodes st) ps"
    using assms(2) by (auto simp: alloc_inv_def head_of_def)
  have loop: "seek k (\<lambda>c. \<not> md_addr c \<noteq> ptr) md_next (al_nodes st) (al_alloc_list st) = Inl No_return" for k
    unfolding ps(2)
  proof (rule seek_diverges)
    show "path md_next (al_nodes st) (hd ps) ps (hd ps)"
      by (rule ring_links_path [where prv = md_prev]) (use tr ps in \<open>simp_all add: tracked_def\<close>)
    show "\<not> \<not> md_addr v \<noteq> ptr" if "a \<in> set ps" "map_of (al_nodes st) a = Some v" for a v
      using assms(3) that unfolding alloc_inv_mapped [OF inv] by (force simp: block_of_def image_iff)
  qed (rule ps(1))
  then have "metadata_remove ptr st = Inl No_return"
    unfolding metadata_remove_def Let_def by (simp only: bind_res_Inl)
  then show ?thesis using loop by (simp add: forkscan_alloc_munmap_def)
qed

theorem munmap_untracked_hangs_witness:
  "\<exists>st. alloc_ok st \<and> forkscan_alloc_munmap sample_os 0 st = Inl No_return"
proof -
  obtain st where "alloc_ok st" "al_alloc_list st \<noteq> 0" "0 \<notin> fst ` set (al_mapped st)"
    using sample_alloc by metis
  then show ?thesis using munmap_untracked_hangs [of st 0 sample_os] by blast
qed

text \<open>
  \<^verbatim>\<open>forkscan_alloc_next_subrange\<close> on a range that is not empty returns its first chunk
  without memory of Forkscan: the chunk lies in the range, no address of it belongs to a
  recorded block, every address before it does, and the range that remains begins at the end
  of the chunk and is shorter than before, so that a loop over the chunks ends.
\<close>

theorem next_subrange_cuts:
  assumes "alloc_ready st" and "mr_low r < mr_high r"
  shows "\<exists>ret. forkscan_alloc_next_subrange st r = Inr (ret, r\<lparr>mr_low := mr_high ret\<rparr>) \<and>
    good_cut (forkscan_memory st) r ret"
  by (rule alloc_cut.cut [OF assms])

theorem next_subrange_cuts_witness:
  "\<exists>st ret. alloc_ready st \<and>
     forkscan_alloc_next_subrange st \<lparr>mr_low = 0x1000, mr_high = 0x20000\<rparr>
       = Inr (ret, \<lparr>mr_low = mr_high ret, mr_high = 0x20000\<rparr>) \<and>
     good_cut (forkscan_memory st) \<lparr>mr_low = 0x1000, mr_high = 0x20000\<rparr> ret"
proof -
  obtain st where "alloc_ready st" using sample_alloc unfolding alloc_ready_def alloc_ok_def by metis
  then show ?thesis using next_subrange_cuts [of st "\<lparr>mr_low = 0x1000, mr_high = 0x20000\<rparr>"] by auto
qed

end
