(* ===== verification/Buffer.thy ===== *)
theory Buffer
  imports Addr_Buffer Alloc
begin

text \<open>
  The life of address buffers, \<^verbatim>\<open>src/buffer.c\<close>: buffers that carry retired addresses to the
  collector, aggregate buffers that a collection works on, the queue of buffers whose
  unreferenced addresses wait to be freed (the retirees) and the pools of released buffers.
  The state holds the buffer objects by address, the file's globals and the state of the
  allocator. Each operation holds the lock of the list it changes, so it is one step on the
  state. The addresses of a block that comes from \<^verbatim>\<open>mmap\<close> start as zero, and its arrays have
  as many slots as the block has room.
\<close>

section \<open>The operations of buffer.c\<close>

definition MAX_THREAD_COUNT :: int where
  "MAX_THREAD_COUNT = 256"

record buffer_state =
  bf_store :: "addr_buffer_t store"
  g_default_capacity :: int
  g_reclaimer_list :: size_t
  g_first_retiree_buffer :: size_t
  g_last_retiree_buffer :: size_t
  g_available_aggregates :: size_t
  g_deadrefs :: size_t
  bf_alloc :: alloc_state

definition fresh_buffer :: addr_buffer_t where
  "fresh_buffer = \<lparr>ab_next = 0, ab_addrs = [], ab_addrs_at = 0, ab_minimap = [], ab_is_aggregate = False,
     ab_n_addrs = 0, ab_n_minimap = 0, ab_capacity = 0, ab_cutoff_reached = 0,
     ab_sibling_mode = SIBLING_MODE_MARKING, ab_completed_children = 0, ab_more_marking_tbd = 0,
     ab_round = 0, ab_root_counter = 0, ab_roots_completed = 0, ab_ref_count = 0, ab_free_idx = 0\<rparr>"

definition slots :: "size_t \<Rightarrow> size_t list" where
  "slots bytes = replicate (unat (bytes div 8)) 0"

text \<open>Writing through a buffer pointer.\<close>

definition buf_modify :: "size_t \<Rightarrow> (addr_buffer_t \<Rightarrow> addr_buffer_t) \<Rightarrow> buffer_state \<Rightarrow> buffer_state res" where
  "buf_modify ab f st = bind_res (modify (bf_store st) ab f) (\<lambda>s. Inr (st\<lparr>bf_store := s\<rparr>))"

definition forkscan_make_reclaimer_buffer :: "os_t \<Rightarrow> int \<Rightarrow> buffer_state \<Rightarrow> (size_t \<times> buffer_state) res" where
  "forkscan_make_reclaimer_buffer os g_forkscan_ptrs_per_thread st =
     (if g_reclaimer_list st \<noteq> 0
      then let ab = g_reclaimer_list st in
        bind_res (ld (bf_store st) ab) (\<lambda>b.
        bind_res (buf_modify ab (\<lambda>b. b\<lparr>ab_n_addrs := 0\<rparr>) (st\<lparr>g_reclaimer_list := ab_next b\<rparr>)) (\<lambda>st.
        Inr (ab, st)))
      else
        bind_res (if g_default_capacity st = 0
                  then cint (g_forkscan_ptrs_per_thread * MAX_THREAD_COUNT)
                  else Inr (g_default_capacity st)) (\<lambda>cap.
        let sz = word_of_int cap * 8 + PAGESIZE in
        bind_res (forkscan_alloc_mmap os sz ''reclaimer'' (bf_alloc st)) (\<lambda>(raw_mem, al).
        let ab = fresh_buffer\<lparr>ab_addrs := slots (sz - PAGESIZE), ab_addrs_at := raw_mem + PAGESIZE,
              ab_n_addrs := 0, ab_capacity := cap, ab_is_aggregate := False, ab_ref_count := 0\<rparr>
        in Inr (raw_mem, st\<lparr>g_default_capacity := cap, bf_alloc := al,
                  bf_store := AList.update raw_mem ab (bf_store st)\<rparr>))))"

text \<open>Rounding a capacity up to whole pages of addresses, computed in \<open>size_t\<close>.\<close>

definition round_capacity :: "int \<Rightarrow> int" where
  "round_capacity capacity =
     (let low = (word_of_int capacity :: size_t) AND (PAGESIZE div 8 - 1) in
      if low \<noteq> 0
      then int_of_size (word_of_int (int_of_size (word_of_int capacity - low)) + PAGESIZE div 8)
      else capacity)"

text \<open>Unmapping the pooled buffers that are too small, from the front.\<close>

fun drop_small :: "nat \<Rightarrow> os_t \<Rightarrow> int \<Rightarrow> size_t \<Rightarrow> buffer_state \<Rightarrow> (size_t \<times> buffer_state) res" where
  "drop_small 0 os capacity ab st = Inl No_return"
| "drop_small (Suc k) os capacity ab st =
     (if ab = 0 then Inr (0, st)
      else
        bind_res (ld (bf_store st) ab) (\<lambda>b.
        if ab_capacity b < capacity
        then
          bind_res (forkscan_alloc_munmap os ab (bf_alloc st)) (\<lambda>al.
          drop_small k os capacity (ab_next b)
            (st\<lparr>bf_alloc := al, bf_store := AList.delete ab (bf_store st)\<rparr>))
        else Inr (ab, st)))"

definition pages_of_addrs :: "int \<Rightarrow> size_t" where
  "pages_of_addrs capacity = (word_of_int capacity * 8 + PAGESIZE - 8) div PAGESIZE"

definition pages_of_minimap :: "int \<Rightarrow> size_t" where
  "pages_of_minimap capacity = (pages_of_addrs capacity * 8 + PAGESIZE - 8) div PAGESIZE"

definition new_aggregate :: "os_t \<Rightarrow> int \<Rightarrow> buffer_state \<Rightarrow> (size_t \<times> buffer_state) res" where
  "new_aggregate os capacity st =
     (let pa = pages_of_addrs capacity; pm = pages_of_minimap capacity in
      bind_res (forkscan_alloc_mmap_shared os ((pa + pm + 1) * PAGESIZE) ''aggregate'' (bf_alloc st)) (\<lambda>(p, al).
      let ab = fresh_buffer\<lparr>ab_addrs := slots (pa * PAGESIZE), ab_addrs_at := p + PAGESIZE,
            ab_minimap := slots (pm * PAGESIZE), ab_capacity := capacity, ab_is_aggregate := True,
            ab_ref_count := 0\<rparr>
      in Inr (p, st\<lparr>bf_alloc := al, bf_store := AList.update p ab (bf_store st)\<rparr>)))"

definition forkscan_make_aggregate_buffer :: "os_t \<Rightarrow> int \<Rightarrow> buffer_state \<Rightarrow> (size_t \<times> buffer_state) res" where
  "forkscan_make_aggregate_buffer os requested st =
     (let capacity = round_capacity requested in
      bind_res
        (if g_available_aggregates st \<noteq> 0
         then drop_small (Suc (length (bf_store st))) os capacity (g_available_aggregates st) st
         else Inr (0, st)) (\<lambda>(ab, st).
      if ab \<noteq> 0
      then
        bind_res (ld (bf_store st) ab) (\<lambda>b.
        bind_res (buf_modify ab (\<lambda>b. b\<lparr>ab_next := 0, ab_n_addrs := 0\<rparr>)
          (st\<lparr>g_available_aggregates := ab_next b\<rparr>)) (\<lambda>st.
        Inr (ab, st)))
      else new_aggregate os capacity (st\<lparr>g_available_aggregates := 0\<rparr>)))"

definition forkscan_release_buffer :: "size_t \<Rightarrow> buffer_state \<Rightarrow> buffer_state res" where
  "forkscan_release_buffer ab st =
     bind_res (ld (bf_store st) ab) (\<lambda>b.
     if \<not> ab_is_aggregate b
     then bind_res (buf_modify ab (\<lambda>b. b\<lparr>ab_next := g_reclaimer_list st\<rparr>) st) (\<lambda>st.
          Inr (st\<lparr>g_reclaimer_list := ab\<rparr>))
     else bind_res (buf_modify ab (\<lambda>b. b\<lparr>ab_next := g_available_aggregates st\<rparr>) st) (\<lambda>st.
          Inr (st\<lparr>g_available_aggregates := ab\<rparr>)))"

definition forkscan_buffer_push_back :: "size_t \<Rightarrow> buffer_state \<Rightarrow> buffer_state res" where
  "forkscan_buffer_push_back ab st =
     bind_res (buf_modify ab (\<lambda>b. b\<lparr>ab_ref_count := 1, ab_free_idx := 0, ab_next := 0\<rparr>) st) (\<lambda>st.
     if g_last_retiree_buffer st = 0
     then Inr (st\<lparr>g_first_retiree_buffer := ab, g_last_retiree_buffer := ab\<rparr>)
     else
       bind_res (buf_modify (g_last_retiree_buffer st) (\<lambda>b. b\<lparr>ab_next := ab\<rparr>) st) (\<lambda>st.
       Inr (st\<lparr>g_last_retiree_buffer := ab\<rparr>)))"

text \<open>The search loop of \<^verbatim>\<open>forkscan_buffer_pop_retiree_buffer\<close> with its two pointers.\<close>

fun seek_retiree :: "nat \<Rightarrow> addr_buffer_t store \<Rightarrow> size_t \<Rightarrow> size_t \<Rightarrow> size_t \<Rightarrow> (size_t \<times> size_t) res" where
  "seek_retiree 0 s ab cur prev = Inl No_return"
| "seek_retiree (Suc k) s ab cur prev =
     (if cur \<noteq> 0 \<and> ab \<noteq> cur
      then bind_res (ld s cur) (\<lambda>c. seek_retiree k s ab (ab_next c) cur)
      else Inr (cur, prev))"

definition forkscan_buffer_pop_retiree_buffer :: "size_t \<Rightarrow> buffer_state \<Rightarrow> buffer_state res" where
  "forkscan_buffer_pop_retiree_buffer ab st =
     bind_res (seek_retiree (Suc (length (bf_store st))) (bf_store st) ab (g_first_retiree_buffer st) 0) (\<lambda>(cur, prev).
     if cur = ab
     then
       bind_res (ld (bf_store st) cur) (\<lambda>c.
       bind_res (if prev \<noteq> 0 then buf_modify prev (\<lambda>b. b\<lparr>ab_next := ab_next c\<rparr>) st
                 else Inr (st\<lparr>g_first_retiree_buffer := ab_next c\<rparr>)) (\<lambda>st.
       Inr (if g_first_retiree_buffer st = 0 then st\<lparr>g_last_retiree_buffer := 0\<rparr> else st)))
     else Inr st)"

definition forkscan_buffer_get_retiree_buffer :: "buffer_state \<Rightarrow> (size_t \<times> buffer_state) res" where
  "forkscan_buffer_get_retiree_buffer st =
     (if g_first_retiree_buffer st = 0 then Inr (0, st)
      else
        let ret = g_first_retiree_buffer st in
        bind_res (ld (bf_store st) ret) (\<lambda>b.
        bind_res (cint (ab_ref_count b + 1)) (\<lambda>n.
        bind_res (buf_modify ret (\<lambda>b. b\<lparr>ab_ref_count := n\<rparr>) st) (\<lambda>st.
        Inr (ret, st)))))"

definition forkscan_buffer_unref_buffer :: "size_t \<Rightarrow> buffer_state \<Rightarrow> buffer_state res" where
  "forkscan_buffer_unref_buffer ab st =
     bind_res (ld (bf_store st) ab) (\<lambda>b.
     bind_res (cint (ab_ref_count b - 1)) (\<lambda>n.
     bind_res (buf_modify ab (\<lambda>b. b\<lparr>ab_ref_count := n\<rparr>) st) (\<lambda>st.
     if n = 0 \<and> ab_free_idx b \<ge> ab_n_addrs b then forkscan_release_buffer ab st else Inr st)))"

text \<open>
  Copying the unmarked addresses of one buffer behind those collected so far. The second
  component of the result tells that the capacity is reached, where the C code returns.
\<close>

function dead_addrs :: "addr_buffer_t \<Rightarrow> int \<Rightarrow> addr_buffer_t \<Rightarrow> (addr_buffer_t \<times> bool) res" where
  "dead_addrs ab i ret =
     (if i < ab_n_addrs ab
      then
        bind_res (rd (ab_addrs ab) i) (\<lambda>addr.
        if addr AND 3 \<noteq> 0 then dead_addrs ab (i + 1) ret
        else
          bind_res (wr (ab_addrs ret) (ab_n_addrs ret) addr) (\<lambda>xs.
          let ret = ret\<lparr>ab_addrs := xs, ab_n_addrs := ab_n_addrs ret + 1\<rparr> in
          if ab_n_addrs ret \<ge> ab_capacity ret then Inr (ret, True)
          else dead_addrs ab (i + 1) ret))
      else Inr (ret, False))"
  by pat_completeness auto
termination
  by (relation "measure (\<lambda>(ab, i, ret). nat (ab_n_addrs ab - i))") auto

declare dead_addrs.simps [simp del]

fun dead_buffers :: "nat \<Rightarrow> addr_buffer_t store \<Rightarrow> size_t \<Rightarrow> addr_buffer_t \<Rightarrow> addr_buffer_t res" where
  "dead_buffers 0 s ab ret = Inl No_return"
| "dead_buffers (Suc k) s ab ret =
     (if ab = 0 then Inr ret
      else
        bind_res (ld s ab) (\<lambda>b.
        bind_res (dead_addrs b 0 ret) (\<lambda>(ret, full).
        if full then Inr ret else dead_buffers k s (ab_next b) ret)))"

text \<open>The buffer for dead references is allocated by the first call and filled by every call.\<close>

definition fill_dead_references :: "buffer_state \<Rightarrow> (size_t \<times> buffer_state) res" where
  "fill_dead_references st =
     (let ret = g_deadrefs st in
      bind_res (ld (bf_store st) ret) (\<lambda>r.
      bind_res (dead_buffers (Suc (length (bf_store st))) (bf_store st) (g_first_retiree_buffer st)
        (r\<lparr>ab_n_addrs := 0\<rparr>)) (\<lambda>r.
      bind_res (buf_modify ret (\<lambda>_. r) st) (\<lambda>st.
      Inr (ret, st)))))"

definition forkscan_buffer_get_dead_references :: "os_t \<Rightarrow> buffer_state \<Rightarrow> (size_t \<times> buffer_state) res" where
  "forkscan_buffer_get_dead_references os st =
     bind_res
       (if g_deadrefs st = 0
        then
          let sz = word_of_int (g_default_capacity st) * 8 + PAGESIZE in
          bind_res (forkscan_alloc_mmap_shared os sz ''deadrefs'' (bf_alloc st)) (\<lambda>(raw_mem, al).
          let ab = fresh_buffer\<lparr>ab_addrs := slots (sz - PAGESIZE), ab_addrs_at := raw_mem + PAGESIZE,
                ab_n_addrs := 0, ab_capacity := g_default_capacity st, ab_is_aggregate := False,
                ab_ref_count := 0\<rparr>
          in Inr (st\<lparr>g_deadrefs := raw_mem, bf_alloc := al,
                    bf_store := AList.update raw_mem ab (bf_store st)\<rparr>))
        else Inr st) fill_dead_references"

section \<open>The invariant\<close>

definition buffer_wf :: "addr_buffer_t \<Rightarrow> bool" where
  "buffer_wf b \<longleftrightarrow>
     0 \<le> ab_n_addrs b \<and> ab_n_addrs b \<le> ab_capacity b \<and> ab_capacity b \<le> 2 ^ 30 \<and>
     nat (ab_capacity b) \<le> length (ab_addrs b) \<and>
     (ab_is_aggregate b \<longrightarrow> minimap_entries (nat (ab_capacity b)) \<le> length (ab_minimap b))"

text \<open>
  \<open>rs\<close> are the pooled reclaimer buffers, \<open>ts\<close> the retirees in order, \<open>as\<close> the pooled aggregate
  buffers. The three chains share no buffer, and the last retiree is known.
\<close>

definition lists_inv :: "buffer_state \<Rightarrow> size_t list \<Rightarrow> size_t list \<Rightarrow> size_t list \<Rightarrow> bool" where
  "lists_inv st rs ts as \<longleftrightarrow>
     path ab_next (bf_store st) (g_reclaimer_list st) rs 0 \<and>
     path ab_next (bf_store st) (g_first_retiree_buffer st) ts 0 \<and>
     path ab_next (bf_store st) (g_available_aggregates st) as 0 \<and>
     g_last_retiree_buffer st = (if ts = [] then 0 else last ts) \<and>
     set rs \<inter> set ts = {} \<and> set ts \<inter> set as = {} \<and> set rs \<inter> set as = {} \<and>
     g_deadrefs st \<notin> set (rs @ ts @ as) \<and>
     (g_deadrefs st \<noteq> 0 \<longrightarrow> map_of (bf_store st) (g_deadrefs st) \<noteq> None) \<and>
     (\<forall>a\<in>set as. \<forall>b. map_of (bf_store st) a = Some b \<longrightarrow> ab_is_aggregate b)"

text \<open>Every buffer is well formed and stands at the start of a block of its own.\<close>

definition objects_inv :: "buffer_state \<Rightarrow> bool" where
  "objects_inv st \<longleftrightarrow> alloc_ok (bf_alloc st) \<and> 0 \<le> g_default_capacity st \<and> g_default_capacity st \<le> 2 ^ 30 \<and>
     (\<forall>a b. map_of (bf_store st) a = Some b \<longrightarrow>
        a \<noteq> 0 \<and> buffer_wf b \<and> (\<exists>l. (a, l) \<in> set (al_mapped (bf_alloc st))) \<and> data_block (bf_alloc st) a)"

definition buffer_inv :: "buffer_state \<Rightarrow> size_t list \<Rightarrow> size_t list \<Rightarrow> size_t list \<Rightarrow> bool" where
  "buffer_inv st rs ts as \<longleftrightarrow> lists_inv st rs ts as \<and> objects_inv st"

lemma listed_live:
  assumes "lists_inv st rs ts as" "a \<in> set (rs @ ts @ as)"
  shows "a \<noteq> 0 \<and> (\<exists>b. map_of (bf_store st) a = Some b)"
proof -
  have p: "path ab_next (bf_store st) (g_reclaimer_list st) rs 0"
    "path ab_next (bf_store st) (g_first_retiree_buffer st) ts 0"
    "path ab_next (bf_store st) (g_available_aggregates st) as 0"
    using assms(1) by (simp_all add: lists_inv_def)
  from assms(2) show ?thesis
    using path_live [OF p(1), of a] path_live [OF p(2), of a] path_live [OF p(3), of a] by auto
qed

lemma object_wf: "buffer_inv st rs ts as \<Longrightarrow> map_of (bf_store st) a = Some b \<Longrightarrow> buffer_wf b"
  by (simp add: buffer_inv_def objects_inv_def)

text \<open>What a buffer carries, the link of the list it is on left aside.\<close>

definition payload :: "buffer_state \<Rightarrow> size_t \<Rightarrow> addr_buffer_t option" where
  "payload st a = map_option (\<lambda>b. b\<lparr>ab_next := 0\<rparr>) (map_of (bf_store st) a)"

text \<open>Writing fields of a buffer.\<close>

lemma objects_modify:
  assumes "objects_inv st" "map_of (bf_store st) a = Some b" "buffer_wf c"
  shows "objects_inv (st\<lparr>bf_store := AList.update a c (bf_store st)\<rparr>)"
  using assms unfolding objects_inv_def by auto

lemma lists_modify:
  assumes "lists_inv st rs ts as" "map_of (bf_store st) a = Some b"
    and "ab_next c = ab_next b \<or> a \<notin> set (rs @ ts @ as)" "ab_is_aggregate c = ab_is_aggregate b"
  shows "lists_inv (st\<lparr>bf_store := AList.update a c (bf_store st)\<rparr>) rs ts as"
proof -
  have "path ab_next (AList.update a c (bf_store st)) p ps 0"
    if "path ab_next (bf_store st) p ps 0" "a \<in> set ps \<longrightarrow> ab_next c = ab_next b" for p ps
    by (rule path_cong [OF that(1)]) (use that(2) assms(2) in auto)
  then show ?thesis using assms unfolding lists_inv_def by auto
qed

lemma buffer_modify:
  assumes "buffer_inv st rs ts as" "map_of (bf_store st) a = Some b" "buffer_wf c"
    and "ab_next c = ab_next b \<or> a \<notin> set (rs @ ts @ as)" "ab_is_aggregate c = ab_is_aggregate b"
  shows "buffer_inv (st\<lparr>bf_store := AList.update a c (bf_store st)\<rparr>) rs ts as"
  using assms objects_modify lists_modify unfolding buffer_inv_def by blast

section \<open>The retirees\<close>

lemma seek_retiree_found:
  assumes "path ab_next s cur (xs @ ab # ys) 0" "length xs < k" "ab \<notin> set xs"
  shows "seek_retiree k s ab cur prev = Inr (ab, last (prev # xs))"
  using assms
proof (induction xs arbitrary: cur prev k)
  case Nil
  then show ?case by (cases k) auto
next
  case (Cons t xs)
  obtain k' where k: "k = Suc k'" using Cons.prems(2) by (cases k) auto
  obtain b where b: "cur = t" "t \<noteq> 0" "map_of s t = Some b" "path ab_next s (ab_next b) (xs @ ab # ys) 0"
    using Cons.prems(1) by (auto split: option.splits)
  then show ?case using Cons.IH [OF b(4), of k' t] Cons.prems(2,3) k by auto
qed

lemma seek_retiree_absent:
  assumes "path ab_next s cur ts 0" "length ts < k" "ab \<notin> set ts"
  shows "seek_retiree k s ab cur prev = Inr (0, last (prev # ts))"
  using assms
proof (induction ts arbitrary: cur prev k)
  case Nil
  then show ?case by (cases k) auto
next
  case (Cons t ts)
  obtain k' where k: "k = Suc k'" using Cons.prems(2) by (cases k) auto
  obtain b where b: "cur = t" "t \<noteq> 0" "map_of s t = Some b" "path ab_next s (ab_next b) ts 0"
    using Cons.prems(1) by (auto split: option.splits)
  then show ?case using Cons.IH [OF b(4), of k' t] Cons.prems(2,3) k by auto
qed

lemma lists_length:
  assumes "lists_inv st rs ts as"
  shows "length ts \<le> length (bf_store st)" "length as \<le> length (bf_store st)"
proof -
  have p: "path ab_next (bf_store st) (g_first_retiree_buffer st) ts 0"
    "path ab_next (bf_store st) (g_available_aggregates st) as 0"
    using assms by (simp_all add: lists_inv_def)
  show "length ts \<le> length (bf_store st)"
    by (rule chain_length [OF path_distinct [OF p(1)]]) (use path_live [OF p(1)] in auto)
  show "length as \<le> length (bf_store st)"
    by (rule chain_length [OF path_distinct [OF p(2)]]) (use path_live [OF p(2)] in auto)
qed

text \<open>A chain grows at its end when the last object's pointer is set.\<close>

lemma path_snoc:
  assumes "path nxt s p ps 0" "ps \<noteq> []" "q \<notin> set ps" "q \<noteq> 0" "map_of s q = Some w" "nxt w = 0"
    and "map_of s (last ps) = Some v" "nxt v' = q"
  shows "path nxt (AList.update (last ps) v' s) p (ps @ [q]) 0"
proof -
  obtain us l where ps: "ps = us @ [l]" using assms(2) by (metis append_butlast_last_id)
  then obtain r where r: "path nxt s p us r" "r = l" "l \<noteq> 0" using assms(1) by (auto simp: path_append)
  have "l \<notin> set us" using path_distinct [OF assms(1)] ps by simp
  with r ps assms show ?thesis by (auto simp: path_append)
qed

lemma push_back_ok:
  assumes inv: "buffer_inv st rs ts as" and b: "map_of (bf_store st) ab = Some b" and out: "ab \<notin> set (rs @ ts @ as)"
    and dead: "ab \<noteq> g_deadrefs st"
  shows "\<exists>st'. forkscan_buffer_push_back ab st = Inr st' \<and> buffer_inv st' rs (ts @ [ab]) as \<and>
    map_of (bf_store st') ab = Some (b\<lparr>ab_ref_count := 1, ab_free_idx := 0, ab_next := 0\<rparr>) \<and>
    (\<forall>a. a \<noteq> ab \<longrightarrow> payload st' a = payload st a) \<and> g_deadrefs st' = g_deadrefs st"
proof -
  let ?c = "b\<lparr>ab_ref_count := 1, ab_free_idx := 0, ab_next := 0\<rparr>"
  define st1 where "st1 = st\<lparr>bf_store := AList.update ab ?c (bf_store st)\<rparr>"
  have nz: "ab \<noteq> 0" and wf: "buffer_wf ?c" using inv b by (auto simp: buffer_inv_def objects_inv_def buffer_wf_def)
  have inv1: "buffer_inv st1 rs ts as"
    unfolding st1_def by (rule buffer_modify [OF inv b wf]) (use out in simp_all)
  have c: "map_of (bf_store st1) ab = Some ?c" by (simp add: st1_def)
  have step: "forkscan_buffer_push_back ab st =
     (if g_last_retiree_buffer st1 = 0
     then Inr (st1\<lparr>g_first_retiree_buffer := ab, g_last_retiree_buffer := ab\<rparr>)
     else
       bind_res (buf_modify (g_last_retiree_buffer st1) (\<lambda>b. b\<lparr>ab_next := ab\<rparr>) st1) (\<lambda>st.
       Inr (st\<lparr>g_last_retiree_buffer := ab\<rparr>)))"
    using b nz by (simp add: forkscan_buffer_push_back_def buf_modify_def st1_def)
  show ?thesis
  proof (cases "ts = []")
    case True
    then have "g_last_retiree_buffer st1 = 0" using inv1 by (simp add: buffer_inv_def lists_inv_def)
    moreover have "buffer_inv (st1\<lparr>g_first_retiree_buffer := ab, g_last_retiree_buffer := ab\<rparr>) rs (ts @ [ab]) as"
      using inv1 True c nz out dead by (auto simp: buffer_inv_def lists_inv_def objects_inv_def st1_def)
    ultimately show ?thesis using step True b by (auto simp: st1_def payload_def)
  next
    case False
    have l: "last ts \<in> set ts" "last ts \<noteq> ab" using False out by auto
    then obtain v where v: "map_of (bf_store st1) (last ts) = Some v" "last ts \<noteq> 0"
      using listed_live [of st1 rs ts as "last ts"] inv1 by (auto simp: buffer_inv_def)
    have others: "last ts \<notin> set rs" "last ts \<notin> set as"
      using l(1) inv by (auto simp: buffer_inv_def lists_inv_def)
    have last: "g_last_retiree_buffer st1 = last ts" using inv1 False by (simp add: buffer_inv_def lists_inv_def)
    define st2 where "st2 = st1\<lparr>bf_store := AList.update (last ts) (v\<lparr>ab_next := ab\<rparr>) (bf_store st1)\<rparr>"
    have "lists_inv (st2\<lparr>g_last_retiree_buffer := ab\<rparr>) rs (ts @ [ab]) as"
      using inv1 l others out dead False v(1) c nz
        path_snoc [of ab_next "bf_store st1" "g_first_retiree_buffer st1" ts ab ?c v "v\<lparr>ab_next := ab\<rparr>"]
      by (auto simp: buffer_inv_def lists_inv_def st2_def st1_def)
    moreover have "objects_inv st2"
      unfolding st2_def by (rule objects_modify [OF _ v(1)])
        (use inv1 v(1) in \<open>auto simp: buffer_inv_def objects_inv_def buffer_wf_def\<close>)
    then have "objects_inv (st2\<lparr>g_last_retiree_buffer := ab\<rparr>)" by (simp add: objects_inv_def)
    moreover have "forkscan_buffer_push_back ab st = Inr (st2\<lparr>g_last_retiree_buffer := ab\<rparr>)"
      using step last v by (simp add: buf_modify_def st2_def)
    ultimately show ?thesis using l b v(1)
      by (auto simp: buffer_inv_def st2_def st1_def payload_def)
  qed
qed

text \<open>
  A buffer at the front leaves the queue; a buffer that is not on the queue leaves it as it
  is. (A buffer further back would be spliced out as well, but without moving the pointer to
  the last retiree; see \<open>pop_last_loses_pushed\<close> below.)
\<close>

lemma pop_front_ok:
  assumes inv: "buffer_inv st rs (ab # ts) as"
  shows "\<exists>st'. forkscan_buffer_pop_retiree_buffer ab st = Inr st' \<and> buffer_inv st' rs ts as \<and>
    bf_store st' = bf_store st \<and> g_deadrefs st' = g_deadrefs st"
proof -
  have p: "path ab_next (bf_store st) (g_first_retiree_buffer st) ([] @ ab # ts) 0"
    using inv by (simp add: buffer_inv_def lists_inv_def)
  then obtain b where b: "map_of (bf_store st) ab = Some b" "ab \<noteq> 0" "path ab_next (bf_store st) (ab_next b) ts 0"
    by (auto split: option.splits)
  have "seek_retiree (Suc (length (bf_store st))) (bf_store st) ab (g_first_retiree_buffer st) 0 = Inr (ab, 0)"
    using seek_retiree_found [OF p, of "Suc (length (bf_store st))" 0] by (simp del: seek_retiree.simps)
  then have run: "forkscan_buffer_pop_retiree_buffer ab st = Inr
      (let st = st\<lparr>g_first_retiree_buffer := ab_next b\<rparr> in
       if g_first_retiree_buffer st = 0 then st\<lparr>g_last_retiree_buffer := 0\<rparr> else st)"
    using b(1,2) by (simp add: forkscan_buffer_pop_retiree_buffer_def Let_def del: seek_retiree.simps)
  have "(ab_next b = 0) = (ts = [])" by (rule path_head [OF b(3)])
  then show ?thesis using run inv b(3)
    by (auto simp: buffer_inv_def lists_inv_def objects_inv_def Let_def)
qed

lemma pop_absent_ok:
  assumes inv: "buffer_inv st rs ts as" and out: "ab \<notin> set ts" "ab \<noteq> 0"
  shows "forkscan_buffer_pop_retiree_buffer ab st = Inr st"
proof -
  have p: "path ab_next (bf_store st) (g_first_retiree_buffer st) ts 0"
    using inv by (simp add: buffer_inv_def lists_inv_def)
  have "length ts < Suc (length (bf_store st))"
    using lists_length(1) [of st rs ts as] inv by (simp add: buffer_inv_def)
  from seek_retiree_absent [OF p this out(1)] out(2) show ?thesis
    by (simp add: forkscan_buffer_pop_retiree_buffer_def del: seek_retiree.simps)
qed

lemma get_retiree_ok:
  assumes inv: "buffer_inv st rs (ab # ts) as" and b: "map_of (bf_store st) ab = Some b"
    and rc: "0 \<le> ab_ref_count b" "ab_ref_count b < 2 ^ 30"
  shows "forkscan_buffer_get_retiree_buffer st =
      Inr (ab, st\<lparr>bf_store := AList.update ab (b\<lparr>ab_ref_count := ab_ref_count b + 1\<rparr>) (bf_store st)\<rparr>)"
    and "buffer_inv (st\<lparr>bf_store := AList.update ab (b\<lparr>ab_ref_count := ab_ref_count b + 1\<rparr>) (bf_store st)\<rparr>) rs (ab # ts) as"
proof -
  have ab: "g_first_retiree_buffer st = ab" "ab \<noteq> 0"
    using inv by (auto simp: buffer_inv_def lists_inv_def)
  show "forkscan_buffer_get_retiree_buffer st =
      Inr (ab, st\<lparr>bf_store := AList.update ab (b\<lparr>ab_ref_count := ab_ref_count b + 1\<rparr>) (bf_store st)\<rparr>)"
    using ab b rc by (simp add: forkscan_buffer_get_retiree_buffer_def buf_modify_def Let_def cint_def)
  show "buffer_inv (st\<lparr>bf_store := AList.update ab (b\<lparr>ab_ref_count := ab_ref_count b + 1\<rparr>) (bf_store st)\<rparr>) rs (ab # ts) as"
    by (rule buffer_modify [OF inv b]) (use inv b in \<open>auto simp: buffer_inv_def objects_inv_def buffer_wf_def\<close>)
qed

lemma get_retiree_empty: "buffer_inv st rs [] as \<Longrightarrow> forkscan_buffer_get_retiree_buffer st = Inr (0, st)"
  by (simp add: forkscan_buffer_get_retiree_buffer_def buffer_inv_def lists_inv_def)

section \<open>Releasing\<close>

text \<open>The pool a released buffer joins.\<close>

definition pooled :: "addr_buffer_t \<Rightarrow> size_t \<Rightarrow> size_t list \<Rightarrow> size_t list \<Rightarrow> size_t list \<Rightarrow> size_t list \<Rightarrow> bool" where
  "pooled b ab rs as rs' as' \<longleftrightarrow>
     (if ab_is_aggregate b then rs' = rs \<and> as' = ab # as else rs' = ab # rs \<and> as' = as)"

lemma release_ok:
  assumes inv: "buffer_inv st rs ts as" and b: "map_of (bf_store st) ab = Some b" and out: "ab \<notin> set (rs @ ts @ as)"
    and dead: "ab \<noteq> g_deadrefs st"
  shows "\<exists>st' rs' as' n. forkscan_release_buffer ab st = Inr st' \<and> buffer_inv st' rs' ts as' \<and>
    pooled b ab rs as rs' as' \<and> bf_store st' = AList.update ab (b\<lparr>ab_next := n\<rparr>) (bf_store st) \<and>
    g_deadrefs st' = g_deadrefs st"
proof -
  have nz: "ab \<noteq> 0" and wf: "buffer_wf (b\<lparr>ab_next := n\<rparr>)" for n
    using inv b by (auto simp: buffer_inv_def objects_inv_def buffer_wf_def)
  have inv1: "buffer_inv (st\<lparr>bf_store := AList.update ab (b\<lparr>ab_next := n\<rparr>) (bf_store st)\<rparr>) rs ts as" for n
    by (rule buffer_modify [OF inv b wf]) (use out in simp_all)
  show ?thesis
  proof (cases "ab_is_aggregate b")
    case True
    let ?st = "st\<lparr>bf_store := AList.update ab (b\<lparr>ab_next := g_available_aggregates st\<rparr>) (bf_store st)\<rparr>"
    have "forkscan_release_buffer ab st = Inr (?st\<lparr>g_available_aggregates := ab\<rparr>)"
      using True nz b by (simp add: forkscan_release_buffer_def buf_modify_def)
    moreover have "buffer_inv (?st\<lparr>g_available_aggregates := ab\<rparr>) rs ts (ab # as)"
      using inv1 [of "g_available_aggregates st"] out dead nz True
      by (auto simp: buffer_inv_def lists_inv_def objects_inv_def)
    ultimately show ?thesis using True by (fastforce simp: pooled_def)
  next
    case False
    let ?st = "st\<lparr>bf_store := AList.update ab (b\<lparr>ab_next := g_reclaimer_list st\<rparr>) (bf_store st)\<rparr>"
    have "forkscan_release_buffer ab st = Inr (?st\<lparr>g_reclaimer_list := ab\<rparr>)"
      using False nz b by (simp add: forkscan_release_buffer_def buf_modify_def)
    moreover have "buffer_inv (?st\<lparr>g_reclaimer_list := ab\<rparr>) (ab # rs) ts as"
      using inv1 [of "g_reclaimer_list st"] out dead nz
      by (auto simp: buffer_inv_def lists_inv_def objects_inv_def)
    ultimately show ?thesis using False by (fastforce simp: pooled_def)
  qed
qed

section \<open>Sizes\<close>

lemma uint_small: "0 \<le> n \<Longrightarrow> n < 2 ^ 62 \<Longrightarrow> uint (word_of_int n :: size_t) = n"
  by (simp add: uint_word_of_int_eq take_bit_int_eq_self_iff)

lemma word_div_small:
  assumes "0 \<le> n" "n < 2 ^ 62" "0 \<le> k" "k < 2 ^ 62"
  shows "(word_of_int n :: size_t) div word_of_int k = word_of_int (n div k)"
proof (rule word_uint_eq_iff [THEN iffD2])
  have "n div k \<le> n" using assms zdiv_mono2 [of n 1 k] by (cases "k = 0") auto
  then have "0 \<le> n div k" "n div k < 2 ^ 62"
    using assms by (cases "k = 0"; simp add: pos_imp_zdiv_nonneg_iff)+
  then show "uint ((word_of_int n :: size_t) div word_of_int k) = uint (word_of_int (n div k) :: size_t)"
    by (simp only: uint_div_distrib uint_small assms)
qed

lemma low_bits: "(word_of_int c :: size_t) AND 511 = word_of_int (c mod 512)"
proof -
  have "c AND 511 = c mod 512" using take_bit_eq_mask [of 9 c] by (simp add: take_bit_eq_mod mask_eq_exp_minus_1)
  then show ?thesis by (metis of_int_and_eq of_int_numeral)
qed

lemma round_capacity_eq:
  assumes "0 \<le> c" "c \<le> 2 ^ 30"
  shows "round_capacity c = 512 * ((c + 511) div 512)"
proof -
  have low: "(word_of_int c :: size_t) AND (PAGESIZE div 8 - 1) = word_of_int (c mod 512)"
    using low_bits [of c] by (simp add: PAGESIZE_def)
  have m: "0 \<le> c mod 512" "c mod 512 < 512" "c mod 512 \<le> c" "c = 512 * (c div 512) + c mod 512"
    using assms by (simp_all add: zmod_le_nonneg_dividend)
  show ?thesis
  proof (cases "c mod 512 = 0")
    case True
    then have "round_capacity c = c" by (simp add: round_capacity_def low)
    moreover have "(c + 511) div 512 = c div 512"
      by (rule int_div_pos_eq [where r = 511]) (use m True in auto)
    ultimately show ?thesis using m True by simp
  next
    case False
    have u: "uint (word_of_int (c mod 512) :: size_t) = c mod 512" by (rule uint_small) (use m in auto)
    have "(word_of_int (c mod 512) :: size_t) \<noteq> 0"
    proof
      assume "(word_of_int (c mod 512) :: size_t) = 0"
      with u have "c mod 512 = 0" by (simp only: unsigned_0)
      with False show False by simp
    qed
    moreover have "(word_of_int c :: size_t) - word_of_int (c mod 512) = word_of_int (c - c mod 512)" by simp
    moreover have "int_of_size (word_of_int (c - c mod 512)) = c - c mod 512"
      by (rule int_of_size_small) (use m assms in auto)
    moreover have "(word_of_int (c - c mod 512) :: size_t) + PAGESIZE div 8 = word_of_int (c - c mod 512 + 512)"
      by (simp add: PAGESIZE_def)
    moreover have "int_of_size (word_of_int (c - c mod 512 + 512)) = c - c mod 512 + 512"
      by (rule int_of_size_small) (use m assms in auto)
    ultimately have "round_capacity c = c - c mod 512 + 512" by (simp only: round_capacity_def low Let_def if_True simp_thms)
    moreover have "(c + 511) div 512 = c div 512 + 1"
      by (rule int_div_pos_eq [where r = "c mod 512 - 1"]) (use m False in auto)
    ultimately show ?thesis by (simp add: minus_mod_eq_mult_div)
  qed
qed

lemma round_capacity_bounds:
  assumes "0 \<le> c" "c \<le> 2 ^ 30"
  obtains k where "round_capacity c = 512 * k" "c \<le> 512 * k" "0 \<le> k" "512 * k \<le> 2 ^ 30"
proof -
  have "512 * ((c + 511) div 512) \<le> 2 ^ 30" using assms by (simp add: zdiv_mono1 [of "c + 511" "2 ^ 30 + 511" 512, simplified])
  moreover have "c \<le> 512 * ((c + 511) div 512)" using div_mod_decomp_int [of "c + 511" 512] pos_mod_bound [of 512 "c + 511"] by linarith
  ultimately show thesis
    using that [of "(c + 511) div 512"] round_capacity_eq [OF assms] assms by (simp add: pos_imp_zdiv_nonneg_iff)
qed

lemma length_slots:
  assumes "0 \<le> n" "n < 2 ^ 60"
  shows "length (slots (word_of_int n)) = nat (n div 8)"
proof -
  have "(word_of_int n :: size_t) div 8 = word_of_int (n div 8)"
    using word_div_small [of n 8] assms by simp
  moreover have "uint (word_of_int (n div 8) :: size_t) = n div 8"
    by (rule uint_small) (use assms in auto)
  ultimately show ?thesis by (simp add: slots_def unat_eq_nat_uint)
qed

lemma pages_of_addrs_eq: "0 \<le> k \<Longrightarrow> k \<le> 2 ^ 22 \<Longrightarrow> pages_of_addrs (512 * k) = word_of_int k"
proof -
  assume k: "0 \<le> k" "k \<le> 2 ^ 22"
  have "(word_of_int (512 * k) * 8 + PAGESIZE - 8 :: size_t) = word_of_int (4096 * k + 4088)"
    by (simp add: PAGESIZE_def)
  moreover have "(4096 * k + 4088) div 4096 = k" by (rule int_div_pos_eq [where r = 4088]) auto
  ultimately show ?thesis
    using word_div_small [of "4096 * k + 4088" 4096] k by (simp add: pages_of_addrs_def PAGESIZE_def add.commute)
qed

lemma pages_of_minimap_eq:
  "0 \<le> k \<Longrightarrow> k \<le> 2 ^ 22 \<Longrightarrow> pages_of_minimap (512 * k) = word_of_int ((k * 8 + 4088) div 4096)"
proof -
  assume k: "0 \<le> k" "k \<le> 2 ^ 22"
  have "(word_of_int k * 8 + PAGESIZE - 8 :: size_t) = word_of_int (k * 8 + 4088)"
    by (simp add: PAGESIZE_def)
  then show ?thesis using word_div_small [of "k * 8 + 4088" 4096] k pages_of_addrs_eq [OF k]
    by (simp add: pages_of_minimap_def PAGESIZE_def add.commute)
qed

text \<open>The arrays of a new aggregate buffer are as long as its capacity and its minimap need.\<close>

lemma aggregate_arrays:
  assumes "0 \<le> k" "512 * k \<le> 2 ^ 30"
  shows "length (slots (pages_of_addrs (512 * k) * PAGESIZE)) = nat (512 * k)"
    and "nat k \<le> length (slots (pages_of_minimap (512 * k) * PAGESIZE))"
    and "minimap_entries (nat (512 * k)) = nat k"
proof -
  have k: "k \<le> 2 ^ 22" using assms(2) by simp
  have "pages_of_addrs (512 * k) * PAGESIZE = word_of_int (k * 4096)"
    using pages_of_addrs_eq [OF assms(1) k] by (simp add: PAGESIZE_def)
  then show "length (slots (pages_of_addrs (512 * k) * PAGESIZE)) = nat (512 * k)"
    using length_slots [of "k * 4096"] assms k by simp
  define m where "m = (k * 8 + 4088) div 4096"
  have m: "k \<le> m * 512" "0 \<le> m" "m \<le> k + 1"
    using assms(1) div_mod_decomp_int [of "k * 8 + 4088" 4096] pos_mod_bound [of 4096 "k * 8 + 4088"]
      pos_mod_sign [of 4096 "k * 8 + 4088"] unfolding m_def by linarith+
  have "pages_of_minimap (512 * k) * PAGESIZE = word_of_int (m * 4096)"
    using pages_of_minimap_eq [OF assms(1) k] by (simp add: PAGESIZE_def m_def)
  then show "nat k \<le> length (slots (pages_of_minimap (512 * k) * PAGESIZE))"
    using length_slots [of "m * 4096"] m k by simp
  have "nat (512 * k) = 512 * nat k" using assms(1) by (simp add: nat_mult_distrib)
  then show "minimap_entries (nat (512 * k)) = nat k" by (simp add: minimap_entries_def)
qed

section \<open>Making buffers\<close>

lemma mapped_not_empty:
  assumes "alloc_ok al" "(a, l) \<in> set (al_mapped al)" shows "0 < unat l"
proof -
  obtain ps fs where inv: "alloc_inv al ps fs" using assms(1) by (auto simp: alloc_ok_def)
  then obtain c where "c \<in> set ps" "block_of (al_nodes al) c = (a, l)"
    using alloc_inv_mapped [OF inv] assms(2) by auto
  then show ?thesis
    using inv block_of_bounds [of "al_nodes al" c a l] by (auto simp: alloc_inv_def tracked_def block_ok_def)
qed

lemma apartD: "apart p sz maps \<Longrightarrow> (a, l) \<in> set maps \<Longrightarrow>
    unat p + unat sz \<le> unat a \<or> unat a + unat l \<le> unat p"
  by (auto simp: apart_def)

text \<open>A block that comes from the allocator can take a new buffer.\<close>

lemma fresh_object:
  assumes os: "mmap_fresh os" and inv: "buffer_inv st rs ts as" and wf: "buffer_wf b"
    and run: "alloc_mmap os sz reason shared (bf_alloc st) = Inr (p, al)"
  shows "p \<noteq> 0" "map_of (bf_store st) p = None"
    "buffer_inv (st\<lparr>bf_alloc := al, bf_store := AList.update p b (bf_store st)\<rparr>) rs ts as"
proof -
  let ?al = "bf_alloc st"
  have ok: "alloc_ok ?al" and obj: "objects_inv st" and lists: "lists_inv st rs ts as"
    using inv by (auto simp: buffer_inv_def objects_inv_def)
  then obtain ps fs where ainv: "alloc_inv ?al ps fs" by (auto simp: alloc_ok_def)
  from alloc_mmap_ok [OF os this, of sz reason shared] run obtain ps' fs' maps where
    al: "alloc_inv al ps' fs'" "page_added os (al_mapped ?al) maps" "apart p sz maps"
      "al_mapped al = (p, sz) # maps" "data_block al p" "nodes_grow ?al al" by auto
  have sub: "set (al_mapped ?al) \<subseteq> set maps" using al(2) by (auto simp: page_added_def)
  show "p \<noteq> 0" using al(3) by (simp add: apart_def)
  show new: "map_of (bf_store st) p = None"
  proof (rule ccontr)
    assume "map_of (bf_store st) p \<noteq> None"
    then obtain l where l: "(p, l) \<in> set (al_mapped ?al)" using obj by (auto simp: objects_inv_def)
    have "0 < unat sz" using al(3) by (simp add: apart_def unat_gt_0)
    moreover have "unat p + unat sz \<le> unat p \<or> unat p + unat l \<le> unat p"
      using apartD [OF al(3), of p l] l sub by auto
    ultimately show False using mapped_not_empty [OF ok l] by linarith
  qed
  have kept: "data_block al a \<and> (\<exists>l. (a, l) \<in> set maps)"
    if "map_of (bf_store st) a = Some c" for a c
  proof -
    from that obj obtain l where l: "(a, l) \<in> set (al_mapped ?al)" "data_block ?al a"
      by (auto simp: objects_inv_def)
    from data_block_kept [OF ainv al(6) this] l(1) sub show ?thesis by auto
  qed
  have "p \<notin> set (rs @ ts @ as)" using listed_live [OF lists, of p] new by auto
  then have "lists_inv (st\<lparr>bf_alloc := al, bf_store := AList.update p b (bf_store st)\<rparr>) rs ts as"
    using lists by (simp add: lists_inv_def)
  moreover have "objects_inv (st\<lparr>bf_alloc := al, bf_store := AList.update p b (bf_store st)\<rparr>)"
    using obj wf kept al \<open>p \<noteq> 0\<close> unfolding objects_inv_def alloc_ok_def by auto
  ultimately show "buffer_inv (st\<lparr>bf_alloc := al, bf_store := AList.update p b (bf_store st)\<rparr>) rs ts as"
    by (simp add: buffer_inv_def)
qed

text \<open>The outcome of every operation that maps memory: the program stops, or a result as specified.\<close>

definition or_fatal :: "'a res \<Rightarrow> ('a \<Rightarrow> bool) \<Rightarrow> bool" where
  "or_fatal r P \<longleftrightarrow> r = Inl (Fatal ''failed mmap().'') \<or> (\<exists>x. r = Inr x \<and> P x)"

lemma or_fatal_bind: "or_fatal m P \<Longrightarrow> (\<And>x. P x \<Longrightarrow> or_fatal (f x) Q) \<Longrightarrow> or_fatal (bind_res m f) Q"
  unfolding or_fatal_def by (elim disjE exE conjE) simp_all

lemma or_fatal_Inr [simp]: "or_fatal (Inr x) P \<longleftrightarrow> P x"
  by (simp add: or_fatal_def)

lemma alloc_or_fatal:
  assumes "mmap_fresh os" "alloc_ok al"
  obtains "alloc_mmap os sz reason shared al = Inl (Fatal ''failed mmap().'')"
  | p al' where "alloc_mmap os sz reason shared al = Inr (p, al')"
proof -
  obtain ps fs where "alloc_inv al ps fs" using assms(2) by (auto simp: alloc_ok_def)
  from alloc_mmap_ok [OF assms(1) this, of sz reason shared] that show thesis by auto
qed

text \<open>
  A buffer just made: empty, on no list; all buffers but those of the pool it may have come
  from are as before.
\<close>

definition made :: "buffer_state \<Rightarrow> size_t list \<Rightarrow> size_t \<times> buffer_state \<Rightarrow> size_t list \<Rightarrow> size_t list \<Rightarrow>
    size_t list \<Rightarrow> (addr_buffer_t \<Rightarrow> bool) \<Rightarrow> bool" where
  "made st pool res rs ts as P \<longleftrightarrow> (case res of (ab, st') \<Rightarrow>
     buffer_inv st' rs ts as \<and> ab \<notin> set (rs @ ts @ as) \<and> ab \<noteq> g_deadrefs st' \<and>
     g_deadrefs st' = g_deadrefs st \<and> (ab \<in> set pool \<or> map_of (bf_store st) ab = None) \<and>
     (\<exists>b. map_of (bf_store st') ab = Some b \<and> ab_n_addrs b = 0 \<and> P b) \<and>
     (\<forall>a. a \<notin> set (ab # pool) \<longrightarrow> map_of (bf_store st') a = map_of (bf_store st) a))"

lemma made_fresh:
  assumes os: "mmap_fresh os" and inv: "buffer_inv st rs ts as" and wf: "buffer_wf b"
    and run: "alloc_mmap os sz reason shared (bf_alloc st) = Inr (p, al)"
    and b: "ab_n_addrs b = 0" "P b"
    and cap: "0 \<le> cap" "cap \<le> 2 ^ 30"
  shows "made st pool (p, st\<lparr>g_default_capacity := cap, bf_alloc := al, bf_store := AList.update p b (bf_store st)\<rparr>) rs ts as P"
proof -
  note f = fresh_object [OF os inv wf run]
  have out: "p \<notin> set (rs @ ts @ as)" and dead: "p \<noteq> g_deadrefs st"
    using listed_live [of st rs ts as p] f(1,2) inv by (auto simp: buffer_inv_def lists_inv_def)
  have "buffer_inv (st\<lparr>g_default_capacity := cap, bf_alloc := al, bf_store := AList.update p b (bf_store st)\<rparr>) rs ts as"
    using f(3) cap by (simp add: buffer_inv_def lists_inv_def objects_inv_def)
  then show ?thesis using out dead f(2) b by (simp add: made_def)
qed

lemma make_reclaimer_ok:
  assumes os: "mmap_fresh os" and inv: "buffer_inv st rs ts as"
    and ptrs: "0 < ptrs" "ptrs * MAX_THREAD_COUNT \<le> 2 ^ 30"
  shows "or_fatal (forkscan_make_reclaimer_buffer os ptrs st) (\<lambda>r. made st rs r (tl rs) ts as (\<lambda>b. True))"
proof (cases rs)
  case (Cons ab rs')
  have p: "path ab_next (bf_store st) (g_reclaimer_list st) (ab # rs') 0"
    using inv Cons by (simp add: buffer_inv_def lists_inv_def)
  then obtain b where b: "g_reclaimer_list st = ab" "ab \<noteq> 0" "map_of (bf_store st) ab = Some b"
    "path ab_next (bf_store st) (ab_next b) rs' 0" by (auto split: option.splits)
  let ?b = "b\<lparr>ab_n_addrs := 0\<rparr>"
  let ?st = "st\<lparr>g_reclaimer_list := ab_next b, bf_store := AList.update ab ?b (bf_store st)\<rparr>"
  have wf: "buffer_wf ?b" using object_wf [OF inv b(3)] by (auto simp: buffer_wf_def)
  have out: "ab \<notin> set rs'" using path_distinct [OF p] by simp
  have "buffer_inv ?st rs' ts as"
    using buffer_modify [OF inv b(3) wf] b(4) Cons out by (auto simp: buffer_inv_def lists_inv_def objects_inv_def)
  moreover have "forkscan_make_reclaimer_buffer os ptrs st = Inr (ab, ?st)"
    using b by (simp add: forkscan_make_reclaimer_buffer_def buf_modify_def Let_def)
  ultimately show ?thesis
    using inv Cons out by (auto simp: or_fatal_def made_def buffer_inv_def lists_inv_def)
next
  case Nil
  then have empty: "g_reclaimer_list st = 0" using inv by (simp add: buffer_inv_def lists_inv_def)
  define cap where "cap = (if g_default_capacity st = 0 then ptrs * MAX_THREAD_COUNT else g_default_capacity st)"
  have cap: "0 \<le> cap" "cap \<le> 2 ^ 30"
    using ptrs inv by (auto simp: cap_def MAX_THREAD_COUNT_def buffer_inv_def objects_inv_def)
  have cint: "(if g_default_capacity st = 0 then cint (ptrs * MAX_THREAD_COUNT) else Inr (g_default_capacity st)) = Inr cap"
    using ptrs by (auto simp: cap_def MAX_THREAD_COUNT_def cint_def)
  let ?sz = "word_of_int cap * 8 + PAGESIZE"
  have "length (slots (word_of_int cap * 8)) = nat cap"
    using length_slots [of "cap * 8"] cap by (simp add: mult.commute)
  then have wf: "buffer_wf (fresh_buffer\<lparr>ab_addrs := slots (?sz - PAGESIZE), ab_addrs_at := p + PAGESIZE,
      ab_n_addrs := 0, ab_capacity := cap, ab_is_aggregate := False, ab_ref_count := 0\<rparr>)" for p
    using cap by (simp add: buffer_wf_def fresh_buffer_def)
  have ok: "alloc_ok (bf_alloc st)" using inv by (simp add: buffer_inv_def objects_inv_def)
  show ?thesis
  proof (rule alloc_or_fatal [OF os ok, of ?sz "''reclaimer''" False])
    fix p al assume run: "alloc_mmap os ?sz ''reclaimer'' False (bf_alloc st) = Inr (p, al)"
    then show ?thesis
      using made_fresh [OF os inv wf run _ _ cap, where P = "\<lambda>b. True" and pool = rs] empty Nil cint
      by (simp add: forkscan_make_reclaimer_buffer_def forkscan_alloc_mmap_def Let_def or_fatal_def fresh_buffer_def)
  qed (use empty cint in \<open>simp add: forkscan_make_reclaimer_buffer_def forkscan_alloc_mmap_def Let_def or_fatal_def\<close>)
qed

text \<open>Giving a pooled aggregate buffer back to the system.\<close>

lemma unmap_object:
  assumes os: "munmap_works os" and inv: "buffer_inv (st\<lparr>g_available_aggregates := a\<rparr>) rs ts (a # as)"
    and b: "map_of (bf_store st) a = Some b"
  obtains al where "forkscan_alloc_munmap os a (bf_alloc st) = Inr al"
    "buffer_inv (st\<lparr>bf_alloc := al, bf_store := AList.delete a (bf_store st), g_available_aggregates := ab_next b\<rparr>) rs ts as"
proof -
  have obj: "objects_inv st" and lists: "lists_inv (st\<lparr>g_available_aggregates := a\<rparr>) rs ts (a # as)"
    using inv by (auto simp: buffer_inv_def objects_inv_def)
  obtain ps fs where ainv: "alloc_inv (bf_alloc st) ps fs" using obj by (auto simp: objects_inv_def alloc_ok_def)
  obtain l where l: "(a, l) \<in> set (al_mapped (bf_alloc st))" "data_block (bf_alloc st) a"
    using obj b by (auto simp: objects_inv_def)
  from munmap_ok [OF os ainv this] obtain al ps' c where al: "forkscan_alloc_munmap os a (bf_alloc st) = Inr al"
    "alloc_inv al ps' (c # fs)" "al_mapped al = remove1 (a, l) (al_mapped (bf_alloc st))"
    "\<forall>q. data_block (bf_alloc st) q \<longrightarrow> data_block al q" by blast
  let ?s = "AList.delete a (bf_store st)"
  have keep: "path ab_next ?s p ps 0" if "path ab_next (bf_store st) p ps 0" "a \<notin> set ps" for p ps
    by (rule path_cong [OF that(1)]) (use that(2) in \<open>auto simp: delete_conv'\<close>)
  have p: "path ab_next (bf_store st) a (a # as) 0" using lists by (simp add: lists_inv_def)
  then have "a \<notin> set as" using path_distinct [OF p] by simp
  then have "lists_inv (st\<lparr>bf_alloc := al, bf_store := ?s, g_available_aggregates := ab_next b\<rparr>) rs ts as"
    using lists keep b p by (auto simp: lists_inv_def delete_conv')
  moreover have "objects_inv (st\<lparr>bf_alloc := al, bf_store := ?s, g_available_aggregates := ab_next b\<rparr>)"
    unfolding objects_inv_def
  proof (intro conjI allI impI)
    fix x c assume "map_of (bf_store (st\<lparr>bf_alloc := al, bf_store := ?s, g_available_aggregates := ab_next b\<rparr>)) x = Some c"
    then have x: "map_of (bf_store st) x = Some c" "x \<noteq> a" by (auto simp: delete_conv' split: if_splits)
    then show "x \<noteq> 0" "buffer_wf c" using obj by (auto simp: objects_inv_def)
    from x obj obtain k where "(x, k) \<in> set (al_mapped (bf_alloc st))" "data_block (bf_alloc st) x"
      by (auto simp: objects_inv_def)
    with al(3,4) x(2) show "\<exists>l. (x, l) \<in> set (al_mapped (bf_alloc (st\<lparr>bf_alloc := al, bf_store := ?s,
        g_available_aggregates := ab_next b\<rparr>)))"
      "data_block (bf_alloc (st\<lparr>bf_alloc := al, bf_store := ?s, g_available_aggregates := ab_next b\<rparr>)) x"
      by (auto intro: in_set_remove1 [THEN iffD2])
  qed (use obj al(2) in \<open>auto simp: objects_inv_def alloc_ok_def\<close>)
  ultimately show thesis using that [OF al(1)] by (simp add: buffer_inv_def)
qed

lemma drop_small_ok:
  assumes os: "munmap_works os" and "buffer_inv (st\<lparr>g_available_aggregates := p\<rparr>) rs ts as" and "length as < k"
  shows "\<exists>st' ds as'. drop_small k os cap p st = Inr (head_of as', st') \<and> as = ds @ as' \<and>
    buffer_inv (st'\<lparr>g_available_aggregates := head_of as'\<rparr>) rs ts as' \<and>
    (as' \<noteq> [] \<longrightarrow> (\<exists>b. map_of (bf_store st') (hd as') = Some b \<and> cap \<le> ab_capacity b)) \<and>
    (\<forall>a. a \<notin> set ds \<longrightarrow> map_of (bf_store st') a = map_of (bf_store st) a) \<and>
    g_deadrefs st' = g_deadrefs st \<and> g_default_capacity st' = g_default_capacity st"
  using assms(2,3)
proof (induction as arbitrary: st p k)
  case Nil
  then obtain k' where "k = Suc k'" by (cases k) auto
  moreover have "p = 0" using Nil.prems(1) by (simp add: buffer_inv_def lists_inv_def)
  ultimately show ?case using Nil.prems(1) by (intro exI [of _ st] exI [of _ "[]"]) (simp add: head_of_def)
next
  case (Cons a as)
  obtain k' where k: "k = Suc k'" using Cons.prems(2) by (cases k) auto
  obtain b where b: "p = a" "a \<noteq> 0" "map_of (bf_store st) a = Some b"
    using Cons.prems(1) by (auto simp: buffer_inv_def lists_inv_def split: option.splits)
  show ?case
  proof (cases "ab_capacity b < cap")
    case True
    have "buffer_inv (st\<lparr>g_available_aggregates := a\<rparr>) rs ts (a # as)" using Cons.prems(1) b(1) by simp
    then obtain al where al: "forkscan_alloc_munmap os a (bf_alloc st) = Inr al"
      "buffer_inv (st\<lparr>bf_alloc := al, bf_store := AList.delete a (bf_store st), g_available_aggregates := ab_next b\<rparr>) rs ts as"
      using unmap_object [OF os _ b(3)] by blast
    define st1 where "st1 = st\<lparr>bf_alloc := al, bf_store := AList.delete a (bf_store st)\<rparr>"
    have "drop_small k os cap p st = drop_small k' os cap (ab_next b) st1"
      using True k b al(1) by (simp add: st1_def)
    moreover obtain st' ds as' where "drop_small k' os cap (ab_next b) st1 = Inr (head_of as', st')" "as = ds @ as'"
      "buffer_inv (st'\<lparr>g_available_aggregates := head_of as'\<rparr>) rs ts as'"
      "as' \<noteq> [] \<longrightarrow> (\<exists>b. map_of (bf_store st') (hd as') = Some b \<and> cap \<le> ab_capacity b)"
      "\<forall>a. a \<notin> set ds \<longrightarrow> map_of (bf_store st') a = map_of (bf_store st1) a"
      "g_deadrefs st' = g_deadrefs st1" "g_default_capacity st' = g_default_capacity st1"
      using Cons.IH [where st = st1 and p = "ab_next b" and k = k'] al(2) Cons.prems(2) k by (auto simp: st1_def)
    ultimately show ?thesis
      by (intro exI [of _ st'] exI [of _ "a # ds"] exI [of _ as']) (simp add: st1_def delete_conv')
  next
    case False
    then show ?thesis using Cons.prems(1) b k
      by (intro exI [of _ st] exI [of _ "[]"] exI [of _ "a # as"]) (simp add: head_of_def)
  qed
qed

lemma new_aggregate_ok:
  assumes os: "mmap_fresh os" and inv: "buffer_inv st rs ts as" and k: "0 \<le> k" "512 * k \<le> 2 ^ 30"
  shows "or_fatal (new_aggregate os (512 * k) st)
    (\<lambda>r. made st pool r rs ts as (\<lambda>b. ab_is_aggregate b \<and> ab_capacity b = 512 * k))"
proof -
  let ?cap = "512 * k"
  let ?sz = "(pages_of_addrs ?cap + pages_of_minimap ?cap + 1) * PAGESIZE"
  let ?b = "\<lambda>p. fresh_buffer\<lparr>ab_addrs := slots (pages_of_addrs ?cap * PAGESIZE), ab_addrs_at := p + PAGESIZE,
     ab_minimap := slots (pages_of_minimap ?cap * PAGESIZE), ab_capacity := ?cap, ab_is_aggregate := True,
     ab_ref_count := 0\<rparr>"
  have wf: "buffer_wf (?b p)" for p
    using aggregate_arrays [OF k] k by (simp add: buffer_wf_def fresh_buffer_def)
  have ok: "alloc_ok (bf_alloc st)" and cap: "0 \<le> g_default_capacity st" "g_default_capacity st \<le> 2 ^ 30"
    using inv by (auto simp: buffer_inv_def objects_inv_def)
  show ?thesis
  proof (rule alloc_or_fatal [OF os ok, of ?sz "''aggregate''" True])
    fix p al assume run: "alloc_mmap os ?sz ''aggregate'' True (bf_alloc st) = Inr (p, al)"
    have "made st pool (p, st\<lparr>g_default_capacity := g_default_capacity st, bf_alloc := al,
        bf_store := AList.update p (?b p) (bf_store st)\<rparr>) rs ts as (\<lambda>b. ab_is_aggregate b \<and> ab_capacity b = ?cap)"
      by (rule made_fresh [OF os inv wf run _ _ cap]) (simp_all add: fresh_buffer_def)
    then show ?thesis using run
      by (simp add: new_aggregate_def forkscan_alloc_mmap_shared_def Let_def or_fatal_def)
  qed (simp add: new_aggregate_def forkscan_alloc_mmap_shared_def Let_def or_fatal_def)
qed

lemma make_aggregate_ok:
  assumes os: "mmap_fresh os" "munmap_works os" and inv: "buffer_inv st rs ts as"
    and req: "0 \<le> req" "req \<le> 2 ^ 30"
  shows "\<exists>as'. set as' \<subseteq> set as \<and> or_fatal (forkscan_make_aggregate_buffer os req st)
    (\<lambda>r. made st as r rs ts as' (\<lambda>b. ab_is_aggregate b \<and> req \<le> ab_capacity b))"
proof -
  obtain k where k: "round_capacity req = 512 * k" "req \<le> 512 * k" "0 \<le> k" "512 * k \<le> 2 ^ 30"
    using round_capacity_bounds [OF req] by blast
  have unguarded: "(if g_available_aggregates st \<noteq> 0
        then drop_small (Suc (length (bf_store st))) os (512 * k) (g_available_aggregates st) st
        else Inr (0, st)) = drop_small (Suc (length (bf_store st))) os (512 * k) (g_available_aggregates st) st"
    by simp
  have inv0: "buffer_inv (st\<lparr>g_available_aggregates := g_available_aggregates st\<rparr>) rs ts as" using inv by simp
  have len: "length as < Suc (length (bf_store st))"
    using lists_length(2) [of st rs ts as] inv by (simp add: buffer_inv_def)
  obtain st' ds as' where d: "(if g_available_aggregates st \<noteq> 0
        then drop_small (Suc (length (bf_store st))) os (512 * k) (g_available_aggregates st) st
        else Inr (0, st)) = Inr (head_of as', st')" "as = ds @ as'"
      "buffer_inv (st'\<lparr>g_available_aggregates := head_of as'\<rparr>) rs ts as'"
      "as' \<noteq> [] \<longrightarrow> (\<exists>b. map_of (bf_store st') (hd as') = Some b \<and> 512 * k \<le> ab_capacity b)"
      "\<forall>a. a \<notin> set ds \<longrightarrow> map_of (bf_store st') a = map_of (bf_store st) a" "g_deadrefs st' = g_deadrefs st"
    unfolding unguarded using drop_small_ok [OF os(2) inv0 len, of "512 * k"] by blast
  show ?thesis
  proof (cases as')
    case Nil
    then have inv': "buffer_inv (st'\<lparr>g_available_aggregates := 0\<rparr>) rs ts []" using d(3) by (simp add: head_of_def)
    have "forkscan_make_aggregate_buffer os req st = new_aggregate os (512 * k) (st'\<lparr>g_available_aggregates := 0\<rparr>)"
      using d(1) Nil k(1) by (simp add: forkscan_make_aggregate_buffer_def head_of_def Let_def)
    moreover have "made st as r rs ts [] (\<lambda>b. ab_is_aggregate b \<and> req \<le> ab_capacity b)"
      if m: "made (st'\<lparr>g_available_aggregates := 0\<rparr>) [] r rs ts [] (\<lambda>b. ab_is_aggregate b \<and> ab_capacity b = 512 * k)" for r
    proof -
      obtain ab st2 where r: "r = (ab, st2)" by fastforce
      obtain b where "map_of (bf_store st2) ab = Some b" "ab_n_addrs b = 0" "ab_is_aggregate b" "ab_capacity b = 512 * k"
        using m by (auto simp: made_def r)
      moreover have "ab \<in> set as \<or> map_of (bf_store st) ab = None"
        using m d(2,5) Nil by (cases "ab \<in> set ds") (auto simp: made_def r)
      ultimately show ?thesis using m d(2,5,6) Nil k(2) by (auto simp: made_def r)
    qed
    ultimately show ?thesis using new_aggregate_ok [OF os(1) inv' k(3,4), of "[]"]
      unfolding or_fatal_def by (intro exI [of _ "[]"]) auto
  next
    case (Cons ab as'')
    then have inv': "buffer_inv (st'\<lparr>g_available_aggregates := ab\<rparr>) rs ts (ab # as'')"
      using d(3) by (simp add: head_of_def)
    then have p: "path ab_next (bf_store st') ab (ab # as'') 0" by (simp add: buffer_inv_def lists_inv_def)
    then obtain b where b: "ab \<noteq> 0" "map_of (bf_store st') ab = Some b" "path ab_next (bf_store st') (ab_next b) as'' 0"
      by (auto split: option.splits)
    have out: "ab \<notin> set (rs @ ts @ as'')" "ab \<noteq> g_deadrefs st'" and agg: "ab_is_aggregate b"
      using inv' path_distinct [OF p] b(2) by (auto simp: buffer_inv_def lists_inv_def)
    let ?b = "b\<lparr>ab_next := 0, ab_n_addrs := 0\<rparr>"
    let ?st = "st'\<lparr>g_available_aggregates := ab_next b, bf_store := AList.update ab ?b (bf_store st')\<rparr>"
    have "buffer_wf b" using object_wf [OF inv'] b(2) by simp
    then have "buffer_wf ?b" by (auto simp: buffer_wf_def)
    then have "buffer_inv ?st rs ts as''"
      using inv' b out by (auto simp: buffer_inv_def lists_inv_def objects_inv_def)
    moreover have "forkscan_make_aggregate_buffer os req st = Inr (ab, ?st)"
      using d(1) Cons k(1) b by (simp add: forkscan_make_aggregate_buffer_def head_of_def Let_def buf_modify_def)
    moreover have "req \<le> ab_capacity b" using d(4) Cons b(2) k(2) by auto
    ultimately have "or_fatal (forkscan_make_aggregate_buffer os req st)
      (\<lambda>r. made st as r rs ts as'' (\<lambda>b. ab_is_aggregate b \<and> req \<le> ab_capacity b))"
      using out agg d(2,5,6) Cons by (auto simp: or_fatal_def made_def)
    moreover have "set as'' \<subseteq> set as" using d(2) Cons by auto
    ultimately show ?thesis by blast
  qed
qed

section \<open>Dead references\<close>

text \<open>The addresses a buffer carries, and those of them that no scan has marked and no thread has freed.\<close>

definition addrs_of :: "addr_buffer_t \<Rightarrow> size_t list" where
  "addrs_of b = take (n_of b) (ab_addrs b)"

definition dead_of :: "addr_buffer_t \<Rightarrow> size_t list" where
  "dead_of b = filter (\<lambda>a. a AND 3 = 0) (addrs_of b)"

definition carries :: "nat \<Rightarrow> addr_buffer_t \<Rightarrow> addr_buffer_t \<Rightarrow> size_t list \<Rightarrow> bool" where
  "carries cap ret ret' xs \<longleftrightarrow>
     ret'\<lparr>ab_addrs := [], ab_n_addrs := 0\<rparr> = ret\<lparr>ab_addrs := [], ab_n_addrs := 0\<rparr> \<and>
     ab_n_addrs ret' = int (length xs) \<and> addrs_of ret' = xs \<and> ab_capacity ret' = int cap \<and>
     length (ab_addrs ret') = length (ab_addrs ret) \<and> cap \<le> length (ab_addrs ret) \<and> length xs \<le> cap"

lemma carries_snoc:
  assumes "carries cap ret r xs" "length xs < cap"
  shows "carries cap ret (r\<lparr>ab_addrs := (ab_addrs r)[length xs := a], ab_n_addrs := ab_n_addrs r + 1\<rparr>) (xs @ [a])"
proof -
  have n: "ab_n_addrs r = int (length xs)" using assms(1) by (simp add: carries_def)
  have len: "length xs < length (ab_addrs r)" using assms by (simp add: carries_def)
  have xs: "take (length xs) (ab_addrs r) = xs" using assms(1) n by (simp add: carries_def addrs_of_def n_of_def)
  have "take (Suc (length xs)) ((ab_addrs r)[length xs := a]) = xs @ [a]"
    using xs len by (simp add: take_Suc_conv_app_nth)
  then show ?thesis using assms n by (auto simp: carries_def addrs_of_def n_of_def nat_add_distrib)
qed

lemma dead_addrs_ok:
  assumes wf: "buffer_wf ab" and "carries cap ret r xs" "length xs < cap" "i \<le> n_of ab"
  shows "\<exists>r'. dead_addrs ab (int i) r
      = Inr (r', cap \<le> length (xs @ filter (\<lambda>a. a AND 3 = 0) (drop i (addrs_of ab)))) \<and>
    carries cap ret r' (take cap (xs @ filter (\<lambda>a. a AND 3 = 0) (drop i (addrs_of ab))))"
  using assms(2-4)
proof (induction "n_of ab - i" arbitrary: i r xs)
  case 0
  then have "\<not> int i < ab_n_addrs ab" "drop i (addrs_of ab) = []" by (auto simp: n_of_def addrs_of_def)
  then show ?case using "0.prems" by (subst dead_addrs.simps) simp
next
  case (Suc m)
  have n: "i < n_of ab" "n_of ab \<le> length (ab_addrs ab)" "int i < ab_n_addrs ab"
    using Suc.hyps(2) wf by (auto simp: n_of_def buffer_wf_def)
  let ?a = "ab_addrs ab ! i"
  have drop: "drop i (addrs_of ab) = ?a # drop (Suc i) (addrs_of ab)"
    using n by (simp add: addrs_of_def Cons_nth_drop_Suc [symmetric])
  have rd: "rd (ab_addrs ab) (int i) = Inr ?a" using n by (simp add: rd_int)
  have hyp: "m = n_of ab - Suc i" using Suc.hyps(2) by simp
  have nr: "ab_n_addrs r = int (length xs)" and len: "length xs < length (ab_addrs r)" "ab_capacity r = int cap"
    using Suc.prems(1,2) by (simp_all add: carries_def)
  show ?case
  proof (cases "?a AND 3 = 0")
    case False
    then have "dead_addrs ab (int i) r = dead_addrs ab (int (Suc i)) r"
      using n rd by (subst dead_addrs.simps) (simp add: add.commute)
    then show ?thesis using Suc.hyps(1) [OF hyp Suc.prems(1,2)] n(1) False drop by simp
  next
    case True
    let ?r = "r\<lparr>ab_addrs := (ab_addrs r)[length xs := ?a], ab_n_addrs := ab_n_addrs r + 1\<rparr>"
    have c: "carries cap ret ?r (xs @ [?a])" by (rule carries_snoc [OF Suc.prems(1,2)])
    have run: "dead_addrs ab (int i) r = (if cap \<le> length (xs @ [?a]) then Inr (?r, True) else dead_addrs ab (int (Suc i)) ?r)"
      using n rd True nr len by (subst dead_addrs.simps) (simp add: wr_int Let_def add.commute)
    show ?thesis
    proof (cases "cap \<le> length (xs @ [?a])")
      case True
      with Suc.prems(2) have "cap = length (xs @ [?a])" by simp
      with run c \<open>?a AND 3 = 0\<close> drop show ?thesis by simp
    next
      case False
      with run Suc.hyps(1) [OF hyp c] n(1) \<open>?a AND 3 = 0\<close> drop show ?thesis by simp
    qed
  qed
qed

definition dead_in :: "addr_buffer_t store \<Rightarrow> size_t list \<Rightarrow> size_t list" where
  "dead_in s ts = concat (map (\<lambda>t. dead_of (the (map_of s t))) ts)"

lemma dead_buffers_ok:
  assumes "path ab_next s p ts 0" "length ts < k" "\<forall>t\<in>set ts. buffer_wf (the (map_of s t))"
    and "carries cap ret r xs" "length xs < cap"
  shows "\<exists>r'. dead_buffers k s p r = Inr r' \<and> carries cap ret r' (take cap (xs @ dead_in s ts))"
  using assms
proof (induction ts arbitrary: p k r xs)
  case Nil
  then show ?case by (cases k) (auto simp: dead_in_def)
next
  case (Cons t ts)
  obtain k' where k: "k = Suc k'" using Cons.prems(2) by (cases k) auto
  obtain b where b: "p = t" "t \<noteq> 0" "map_of s t = Some b" "path ab_next s (ab_next b) ts 0"
    using Cons.prems(1) by (auto split: option.splits)
  let ?ys = "xs @ dead_of b"
  obtain r1 where r1: "dead_addrs b 0 r = Inr (r1, cap \<le> length ?ys)" "carries cap ret r1 (take cap ?ys)"
    using dead_addrs_ok [of b cap ret r xs 0] Cons.prems(3-5) b(3) by (auto simp: dead_of_def)
  have split: "dead_in s (t # ts) = dead_of b @ dead_in s ts" using b(3) by (simp add: dead_in_def)
  show ?case
  proof (cases "cap \<le> length ?ys")
    case True
    then show ?thesis using b k r1 split by simp
  next
    case False
    then obtain r' where "dead_buffers k' s (ab_next b) r1 = Inr r'" "carries cap ret r' (take cap (?ys @ dead_in s ts))"
      using Cons.IH [OF b(4), of k' r1 ?ys] Cons.prems(2,3) r1(2) k by auto
    then show ?thesis using b k r1(1) False split by simp
  qed
qed

definition dead_found :: "buffer_state \<Rightarrow> size_t list \<Rightarrow> size_t list \<Rightarrow> size_t list \<Rightarrow> size_t \<times> buffer_state \<Rightarrow> bool" where
  "dead_found st rs ts as res \<longleftrightarrow> (case res of (ret, st') \<Rightarrow>
     buffer_inv st' rs ts as \<and> ret = g_deadrefs st' \<and> ret \<noteq> 0 \<and> g_default_capacity st' = g_default_capacity st \<and>
     (ret = g_deadrefs st \<or> map_of (bf_store st) ret = None) \<and>
     (\<exists>r. map_of (bf_store st') ret = Some r \<and> 0 < ab_capacity r \<and>
        addrs_of r = take (nat (ab_capacity r)) (dead_in (bf_store st) ts)) \<and>
     (\<forall>a. a \<noteq> ret \<longrightarrow> map_of (bf_store st') a = map_of (bf_store st) a))"

text \<open>Filling the buffer of dead references, once it exists.\<close>

lemma fill_deadrefs:
  assumes inv: "buffer_inv st rs ts as" and b: "map_of (bf_store st) (g_deadrefs st) = Some b" "0 < ab_capacity b"
  shows "\<exists>st'. fill_dead_references st = Inr (g_deadrefs st, st') \<and> dead_found st rs ts as (g_deadrefs st, st')"
proof -
  let ?s = "bf_store st" and ?d = "g_deadrefs st" and ?cap = "nat (ab_capacity b)"
  have lists: "lists_inv st rs ts as" and nz: "?d \<noteq> 0" and wf: "buffer_wf b"
    using inv b(1) by (auto simp: buffer_inv_def objects_inv_def)
  have path: "path ab_next ?s (g_first_retiree_buffer st) ts 0" and out: "?d \<notin> set (rs @ ts @ as)"
    using lists by (auto simp: lists_inv_def)
  have wfs: "\<forall>t\<in>set ts. buffer_wf (the (map_of ?s t))"
    using path_live [OF path] object_wf [OF inv] by fastforce
  have "carries ?cap b (b\<lparr>ab_n_addrs := 0\<rparr>) []"
    using wf b(2) by (simp add: carries_def addrs_of_def n_of_def buffer_wf_def)
  from dead_buffers_ok [OF path _ wfs this, of "Suc (length ?s)"] lists_length(1) [OF lists] b(2) obtain r where
    r: "dead_buffers (Suc (length ?s)) ?s (g_first_retiree_buffer st) (b\<lparr>ab_n_addrs := 0\<rparr>) = Inr r"
      "carries ?cap b r (take ?cap (dead_in ?s ts))" by (auto simp del: dead_buffers.simps)
  have eq: "r\<lparr>ab_addrs := [], ab_n_addrs := 0\<rparr> = b\<lparr>ab_addrs := [], ab_n_addrs := 0\<rparr>"
    using r(2) by (simp add: carries_def)
  have same: "ab_next r = ab_next b" "ab_is_aggregate r = ab_is_aggregate b" "ab_minimap r = ab_minimap b"
    using arg_cong [OF eq, of ab_next] arg_cong [OF eq, of ab_is_aggregate] arg_cong [OF eq, of ab_minimap]
    by simp_all
  have "buffer_wf r" using r(2) wf same b(2) by (auto simp: carries_def buffer_wf_def)
  from buffer_modify [OF inv b(1) this] same
  have "buffer_inv (st\<lparr>bf_store := AList.update ?d r ?s\<rparr>) rs ts as" by simp
  moreover have "ab_capacity r = ab_capacity b" using arg_cong [OF eq, of ab_capacity] by simp
  moreover have "nat (ab_capacity r) = ?cap" "addrs_of r = take ?cap (dead_in ?s ts)"
    using r(2) by (simp_all add: carries_def)
  ultimately show ?thesis using r(1) b nz
    by (simp add: fill_dead_references_def Let_def buf_modify_def dead_found_def del: dead_buffers.simps)
qed

lemma get_dead_references_ok:
  assumes os: "mmap_fresh os" and inv: "buffer_inv st rs ts as" and cap: "0 < g_default_capacity st"
    and old: "\<forall>b. map_of (bf_store st) (g_deadrefs st) = Some b \<longrightarrow> 0 < ab_capacity b"
  shows "or_fatal (forkscan_buffer_get_dead_references os st) (dead_found st rs ts as)"
proof (cases "g_deadrefs st = 0")
  case False
  then obtain b where b: "map_of (bf_store st) (g_deadrefs st) = Some b"
    using inv by (auto simp: buffer_inv_def lists_inv_def)
  with old fill_deadrefs [OF inv b] False show ?thesis
    by (auto simp: forkscan_buffer_get_dead_references_def or_fatal_def Let_def)
next
  case True
  let ?cap = "g_default_capacity st"
  let ?sz = "word_of_int ?cap * 8 + PAGESIZE"
  let ?b = "\<lambda>p. fresh_buffer\<lparr>ab_addrs := slots (?sz - PAGESIZE), ab_addrs_at := p + PAGESIZE,
      ab_n_addrs := 0, ab_capacity := ?cap, ab_is_aggregate := False, ab_ref_count := 0\<rparr>"
  have c: "?cap \<le> 2 ^ 30" and ok: "alloc_ok (bf_alloc st)" using inv by (auto simp: buffer_inv_def objects_inv_def)
  have "length (slots (word_of_int ?cap * 8)) = nat ?cap"
    using length_slots [of "?cap * 8"] cap c by (simp add: mult.commute)
  then have wf: "buffer_wf (?b p)" for p using cap c by (simp add: buffer_wf_def fresh_buffer_def)
  show ?thesis
  proof (rule alloc_or_fatal [OF os ok, of ?sz "''deadrefs''" True])
    fix p al assume run: "alloc_mmap os ?sz ''deadrefs'' True (bf_alloc st) = Inr (p, al)"
    define st1 where "st1 = st\<lparr>g_deadrefs := p, bf_alloc := al, bf_store := AList.update p (?b p) (bf_store st)\<rparr>"
    note f = fresh_object [OF os inv wf run]
    have "p \<notin> set (rs @ ts @ as)" using listed_live [of st rs ts as p] f(2) inv by (auto simp: buffer_inv_def)
    then have inv1: "buffer_inv st1 rs ts as"
      using f(3) by (auto simp: buffer_inv_def lists_inv_def objects_inv_def st1_def)
    have b1: "map_of (bf_store st1) (g_deadrefs st1) = Some (?b p)" by (simp add: st1_def)
    have "dead_in (bf_store st1) ts = dead_in (bf_store st) ts"
      using \<open>p \<notin> set (rs @ ts @ as)\<close> by (auto simp: dead_in_def st1_def intro!: arg_cong [of _ _ concat])
    then have "dead_found st rs ts as r" if "dead_found st1 rs ts as r" "fst r = p" for r
      using that f(2) by (auto simp: dead_found_def st1_def split: prod.splits)
    moreover from fill_deadrefs [OF inv1 b1] cap obtain st' where
      "forkscan_buffer_get_dead_references os st = Inr (p, st')" "dead_found st1 rs ts as (p, st')"
      using True run by (auto simp: forkscan_buffer_get_dead_references_def forkscan_alloc_mmap_shared_def Let_def st1_def)
    ultimately show ?thesis by (auto simp: or_fatal_def)
  qed (use True in \<open>simp add: forkscan_buffer_get_dead_references_def forkscan_alloc_mmap_shared_def Let_def or_fatal_def\<close>)
qed

section \<open>Sample states\<close>

definition buffer_init :: buffer_state where
  "buffer_init = \<lparr>bf_store = [], g_default_capacity = 0, g_reclaimer_list = 0, g_first_retiree_buffer = 0,
     g_last_retiree_buffer = 0, g_available_aggregates = 0, g_deadrefs = 0, bf_alloc = alloc_init\<rparr>"

lemma buffer_init_inv: "buffer_inv buffer_init [] [] []"
  using alloc_init_inv
  by (auto simp: buffer_inv_def lists_inv_def objects_inv_def buffer_init_def alloc_ok_def)

definition small_buffer :: "size_t \<Rightarrow> addr_buffer_t" where
  "small_buffer x = fresh_buffer\<lparr>ab_addrs := [x], ab_n_addrs := 1, ab_capacity := 1\<rparr>"

definition mem_top :: "buffer_state \<Rightarrow> int" where
  "mem_top st = maps_top (al_mapped (bf_alloc st))"

lemma sample_page:
  assumes "page_added sample_os maps maps'" "maps_top maps < 2 ^ 63"
  shows "maps_top maps' \<le> maps_top maps + 0x1000"
proof -
  have "uint (word_of_int (maps_top maps) :: size_t) = maps_top maps"
    using assms(2) maps_top_pos [of maps] by (simp add: uint_word_of_int_eq take_bit_int_eq_self)
  then show ?thesis using assms(1)
    by (auto simp: page_added_def sample_os_def maps_top_def ALLOC_BLOCKSIZE_def PAGESIZE_def split: if_splits)
qed

lemma sample_not_refused:
  assumes "maps_top maps < 2 ^ 62" "sz \<noteq> 0" "uint sz < 2 ^ 62"
  shows "\<not> mmap_refuses sample_os maps sz shared"
  using assms sample_page [of maps]
  by (force simp: mmap_refuses_def sample_os_def ALLOC_BLOCKSIZE_def PAGESIZE_def)

lemma sample_add:
  assumes inv: "buffer_inv st rs ts as" and top: "mem_top st < 2 ^ 62"
  obtains p st' where "buffer_inv st' rs ts as" "map_of (bf_store st) p = None" "p \<noteq> 0"
    "bf_store st' = AList.update p (small_buffer x) (bf_store st)" "g_deadrefs st' = g_deadrefs st"
    "mem_top st' \<le> mem_top st + 0x3000"
proof -
  have wf: "buffer_wf (small_buffer x)" by (simp add: buffer_wf_def small_buffer_def fresh_buffer_def)
  have "alloc_ok (bf_alloc st)" using inv by (simp add: buffer_inv_def objects_inv_def)
  then obtain ps fs where "alloc_inv (bf_alloc st) ps fs" by (auto simp: alloc_ok_def)
  from alloc_mmap_ok [OF sample_os_ok(1) this, of "0x2000" "''reclaimer''" False]
    sample_not_refused [OF top [unfolded mem_top_def], of "0x2000"]
  obtain p al maps where run: "alloc_mmap sample_os 0x2000 ''reclaimer'' False (bf_alloc st) = Inr (p, al)"
    and maps: "page_added sample_os (al_mapped (bf_alloc st)) maps" "al_mapped al = (p, 0x2000) # maps"
      "os_mmap sample_os maps 0x2000 False = Some p"
    by auto
  note page = sample_page [OF maps(1)]
  have "maps_top maps < 2 ^ 63" using page top by (simp add: mem_top_def)
  then have "uint (word_of_int (maps_top maps) :: size_t) = maps_top maps"
    using maps_top_pos [of maps] by (simp add: uint_word_of_int_eq take_bit_int_eq_self)
  then have top': "maps_top (al_mapped al) \<le> mem_top st + 0x3000"
    using maps page top by (auto simp: mem_top_def sample_os_def maps_top_def split: if_splits)
  note f = fresh_object [OF sample_os_ok(1) inv wf run]
  show thesis
    by (rule that [OF f(3) f(2) f(1)]) (use top' in \<open>simp_all add: mem_top_def\<close>)
qed

lemma sample_buffers:
  obtains st x y z where "buffer_inv st [] [] []" "distinct [x, y, z]" "g_deadrefs st = 0"
    "map_of (bf_store st) x = Some (small_buffer 0x100)" "map_of (bf_store st) y = Some (small_buffer 0x200)"
    "map_of (bf_store st) z = Some (small_buffer 0x300)" "mem_top st < 2 ^ 62"
proof -
  have t0: "mem_top buffer_init = 0x10000" by (simp add: mem_top_def buffer_init_def alloc_init_def maps_top_def)
  obtain x s1 where s1: "buffer_inv s1 [] [] []" "bf_store s1 = AList.update x (small_buffer 0x100) (bf_store buffer_init)"
    "g_deadrefs s1 = g_deadrefs buffer_init" "mem_top s1 \<le> mem_top buffer_init + 0x3000"
    by (rule sample_add [OF buffer_init_inv, of "0x100"]) (use t0 in simp)
  obtain y s2 where s2: "buffer_inv s2 [] [] []" "bf_store s2 = AList.update y (small_buffer 0x200) (bf_store s1)"
    "map_of (bf_store s1) y = None" "g_deadrefs s2 = g_deadrefs s1" "mem_top s2 \<le> mem_top s1 + 0x3000"
    by (rule sample_add [OF s1(1), of "0x200"]) (use t0 s1(4) in simp)
  obtain z s3 where s3: "buffer_inv s3 [] [] []" "bf_store s3 = AList.update z (small_buffer 0x300) (bf_store s2)"
    "map_of (bf_store s2) z = None" "g_deadrefs s3 = g_deadrefs s2" "mem_top s3 \<le> mem_top s2 + 0x3000"
    by (rule sample_add [OF s2(1), of "0x300"]) (use t0 s1(4) s2(5) in simp)
  have "distinct [x, y, z]" using s1(2) s2(2,3) s3(3) by (auto split: if_splits)
  moreover have "mem_top s3 < 2 ^ 62" using t0 s1(4) s2(5) s3(5) by simp
  ultimately show thesis using s1(2,3) s2(2,4) s3 by (intro that [of s3 x y z]) (auto simp: buffer_init_def)
qed

section \<open>Properties\<close>

text \<open>
  The retirees are a queue. Publishing a buffer that is on no list puts it behind all
  others with one reference and none of its addresses freed; while a buffer waits, a thread
  that asks for work gets the first one, with one more reference; and taking the first one
  out leaves the others in order. The pools, the other buffers and the invariant are kept.
\<close>

theorem retiree_queue_fifo:
  assumes "buffer_inv st rs ts as" and "map_of (bf_store st) ab = Some b"
    and "ab \<notin> set (rs @ ts @ as)" and "ab \<noteq> g_deadrefs st"
  shows "\<exists>st1 first c. forkscan_buffer_push_back ab st = Inr st1 \<and> buffer_inv st1 rs (ts @ [ab]) as \<and>
    map_of (bf_store st1) ab = Some (b\<lparr>ab_ref_count := 1, ab_free_idx := 0, ab_next := 0\<rparr>) \<and>
    (\<forall>a. a \<noteq> ab \<longrightarrow> payload st1 a = payload st a) \<and>
    first = hd (ts @ [ab]) \<and> map_of (bf_store st1) first = Some c \<and>
    (0 \<le> ab_ref_count c \<and> ab_ref_count c < 2 ^ 30 \<longrightarrow>
       (\<exists>st2 st3. forkscan_buffer_get_retiree_buffer st1 = Inr (first, st2) \<and>
          map_of (bf_store st2) first = Some (c\<lparr>ab_ref_count := ab_ref_count c + 1\<rparr>) \<and>
          forkscan_buffer_pop_retiree_buffer first st2 = Inr st3 \<and> buffer_inv st3 rs (tl (ts @ [ab])) as \<and>
          bf_store st3 = bf_store st2))"
proof -
  obtain st1 where push: "forkscan_buffer_push_back ab st = Inr st1" "buffer_inv st1 rs (ts @ [ab]) as"
    "map_of (bf_store st1) ab = Some (b\<lparr>ab_ref_count := 1, ab_free_idx := 0, ab_next := 0\<rparr>)"
    "\<forall>a. a \<noteq> ab \<longrightarrow> payload st1 a = payload st a"
    using push_back_ok [OF assms] by blast
  obtain first us where us: "ts @ [ab] = first # us" by (cases ts) auto
  note inv1 = push(2) [unfolded us]
  obtain c where c: "map_of (bf_store st1) first = Some c"
    using listed_live [of st1 rs "first # us" as first] inv1 by (auto simp: buffer_inv_def)
  have "\<exists>st2 st3. forkscan_buffer_get_retiree_buffer st1 = Inr (first, st2) \<and>
      map_of (bf_store st2) first = Some (c\<lparr>ab_ref_count := ab_ref_count c + 1\<rparr>) \<and>
      forkscan_buffer_pop_retiree_buffer first st2 = Inr st3 \<and> buffer_inv st3 rs us as \<and> bf_store st3 = bf_store st2"
    if "0 \<le> ab_ref_count c" "ab_ref_count c < 2 ^ 30"
    using get_retiree_ok [OF inv1 c that] pop_front_ok by fastforce
  with push c us show ?thesis by auto
qed

theorem retiree_queue_fifo_witness:
  "\<exists>st ab st1 st2 st3. forkscan_buffer_push_back ab st = Inr st1 \<and>
     forkscan_buffer_get_retiree_buffer st1 = Inr (ab, st2) \<and>
     forkscan_buffer_pop_retiree_buffer ab st2 = Inr st3 \<and> buffer_inv st3 [] [] []"
proof -
  obtain st x where st: "buffer_inv st [] [] []" "map_of (bf_store st) x = Some (small_buffer 0x100)" "g_deadrefs st = 0"
    using sample_buffers by metis
  then have "x \<noteq> 0" by (auto simp: buffer_inv_def objects_inv_def)
  with retiree_queue_fifo [OF st(1,2)] st(3) show ?thesis by fastforce
qed

text \<open>
  The queue answers the open question at \<^verbatim>\<open>forkscan_buffer_push_back\<close>: when the last of
  several retirees is taken out, the pointer to the last retiree goes on pointing to it, and
  the next buffer that is published gets lost: it is not in the chain that starts at the first
  retiree.
\<close>

theorem pop_last_loses_pushed:
  assumes inv: "buffer_inv st rs (ts @ [x]) as" and ne: "ts \<noteq> []"
    and y: "map_of (bf_store st) y = Some b" "y \<notin> set (rs @ (ts @ [x]) @ as)"
  shows "\<exists>st1 st2. forkscan_buffer_pop_retiree_buffer x st = Inr st1 \<and> forkscan_buffer_push_back y st1 = Inr st2 \<and>
    path ab_next (bf_store st2) (g_first_retiree_buffer st2) ts 0 \<and> y \<notin> set ts \<and> g_last_retiree_buffer st2 = y"
proof -
  obtain us v where us: "ts = us @ [v]" using ne by (metis append_butlast_last_id)
  let ?s = "bf_store st"
  have p: "path ab_next ?s (g_first_retiree_buffer st) (ts @ x # []) 0" and last: "g_last_retiree_buffer st = x"
    using inv by (simp_all add: buffer_inv_def lists_inv_def)
  have dist: "distinct (ts @ [x])" using path_distinct [OF p] by simp
  obtain c w where c: "map_of ?s x = Some c" "ab_next c = 0" "map_of ?s v = Some w" "x \<noteq> 0" "v \<noteq> 0"
    using p us by (auto simp: path_append split: option.splits)
  have first: "g_first_retiree_buffer st \<noteq> 0" using path_head [of ab_next ?s _ "ts @ [x]"] p by simp
  have "length ts < Suc (length ?s)" using lists_length(1) [of st rs "ts @ [x]" as] inv by (simp add: buffer_inv_def)
  then have "seek_retiree (Suc (length ?s)) ?s x (g_first_retiree_buffer st) 0 = Inr (x, v)"
    using seek_retiree_found [OF p, of "Suc (length ?s)" 0] dist us by (auto simp del: seek_retiree.simps)
  then have pop: "forkscan_buffer_pop_retiree_buffer x st =
      Inr (st\<lparr>bf_store := AList.update v (w\<lparr>ab_next := 0\<rparr>) ?s\<rparr>)"
    using c first by (simp add: forkscan_buffer_pop_retiree_buffer_def buf_modify_def del: seek_retiree.simps)
  have "path ab_next (AList.update v (w\<lparr>ab_next := 0\<rparr>) ?s) (g_first_retiree_buffer st) ts 0"
    using p us dist c by (auto simp: path_append split: option.splits)
  moreover have "y \<noteq> 0" "x \<noteq> y" "v \<noteq> y" "y \<notin> set ts" "x \<notin> set ts"
    using y us dist inv by (auto simp: buffer_inv_def objects_inv_def)
  ultimately show ?thesis using pop y(1) c last dist us
    by (simp add: forkscan_buffer_push_back_def buf_modify_def)
qed

theorem pop_last_loses_pushed_witness:
  "\<exists>st x y ts st1 st2. forkscan_buffer_pop_retiree_buffer x st = Inr st1 \<and> forkscan_buffer_push_back y st1 = Inr st2 \<and>
    path ab_next (bf_store st2) (g_first_retiree_buffer st2) ts 0 \<and> y \<notin> set ts"
proof -
  obtain st x y z where st: "buffer_inv st [] [] []" "distinct [x, y, z]" "g_deadrefs st = 0"
    "map_of (bf_store st) x = Some (small_buffer 0x100)" "map_of (bf_store st) y = Some (small_buffer 0x200)"
    "map_of (bf_store st) z = Some (small_buffer 0x300)"
    using sample_buffers by metis
  then have nz: "x \<noteq> 0" "y \<noteq> 0" by (auto simp: buffer_inv_def objects_inv_def)
  obtain st1 where st1: "buffer_inv st1 [] [x] []" "\<forall>a. a \<noteq> x \<longrightarrow> payload st1 a = payload st a" "g_deadrefs st1 = 0"
    using push_back_ok [OF st(1,4)] st(3) nz by auto
  obtain b where b: "map_of (bf_store st1) y = Some b" using st1(2) st(2,5) by (force simp: payload_def)
  obtain st2 where st2: "buffer_inv st2 [] ([x] @ [y]) []" "\<forall>a. a \<noteq> y \<longrightarrow> payload st2 a = payload st1 a"
    using push_back_ok [OF st1(1) b] st1(3) st(2) nz by auto
  obtain c where c: "map_of (bf_store st2) z = Some c" using st2(2) st1(2) st(2,6) by (force simp: payload_def)
  have "z \<notin> set ([] @ ([x] @ [y]) @ [])" using st(2) by auto
  from pop_last_loses_pushed [OF st2(1) _ c this] show ?thesis by blast
qed

text \<open>
  C30: making an aggregate buffer stops only because the operating system refuses memory;
  otherwise the buffer is empty, on no list, aggregate, has room for the capacity asked for
  and for the minimap of a full buffer, and every buffer that was in use is as it was.
\<close>

theorem make_aggregate_room:
  assumes "mmap_fresh os" and "munmap_works os" and "buffer_inv st rs ts as" and "0 \<le> req" and "req \<le> 2 ^ 30"
  shows "or_fatal (forkscan_make_aggregate_buffer os req st) (\<lambda>(ab, st').
    \<exists>as' b. buffer_inv st' rs ts as' \<and> ab \<notin> set (rs @ ts @ as') \<and> map_of (bf_store st') ab = Some b \<and>
      ab_is_aggregate b \<and> ab_n_addrs b = 0 \<and> req \<le> ab_capacity b \<and> nat (ab_capacity b) \<le> length (ab_addrs b) \<and>
      minimap_entries (nat (ab_capacity b)) \<le> length (ab_minimap b) \<and>
      (\<forall>a. a \<noteq> ab \<and> a \<notin> set as \<longrightarrow> map_of (bf_store st') a = map_of (bf_store st) a))"
proof -
  obtain as' where m: "or_fatal (forkscan_make_aggregate_buffer os req st)
      (\<lambda>r. made st as r rs ts as' (\<lambda>b. ab_is_aggregate b \<and> req \<le> ab_capacity b))"
    using make_aggregate_ok [OF assms] by blast
  have "buffer_wf b" if "buffer_inv st' rs ts as'" "map_of (bf_store st') ab = Some b" for st' ab b
    by (rule object_wf [OF that])
  with m show ?thesis unfolding or_fatal_def made_def by (fastforce simp: buffer_wf_def)
qed

theorem make_aggregate_room_witness:
  "\<exists>ab st' b. forkscan_make_aggregate_buffer sample_os 1000 buffer_init = Inr (ab, st') \<and>
     map_of (bf_store st') ab = Some b \<and> 1000 \<le> ab_capacity b"
proof -
  have "maps_top (al_mapped alloc_init) < 2 ^ 62" by (simp add: alloc_init_def maps_top_def)
  from alloc_mmap_ok [OF sample_os_ok(1) alloc_init_inv, of "0x4000" "''aggregate''" True]
    sample_not_refused [OF this, of "0x4000"]
  obtain p al where run: "alloc_mmap sample_os 0x4000 ''aggregate'' True alloc_init = Inr (p, al)" by auto
  have "round_capacity 1000 = 1024" "pages_of_addrs 1024 = 2" "pages_of_minimap 1024 = 1" by code_simp+
  then have "\<exists>r. forkscan_make_aggregate_buffer sample_os 1000 buffer_init = Inr r"
    using run by (simp add: forkscan_make_aggregate_buffer_def new_aggregate_def buffer_init_def
        forkscan_alloc_mmap_shared_def PAGESIZE_def)
  with make_aggregate_room [OF sample_os_ok buffer_init_inv, of 1000] show ?thesis by (fastforce simp: or_fatal_def)
qed

text \<open>
  C31: the dead references a collection starts from are the addresses of the waiting buffers,
  in order, that carry no mark and have not been freed, cut off at the capacity of the buffer
  they are collected in; nothing else changes.
\<close>

theorem dead_references_exact:
  assumes "mmap_fresh os" and "buffer_inv st rs ts as" and "0 < g_default_capacity st"
    and "\<forall>b. map_of (bf_store st) (g_deadrefs st) = Some b \<longrightarrow> 0 < ab_capacity b"
  shows "or_fatal (forkscan_buffer_get_dead_references os st) (\<lambda>(ret, st').
     buffer_inv st' rs ts as \<and> ret = g_deadrefs st' \<and> ret \<noteq> 0 \<and> g_default_capacity st' = g_default_capacity st \<and>
     (ret = g_deadrefs st \<or> map_of (bf_store st) ret = None) \<and>
     (\<exists>r. map_of (bf_store st') ret = Some r \<and> 0 < ab_capacity r \<and>
        addrs_of r = take (nat (ab_capacity r)) (dead_in (bf_store st) ts)) \<and>
     (\<forall>a. a \<noteq> ret \<longrightarrow> map_of (bf_store st') a = map_of (bf_store st) a))"
  using get_dead_references_ok [OF assms] by (auto simp: or_fatal_def dead_found_def)

theorem dead_references_exact_witness:
  "\<exists>st ret st' r. g_first_retiree_buffer st \<noteq> 0 \<and>
     forkscan_buffer_get_dead_references sample_os st = Inr (ret, st') \<and>
     map_of (bf_store st') ret = Some r \<and> addrs_of r = take (nat (ab_capacity r)) [0x100]"
proof -
  obtain st0 x z where st0: "buffer_inv st0 [] [] []" "x \<noteq> z" "g_deadrefs st0 = 0"
    "map_of (bf_store st0) x = Some (small_buffer 0x100)" "map_of (bf_store st0) z = Some (small_buffer 0x300)"
    using sample_buffers by (metis distinct_length_2_or_more)
  have nz: "x \<noteq> 0" "z \<noteq> 0" using st0 by (auto simp: buffer_inv_def objects_inv_def)
  obtain st1 where st1: "buffer_inv st1 [] [x] []" "payload st1 z = payload st0 z"
    "map_of (bf_store st1) x = Some ((small_buffer 0x100)\<lparr>ab_ref_count := 1, ab_free_idx := 0, ab_next := 0\<rparr>)"
    using push_back_ok [OF st0(1,4)] st0(2,3) nz by auto
  define st where "st = st1\<lparr>g_deadrefs := z, g_default_capacity := 1\<rparr>"
  obtain b where b: "map_of (bf_store st) z = Some b" "ab_capacity b = 1"
    using st1(2) st0(5) by (auto simp: payload_def st_def small_buffer_def dest: arg_cong [of _ _ ab_capacity])
  have inv: "buffer_inv st [] [x] []"
    using st1(1) st0(2) b nz by (auto simp: st_def buffer_inv_def lists_inv_def objects_inv_def)
  have "dead_in (bf_store st) [x] = [0x100]"
    using st1(3) by (simp add: st_def dead_in_def dead_of_def addrs_of_def n_of_def small_buffer_def)
  moreover have "g_first_retiree_buffer st \<noteq> 0" using inv by (auto simp: buffer_inv_def lists_inv_def)
  moreover have d: "g_deadrefs st = z" "g_default_capacity st = 1" by (simp_all add: st_def)
  moreover obtain r where r: "forkscan_buffer_get_dead_references sample_os st = Inr r"
    using fill_deadrefs [OF inv, of b] b nz d by (auto simp: forkscan_buffer_get_dead_references_def)
  moreover have old: "\<forall>b. map_of (bf_store st) (g_deadrefs st) = Some b \<longrightarrow> 0 < ab_capacity b" using b d by simp
  ultimately show ?thesis using dead_references_exact [OF sample_os_ok(1) inv _ old]
    by (cases r) (fastforce simp: or_fatal_def)
qed

end
