(* ===== verification/Thread_Data.thy ===== *)
theory Thread_Data
  imports Queue Buffer
begin

text \<open>The per-thread data of \<^verbatim>\<open>src/util.h\<close>; pointers and thread handles are addresses.\<close>

record thread_data_t =
  td_user_routine :: size_t
  td_user_arg :: size_t
  td_next :: size_t
  td_self :: size_t
  td_user_stack_low :: size_t
  td_user_stack_high :: size_t
  td_stack_is_ours :: bool
  td_is_active :: bool
  td_ptr_list :: queue_t
  td_wait_time_ms :: size_t
  td_retiree_buffer :: size_t
  td_begin_retiree_idx :: int
  td_end_retiree_idx :: int
  td_local_timestamp :: size_t
  td_times_without_update :: int
  td_local_block :: mem_range_t
  td_ref_count :: int

end
