(* ===== verification/Free_Ptrs.thy ===== *)
theory Free_Ptrs
  imports Thread_Data
begin

text \<open>
  Freeing what a collection found unreferenced, \<^verbatim>\<open>forkscan_util_free_ptrs\<close> of \<^verbatim>\<open>src/util.c\<close>.
  Every thread that retires a pointer also frees a few: it takes a reference to the first
  retiree buffer, claims a range of its addresses with a compare-and-swap on \<^verbatim>\<open>free_idx\<close>, and
  frees the unmarked ones. The theory defines the actions of one iteration, the iteration and
  the loop, and an interleaving semantics in which any number of threads and the collector
  run these actions. A freed block is a value of the trace; clearing its bytes beforehand has
  no effect on the state of the model.
\<close>

section \<open>The loop of util.c\<close>

definition FREE_RANGE_SZ :: int where
  "FREE_RANGE_SZ = 1024"

definition acquire_retiree :: "thread_data_t \<Rightarrow> buffer_state \<Rightarrow> (thread_data_t \<times> buffer_state) res" where
  "acquire_retiree td st =
     (if td_retiree_buffer td = 0
      then bind_res (forkscan_buffer_get_retiree_buffer st) (\<lambda>(ab, st).
           Inr (td\<lparr>td_retiree_buffer := ab, td_begin_retiree_idx := 0, td_end_retiree_idx := 0\<rparr>, st))
      else Inr (td, st))"

text \<open>\<^verbatim>\<open>ab->free_idx >= ab->n_addrs\<close>\<close>

definition retiree_done :: "size_t \<Rightarrow> buffer_state \<Rightarrow> bool res" where
  "retiree_done ab st = bind_res (ld (bf_store st) ab) (\<lambda>b. Inr (ab_free_idx b \<ge> ab_n_addrs b))"

text \<open>The bounds of the next range, from a fresh read of \<^verbatim>\<open>free_idx\<close>.\<close>

definition next_range :: "size_t \<Rightarrow> buffer_state \<Rightarrow> (int \<times> int) res" where
  "next_range ab st =
     bind_res (ld (bf_store st) ab) (\<lambda>b.
     bind_res (cint (ab_free_idx b + FREE_RANGE_SZ)) (\<lambda>e.
     Inr (ab_free_idx b, MIN_OF (ab_n_addrs b) e)))"

text \<open>\<^verbatim>\<open>BCAS(&ab->free_idx, begin_idx, end_idx)\<close>\<close>

definition claim_range :: "size_t \<Rightarrow> int \<Rightarrow> int \<Rightarrow> buffer_state \<Rightarrow> (bool \<times> buffer_state) res" where
  "claim_range ab begin_idx end_idx st =
     bind_res (ld (bf_store st) ab) (\<lambda>b.
     if ab_free_idx b = begin_idx
     then bind_res (buf_modify ab (\<lambda>b. b\<lparr>ab_free_idx := end_idx\<rparr>) st) (\<lambda>st. Inr (True, st))
     else Inr (False, st))"

text \<open>The last part of an iteration: look at one address, free it when it is not marked.\<close>

definition free_one :: "thread_data_t \<Rightarrow> buffer_state \<Rightarrow> (thread_data_t \<times> buffer_state \<times> size_t list) res" where
  "free_one td st =
     (let ab = td_retiree_buffer td; i = td_begin_retiree_idx td in
      bind_res (ld (bf_store st) ab) (\<lambda>b.
      bind_res (rd (ab_addrs b) i) (\<lambda>s.
      bind_res (cint (i + 1)) (\<lambda>i'.
      let td = td\<lparr>td_begin_retiree_idx := i'\<rparr> in
      if s AND 1 \<noteq> 0 then Inr (td, st, [])
      else
        bind_res (wr (ab_addrs b) (i' - 1) 2) (\<lambda>xs.
        bind_res (buf_modify ab (\<lambda>b. b\<lparr>ab_addrs := xs\<rparr>) st) (\<lambda>st.
        Inr (td, st, [s])))))))"

text \<open>One iteration; the last component tells that the function returns.\<close>

definition free_ptrs_iter ::
    "thread_data_t \<Rightarrow> buffer_state \<Rightarrow> (thread_data_t \<times> buffer_state \<times> size_t list \<times> bool) res" where
  "free_ptrs_iter td st =
     bind_res (acquire_retiree td st) (\<lambda>(td, st).
     let ab = td_retiree_buffer td in
     if ab = 0 then Inr (td, st, [], True)
     else if td_begin_retiree_idx td = td_end_retiree_idx td
     then
       bind_res (retiree_done ab st) (\<lambda>don.
       if don
       then
         bind_res (forkscan_buffer_pop_retiree_buffer ab st) (\<lambda>st.
         bind_res (forkscan_buffer_unref_buffer ab st) (\<lambda>st.
         Inr (td\<lparr>td_retiree_buffer := 0\<rparr>, st, [], False)))
       else
         bind_res (next_range ab st) (\<lambda>(b, e).
         bind_res (claim_range ab b e st) (\<lambda>(won, st).
         if won
         then bind_res (free_one (td\<lparr>td_begin_retiree_idx := b, td_end_retiree_idx := e\<rparr>) st) (\<lambda>(td, st, xs).
              Inr (td, st, xs, False))
         else Inr (td, st, [], False))))
     else bind_res (free_one td st) (\<lambda>(td, st, xs). Inr (td, st, xs, False)))"

fun forkscan_util_free_ptrs ::
    "nat \<Rightarrow> thread_data_t \<Rightarrow> buffer_state \<Rightarrow> (thread_data_t \<times> buffer_state \<times> size_t list) res" where
  "forkscan_util_free_ptrs 0 td st = Inr (td, st, [])"
| "forkscan_util_free_ptrs (Suc n) td st =
     bind_res (free_ptrs_iter td st) (\<lambda>(td, st, xs, ret).
     if ret then Inr (td, st, xs)
     else bind_res (forkscan_util_free_ptrs n td st) (\<lambda>(td, st, ys). Inr (td, st, xs @ ys)))"

section \<open>Interleavings\<close>

text \<open>
  Where a thread is in an iteration: at its top, after the test whether the buffer is done and
  before \<^verbatim>\<open>free_idx\<close> is read again, before the compare-and-swap, before it looks at an
  address, and between leaving the queue and dropping its reference.
\<close>

datatype fp_pc = Top | Fetch | Swap int int | Take | Drop

text \<open>
  The threads share the buffers. \<open>fp_own\<close> are the buffers someone is filling or scanning and
  nobody else knows of, \<open>fp_gc\<close> is the buffer the collector has published and still refers to.
  The other components record history: how many buffers were published, the publication each
  buffer carries, the addresses of each publication, and the frees with the publication and
  the index they came from.
\<close>

record fp_state =
  fp_sh :: buffer_state
  fp_td :: "nat \<Rightarrow> thread_data_t"
  fp_pc :: "nat \<Rightarrow> fp_pc"
  fp_own :: "size_t list"
  fp_gc :: size_t
  fp_gen :: nat
  fp_cur :: "size_t \<Rightarrow> nat"
  fp_pub :: "nat \<Rightarrow> size_t list"
  fp_log :: "(nat \<times> int \<times> size_t) list"

text \<open>
  The steps. Two flags leave out what the code does not handle. \<open>fetch\<close> reads \<^verbatim>\<open>free_idx\<close> a second
  time; with \<open>g\<close> set, only those interleavings are considered in which it still is below the number of
  addresses. With \<open>e\<close> set, no collection publishes a buffer without addresses; nothing in the release build
  prevents that when a collection is forced with nothing retired (the check in \<^verbatim>\<open>aggregate_addrs\<close> is an
  assertion), and the theory \<open>Collection\<close> shows what happens then.
\<close>

inductive fp_step :: "os_t \<Rightarrow> bool \<Rightarrow> bool \<Rightarrow> fp_state \<Rightarrow> fp_state \<Rightarrow> bool" for os g e where
  acquire: "fp_pc s t = Top \<Longrightarrow> td_retiree_buffer (fp_td s t) = 0 \<Longrightarrow>
    acquire_retiree (fp_td s t) (fp_sh s) = Inr (td, sh) \<Longrightarrow>
    fp_step os g e s (s\<lparr>fp_sh := sh, fp_td := (fp_td s)(t := td)\<rparr>)"
| check: "fp_pc s t = Top \<Longrightarrow> ab = td_retiree_buffer (fp_td s t) \<Longrightarrow> ab \<noteq> 0 \<Longrightarrow>
    td_begin_retiree_idx (fp_td s t) = td_end_retiree_idx (fp_td s t) \<Longrightarrow>
    retiree_done ab (fp_sh s) = Inr False \<Longrightarrow>
    fp_step os g e s (s\<lparr>fp_pc := (fp_pc s)(t := Fetch)\<rparr>)"
| pop: "fp_pc s t = Top \<Longrightarrow> ab = td_retiree_buffer (fp_td s t) \<Longrightarrow> ab \<noteq> 0 \<Longrightarrow>
    td_begin_retiree_idx (fp_td s t) = td_end_retiree_idx (fp_td s t) \<Longrightarrow>
    retiree_done ab (fp_sh s) = Inr True \<Longrightarrow>
    forkscan_buffer_pop_retiree_buffer ab (fp_sh s) = Inr sh \<Longrightarrow>
    fp_step os g e s (s\<lparr>fp_sh := sh, fp_pc := (fp_pc s)(t := Drop)\<rparr>)"
| drop: "fp_pc s t = Drop \<Longrightarrow> ab = td_retiree_buffer (fp_td s t) \<Longrightarrow>
    forkscan_buffer_unref_buffer ab (fp_sh s) = Inr sh \<Longrightarrow>
    fp_step os g e s (s\<lparr>fp_sh := sh, fp_td := (fp_td s)(t := (fp_td s t)\<lparr>td_retiree_buffer := 0\<rparr>),
      fp_pc := (fp_pc s)(t := Top)\<rparr>)"
| fetch: "fp_pc s t = Fetch \<Longrightarrow> ab = td_retiree_buffer (fp_td s t) \<Longrightarrow>
    next_range ab (fp_sh s) = Inr (b, hi) \<Longrightarrow> (g \<Longrightarrow> retiree_done ab (fp_sh s) = Inr False) \<Longrightarrow>
    fp_step os g e s (s\<lparr>fp_pc := (fp_pc s)(t := Swap b hi)\<rparr>)"
| swap: "fp_pc s t = Swap b hi \<Longrightarrow> ab = td_retiree_buffer (fp_td s t) \<Longrightarrow>
    claim_range ab b hi (fp_sh s) = Inr (True, sh) \<Longrightarrow>
    fp_step os g e s (s\<lparr>fp_sh := sh, fp_pc := (fp_pc s)(t := Take),
      fp_td := (fp_td s)(t := (fp_td s t)\<lparr>td_begin_retiree_idx := b, td_end_retiree_idx := hi\<rparr>)\<rparr>)"
| lose: "fp_pc s t = Swap b hi \<Longrightarrow> ab = td_retiree_buffer (fp_td s t) \<Longrightarrow>
    claim_range ab b hi (fp_sh s) = Inr (False, sh) \<Longrightarrow>
    fp_step os g e s (s\<lparr>fp_sh := sh, fp_pc := (fp_pc s)(t := Top)\<rparr>)"
| take: "fp_pc s t = Take \<or> fp_pc s t = Top \<and> ab \<noteq> 0 \<and>
      td_begin_retiree_idx (fp_td s t) \<noteq> td_end_retiree_idx (fp_td s t) \<Longrightarrow>
    ab = td_retiree_buffer (fp_td s t) \<Longrightarrow> free_one (fp_td s t) (fp_sh s) = Inr (td, sh, xs) \<Longrightarrow>
    fp_step os g e s (s\<lparr>fp_sh := sh, fp_td := (fp_td s)(t := td), fp_pc := (fp_pc s)(t := Top),
      fp_log := map (\<lambda>x. (fp_cur s ab, td_begin_retiree_idx (fp_td s t), x)) xs @ fp_log s\<rparr>)"
| make_reclaimer: "0 < ptrs \<Longrightarrow> ptrs * MAX_THREAD_COUNT \<le> 2 ^ 30 \<Longrightarrow>
    forkscan_make_reclaimer_buffer os ptrs (fp_sh s) = Inr (ab, sh) \<Longrightarrow>
    fp_step os g e s (s\<lparr>fp_sh := sh, fp_own := ab # fp_own s\<rparr>)"
| make_aggregate: "0 \<le> cap \<Longrightarrow> cap \<le> 2 ^ 30 \<Longrightarrow>
    forkscan_make_aggregate_buffer os cap (fp_sh s) = Inr (ab, sh) \<Longrightarrow>
    fp_step os g e s (s\<lparr>fp_sh := sh, fp_own := ab # fp_own s\<rparr>)"
| release: "ab \<in> set (fp_own s) \<Longrightarrow> forkscan_release_buffer ab (fp_sh s) = Inr sh \<Longrightarrow>
    fp_step os g e s (s\<lparr>fp_sh := sh, fp_own := remove1 ab (fp_own s)\<rparr>)"
| publish: "ab \<in> set (fp_own s) \<Longrightarrow> fp_gc s = 0 \<Longrightarrow> map_of (bf_store (fp_sh s)) ab = Some b \<Longrightarrow>
    (e \<Longrightarrow> xs \<noteq> []) \<Longrightarrow> int (length xs) \<le> ab_capacity b \<Longrightarrow>
    buf_modify ab (\<lambda>b. b\<lparr>ab_addrs := xs @ drop (length xs) (ab_addrs b), ab_n_addrs := int (length xs)\<rparr>)
      (fp_sh s) = Inr sh1 \<Longrightarrow>
    forkscan_buffer_push_back ab sh1 = Inr sh2 \<Longrightarrow>
    fp_step os g e s (s\<lparr>fp_sh := sh2, fp_own := remove1 ab (fp_own s), fp_gc := ab,
      fp_gen := Suc (fp_gen s), fp_cur := (fp_cur s)(ab := fp_gen s), fp_pub := (fp_pub s)(fp_gen s := xs)\<rparr>)"
| gc_unref: "fp_gc s \<noteq> 0 \<Longrightarrow> forkscan_buffer_unref_buffer (fp_gc s) (fp_sh s) = Inr sh \<Longrightarrow>
    fp_step os g e s (s\<lparr>fp_sh := sh, fp_gc := 0\<rparr>)"

text \<open>The steps of one thread: what belongs to the other threads and to the collector stays as it is.\<close>

definition thread_step :: "os_t \<Rightarrow> bool \<Rightarrow> bool \<Rightarrow> nat \<Rightarrow> fp_state \<Rightarrow> fp_state \<Rightarrow> bool" where
  "thread_step os g e t s s' \<longleftrightarrow> fp_step os g e s s' \<and>
     (\<forall>u. u \<noteq> t \<longrightarrow> fp_td s' u = fp_td s u \<and> fp_pc s' u = fp_pc s u) \<and>
     fp_own s' = fp_own s \<and> fp_gc s' = fp_gc s \<and> fp_gen s' = fp_gen s \<and> fp_cur s' = fp_cur s \<and> fp_pub s' = fp_pub s"

section \<open>The invariant of the protocol\<close>

definition holders :: "fp_state \<Rightarrow> size_t \<Rightarrow> nat set" where
  "holders s ab = {t. td_retiree_buffer (fp_td s t) = ab}"

definition range_of :: "fp_state \<Rightarrow> nat \<Rightarrow> int set" where
  "range_of s t = {td_begin_retiree_idx (fp_td s t) ..< td_end_retiree_idx (fp_td s t)}"

definition in_use :: "fp_state \<Rightarrow> size_t list \<Rightarrow> size_t \<Rightarrow> bool" where
  "in_use s ts ab \<longleftrightarrow> ab \<noteq> 0 \<and> (ab \<in> set ts \<or> holders s ab \<noteq> {} \<or> fp_gc s = ab)"

definition untouched :: "fp_state \<Rightarrow> size_t \<Rightarrow> addr_buffer_t \<Rightarrow> int set" where
  "untouched s ab b = {ab_free_idx b ..< ab_n_addrs b} \<union> (\<Union>t\<in>holders s ab. range_of s t)"

text \<open>
  A buffer in use: its reference count, its claimed ranges, its untouched entries, its frees;
  a done buffer that is still queued has a thread that will take it out.
\<close>

definition counts_ok :: "fp_state \<Rightarrow> size_t \<Rightarrow> addr_buffer_t \<Rightarrow> bool" where
  "counts_ok s ab b \<longleftrightarrow> finite (holders s ab) \<and>
     ab_ref_count b = int (card (holders s ab)) + (if fp_gc s = ab then 1 else 0)"

definition ranges_ok :: "fp_state \<Rightarrow> size_t \<Rightarrow> addr_buffer_t \<Rightarrow> bool" where
  "ranges_ok s ab b \<longleftrightarrow> 0 \<le> ab_free_idx b \<and> ab_free_idx b \<le> ab_n_addrs b \<and>
     (\<forall>t\<in>holders s ab. 0 \<le> td_begin_retiree_idx (fp_td s t) \<and>
        td_begin_retiree_idx (fp_td s t) \<le> td_end_retiree_idx (fp_td s t) \<and>
        td_end_retiree_idx (fp_td s t) \<le> ab_free_idx b) \<and>
     (\<forall>t\<in>holders s ab. \<forall>u\<in>holders s ab. t \<noteq> u \<longrightarrow> range_of s t \<inter> range_of s u = {})"

definition queued_ok :: "fp_state \<Rightarrow> size_t list \<Rightarrow> size_t \<Rightarrow> addr_buffer_t \<Rightarrow> bool" where
  "queued_ok s ts ab b \<longleftrightarrow> (ab \<in> set ts \<longrightarrow> 0 < ab_n_addrs b \<and>
     (ab_n_addrs b \<le> ab_free_idx b \<longrightarrow> (\<exists>t\<in>holders s ab. fp_pc s t \<noteq> Drop)))"

definition history_ok :: "fp_state \<Rightarrow> size_t \<Rightarrow> addr_buffer_t \<Rightarrow> bool" where
  "history_ok s ab b \<longleftrightarrow> fp_cur s ab < fp_gen s \<and> int (length (fp_pub s (fp_cur s ab))) = ab_n_addrs b \<and>
     (\<forall>i\<in>untouched s ab b. ab_addrs b ! nat i = fp_pub s (fp_cur s ab) ! nat i) \<and>
     (\<forall>i x. (fp_cur s ab, i, x) \<in> set (fp_log s) \<longrightarrow> i < ab_free_idx b \<and> i \<notin> untouched s ab b)"

definition buf_ok :: "fp_state \<Rightarrow> size_t list \<Rightarrow> size_t \<Rightarrow> addr_buffer_t \<Rightarrow> bool" where
  "buf_ok s ts ab b \<longleftrightarrow> counts_ok s ab b \<and> ranges_ok s ab b \<and> queued_ok s ts ab b \<and> history_ok s ab b"

definition pc_ok :: "fp_state \<Rightarrow> size_t list \<Rightarrow> nat \<Rightarrow> bool" where
  "pc_ok s ts t \<longleftrightarrow>
     (let td = fp_td s t; ab = td_retiree_buffer td; b = the (map_of (bf_store (fp_sh s)) ab) in
      case fp_pc s t of
        Top \<Rightarrow> True
      | Fetch \<Rightarrow> ab \<noteq> 0 \<and> td_begin_retiree_idx td = td_end_retiree_idx td
      | Swap lo hi \<Rightarrow> ab \<noteq> 0 \<and> td_begin_retiree_idx td = td_end_retiree_idx td \<and> 0 \<le> lo \<and> lo < hi \<and> hi \<le> ab_n_addrs b
      | Take \<Rightarrow> ab \<noteq> 0 \<and> td_begin_retiree_idx td < td_end_retiree_idx td
      | Drop \<Rightarrow> ab \<noteq> 0 \<and> ab \<notin> set ts \<and> td_begin_retiree_idx td = td_end_retiree_idx td)"

text \<open>No entry of a publication is freed twice, and none that a scan has marked.\<close>

definition log_ok :: "fp_state \<Rightarrow> bool" where
  "log_ok s \<longleftrightarrow> distinct (map (\<lambda>(g, i, x). (g, i)) (fp_log s)) \<and>
     (\<forall>(g, i, x)\<in>set (fp_log s). g < fp_gen s \<and> 0 \<le> i \<and> i < int (length (fp_pub s g)) \<and>
        x = fp_pub s g ! nat i \<and> x AND 1 = 0)"

definition own_ok :: "fp_state \<Rightarrow> size_t list \<Rightarrow> size_t list \<Rightarrow> size_t list \<Rightarrow> bool" where
  "own_ok s rs ts as \<longleftrightarrow> distinct (fp_own s) \<and>
     (\<forall>a\<in>set (fp_own s). map_of (bf_store (fp_sh s)) a \<noteq> None \<and> a \<notin> set (rs @ ts @ as) \<and>
        a \<noteq> g_deadrefs (fp_sh s) \<and> \<not> in_use s ts a)"

definition use_ok :: "fp_state \<Rightarrow> size_t list \<Rightarrow> size_t list \<Rightarrow> size_t list \<Rightarrow> size_t \<Rightarrow> bool" where
  "use_ok s rs ts as ab \<longleftrightarrow> ab \<notin> set rs \<and> ab \<notin> set as \<and> ab \<noteq> g_deadrefs (fp_sh s) \<and>
     (\<exists>b. map_of (bf_store (fp_sh s)) ab = Some b \<and> buf_ok s ts ab b) \<and>
     (holders s ab \<noteq> {} \<longrightarrow> ab \<in> set ts \<longrightarrow> hd ts = ab)"

definition fp_inv :: "fp_state \<Rightarrow> size_t list \<Rightarrow> size_t list \<Rightarrow> size_t list \<Rightarrow> bool" where
  "fp_inv s rs ts as \<longleftrightarrow> buffer_inv (fp_sh s) rs ts as \<and> own_ok s rs ts as \<and>
     (\<forall>ab. in_use s ts ab \<longrightarrow> use_ok s rs ts as ab) \<and> inj_on (fp_cur s) {ab. in_use s ts ab} \<and>
     (\<forall>t. pc_ok s ts t) \<and> log_ok s"

text \<open>What the invariant says of a buffer depends only on what the buffer carries and on its holders.\<close>

lemma payload_fields:
  assumes "payload st' a = payload st a" "map_of (bf_store st) a = Some b"
  obtains n where "map_of (bf_store st') a = Some (b\<lparr>ab_next := n\<rparr>)"
proof -
  obtain c where c: "map_of (bf_store st') a = Some c" "c\<lparr>ab_next := 0\<rparr> = b\<lparr>ab_next := 0\<rparr>"
    using assms by (auto simp: payload_def)
  have "c = (c\<lparr>ab_next := 0\<rparr>)\<lparr>ab_next := ab_next c\<rparr>" by simp
  also have "\<dots> = b\<lparr>ab_next := ab_next c\<rparr>" unfolding c(2) by simp
  finally show thesis using c(1) that by metis
qed

definition same_view :: "fp_state \<Rightarrow> fp_state \<Rightarrow> size_t \<Rightarrow> bool" where
  "same_view s s' ab \<longleftrightarrow> holders s' ab = holders s ab \<and>
     (\<forall>t\<in>holders s ab. fp_td s' t = fp_td s t \<and> fp_pc s' t = fp_pc s t) \<and>
     (fp_gc s' = ab) = (fp_gc s = ab) \<and> payload (fp_sh s') ab = payload (fp_sh s) ab \<and>
     fp_cur s' ab = fp_cur s ab \<and> fp_gen s \<le> fp_gen s' \<and>
     fp_pub s' (fp_cur s ab) = fp_pub s (fp_cur s ab) \<and>
     (\<forall>i x. (fp_cur s ab, i, x) \<in> set (fp_log s') \<longleftrightarrow> (fp_cur s ab, i, x) \<in> set (fp_log s))"

lemma same_view_range: "same_view s s' ab \<Longrightarrow> t \<in> holders s ab \<Longrightarrow> range_of s' t = range_of s t"
  by (simp add: same_view_def range_of_def)

lemma buf_ok_view:
  assumes v: "same_view s s' ab" and ok: "buf_ok s ts ab b" and ts: "ab \<in> set ts' \<longrightarrow> ab \<in> set ts"
  shows "buf_ok s' ts' ab (b\<lparr>ab_next := n\<rparr>)"
proof -
  have h: "holders s' ab = holders s ab" and td: "\<And>t. t \<in> holders s ab \<Longrightarrow> fp_td s' t = fp_td s t \<and> fp_pc s' t = fp_pc s t"
    and r: "\<And>t. t \<in> holders s ab \<Longrightarrow> range_of s' t = range_of s t"
    using v same_view_range by (auto simp: same_view_def)
  have u: "untouched s' ab (b\<lparr>ab_next := n\<rparr>) = untouched s ab b" using h r by (simp add: untouched_def)
  have "counts_ok s' ab (b\<lparr>ab_next := n\<rparr>)" using ok v by (simp add: buf_ok_def counts_ok_def same_view_def)
  moreover have "ranges_ok s' ab (b\<lparr>ab_next := n\<rparr>)" using ok h td r by (simp add: buf_ok_def ranges_ok_def)
  moreover have "queued_ok s' ts' ab (b\<lparr>ab_next := n\<rparr>)" using ok h td ts by (simp add: buf_ok_def queued_ok_def)
  moreover have "history_ok s' ab (b\<lparr>ab_next := n\<rparr>)"
    using ok u v by (auto simp: buf_ok_def history_ok_def same_view_def)
  ultimately show ?thesis by (simp add: buf_ok_def)
qed

lemma use_ok_view:
  assumes v: "same_view s s' ab" and ok: "use_ok s rs ts as ab"
    and ts: "ab \<in> set ts' \<longrightarrow> ab \<in> set ts" "ab \<in> set ts' \<longrightarrow> hd ts = ab \<longrightarrow> hd ts' = ab"
    and out: "ab \<notin> set rs'" "ab \<notin> set as'" "ab \<noteq> g_deadrefs (fp_sh s')"
  shows "use_ok s' rs' ts' as' ab"
proof -
  obtain b where b: "map_of (bf_store (fp_sh s)) ab = Some b" "buf_ok s ts ab b" using ok by (auto simp: use_ok_def)
  have "payload (fp_sh s') ab = payload (fp_sh s) ab" using v by (simp add: same_view_def)
  from payload_fields [OF this b(1)] obtain n where "map_of (bf_store (fp_sh s')) ab = Some (b\<lparr>ab_next := n\<rparr>)" .
  with buf_ok_view [OF v b(2) ts(1), of n] ok ts out v show ?thesis by (auto simp: use_ok_def same_view_def)
qed

text \<open>What the invariant says of a thread depends on its data and the size of its buffer.\<close>

lemma pc_ok_view:
  assumes "pc_ok s ts t" "fp_td s' t = fp_td s t" "fp_pc s' t = fp_pc s t"
    and "td_retiree_buffer (fp_td s t) \<noteq> 0 \<Longrightarrow>
      map_option ab_n_addrs (map_of (bf_store (fp_sh s')) (td_retiree_buffer (fp_td s t))) =
      map_option ab_n_addrs (map_of (bf_store (fp_sh s)) (td_retiree_buffer (fp_td s t))) \<and>
      map_of (bf_store (fp_sh s)) (td_retiree_buffer (fp_td s t)) \<noteq> None"
    and "td_retiree_buffer (fp_td s t) \<notin> set ts \<Longrightarrow> td_retiree_buffer (fp_td s t) \<noteq> 0 \<Longrightarrow>
      td_retiree_buffer (fp_td s t) \<notin> set ts'"
  shows "pc_ok s' ts' t"
  using assms by (auto simp: pc_ok_def Let_def split: fp_pc.splits)

lemma in_use_held: "td_retiree_buffer (fp_td s t) \<noteq> 0 \<Longrightarrow> in_use s ts (td_retiree_buffer (fp_td s t))"
  by (auto simp: in_use_def holders_def)

lemma use_okD:
  assumes "fp_inv s rs ts as" "in_use s ts ab"
  obtains b where "map_of (bf_store (fp_sh s)) ab = Some b" "buf_ok s ts ab b" "use_ok s rs ts as ab"
  using assms by (auto simp: fp_inv_def use_ok_def)

text \<open>
  A step that concerns one buffer: of the threads only some that hold this buffer or none
  change, the collector may let go of it, and all other buffers keep what they carry. For such
  a step it is enough to look at the one buffer, the threads that moved and the frees.
\<close>

definition concerns :: "size_t \<Rightarrow> fp_state \<Rightarrow> fp_state \<Rightarrow> bool" where
  "concerns ab s s' \<longleftrightarrow>
     fp_own s' = fp_own s \<and> fp_gen s' = fp_gen s \<and> fp_cur s' = fp_cur s \<and> fp_pub s' = fp_pub s \<and>
     (fp_gc s' = fp_gc s \<or> fp_gc s = ab \<and> fp_gc s' = 0) \<and>
     g_deadrefs (fp_sh s') = g_deadrefs (fp_sh s) \<and>
     (\<forall>a. a \<noteq> ab \<longrightarrow> payload (fp_sh s') a = payload (fp_sh s) a) \<and>
     (\<forall>g i x. ab = 0 \<or> g \<noteq> fp_cur s ab \<longrightarrow> ((g, i, x) \<in> set (fp_log s') \<longleftrightarrow> (g, i, x) \<in> set (fp_log s)))"

definition moved :: "size_t \<Rightarrow> fp_state \<Rightarrow> fp_state \<Rightarrow> nat \<Rightarrow> bool" where
  "moved ab s s' t \<longleftrightarrow> td_retiree_buffer (fp_td s t) \<in> {0, ab} \<and> td_retiree_buffer (fp_td s' t) \<in> {0, ab}"

definition stays :: "fp_state \<Rightarrow> fp_state \<Rightarrow> nat \<Rightarrow> bool" where
  "stays s s' t \<longleftrightarrow> fp_td s' t = fp_td s t \<and> fp_pc s' t = fp_pc s t"

lemma concerned_holders:
  assumes "\<forall>t. stays s s' t \<or> moved ab s s' t" "a \<noteq> ab" "a \<noteq> 0"
  shows "holders s' a = holders s a" "\<forall>t\<in>holders s a. stays s s' t"
  using assms by (auto simp: holders_def stays_def moved_def set_eq_iff) metis+

lemma concerned_in_use:
  assumes "concerns ab s s'" "\<forall>t. stays s s' t \<or> moved ab s s' t" "set ts' \<subseteq> set ts" "a \<noteq> ab" "in_use s' ts' a"
  shows "in_use s ts a"
proof -
  have "a \<noteq> 0" using assms(5) by (simp add: in_use_def)
  with concerned_holders(1) [OF assms(2,4)] assms show ?thesis by (auto simp: in_use_def concerns_def)
qed

lemma same_payload_n_addrs:
  "payload st' a = payload st a \<Longrightarrow>
    map_option ab_n_addrs (map_of (bf_store st') a) = map_option ab_n_addrs (map_of (bf_store st) a) \<and>
    (map_of (bf_store st') a = None) = (map_of (bf_store st) a = None)"
  by (cases "map_of (bf_store st) a"; cases "map_of (bf_store st') a")
    (auto simp: payload_def dest: arg_cong [of _ _ ab_n_addrs])

lemma concerned_inv:
  assumes inv: "fp_inv s rs ts as" and ab: "ab = 0 \<or> in_use s ts ab" and c: "concerns ab s s'"
    and mv: "\<forall>t. stays s s' t \<or> moved ab s s' t \<and> pc_ok s' ts' t"
    and binv: "buffer_inv (fp_sh s') rs' ts' as'"
    and n: "ab \<noteq> 0 \<Longrightarrow> map_option ab_n_addrs (map_of (bf_store (fp_sh s')) ab) =
      map_option ab_n_addrs (map_of (bf_store (fp_sh s)) ab)"
    and ls: "set rs' \<subseteq> insert ab (set rs)" "set as' \<subseteq> insert ab (set as)" "set ts' \<subseteq> set ts"
      "\<forall>a\<in>set ts'. a \<noteq> ab \<longrightarrow> hd ts = a \<longrightarrow> hd ts' = a"
    and use: "in_use s' ts' ab \<Longrightarrow> use_ok s' rs' ts' as' ab" and log: "log_ok s'"
  shows "fp_inv s' rs' ts' as'"
proof -
  have mv': "\<forall>t. stays s s' t \<or> moved ab s s' t" using mv by blast
  note old = concerned_in_use [OF c mv' ls(3)]
  have view: "same_view s s' a \<and> use_ok s rs ts as a \<and> in_use s ts a" if a: "in_use s' ts' a" "a \<noteq> ab" for a
  proof -
    have u: "in_use s ts a" using old a by blast
    have nz: "a \<noteq> 0" using a(1) by (simp add: in_use_def)
    have ok: "use_ok s rs ts as a" using inv u by (simp add: fp_inv_def)
    have "fp_cur s a \<noteq> fp_cur s ab" if "ab \<noteq> 0"
    proof -
      have "in_use s ts ab" using ab that by blast
      moreover have "inj_on (fp_cur s) {x. in_use s ts x}" using inv by (simp add: fp_inv_def)
      ultimately show ?thesis using u a(2) by (auto dest: inj_onD)
    qed
    then have "\<forall>i x. (fp_cur s a, i, x) \<in> set (fp_log s') \<longleftrightarrow> (fp_cur s a, i, x) \<in> set (fp_log s)"
      using c by (cases "ab = 0") (simp_all add: concerns_def)
    then show ?thesis using concerned_holders [OF mv' a(2) nz] c nz u ok a(2)
      unfolding same_view_def concerns_def stays_def by auto
  qed
  have used: "use_ok s' rs' ts' as' a" if a: "in_use s' ts' a" for a
  proof (cases "a = ab")
    case False
    note v = view [OF a False]
    show ?thesis
      by (rule use_ok_view [of s s' a rs ts as]) (use v False ls c in \<open>auto simp: use_ok_def concerns_def\<close>)
  qed (use use a in simp)
  have "in_use s ts a" if "in_use s' ts' a" "ab \<noteq> 0 \<or> a \<noteq> ab" for a
    using old [of a] ab that by (cases "a = ab") auto
  then have sub: "{a. in_use s' ts' a} \<subseteq> {a. in_use s ts a}" by (auto simp: in_use_def)
  have "inj_on (fp_cur s') {a. in_use s' ts' a}"
    using inj_on_subset [OF _ sub, of "fp_cur s"] inv c unfolding fp_inv_def concerns_def by auto
  moreover have "own_ok s' rs' ts' as'"
    unfolding own_ok_def
  proof (intro conjI ballI)
    have own: "own_ok s rs ts as" and same: "fp_own s' = fp_own s" using inv c by (auto simp: fp_inv_def concerns_def)
    then show "distinct (fp_own s')" by (simp add: own_ok_def)
    fix a assume a: "a \<in> set (fp_own s')"
    then have o: "map_of (bf_store (fp_sh s)) a \<noteq> None" "a \<notin> set (rs @ ts @ as)" "a \<noteq> g_deadrefs (fp_sh s)"
      "\<not> in_use s ts a" using own same by (auto simp: own_ok_def)
    have "a \<noteq> 0" using o(1) inv by (auto simp: fp_inv_def buffer_inv_def objects_inv_def)
    with o(4) ab have ne: "a \<noteq> ab" by auto
    show "map_of (bf_store (fp_sh s')) a \<noteq> None"
      using same_payload_n_addrs [of "fp_sh s'" a "fp_sh s"] c ne o(1) by (auto simp: concerns_def)
    show "a \<notin> set (rs' @ ts' @ as')" using o(2) ls ne by auto
    show "a \<noteq> g_deadrefs (fp_sh s')" using o(3) c by (simp add: concerns_def)
    show "\<not> in_use s' ts' a" using o(4) sub by blast
  qed
  moreover have "pc_ok s' ts' t" for t
  proof (cases "stays s s' t")
    case True
    let ?a = "td_retiree_buffer (fp_td s t)"
    have live: "map_of (bf_store (fp_sh s)) ?a \<noteq> None" if "?a \<noteq> 0"
      using in_use_held [OF that, of ts] inv by (auto simp: fp_inv_def use_ok_def)
    have eq: "map_option ab_n_addrs (map_of (bf_store (fp_sh s')) ?a) = map_option ab_n_addrs (map_of (bf_store (fp_sh s)) ?a)"
      if "?a \<noteq> 0"
      using n same_payload_n_addrs [of "fp_sh s'" ?a "fp_sh s"] c that by (cases "?a = ab") (simp_all add: concerns_def)
    have "pc_ok s ts t" "fp_td s' t = fp_td s t" "fp_pc s' t = fp_pc s t"
      using inv True by (simp_all add: fp_inv_def stays_def)
    then show ?thesis by (rule pc_ok_view) (use eq live ls(3) in blast)+
  qed (use mv in blast)
  ultimately show ?thesis using binv used log by (simp add: fp_inv_def)
qed

text \<open>A move of a thread that touches neither the buffers nor its own data.\<close>

lemma pc_step_inv:
  assumes inv: "fp_inv s rs ts as" and pc: "pc_ok (s\<lparr>fp_pc := (fp_pc s)(t := pc)\<rparr>) ts t"
    and ab: "td_retiree_buffer (fp_td s t) = ab" "ab \<noteq> 0" and drop: "fp_pc s t \<noteq> Drop" "pc \<noteq> Drop"
  shows "fp_inv (s\<lparr>fp_pc := (fp_pc s)(t := pc)\<rparr>) rs ts as"
proof -
  let ?s' = "s\<lparr>fp_pc := (fp_pc s)(t := pc)\<rparr>"
  have u: "in_use s ts ab" using in_use_held [of s t ts] ab by simp
  then have ok: "use_ok s rs ts as ab" using inv by (simp add: fp_inv_def)
  have h: "holders ?s' = holders s" "range_of ?s' = range_of s" "untouched ?s' = untouched s"
    by (simp_all add: holders_def range_of_def untouched_def fun_eq_iff)
  have "buf_ok ?s' ts ab b" if b: "buf_ok s ts ab b" for b
  proof -
    have "queued_ok ?s' ts ab b" using b drop(2) by (auto simp: buf_ok_def queued_ok_def h)
    then show ?thesis using b h by (simp add: buf_ok_def counts_ok_def ranges_ok_def history_ok_def)
  qed
  then have "use_ok ?s' rs ts as ab" using ok h(1) by (auto simp: use_ok_def)
  moreover have "log_ok ?s'" "buffer_inv (fp_sh ?s') rs ts as" using inv by (simp_all add: fp_inv_def log_ok_def)
  moreover have "concerns ab s ?s'" by (simp add: concerns_def)
  moreover have "\<forall>u. stays s ?s' u \<or> moved ab s ?s' u \<and> pc_ok ?s' ts u" using pc ab by (simp add: stays_def moved_def)
  ultimately show ?thesis by (intro concerned_inv [OF inv disjI2 [OF u]]) (simp_all add: subset_insertI)
qed

lemma check_inv:
  assumes "fp_inv s rs ts as" "fp_pc s t = Top" "td_retiree_buffer (fp_td s t) \<noteq> 0"
    "td_begin_retiree_idx (fp_td s t) = td_end_retiree_idx (fp_td s t)"
  shows "fp_inv (s\<lparr>fp_pc := (fp_pc s)(t := Fetch)\<rparr>) rs ts as"
  by (rule pc_step_inv [OF assms(1)]) (use assms in \<open>auto simp: pc_ok_def Let_def\<close>)

lemma lose_inv:
  assumes "fp_inv s rs ts as" "fp_pc s t = Swap b e"
  shows "fp_inv (s\<lparr>fp_pc := (fp_pc s)(t := Top)\<rparr>) rs ts as"
proof -
  have "pc_ok s ts t" using assms(1) by (simp add: fp_inv_def)
  then show ?thesis
    by (intro pc_step_inv [OF assms(1)]) (use assms in \<open>auto simp: pc_ok_def Let_def\<close>)
qed

lemma fetch_inv:
  assumes inv: "fp_inv s rs ts as" and pc: "fp_pc s t = Fetch" and ab: "ab = td_retiree_buffer (fp_td s t)"
    and run: "next_range ab (fp_sh s) = Inr (lo, hi)" "retiree_done ab (fp_sh s) = Inr False"
  shows "fp_inv (s\<lparr>fp_pc := (fp_pc s)(t := Swap lo hi)\<rparr>) rs ts as"
proof -
  have p: "ab \<noteq> 0" "td_begin_retiree_idx (fp_td s t) = td_end_retiree_idx (fp_td s t)"
    using inv pc ab by (auto simp: fp_inv_def pc_ok_def Let_def dest: spec [of _ t])
  obtain b where b: "map_of (bf_store (fp_sh s)) ab = Some b" "buf_ok s ts ab b"
    using use_okD [OF inv] in_use_held [of s t ts] ab p(1) by metis
  have "lo = ab_free_idx b" "hi = MIN_OF (ab_n_addrs b) (ab_free_idx b + FREE_RANGE_SZ)" "ab_free_idx b < ab_n_addrs b"
    using run b(1) p(1) by (auto simp: next_range_def retiree_done_def cint_def split: if_splits)
  moreover have "0 \<le> ab_free_idx b" using b(2) by (simp add: buf_ok_def ranges_ok_def)
  ultimately show ?thesis
    by (intro pc_step_inv [OF inv]) (use p ab pc b in \<open>auto simp: pc_ok_def Let_def MIN_OF_def FREE_RANGE_SZ_def\<close>)
qed

text \<open>Taking a reference to the first buffer.\<close>

lemma acquire_none_inv:
  assumes inv: "fp_inv s rs ts as" and top: "fp_pc s t = Top" and td: "td_retiree_buffer (fp_td s t) = 0" "td_retiree_buffer td = 0"
  shows "fp_inv (s\<lparr>fp_td := (fp_td s)(t := td)\<rparr>) rs ts as"
  by (rule concerned_inv [OF inv, of 0])
    (use inv top td in \<open>simp_all add: concerns_def stays_def moved_def pc_ok_def in_use_def fp_inv_def log_ok_def subset_insertI\<close>)

lemma acquire_first_inv:
  assumes inv: "fp_inv s rs ts as" and top: "fp_pc s t = Top" and td0: "td_retiree_buffer (fp_td s t) = 0"
    and ab: "ab = hd ts" "ts \<noteq> []" and b: "map_of (bf_store (fp_sh s)) ab = Some b"
    and sh: "sh = (fp_sh s)\<lparr>bf_store := AList.update ab (b\<lparr>ab_ref_count := ab_ref_count b + 1\<rparr>) (bf_store (fp_sh s))\<rparr>"
    and td: "td_retiree_buffer td = ab" "td_begin_retiree_idx td = 0" "td_end_retiree_idx td = 0"
  shows "fp_inv (s\<lparr>fp_sh := sh, fp_td := (fp_td s)(t := td)\<rparr>) rs ts as"
proof -
  let ?s' = "s\<lparr>fp_sh := sh, fp_td := (fp_td s)(t := td)\<rparr>" and ?b = "b\<lparr>ab_ref_count := ab_ref_count b + 1\<rparr>"
  have binv: "buffer_inv (fp_sh s) rs ts as" using inv by (simp add: fp_inv_def)
  have inq: "ab \<in> set ts" using ab by simp
  then have nz: "ab \<noteq> 0" using listed_live [of "fp_sh s" rs ts as ab] binv by (auto simp: buffer_inv_def)
  have u: "in_use s ts ab" using inq nz by (simp add: in_use_def)
  have ok: "buf_ok s ts ab b" "use_ok s rs ts as ab" using use_okD [OF inv u] b by auto
  have out: "t \<notin> holders s ab" using td0 nz by (simp add: holders_def)
  have h: "holders ?s' ab = insert t (holders s ab)" using td by (auto simp: holders_def)
  have r: "range_of ?s' t = {}" "\<forall>v\<in>holders s ab. range_of ?s' v = range_of s v \<and> fp_td ?s' v = fp_td s v"
    using td out by (auto simp: range_of_def)
  have un: "untouched ?s' ab ?b = untouched s ab b" using h r by (simp add: untouched_def)
  have "counts_ok ?s' ab ?b" using ok(1) h out by (simp add: buf_ok_def counts_ok_def)
  moreover have "ranges_ok ?s' ab ?b" using ok(1) r td out unfolding buf_ok_def ranges_ok_def h by auto
  moreover have "queued_ok ?s' ts ab ?b" using ok(1) h by (auto simp: buf_ok_def queued_ok_def)
  moreover have "history_ok ?s' ab ?b" using ok(1) un by (simp add: buf_ok_def history_ok_def)
  ultimately have use: "use_ok ?s' rs ts as ab" using ok(2) ab by (simp add: use_ok_def buf_ok_def sh)
  have "buffer_wf ?b" using object_wf [OF binv b] by (simp add: buffer_wf_def)
  then have "buffer_inv sh rs ts as" unfolding sh by (rule buffer_modify [OF binv b]) simp_all
  then show ?thesis
    by (intro concerned_inv [OF inv disjI2 [OF u]])
      (use use inv top td td0 in \<open>simp_all add: concerns_def stays_def moved_def pc_ok_def payload_def sh
        fp_inv_def log_ok_def subset_insertI b\<close>)
qed

lemma acquire_inv:
  assumes inv: "fp_inv s rs ts as" and top: "fp_pc s t = Top" and td0: "td_retiree_buffer (fp_td s t) = 0"
    and run: "acquire_retiree (fp_td s t) (fp_sh s) = Inr (td, sh)"
  shows "fp_inv (s\<lparr>fp_sh := sh, fp_td := (fp_td s)(t := td)\<rparr>) rs ts as"
proof -
  have p: "path ab_next (bf_store (fp_sh s)) (g_first_retiree_buffer (fp_sh s)) ts 0"
    using inv by (simp add: fp_inv_def buffer_inv_def lists_inv_def)
  show ?thesis
  proof (cases ts)
    case Nil
    then have "sh = fp_sh s" "td_retiree_buffer td = 0"
      using run p td0 by (auto simp: acquire_retiree_def forkscan_buffer_get_retiree_buffer_def)
    then show ?thesis using acquire_none_inv [OF inv top td0] by simp
  next
    case (Cons ab us)
    then obtain b where b: "g_first_retiree_buffer (fp_sh s) = ab" "ab \<noteq> 0" "map_of (bf_store (fp_sh s)) ab = Some b"
      using p by (auto split: option.splits)
    then show ?thesis using run td0 Cons
      by (intro acquire_first_inv [OF inv top td0, of ab b])
        (auto simp: acquire_retiree_def forkscan_buffer_get_retiree_buffer_def buf_modify_def cint_def
          split: if_splits)
  qed
qed

text \<open>Taking a buffer that is done out of the queue.\<close>

lemma pop_inv:
  assumes inv: "fp_inv s rs ts as" and ab: "ab = td_retiree_buffer (fp_td s t)" "ab \<noteq> 0"
    and idx: "td_begin_retiree_idx (fp_td s t) = td_end_retiree_idx (fp_td s t)"
    and run: "forkscan_buffer_pop_retiree_buffer ab (fp_sh s) = Inr sh"
  shows "\<exists>ts'. fp_inv (s\<lparr>fp_sh := sh, fp_pc := (fp_pc s)(t := Drop)\<rparr>) rs ts' as"
proof -
  let ?s' = "s\<lparr>fp_sh := sh, fp_pc := (fp_pc s)(t := Drop)\<rparr>"
  have binv: "buffer_inv (fp_sh s) rs ts as" using inv by (simp add: fp_inv_def)
  have u: "in_use s ts ab" using in_use_held [of s t ts] ab by simp
  obtain b where b: "map_of (bf_store (fp_sh s)) ab = Some b" "buf_ok s ts ab b" "use_ok s rs ts as ab"
    using use_okD [OF inv u] .
  obtain ts' where ts': "ts' = ts \<and> ab \<notin> set ts \<or> ts = ab # ts'"
    using b(3) ab by (cases ts) (auto simp: use_ok_def holders_def)
  then have "buffer_inv sh rs ts' as \<and> bf_store sh = bf_store (fp_sh s) \<and> g_deadrefs sh = g_deadrefs (fp_sh s)"
    using pop_front_ok [of "fp_sh s" rs ab ts' as] pop_absent_ok [OF binv _ ab(2)] binv run by auto
  then have sh: "buffer_inv sh rs ts' as" "bf_store sh = bf_store (fp_sh s)" "g_deadrefs sh = g_deadrefs (fp_sh s)"
    by blast+
  have "distinct ts" using binv path_distinct by (auto simp: buffer_inv_def lists_inv_def)
  with ts' have out: "ab \<notin> set ts'" "set ts' \<subseteq> set ts" by auto
  have h: "holders ?s' = holders s" "range_of ?s' = range_of s" "untouched ?s' = untouched s"
    by (simp_all add: holders_def range_of_def untouched_def fun_eq_iff)
  have "buf_ok ?s' ts' ab b"
    using b(2) out h by (simp add: buf_ok_def counts_ok_def ranges_ok_def history_ok_def queued_ok_def)
  then have "use_ok ?s' rs ts' as ab" using b out by (simp add: use_ok_def sh)
  moreover have "\<forall>a\<in>set ts'. a \<noteq> ab \<longrightarrow> hd ts = a \<longrightarrow> hd ts' = a" using ts' by auto
  moreover have "pc_ok ?s' ts' t" using ab idx out by (simp add: pc_ok_def Let_def)
  ultimately have "fp_inv ?s' rs ts' as"
    by (intro concerned_inv [OF inv disjI2 [OF u]])
      (use inv ab sh out in \<open>simp_all add: concerns_def stays_def moved_def payload_def fp_inv_def log_ok_def subset_insertI\<close>)
  then show ?thesis by blast
qed

text \<open>Dropping a reference; the last one to a buffer that is done releases the buffer.\<close>

definition unref_done :: "buffer_state \<Rightarrow> size_t \<Rightarrow> addr_buffer_t \<Rightarrow> buffer_state \<Rightarrow> size_t list \<Rightarrow> size_t list \<Rightarrow> size_t list \<Rightarrow>
    size_t list \<Rightarrow> size_t list \<Rightarrow> bool" where
  "unref_done st ab b st' rs ts as rs' as' \<longleftrightarrow>
     buffer_inv st' rs' ts as' \<and> set rs' \<subseteq> insert ab (set rs) \<and> set as' \<subseteq> insert ab (set as) \<and>
     g_deadrefs st' = g_deadrefs st \<and> (\<forall>a. a \<noteq> ab \<longrightarrow> payload st' a = payload st a) \<and>
     (\<exists>n. map_of (bf_store st') ab = Some (b\<lparr>ab_ref_count := ab_ref_count b - 1, ab_next := n\<rparr>)) \<and>
     (ab_ref_count b \<noteq> 1 \<or> ab_free_idx b < ab_n_addrs b \<longrightarrow> rs' = rs \<and> as' = as)"

lemma unref_ok:
  assumes inv: "buffer_inv st rs ts as" and b: "map_of (bf_store st) ab = Some b"
    and run: "forkscan_buffer_unref_buffer ab st = Inr st'"
    and out: "ab_ref_count b = 1 \<Longrightarrow> ab_n_addrs b \<le> ab_free_idx b \<Longrightarrow> ab \<notin> set (rs @ ts @ as) \<and> ab \<noteq> g_deadrefs st"
  shows "\<exists>rs' as'. unref_done st ab b st' rs ts as rs' as'"
proof -
  let ?b = "b\<lparr>ab_ref_count := ab_ref_count b - 1\<rparr>"
  let ?st = "st\<lparr>bf_store := AList.update ab ?b (bf_store st)\<rparr>"
  have nz: "ab \<noteq> 0" using inv b by (auto simp: buffer_inv_def objects_inv_def)
  have "buffer_wf ?b" using object_wf [OF inv b] by (simp add: buffer_wf_def)
  then have inv1: "buffer_inv ?st rs ts as" by (rule buffer_modify [OF inv b]) simp_all
  have b1: "map_of (bf_store ?st) ab = Some ?b" by simp
  show ?thesis
  proof (cases "ab_ref_count b = 1 \<and> ab_n_addrs b \<le> ab_free_idx b")
    case True
    then have rel: "forkscan_release_buffer ab ?st = Inr st'"
      using run b nz by (simp add: forkscan_buffer_unref_buffer_def buf_modify_def cint_def)
    obtain rs' as' n where "buffer_inv st' rs' ts as'" "pooled ?b ab rs as rs' as'"
      "bf_store st' = AList.update ab (?b\<lparr>ab_next := n\<rparr>) (bf_store ?st)" "g_deadrefs st' = g_deadrefs st"
      using release_ok [OF inv1 b1] out True rel by auto
    then have "unref_done st ab b st' rs ts as rs' as'"
      using True by (auto simp: unref_done_def pooled_def payload_def split: if_splits)
    then show ?thesis by blast
  next
    case False
    then have "st' = ?st"
      using run b nz by (auto simp: forkscan_buffer_unref_buffer_def buf_modify_def cint_def split: if_splits)
    then have "unref_done st ab b st' rs ts as rs as"
      using inv1 by (auto simp: unref_done_def payload_def intro!: exI [of _ "ab_next b"])
    then show ?thesis by blast
  qed
qed

text \<open>When a reference goes, by a thread with nothing left of its range or by the collector.\<close>

lemma unref_inv:
  assumes inv: "fp_inv s rs ts as" and u: "in_use s ts ab" and b: "map_of (bf_store (fp_sh s)) ab = Some b"
    and run: "forkscan_buffer_unref_buffer ab (fp_sh s) = Inr sh"
    and s': "fp_sh s' = sh" "fp_own s' = fp_own s" "fp_gen s' = fp_gen s" "fp_cur s' = fp_cur s" "fp_pub s' = fp_pub s"
      "fp_log s' = fp_log s" "fp_gc s' = fp_gc s \<or> fp_gc s = ab \<and> fp_gc s' = 0"
    and mv: "\<forall>v. stays s s' v \<or> moved ab s s' v \<and> fp_pc s' v = Top"
    and h: "holders s' ab \<subseteq> holders s ab" "\<forall>v\<in>holders s' ab. stays s s' v"
      "\<forall>v\<in>holders s ab - holders s' ab. range_of s v = {} \<and> fp_pc s v = Drop"
    and one: "card (holders s' ab) + (if fp_gc s' = ab then 1 else 0) + 1 =
      card (holders s ab) + (if fp_gc s = ab then 1 else 0)"
  shows "\<exists>rs' as'. fp_inv s' rs' ts as'"
proof -
  have ok: "buf_ok s ts ab b" "use_ok s rs ts as ab" using use_okD [OF inv u] b by auto
  have rc: "ab_ref_count b - 1 = int (card (holders s' ab)) + (if fp_gc s' = ab then 1 else 0)"
    and fin: "finite (holders s ab)"
    using ok(1) one by (auto simp: buf_ok_def counts_ok_def split: if_splits)
  have left: "finite (holders s' ab)" using fin h(1) by (rule rev_finite_subset)
  have last: "ab \<notin> set ts \<or> ab_free_idx b < ab_n_addrs b" if "holders s' ab = {}"
    using ok(1) h(3) that by (force simp: buf_ok_def queued_ok_def)
  have binv: "buffer_inv (fp_sh s) rs ts as" using inv by (simp add: fp_inv_def)
  have "ab \<notin> set (rs @ ts @ as) \<and> ab \<noteq> g_deadrefs (fp_sh s)" if "ab_ref_count b = 1" "ab_n_addrs b \<le> ab_free_idx b"
    using ok(2) last rc left that by (auto simp: use_ok_def split: if_splits)
  from unref_ok [OF binv b run this] obtain rs' as' where d: "unref_done (fp_sh s) ab b sh rs ts as rs' as'" by blast
  then obtain n where n: "map_of (bf_store sh) ab = Some (b\<lparr>ab_ref_count := ab_ref_count b - 1, ab_next := n\<rparr>)"
    by (auto simp: unref_done_def)
  let ?b = "b\<lparr>ab_ref_count := ab_ref_count b - 1, ab_next := n\<rparr>"
  have r: "\<forall>v\<in>holders s' ab. range_of s' v = range_of s v \<and> fp_td s' v = fp_td s v \<and> fp_pc s' v = fp_pc s v"
    using h(2) by (simp add: stays_def range_of_def)
  have un: "untouched s' ab ?b = untouched s ab b"
    using r h(1,3) unfolding untouched_def by fastforce
  have "use_ok s' rs' ts as' ab" if use: "in_use s' ts ab"
  proof -
    have "rs' = rs \<and> as' = as"
    proof (cases "ab_ref_count b = 1")
      case True
      then have "holders s' ab = {}" "fp_gc s' \<noteq> ab" using rc left by (auto split: if_splits)
      with use last d show ?thesis by (auto simp: in_use_def unref_done_def)
    qed (use d in \<open>simp add: unref_done_def\<close>)
    moreover have "counts_ok s' ab ?b" using rc left by (simp add: counts_ok_def)
    moreover have "ranges_ok s' ab ?b" using ok(1) r h(1) unfolding buf_ok_def ranges_ok_def by (simp add: subset_iff)
    moreover have "queued_ok s' ts ab ?b" using ok(1) r h(1,3) unfolding buf_ok_def queued_ok_def by fastforce
    moreover have "history_ok s' ab ?b" using ok(1) un by (simp add: buf_ok_def history_ok_def s')
    ultimately show ?thesis using ok(2) n h(1) d by (auto simp: use_ok_def buf_ok_def s' unref_done_def)
  qed
  then have "fp_inv s' rs' ts as'"
    by (intro concerned_inv [OF inv disjI2 [OF u]])
      (use inv mv d n b s' in \<open>auto simp: concerns_def unref_done_def fp_inv_def log_ok_def pc_ok_def\<close>)
  then show ?thesis by blast
qed

lemma drop_inv:
  assumes inv: "fp_inv s rs ts as" and pc: "fp_pc s t = Drop" and ab: "ab = td_retiree_buffer (fp_td s t)"
    and run: "forkscan_buffer_unref_buffer ab (fp_sh s) = Inr sh"
    and s': "s' = s\<lparr>fp_sh := sh, fp_td := (fp_td s)(t := (fp_td s t)\<lparr>td_retiree_buffer := 0\<rparr>),
      fp_pc := (fp_pc s)(t := Top)\<rparr>"
  shows "\<exists>rs' as'. fp_inv s' rs' ts as'"
proof -
  have "pc_ok s ts t" using inv by (simp add: fp_inv_def)
  then have p: "ab \<noteq> 0" "range_of s t = {}" using pc ab by (auto simp: pc_ok_def Let_def range_of_def)
  have u: "in_use s ts ab" using in_use_held [of s t ts] ab p(1) by simp
  obtain b where b: "map_of (bf_store (fp_sh s)) ab = Some b" "buf_ok s ts ab b" using use_okD [OF inv u] .
  have t: "t \<in> holders s ab" using ab by (simp add: holders_def)
  have h: "holders s' ab = holders s ab - {t}"
    using p(1) unfolding holders_def s' by (simp add: set_eq_iff)
  have "finite (holders s ab)" using b(2) by (simp add: buf_ok_def counts_ok_def)
  then have "card (holders s' ab) + 1 = card (holders s ab)" using card_Suc_Diff1 [of "holders s ab" t] t h by simp
  then have one: "card (holders s' ab) + (if fp_gc s' = ab then 1 else 0) + 1 =
      card (holders s ab) + (if fp_gc s = ab then 1 else 0)" by (simp add: s')
  have mv: "\<forall>v. stays s s' v \<or> moved ab s s' v \<and> fp_pc s' v = Top" using ab by (simp add: s' stays_def moved_def)
  have "\<forall>v\<in>holders s' ab. stays s s' v" unfolding h by (simp add: s' stays_def)
  moreover have "\<forall>v\<in>holders s ab - holders s' ab. range_of s v = {} \<and> fp_pc s v = Drop" unfolding h using p pc by auto
  ultimately show ?thesis
    by (intro unref_inv [OF inv u b(1) run, of s']) (use one mv h in \<open>simp_all add: s'\<close>)
qed

lemma gc_unref_inv:
  assumes inv: "fp_inv s rs ts as" and gc: "fp_gc s \<noteq> 0"
    and run: "forkscan_buffer_unref_buffer (fp_gc s) (fp_sh s) = Inr sh"
  shows "\<exists>rs' as'. fp_inv (s\<lparr>fp_sh := sh, fp_gc := 0\<rparr>) rs' ts as'"
proof -
  have u: "in_use s ts (fp_gc s)" using gc by (simp add: in_use_def)
  obtain b where b: "map_of (bf_store (fp_sh s)) (fp_gc s) = Some b" using use_okD [OF inv u] .
  show ?thesis
    by (rule unref_inv [OF inv u b run]) (use gc in \<open>auto simp: stays_def moved_def holders_def\<close>)
qed

text \<open>Winning the race for a range.\<close>

lemma swap_inv:
  assumes inv: "fp_inv s rs ts as" and pc: "fp_pc s t = Swap lo hi" and ab: "ab = td_retiree_buffer (fp_td s t)"
    and run: "claim_range ab lo hi (fp_sh s) = Inr (True, sh)"
    and s': "s' = s\<lparr>fp_sh := sh, fp_pc := (fp_pc s)(t := Take),
      fp_td := (fp_td s)(t := (fp_td s t)\<lparr>td_begin_retiree_idx := lo, td_end_retiree_idx := hi\<rparr>)\<rparr>"
  shows "fp_inv s' rs ts as"
proof -
  have "pc_ok s ts t" using inv by (simp add: fp_inv_def)
  then have nz: "ab \<noteq> 0" and old: "range_of s t = {}" using pc ab by (auto simp: pc_ok_def Let_def range_of_def)
  have u: "in_use s ts ab" using in_use_held [of s t ts] ab nz by simp
  obtain b where b: "map_of (bf_store (fp_sh s)) ab = Some b" "buf_ok s ts ab b" "use_ok s rs ts as ab"
    using use_okD [OF inv u] .
  have p: "0 \<le> lo" "lo < hi" "hi \<le> ab_n_addrs b" using \<open>pc_ok s ts t\<close> pc ab b(1) by (auto simp: pc_ok_def Let_def)
  let ?b = "b\<lparr>ab_free_idx := hi\<rparr>"
  have sh: "sh = (fp_sh s)\<lparr>bf_store := AList.update ab ?b (bf_store (fp_sh s))\<rparr>" and lo: "ab_free_idx b = lo"
    using run b(1) nz by (auto simp: claim_range_def buf_modify_def split: if_splits)
  have t: "t \<in> holders s ab" using ab by (simp add: holders_def)
  have h: "holders s' ab = holders s ab" by (auto simp: holders_def s')
  have r: "range_of s' t = {lo..<hi}" "\<forall>v. v \<noteq> t \<longrightarrow> range_of s' v = range_of s v"
    by (simp_all add: s' range_of_def)
  have below: "\<forall>v\<in>holders s ab. range_of s v \<subseteq> {..<lo}" using b(2) lo
    by (auto simp: buf_ok_def ranges_ok_def range_of_def)
  have un: "untouched s' ab ?b = untouched s ab b"
  proof -
    have "(\<Union>v\<in>holders s ab. range_of s' v) = {lo..<hi} \<union> (\<Union>v\<in>holders s ab. range_of s v)"
    proof -
      have "range_of s' v = (if v = t then {lo..<hi} else {}) \<union> range_of s v" for v using r old by auto
      then show ?thesis using t by (auto split: if_splits)
    qed
    moreover have "{lo..<ab_n_addrs b} = {lo..<hi} \<union> {hi..<ab_n_addrs b}" using p by auto
    ultimately show ?thesis using lo by (auto simp: untouched_def h)
  qed
  have "counts_ok s' ab ?b" using b(2) h by (simp add: buf_ok_def counts_ok_def s')
  moreover have "ranges_ok s' ab ?b" unfolding ranges_ok_def h
  proof (intro conjI ballI impI)
    fix v assume v: "v \<in> holders s ab"
    have o: "0 \<le> td_begin_retiree_idx (fp_td s v)" "td_begin_retiree_idx (fp_td s v) \<le> td_end_retiree_idx (fp_td s v)"
      "td_end_retiree_idx (fp_td s v) \<le> lo" using b(2) v lo by (auto simp: buf_ok_def ranges_ok_def)
    show "0 \<le> td_begin_retiree_idx (fp_td s' v)" "td_begin_retiree_idx (fp_td s' v) \<le> td_end_retiree_idx (fp_td s' v)"
      "td_end_retiree_idx (fp_td s' v) \<le> ab_free_idx ?b" using o p by (auto simp: s')
    fix w assume w: "w \<in> holders s ab" "v \<noteq> w"
    have "range_of s v \<inter> range_of s w = {}" using b(2) v w by (auto simp: buf_ok_def ranges_ok_def)
    moreover have "{lo..<hi} \<inter> range_of s v = {}" "{lo..<hi} \<inter> range_of s w = {}"
      using bspec [OF below v] bspec [OF below w(1)] by force+
    ultimately show "range_of s' v \<inter> range_of s' w = {}" using w(2) r by (cases "v = t"; cases "w = t") auto
  qed (use p in simp_all)
  moreover have "queued_ok s' ts ab ?b" using b(2) t h by (auto simp: buf_ok_def queued_ok_def s' intro: bexI [of _ t])
  moreover have "history_ok s' ab ?b" using b(2) un lo p by (fastforce simp: buf_ok_def history_ok_def s')
  ultimately have use: "use_ok s' rs ts as ab" using b(3) h by (simp add: use_ok_def buf_ok_def sh s')
  have "buffer_wf ?b" and binv: "buffer_inv (fp_sh s) rs ts as"
    using inv object_wf [of "fp_sh s" rs ts as ab b] b(1) by (auto simp: fp_inv_def buffer_wf_def)
  then have "buffer_inv sh rs ts as" unfolding sh by (intro buffer_modify [OF binv b(1)]) simp_all
  then show ?thesis
    by (intro concerned_inv [OF inv disjI2 [OF u]])
      (use use inv p ab nz b(1) in \<open>auto simp: s' concerns_def stays_def moved_def pc_ok_def payload_def sh
        fp_inv_def log_ok_def\<close>)
qed

text \<open>Looking at one address of the own range.\<close>

lemma free_one_run:
  assumes "free_one td st = Inr (td', sh, xs)" "map_of (bf_store st) (td_retiree_buffer td) = Some b"
    "td_retiree_buffer td \<noteq> 0" "0 \<le> td_begin_retiree_idx td"
  defines "i \<equiv> td_begin_retiree_idx td"
  shows "td' = td\<lparr>td_begin_retiree_idx := i + 1\<rparr>" "nat i < length (ab_addrs b)"
    "xs = (if ab_addrs b ! nat i AND 1 = 0 then [ab_addrs b ! nat i] else [])"
    "sh = (if xs = [] then st else st\<lparr>bf_store := AList.update (td_retiree_buffer td)
        (b\<lparr>ab_addrs := (ab_addrs b)[nat i := 2]\<rparr>) (bf_store st)\<rparr>)"
  using assms by (auto simp: free_one_def rd_def wr_def cint_def buf_modify_def Let_def split: if_splits)

lemma take_inv:
  assumes inv: "fp_inv s rs ts as" and ab: "ab = td_retiree_buffer (fp_td s t)" "ab \<noteq> 0"
    and pc: "fp_pc s t = Take \<or> fp_pc s t = Top" and lt: "td_begin_retiree_idx (fp_td s t) < td_end_retiree_idx (fp_td s t)"
    and run: "free_one (fp_td s t) (fp_sh s) = Inr (td, sh, xs)" and i: "i = td_begin_retiree_idx (fp_td s t)"
    and s': "s' = s\<lparr>fp_sh := sh, fp_td := (fp_td s)(t := td), fp_pc := (fp_pc s)(t := Top),
      fp_log := map (\<lambda>x. (fp_cur s ab, i, x)) xs @ fp_log s\<rparr>"
  shows "fp_inv s' rs ts as"
proof -
  have u: "in_use s ts ab" using in_use_held [of s t ts] ab by simp
  obtain b where b: "map_of (bf_store (fp_sh s)) ab = Some b" "buf_ok s ts ab b" "use_ok s rs ts as ab"
    using use_okD [OF inv u] .
  have t: "t \<in> holders s ab" using ab by (simp add: holders_def)
  have i0: "0 \<le> i" "td_end_retiree_idx (fp_td s t) \<le> ab_free_idx b" "ab_free_idx b \<le> ab_n_addrs b"
    using b(2) t i by (auto simp: buf_ok_def ranges_ok_def)
  note f = free_one_run [OF run, folded ab(1) i, OF b(1) ab(2) i0(1)]
  let ?x = "ab_addrs b ! nat i" and ?b = "if xs = [] then b else b\<lparr>ab_addrs := (ab_addrs b)[nat i := 2]\<rparr>"
  have b': "map_of (bf_store sh) ab = Some ?b" using f(4) b(1) by simp
  have same: "ab_ref_count ?b = ab_ref_count b" "ab_free_idx ?b = ab_free_idx b" "ab_n_addrs ?b = ab_n_addrs b"
    "ab_capacity ?b = ab_capacity b" "ab_is_aggregate ?b = ab_is_aggregate b" "ab_next ?b = ab_next b"
    "length (ab_addrs ?b) = length (ab_addrs b)" "ab_minimap ?b = ab_minimap b" by simp_all
  have h: "holders s' ab = holders s ab" using f(1) by (auto simp: holders_def s')
  have r: "range_of s' t = range_of s t - {i}" "\<forall>v. v \<noteq> t \<longrightarrow> range_of s' v = range_of s v"
    using f(1) i lt by (auto simp: s' range_of_def)
  have mine: "i \<in> range_of s t" using i lt by (simp add: range_of_def)
  have others: "\<forall>v\<in>holders s ab. v \<noteq> t \<longrightarrow> i \<notin> range_of s v"
    using b(2) t mine by (auto simp: buf_ok_def ranges_ok_def)
  have un: "untouched s' ab ?b = untouched s ab b - {i}"
  proof -
    have "range_of s' v = range_of s v - {i}" if "v \<in> holders s ab" for v using r others that by (cases "v = t") auto
    then have "(\<Union>v\<in>holders s ab. range_of s' v) = (\<Union>v\<in>holders s ab. range_of s v) - {i}" by auto
    moreover have "i < ab_free_idx b" using i lt i0 by simp
    ultimately show ?thesis unfolding untouched_def h same by auto
  qed
  have iu: "i \<in> untouched s ab b" using mine t by (auto simp: untouched_def)
  have hist: "fp_cur s ab < fp_gen s" "int (length (fp_pub s (fp_cur s ab))) = ab_n_addrs b"
    "\<forall>j\<in>untouched s ab b. ab_addrs b ! nat j = fp_pub s (fp_cur s ab) ! nat j"
    "\<forall>j x. (fp_cur s ab, j, x) \<in> set (fp_log s) \<longrightarrow> j < ab_free_idx b \<and> j \<notin> untouched s ab b"
    using b(2) by (auto simp: buf_ok_def history_ok_def)
  have pos: "0 \<le> j" if "j \<in> untouched s ab b" for j
    using that b(2) by (auto simp: untouched_def range_of_def buf_ok_def ranges_ok_def)
  have "counts_ok s' ab ?b" using b(2) h same by (simp add: buf_ok_def counts_ok_def s')
  moreover have "ranges_ok s' ab ?b" unfolding ranges_ok_def h same
  proof (intro conjI ballI impI)
    fix v assume v: "v \<in> holders s ab"
    show "0 \<le> td_begin_retiree_idx (fp_td s' v)" "td_begin_retiree_idx (fp_td s' v) \<le> td_end_retiree_idx (fp_td s' v)"
      "td_end_retiree_idx (fp_td s' v) \<le> ab_free_idx b"
      using b(2) v f(1) i lt by (auto simp: s' buf_ok_def ranges_ok_def)
    fix w assume w: "w \<in> holders s ab" "v \<noteq> w"
    have "range_of s v \<inter> range_of s w = {}" using b(2) v w by (auto simp: buf_ok_def ranges_ok_def)
    then show "range_of s' v \<inter> range_of s' w = {}" using r by (cases "v = t"; cases "w = t") auto
  qed (use b(2) i0 in \<open>auto simp: buf_ok_def ranges_ok_def\<close>)
  moreover have "queued_ok s' ts ab ?b"
    using b(2) t h same unfolding buf_ok_def queued_ok_def by (auto simp: s' intro: bexI [of _ t])
  moreover have "history_ok s' ab ?b" unfolding history_ok_def un same
  proof (intro conjI ballI allI impI)
    fix j assume j: "j \<in> untouched s ab b - {i}"
    then have "nat j \<noteq> nat i" using pos i0(1) by (auto simp: nat_eq_iff)
    then show "ab_addrs ?b ! nat j = fp_pub s' (fp_cur s' ab) ! nat j" using hist(3) j by (simp add: s')
  next
    fix j x assume "(fp_cur s' ab, j, x) \<in> set (fp_log s')"
    then have "j = i \<or> (fp_cur s ab, j, x) \<in> set (fp_log s)" by (auto simp: s')
    then show "j < ab_free_idx b" "j \<notin> untouched s ab b - {i}" using hist(4) i lt i0 by auto
  qed (use hist in \<open>simp_all add: s'\<close>)
  ultimately have use: "use_ok s' rs ts as ab" using b(3) b' h f(4) by (simp add: use_ok_def buf_ok_def s')
  have "(fp_cur s ab, i) \<notin> set (map (\<lambda>(g, i, x). (g, i)) (fp_log s))" using hist(4) iu by auto
  moreover have "i < ab_n_addrs b" using i lt i0 by simp
  moreover have "log_ok s" using inv by (simp add: fp_inv_def)
  ultimately have log: "log_ok s'"
    using f(3) hist i0(1) iu unfolding log_ok_def by (auto simp: s')
  have "buffer_wf ?b" and binv: "buffer_inv (fp_sh s) rs ts as"
    using inv object_wf [of "fp_sh s" rs ts as ab b] b(1) by (auto simp: fp_inv_def buffer_wf_def)
  then have "buffer_inv sh rs ts as"
    using f(4) buffer_modify [OF binv b(1), of ?b] by (auto split: if_splits)
  moreover have "concerns ab s s'" using f(4) ab(2) by (auto simp: concerns_def s' payload_def)
  moreover have "\<forall>v. stays s s' v \<or> moved ab s s' v \<and> pc_ok s' ts v"
    using ab f(1) by (simp add: stays_def moved_def pc_ok_def s')
  ultimately show ?thesis
    by (intro concerned_inv [OF inv disjI2 [OF u]]) (use use log b b' same in \<open>simp_all add: s' subset_insertI\<close>)
qed

text \<open>Steps of whoever makes and fills buffers: the buffers in use stay as they are.\<close>

lemma own_step_inv:
  assumes inv: "fp_inv s rs ts as" and s': "s' = s\<lparr>fp_sh := sh, fp_own := own\<rparr>"
    and binv: "buffer_inv sh rs' ts as'" and own: "own_ok s' rs' ts as'"
    and kept: "\<And>a. in_use s ts a \<Longrightarrow> map_of (bf_store sh) a = map_of (bf_store (fp_sh s)) a \<and> a \<notin> set rs' \<and> a \<notin> set as' \<and>
      a \<noteq> g_deadrefs sh"
  shows "fp_inv s' rs' ts as'"
proof -
  have h: "holders s' = holders s" and u: "in_use s' = in_use s"
    by (simp_all add: holders_def in_use_def s' fun_eq_iff)
  have "use_ok s' rs' ts as' a" if a: "in_use s ts a" for a
  proof -
    have "same_view s s' a" using kept [OF a] h by (simp add: same_view_def payload_def s')
    moreover have "use_ok s rs ts as a" using inv a by (simp add: fp_inv_def)
    ultimately show ?thesis by (rule use_ok_view) (use kept [OF a] in \<open>simp_all add: s'\<close>)
  qed
  moreover have "pc_ok s' ts t" for t
  proof -
    have pc: "pc_ok s ts t" using inv by (simp add: fp_inv_def)
    let ?a = "td_retiree_buffer (fp_td s t)"
    have "map_of (bf_store sh) ?a = map_of (bf_store (fp_sh s)) ?a \<and> map_of (bf_store (fp_sh s)) ?a \<noteq> None" if "?a \<noteq> 0"
      using kept in_use_held [OF that, of ts] inv by (auto simp: fp_inv_def use_ok_def)
    then show ?thesis by (intro pc_ok_view [OF pc]) (simp_all add: s')
  qed
  ultimately show ?thesis using inv binv own u by (simp add: fp_inv_def log_ok_def s')
qed

lemma own_okD:
  assumes "fp_inv s rs ts as" "a \<in> set (fp_own s)"
  shows "map_of (bf_store (fp_sh s)) a \<noteq> None" "a \<notin> set (rs @ ts @ as)" "a \<noteq> g_deadrefs (fp_sh s)" "\<not> in_use s ts a"
  using assms by (auto simp: fp_inv_def own_ok_def)

lemma use_liveD:
  assumes "fp_inv s rs ts as" "in_use s ts a"
  shows "map_of (bf_store (fp_sh s)) a \<noteq> None" "a \<notin> set rs" "a \<notin> set as" "a \<noteq> g_deadrefs (fp_sh s)"
  using assms by (auto simp: fp_inv_def use_ok_def)

lemma made_inv:
  assumes inv: "fp_inv s rs ts as" and made: "made (fp_sh s) pool (ab, sh) rs' ts as' P"
    and sub: "set rs' \<subseteq> set rs" "set as' \<subseteq> set as" and pool: "set pool \<subseteq> set (rs @ as)"
  shows "fp_inv (s\<lparr>fp_sh := sh, fp_own := ab # fp_own s\<rparr>) rs' ts as'"
proof -
  let ?s' = "s\<lparr>fp_sh := sh, fp_own := ab # fp_own s\<rparr>"
  have m: "buffer_inv sh rs' ts as'" "ab \<notin> set (rs' @ ts @ as')" "ab \<noteq> g_deadrefs sh" "g_deadrefs sh = g_deadrefs (fp_sh s)"
    "ab \<in> set pool \<or> map_of (bf_store (fp_sh s)) ab = None" "map_of (bf_store sh) ab \<noteq> None"
    "\<forall>a. a \<notin> set (ab # pool) \<longrightarrow> map_of (bf_store sh) a = map_of (bf_store (fp_sh s)) a"
    using made by (auto simp: made_def)
  have u: "in_use ?s' = in_use s" by (simp add: in_use_def holders_def fun_eq_iff)
  have pool': "a \<notin> set pool" if "in_use s ts a \<or> a \<in> set (fp_own s)" for a
    using that pool use_liveD(2,3) [OF inv, of a] own_okD(2) [OF inv, of a] by auto
  have ne: "a \<noteq> ab" if "in_use s ts a \<or> a \<in> set (fp_own s)" for a
    using that m(5) pool' [OF that] use_liveD(1) [OF inv, of a] own_okD(1) [OF inv, of a] by auto
  have "own_ok ?s' rs' ts as'" unfolding own_ok_def u
  proof (intro conjI ballI)
    show "distinct (fp_own ?s')" using inv ne [of ab] by (auto simp: fp_inv_def own_ok_def)
    fix a assume a: "a \<in> set (fp_own ?s')"
    show "map_of (bf_store (fp_sh ?s')) a \<noteq> None" "a \<notin> set (rs' @ ts @ as')" "a \<noteq> g_deadrefs (fp_sh ?s')" "\<not> in_use s ts a"
      using a m ne [of a] pool' [of a] sub own_okD [OF inv, of a] by (cases "a = ab"; force)+
  qed
  moreover have "map_of (bf_store sh) a = map_of (bf_store (fp_sh s)) a \<and> a \<notin> set rs' \<and> a \<notin> set as' \<and> a \<noteq> g_deadrefs sh"
    if "in_use s ts a" for a
    using that m(4,7) ne [of a] pool' [of a] use_liveD [OF inv that] sub by auto
  ultimately show ?thesis by (intro own_step_inv [OF inv refl m(1)])
qed

lemma release_inv:
  assumes inv: "fp_inv s rs ts as" and ab: "ab \<in> set (fp_own s)" and run: "forkscan_release_buffer ab (fp_sh s) = Inr sh"
  shows "\<exists>rs' as'. fp_inv (s\<lparr>fp_sh := sh, fp_own := remove1 ab (fp_own s)\<rparr>) rs' ts as'"
proof -
  let ?s' = "s\<lparr>fp_sh := sh, fp_own := remove1 ab (fp_own s)\<rparr>"
  note o = own_okD [OF inv ab]
  have binv: "buffer_inv (fp_sh s) rs ts as" and own: "distinct (fp_own s)" using inv by (auto simp: fp_inv_def own_ok_def)
  obtain b where b: "map_of (bf_store (fp_sh s)) ab = Some b" using o(1) by auto
  obtain rs' as' n where rel: "buffer_inv sh rs' ts as'" "pooled b ab rs as rs' as'"
    "bf_store sh = AList.update ab (b\<lparr>ab_next := n\<rparr>) (bf_store (fp_sh s))" "g_deadrefs sh = g_deadrefs (fp_sh s)"
    using release_ok [OF binv b o(2,3)] run by auto
  have sub: "set rs' \<subseteq> insert ab (set rs)" "set as' \<subseteq> insert ab (set as)"
    using rel(2) by (auto simp: pooled_def split: if_splits)
  have u: "in_use ?s' = in_use s" by (simp add: in_use_def holders_def fun_eq_iff)
  have "own_ok ?s' rs' ts as'" unfolding own_ok_def u
  proof (intro conjI ballI)
    fix a assume "a \<in> set (fp_own ?s')"
    then have a: "a \<in> set (fp_own s)" "a \<noteq> ab" using own by auto
    show "map_of (bf_store (fp_sh ?s')) a \<noteq> None" "a \<notin> set (rs' @ ts @ as')" "a \<noteq> g_deadrefs (fp_sh ?s')" "\<not> in_use s ts a"
      using a(2) own_okD [OF inv a(1)] rel(3,4) sub by auto
  qed (use own in simp)
  moreover have "map_of (bf_store sh) a = map_of (bf_store (fp_sh s)) a \<and> a \<notin> set rs' \<and> a \<notin> set as' \<and> a \<noteq> g_deadrefs sh"
    if "in_use s ts a" for a
  proof -
    have "a \<noteq> ab" using o(4) that by blast
    then show ?thesis using rel(3,4) sub use_liveD [OF inv that] by auto
  qed
  ultimately have "fp_inv ?s' rs' ts as'" by (intro own_step_inv [OF inv refl rel(1)])
  then show ?thesis by blast
qed

text \<open>Publishing a filled buffer.\<close>

lemma publish_shared:
  assumes inv: "buffer_inv st rs ts as" and b: "map_of (bf_store st) ab = Some b" "int (length xs) \<le> ab_capacity b"
    and out: "ab \<notin> set (rs @ ts @ as)" "ab \<noteq> g_deadrefs st"
    and run: "buf_modify ab (\<lambda>b. b\<lparr>ab_addrs := xs @ drop (length xs) (ab_addrs b), ab_n_addrs := int (length xs)\<rparr>) st = Inr st1"
      "forkscan_buffer_push_back ab st1 = Inr st2"
  shows "buffer_inv st2 rs (ts @ [ab]) as" "\<forall>a. a \<noteq> ab \<longrightarrow> payload st2 a = payload st a" "g_deadrefs st2 = g_deadrefs st"
    "\<exists>c. map_of (bf_store st2) ab = Some c \<and> ab_n_addrs c = int (length xs) \<and> ab_ref_count c = 1 \<and> ab_free_idx c = 0 \<and>
      (\<forall>i<length xs. ab_addrs c ! i = xs ! i)"
proof -
  let ?b = "b\<lparr>ab_addrs := xs @ drop (length xs) (ab_addrs b), ab_n_addrs := int (length xs)\<rparr>"
  have nz: "ab \<noteq> 0" and wf: "buffer_wf b" using inv b by (auto simp: buffer_inv_def objects_inv_def)
  have st1: "st1 = st\<lparr>bf_store := AList.update ab ?b (bf_store st)\<rparr>" using run(1) b(1) nz by (auto simp: buf_modify_def)
  have "buffer_wf ?b" using wf b(2) by (auto simp: buffer_wf_def)
  then have inv1: "buffer_inv st1 rs ts as" unfolding st1 by (rule buffer_modify [OF inv b(1)]) simp_all
  have b1: "map_of (bf_store st1) ab = Some ?b" by (simp add: st1)
  have p: "buffer_inv st2 rs (ts @ [ab]) as" "map_of (bf_store st2) ab = Some (?b\<lparr>ab_ref_count := 1, ab_free_idx := 0, ab_next := 0\<rparr>)"
    "\<forall>a. a \<noteq> ab \<longrightarrow> payload st2 a = payload st1 a" "g_deadrefs st2 = g_deadrefs st1"
    using push_back_ok [OF inv1 b1 out(1)] out(2) run(2) by (auto simp: st1)
  show "buffer_inv st2 rs (ts @ [ab]) as" by (rule p)
  show "\<forall>a. a \<noteq> ab \<longrightarrow> payload st2 a = payload st a" "g_deadrefs st2 = g_deadrefs st"
    using p(3,4) by (simp_all add: st1 payload_def)
  show "\<exists>c. map_of (bf_store st2) ab = Some c \<and> ab_n_addrs c = int (length xs) \<and> ab_ref_count c = 1 \<and> ab_free_idx c = 0 \<and>
      (\<forall>i<length xs. ab_addrs c ! i = xs ! i)"
    using p(2) by (simp add: nth_append)
qed

lemma publish_inv:
  assumes inv: "fp_inv s rs ts as" and ab: "ab \<in> set (fp_own s)" and gc: "fp_gc s = 0"
    and b: "map_of (bf_store (fp_sh s)) ab = Some b" and xs: "xs \<noteq> []" "int (length xs) \<le> ab_capacity b"
    and run: "buf_modify ab (\<lambda>b. b\<lparr>ab_addrs := xs @ drop (length xs) (ab_addrs b), ab_n_addrs := int (length xs)\<rparr>)
      (fp_sh s) = Inr sh1" "forkscan_buffer_push_back ab sh1 = Inr sh2"
    and s': "s' = s\<lparr>fp_sh := sh2, fp_own := remove1 ab (fp_own s), fp_gc := ab, fp_gen := Suc (fp_gen s),
      fp_cur := (fp_cur s)(ab := fp_gen s), fp_pub := (fp_pub s)(fp_gen s := xs)\<rparr>"
  shows "fp_inv s' rs (ts @ [ab]) as"
proof -
  note o = own_okD [OF inv ab]
  have binv: "buffer_inv (fp_sh s) rs ts as" and own: "distinct (fp_own s)" and log: "log_ok s"
    using inv by (auto simp: fp_inv_def own_ok_def)
  note p = publish_shared [OF binv b xs(2) o(2,3) run]
  have nz: "ab \<noteq> 0" using binv b by (auto simp: buffer_inv_def objects_inv_def)
  have h: "holders s' = holders s" by (simp add: holders_def s' fun_eq_iff)
  have none: "holders s ab = {}" using o(4) nz by (simp add: in_use_def)
  have u: "in_use s' (ts @ [ab]) a \<longleftrightarrow> a = ab \<or> in_use s ts a" for a
    using nz gc by (auto simp: in_use_def h) (simp_all add: s')
  have cur: "fp_cur s a < fp_gen s" if "in_use s ts a" for a
    using inv that by (auto simp: fp_inv_def use_ok_def buf_ok_def history_ok_def)
  obtain c where c: "map_of (bf_store sh2) ab = Some c" "ab_n_addrs c = int (length xs)" "ab_ref_count c = 1" "ab_free_idx c = 0"
    "\<forall>i<length xs. ab_addrs c ! i = xs ! i" using p(4) by blast
  have "buf_ok s' (ts @ [ab]) ab c"
  proof -
    have "(fp_gen s, i, x) \<notin> set (fp_log s)" for i x using log by (auto simp: log_ok_def)
    moreover have "counts_ok s' ab c" using c none h by (simp add: counts_ok_def s')
    ultimately show ?thesis using c xs(1) none h
      by (auto simp: buf_ok_def ranges_ok_def queued_ok_def history_ok_def untouched_def s' nat_less_iff)
  qed
  then have use_ab: "use_ok s' rs (ts @ [ab]) as ab" using c(1) o(2,3) none h p(3) by (auto simp: use_ok_def s')
  have use: "use_ok s' rs (ts @ [ab]) as a" if a: "in_use s ts a" for a
  proof -
    have ne: "a \<noteq> ab" using a o(4) by blast
    then have "same_view s s' a" using cur [OF a] p(2) h gc a by (auto simp: same_view_def s' in_use_def)
    moreover have "use_ok s rs ts as a" using inv a by (simp add: fp_inv_def)
    ultimately show ?thesis
      by (rule use_ok_view) (use ne use_liveD [OF inv a] p(3) in \<open>auto simp: s' hd_append\<close>)
  qed
  have "own_ok s' rs (ts @ [ab]) as" unfolding own_ok_def u
  proof (intro conjI ballI)
    fix a assume "a \<in> set (fp_own s')"
    then have a: "a \<in> set (fp_own s)" "a \<noteq> ab" using own by (auto simp: s')
    note oa = own_okD [OF inv a(1)]
    show "map_of (bf_store (fp_sh s')) a \<noteq> None"
      using same_payload_n_addrs [of sh2 a "fp_sh s"] p(2) a(2) oa(1) by (simp add: s')
    show "a \<notin> set (rs @ (ts @ [ab]) @ as)" "a \<noteq> g_deadrefs (fp_sh s')" "\<not> (a = ab \<or> in_use s ts a)"
      using a(2) oa p(3) by (auto simp: s')
  qed (use own in \<open>simp add: s'\<close>)
  moreover have "inj_on (fp_cur s') {a. in_use s' (ts @ [ab]) a}"
    using inv cur o(4) unfolding u by (fastforce simp: fp_inv_def inj_on_def s')
  moreover have "pc_ok s' (ts @ [ab]) t" for t
  proof -
    let ?a = "td_retiree_buffer (fp_td s t)"
    have pc: "pc_ok s ts t" using inv by (simp add: fp_inv_def)
    have n: "?a \<noteq> ab \<and> map_option ab_n_addrs (map_of (bf_store sh2) ?a) = map_option ab_n_addrs (map_of (bf_store (fp_sh s)) ?a) \<and>
        map_of (bf_store (fp_sh s)) ?a \<noteq> None" if "?a \<noteq> 0"
    proof -
      note held = in_use_held [OF that, of ts]
      then have "?a \<noteq> ab" using o(4) by auto
      then show ?thesis using same_payload_n_addrs [of sh2 ?a "fp_sh s"] p(2) use_liveD(1) [OF inv held] by simp
    qed
    show ?thesis by (rule pc_ok_view [OF pc]) (use n in \<open>auto simp: s'\<close>)
  qed
  moreover have "log_ok s'" using log by (fastforce simp: log_ok_def s')
  ultimately show ?thesis using p(1) use use_ab u by (auto simp: fp_inv_def s')
qed

section \<open>Every interleaving keeps the invariant\<close>

lemma fp_step_inv:
  assumes os: "mmap_fresh os" "munmap_works os" and step: "fp_step os True True s s'" and inv: "fp_inv s rs ts as"
  shows "\<exists>rs' ts' as'. fp_inv s' rs' ts' as'"
  using step
proof cases
  case (acquire t td sh)
  then show ?thesis using acquire_inv [OF inv] by blast
next
  case (check t ab)
  then show ?thesis using check_inv [OF inv] by blast
next
  case (pop t ab sh)
  then show ?thesis using pop_inv [OF inv] by blast
next
  case (drop t ab sh)
  then show ?thesis using drop_inv [OF inv] by blast
next
  case (fetch t ab b e)
  then show ?thesis using fetch_inv [OF inv] by blast
next
  case (swap t b e ab sh)
  then show ?thesis using swap_inv [OF inv] by blast
next
  case (lose t b e ab sh)
  then have "sh = fp_sh s" 
    by (auto simp: claim_range_def buf_modify_def modify_def ld_def split: if_splits sum.splits option.splits)
  then have "s' = s\<lparr>fp_pc := (fp_pc s)(t := Top)\<rparr>" using lose by simp
  then show ?thesis using lose_inv [OF inv lose(2)] by blast
next
  case (take t ab td sh xs)
  have "pc_ok s ts t" using inv by (simp add: fp_inv_def)
  then have nz: "ab \<noteq> 0" using take by (auto simp: pc_ok_def Let_def)
  have u: "in_use s ts ab" using in_use_held [of s t ts] take(3) nz by simp
  obtain b where "buf_ok s ts ab b" using use_okD [OF inv u] .
  then have le: "\<forall>v\<in>holders s ab. td_begin_retiree_idx (fp_td s v) \<le> td_end_retiree_idx (fp_td s v)"
    by (simp add: buf_ok_def ranges_ok_def)
  have "td_begin_retiree_idx (fp_td s t) \<le> td_end_retiree_idx (fp_td s t)"
    using le take(3) by (simp add: holders_def)
  then have "td_begin_retiree_idx (fp_td s t) < td_end_retiree_idx (fp_td s t)"
    using take(2) \<open>pc_ok s ts t\<close> by (auto simp: pc_ok_def Let_def)
  then show ?thesis using take_inv [OF inv take(3) nz _ _ take(4) refl] take(1,2) by blast
next
  case (make_reclaimer ptrs ab sh)
  have binv: "buffer_inv (fp_sh s) rs ts as" using inv by (simp add: fp_inv_def)
  have "made (fp_sh s) rs (ab, sh) (tl rs) ts as (\<lambda>b. True)"
    using make_reclaimer_ok [OF os(1) binv make_reclaimer(2,3)] make_reclaimer(4) by (auto simp: or_fatal_def)
  moreover have "set (tl rs) \<subseteq> set rs" by (cases rs) auto
  ultimately have "fp_inv s' (tl rs) ts as" unfolding make_reclaimer(1) by (intro made_inv [OF inv]) auto
  then show ?thesis by blast
next
  case (make_aggregate cap ab sh)
  have binv: "buffer_inv (fp_sh s) rs ts as" using inv by (simp add: fp_inv_def)
  obtain as' where "set as' \<subseteq> set as" "made (fp_sh s) as (ab, sh) rs ts as' (\<lambda>b. ab_is_aggregate b \<and> cap \<le> ab_capacity b)"
    using make_aggregate_ok [OF os binv make_aggregate(2,3)] make_aggregate(4) by (auto simp: or_fatal_def)
  then have "fp_inv s' rs ts as'" unfolding make_aggregate(1) by (intro made_inv [OF inv]) auto
  then show ?thesis by blast
next
  case (release ab sh)
  then show ?thesis using release_inv [OF inv] by blast
next
  case (publish ab b xs sh1 sh2)
  then show ?thesis using publish_inv [OF inv] by blast
next
  case (gc_unref sh)
  then show ?thesis using gc_unref_inv [OF inv] by blast
qed

text \<open>The states the threads and the collector can bring about from the start of the program.\<close>

definition thread_data_init :: thread_data_t where
  "thread_data_init = \<lparr>td_user_routine = 0, td_user_arg = 0, td_next = 0, td_self = 0, td_user_stack_low = 0,
     td_user_stack_high = 0, td_stack_is_ours = False, td_is_active = False,
     td_ptr_list = \<lparr>q_e = [], q_capacity = 0, q_idx_head = 0, q_idx_tail = 0\<rparr>, td_wait_time_ms = 0,
     td_retiree_buffer = 0, td_begin_retiree_idx = 0, td_end_retiree_idx = 0, td_local_timestamp = 0,
     td_times_without_update = 0, td_local_block = \<lparr>mr_low = 0, mr_high = 0\<rparr>, td_ref_count = 0\<rparr>"

definition fp_init :: fp_state where
  "fp_init = \<lparr>fp_sh = buffer_init, fp_td = \<lambda>t. thread_data_init, fp_pc = \<lambda>t. Top, fp_own = [], fp_gc = 0,
     fp_gen = 0, fp_cur = \<lambda>a. 0, fp_pub = \<lambda>g. [], fp_log = []\<rparr>"

inductive fp_reach :: "os_t \<Rightarrow> bool \<Rightarrow> bool \<Rightarrow> fp_state \<Rightarrow> bool" for os g e where
  init: "fp_reach os g e fp_init"
| step: "fp_reach os g e s \<Longrightarrow> fp_step os g e s s' \<Longrightarrow> fp_reach os g e s'"

lemma fp_init_inv: "fp_inv fp_init [] [] []"
  using buffer_init_inv
  by (simp add: fp_inv_def own_ok_def log_ok_def pc_ok_def in_use_def holders_def thread_data_init_def fp_init_def)

lemma fp_reach_inv:
  assumes "mmap_fresh os" "munmap_works os" "fp_reach os True True s"
  shows "\<exists>rs ts as. fp_inv s rs ts as"
  using assms(3) by induction (use fp_init_inv fp_step_inv [OF assms(1,2)] in blast)+

end
