(* ===== verification/Free_Trace.thy ===== *)
theory Free_Trace
  imports Free_Ptrs
begin

text \<open>
  Runs of \<^verbatim>\<open>forkscan_util_free_ptrs\<close>: the sequential function is a sequence of moves of the
  interleaving semantics, it frees a whole buffer when it is left alone, and sample runs; then
  the properties of freeing.
\<close>

section \<open>The sequential function as moves of one thread\<close>


text \<open>Moves of one thread, in a given order, while the others wait.\<close>

definition view :: "fp_state \<Rightarrow> nat \<Rightarrow> thread_data_t \<times> buffer_state \<times> fp_pc \<times> size_t list" where
  "view s t = (fp_td s t, fp_sh s, fp_pc s t, map (\<lambda>(g, i, x). x) (fp_log s))"

lemma acquire_steps:
  assumes "view s t = (td, sh, Top, l)" "acquire_retiree td sh = Inr (td', sh')"
  shows "\<exists>s'. (thread_step os g e t)\<^sup>*\<^sup>* s s' \<and> view s' t = (td', sh', Top, l)"
proof (cases "td_retiree_buffer td = 0")
  case True
  then have "thread_step os g e t s (s\<lparr>fp_sh := sh', fp_td := (fp_td s)(t := td')\<rparr>)"
    using fp_step.acquire [of s t td' sh' os g e] assms by (simp add: view_def thread_step_def)
  then have "(thread_step os g e t)\<^sup>*\<^sup>* s (s\<lparr>fp_sh := sh', fp_td := (fp_td s)(t := td')\<rparr>)" by simp
  moreover have "view (s\<lparr>fp_sh := sh', fp_td := (fp_td s)(t := td')\<rparr>) t = (td', sh', Top, l)" using assms(1) by (simp add: view_def)
  ultimately show ?thesis by blast
next
  case False
  then show ?thesis using assms by (auto simp: acquire_retiree_def intro!: exI [of _ s])
qed

lemma pop_steps:
  assumes "view s t = (td, sh, Top, l)" "td_retiree_buffer td = ab" "ab \<noteq> 0" "td_begin_retiree_idx td = td_end_retiree_idx td"
    "retiree_done ab sh = Inr True" "forkscan_buffer_pop_retiree_buffer ab sh = Inr sh1"
    "forkscan_buffer_unref_buffer ab sh1 = Inr sh2"
  shows "\<exists>s'. (thread_step os g e t)\<^sup>*\<^sup>* s s' \<and> view s' t = (td\<lparr>td_retiree_buffer := 0\<rparr>, sh2, Top, l)"
proof -
  let ?s1 = "s\<lparr>fp_sh := sh1, fp_pc := (fp_pc s)(t := Drop)\<rparr>"
  let ?s2 = "?s1\<lparr>fp_sh := sh2, fp_td := (fp_td ?s1)(t := (fp_td ?s1 t)\<lparr>td_retiree_buffer := 0\<rparr>), fp_pc := (fp_pc ?s1)(t := Top)\<rparr>"
  have "thread_step os g e t s ?s1" using fp_step.pop [of s t ab sh1 os g e] assms by (simp add: view_def thread_step_def)
  moreover have "thread_step os g e t ?s1 ?s2" using fp_step.drop [of ?s1 t ab sh2 os g e] assms by (simp add: view_def thread_step_def)
  ultimately have "(thread_step os g e t)\<^sup>*\<^sup>* s ?s2" by simp
  moreover have "view ?s2 t = (td\<lparr>td_retiree_buffer := 0\<rparr>, sh2, Top, l)" using assms(1) by (simp add: view_def)
  ultimately show ?thesis by blast
qed

lemma three_steps: "r a b \<Longrightarrow> r b c \<Longrightarrow> r c d \<Longrightarrow> r\<^sup>*\<^sup>* a d"
  by (blast intro: converse_rtranclp_into_rtranclp)

lemma claim_steps:
  assumes v: "view s t = (td, sh, Top, l)" and ab: "td_retiree_buffer td = ab" "ab \<noteq> 0"
    and idx: "td_begin_retiree_idx td = td_end_retiree_idx td" and r: "retiree_done ab sh = Inr False"
    "next_range ab sh = Inr (lo, hi)" "claim_range ab lo hi sh = Inr (won, sh1)"
  shows "\<exists>s'. (thread_step os g e t)\<^sup>*\<^sup>* s s' \<and> view s' t =
    (if won then (td\<lparr>td_begin_retiree_idx := lo, td_end_retiree_idx := hi\<rparr>, sh1, Take, l) else (td, sh1, Top, l))"
proof -
  let ?s1 = "s\<lparr>fp_pc := (fp_pc s)(t := Fetch)\<rparr>"
  let ?s2 = "?s1\<lparr>fp_pc := (fp_pc ?s1)(t := Swap lo hi)\<rparr>"
  let ?s3 = "if won then ?s2\<lparr>fp_sh := sh1, fp_pc := (fp_pc ?s2)(t := Take),
      fp_td := (fp_td ?s2)(t := (fp_td ?s2 t)\<lparr>td_begin_retiree_idx := lo, td_end_retiree_idx := hi\<rparr>)\<rparr>
    else ?s2\<lparr>fp_sh := sh1, fp_pc := (fp_pc ?s2)(t := Top)\<rparr>"
  have "thread_step os g e t s ?s1" using fp_step.check [of s t ab os g e] v ab idx r by (simp add: view_def thread_step_def)
  moreover have "thread_step os g e t ?s1 ?s2" using fp_step.fetch [of ?s1 t ab lo hi g os e] v ab r by (simp add: view_def thread_step_def)
  moreover have "thread_step os g e t ?s2 ?s3"
    using fp_step.swap [of ?s2 t lo hi ab sh1 os g e] fp_step.lose [of ?s2 t lo hi ab sh1 os g e] v ab r by (simp add: view_def thread_step_def)
  ultimately have "(thread_step os g e t)\<^sup>*\<^sup>* s ?s3" by (rule three_steps)
  moreover have "view ?s3 t = (if won then (td\<lparr>td_begin_retiree_idx := lo, td_end_retiree_idx := hi\<rparr>, sh1, Take, l)
      else (td, sh1, Top, l))" using v by (simp add: view_def)
  ultimately show ?thesis by blast
qed

lemma take_steps:
  assumes "view s t = (td, sh, pc, l)" "pc = Take \<or> pc = Top \<and> td_retiree_buffer td \<noteq> 0 \<and>
      td_begin_retiree_idx td \<noteq> td_end_retiree_idx td" "free_one td sh = Inr (td', sh', xs)"
  shows "\<exists>s'. (thread_step os g e t)\<^sup>*\<^sup>* s s' \<and> view s' t = (td', sh', Top, xs @ l)"
proof -
  let ?s' = "s\<lparr>fp_sh := sh', fp_td := (fp_td s)(t := td'), fp_pc := (fp_pc s)(t := Top),
      fp_log := map (\<lambda>x. (fp_cur s (td_retiree_buffer td), td_begin_retiree_idx (fp_td s t), x)) xs @ fp_log s\<rparr>"
  have v: "fp_td s t = td" "fp_sh s = sh" "fp_pc s t = pc" using assms(1) by (simp_all add: view_def)
  have "fp_step os g e s ?s'"
    by (rule fp_step.take) (use v assms(2,3) in simp_all)
  then have "thread_step os g e t s ?s'" by (simp add: thread_step_def)
  then have "(thread_step os g e t)\<^sup>*\<^sup>* s ?s'" by simp
  moreover have "view ?s' t = (td', sh', Top, xs @ l)" using assms(1) by (simp add: view_def comp_def)
  ultimately show ?thesis by blast
qed

lemma free_one_short: "free_one td st = Inr (td', st', xs) \<Longrightarrow> rev xs = xs"
  by (auto simp: free_one_def bind_res_eq_Inr Let_def split: if_splits)

lemma iter_steps:
  assumes v: "view s t = (td, sh, Top, l)" and run: "free_ptrs_iter td sh = Inr (td', sh', xs, ret)"
  shows "\<exists>s'. (thread_step os g e t)\<^sup>*\<^sup>* s s' \<and> view s' t = (td', sh', Top, rev xs @ l)"
proof -
  obtain td1 sh1 where a: "acquire_retiree td sh = Inr (td1, sh1)"
    using run by (auto simp: free_ptrs_iter_def bind_res_eq_Inr)
  obtain s1 where s1: "(thread_step os g e t)\<^sup>*\<^sup>* s s1" "view s1 t = (td1, sh1, Top, l)" using acquire_steps [OF v a] by blast
  let ?ab = "td_retiree_buffer td1"
  have "\<exists>s'. (thread_step os g e t)\<^sup>*\<^sup>* s1 s' \<and> view s' t = (td', sh', Top, rev xs @ l)"
  proof (cases "?ab = 0")
    case True
    then show ?thesis using run a s1(2) by (auto simp: free_ptrs_iter_def Let_def)
  next
    case ab: False
    show ?thesis
    proof (cases "td_begin_retiree_idx td1 = td_end_retiree_idx td1")
      case False
      then have "free_one td1 sh1 = Inr (td', sh', xs)"
        using run a ab by (auto simp: free_ptrs_iter_def Let_def bind_res_eq_Inr)
      then show ?thesis using take_steps [OF s1(2), of td' sh' xs] free_one_short False ab by auto
    next
      case idx: True
      obtain don where don: "retiree_done ?ab sh1 = Inr don"
        using run a ab idx by (auto simp: free_ptrs_iter_def Let_def bind_res_eq_Inr)
      show ?thesis
      proof (cases don)
        case True
        then show ?thesis using run a ab idx don pop_steps [OF s1(2) refl ab idx]
          by (auto simp: free_ptrs_iter_def Let_def bind_res_eq_Inr)
      next
        case False
        then obtain lo hi won sh2 where r: "next_range ?ab sh1 = Inr (lo, hi)" "claim_range ?ab lo hi sh1 = Inr (won, sh2)"
          using run a ab idx don by (auto simp: free_ptrs_iter_def Let_def bind_res_eq_Inr)
        let ?td2 = "td1\<lparr>td_begin_retiree_idx := lo, td_end_retiree_idx := hi\<rparr>"
        obtain s2 where s2: "(thread_step os g e t)\<^sup>*\<^sup>* s1 s2"
          "view s2 t = (if won then (?td2, sh2, Take, l) else (td1, sh2, Top, l))"
          using claim_steps [OF s1(2) refl ab idx _ r, of os g e] don False by auto
        show ?thesis
        proof (cases won)
          case True
          then have f: "free_one ?td2 sh2 = Inr (td', sh', xs)"
            using run a ab idx don \<open>\<not> don\<close> r by (auto simp: free_ptrs_iter_def Let_def bind_res_eq_Inr)
          have "view s2 t = (?td2, sh2, Take, l)" using s2(2) True by simp
          from take_steps [OF this _ f] s2(1) free_one_short [OF f] show ?thesis by (metis rtranclp_trans)
        next
          case False
          then show ?thesis using run a ab idx don \<open>\<not> don\<close> r s2 by (auto simp: free_ptrs_iter_def Let_def bind_res_eq_Inr)
        qed
      qed
    qed
  qed
  with s1(1) show ?thesis by (meson rtranclp_trans)
qed

lemma run_steps:
  assumes "view s t = (td0, sh0, Top, l)" "forkscan_util_free_ptrs n td0 sh0 = Inr (td, sh, xs)"
  shows "\<exists>s'. (thread_step os g e t)\<^sup>*\<^sup>* s s' \<and> view s' t = (td, sh, Top, rev xs @ l)"
  using assms
proof (induction n td0 sh0 arbitrary: s xs l rule: forkscan_util_free_ptrs.induct)
  case (1 td0 sh0)
  then show ?case by auto
next
  case (2 n td0 sh0)
  obtain td1 sh1 ys ret where i: "free_ptrs_iter td0 sh0 = Inr (td1, sh1, ys, ret)"
    using "2.prems"(2) by (auto simp: bind_res_eq_Inr)
  obtain s1 where s1: "(thread_step os g e t)\<^sup>*\<^sup>* s s1" "view s1 t = (td1, sh1, Top, rev ys @ l)"
    using iter_steps [OF "2.prems"(1) i] by blast
  show ?case
  proof (cases ret)
    case True
    then show ?thesis using "2.prems"(2) i s1 by auto
  next
    case False
    then obtain zs where z: "forkscan_util_free_ptrs n td1 sh1 = Inr (td, sh, zs)" "xs = ys @ zs"
      using "2.prems"(2) i by (auto simp: bind_res_eq_Inr)
    from "2.IH" [OF i refl refl refl False s1(2) z(1)] s1(1) z(2) show ?thesis by (auto intro: rtranclp_trans)
  qed
qed

section \<open>Freeing a whole buffer\<close>


definition draining :: "size_t \<Rightarrow> size_t list \<Rightarrow> nat \<Rightarrow> thread_data_t \<Rightarrow> buffer_state \<Rightarrow> bool" where
  "draining ab xs i td st \<longleftrightarrow> ab \<noteq> 0 \<and> td_retiree_buffer td = ab \<and> td_begin_retiree_idx td = int i \<and>
     (\<exists>b. map_of (bf_store st) ab = Some b \<and> ab_n_addrs b = int (length xs) \<and> length xs \<le> length (ab_addrs b) \<and>
        int i \<le> ab_free_idx b \<and> td_end_retiree_idx td = ab_free_idx b \<and> ab_free_idx b \<le> ab_n_addrs b \<and>
        (\<forall>j. i \<le> j \<longrightarrow> j < length xs \<longrightarrow> ab_addrs b ! j = xs ! j))"

definition unmarked :: "size_t list \<Rightarrow> size_t list" where
  "unmarked xs = filter (\<lambda>x. x AND 1 = 0) xs"

lemma drain_take:
  assumes "draining ab xs i td st" "i < length xs" "length xs \<le> 2 ^ 30" "td_begin_retiree_idx td < td_end_retiree_idx td"
  shows "\<exists>td' st'. free_one td st = Inr (td', st', unmarked [xs ! i]) \<and> draining ab xs (Suc i) td' st'"
proof -
  obtain b where b: "map_of (bf_store st) ab = Some b" "ab_n_addrs b = int (length xs)" "length xs \<le> length (ab_addrs b)"
    "td_end_retiree_idx td = ab_free_idx b" "ab_free_idx b \<le> ab_n_addrs b" "int i < ab_free_idx b"
    "\<forall>j. i \<le> j \<longrightarrow> j < length xs \<longrightarrow> ab_addrs b ! j = xs ! j"
    and td: "ab \<noteq> 0" "td_retiree_buffer td = ab" "td_begin_retiree_idx td = int i"
    using assms(1,4) by (auto simp: draining_def)
  let ?td = "td\<lparr>td_begin_retiree_idx := int i + 1\<rparr>"
  let ?b = "b\<lparr>ab_addrs := (ab_addrs b)[i := 2]\<rparr>"
  have i: "int i + 1 < 2 ^ 31" "i < length (ab_addrs b)" "ab_addrs b ! i = xs ! i" using assms(2,3) b by auto
  show ?thesis
  proof (cases "xs ! i AND 1 = 0")
    case True
    then have "free_one td st = Inr (?td, st\<lparr>bf_store := AList.update ab ?b (bf_store st)\<rparr>, unmarked [xs ! i])"
      using i td b(1) by (simp add: free_one_def rd_def wr_def cint_def buf_modify_def unmarked_def Let_def)
    moreover have "draining ab xs (Suc i) ?td (st\<lparr>bf_store := AList.update ab ?b (bf_store st)\<rparr>)"
      using b td by (auto simp: draining_def)
    ultimately show ?thesis by blast
  next
    case False
    then have "free_one td st = Inr (?td, st, unmarked [xs ! i])"
      using i td b(1) by (simp add: free_one_def rd_def cint_def unmarked_def Let_def)
    moreover have "draining ab xs (Suc i) ?td st" using b td by (auto simp: draining_def)
    ultimately show ?thesis by blast
  qed
qed

lemma drain_iter:
  assumes d: "draining ab xs i td st" and i: "i < length xs" "length xs \<le> 2 ^ 30"
  shows "\<exists>td' st'. free_ptrs_iter td st = Inr (td', st', unmarked [xs ! i], False) \<and> draining ab xs (Suc i) td' st'"
proof (cases "td_begin_retiree_idx td = td_end_retiree_idx td")
  case False
  then have "td_begin_retiree_idx td < td_end_retiree_idx td" using d by (auto simp: draining_def)
  from drain_take [OF d i this] d False show ?thesis by (auto simp: free_ptrs_iter_def acquire_retiree_def draining_def Let_def)
next
  case True
  obtain b where b: "map_of (bf_store st) ab = Some b" "ab_n_addrs b = int (length xs)" "length xs \<le> length (ab_addrs b)"
    "ab_free_idx b = int i" "\<forall>j. i \<le> j \<longrightarrow> j < length xs \<longrightarrow> ab_addrs b ! j = xs ! j"
    and td: "ab \<noteq> 0" "td_retiree_buffer td = ab" "td_begin_retiree_idx td = int i"
    using d True by (auto simp: draining_def)
  let ?e = "MIN_OF (int (length xs)) (int i + FREE_RANGE_SZ)"
  let ?td = "td\<lparr>td_begin_retiree_idx := int i, td_end_retiree_idx := ?e\<rparr>"
  let ?st = "st\<lparr>bf_store := AList.update ab (b\<lparr>ab_free_idx := ?e\<rparr>) (bf_store st)\<rparr>"
  have e: "int i < ?e" "?e \<le> int (length xs)" using i by (auto simp: MIN_OF_def FREE_RANGE_SZ_def)
  have "int i + FREE_RANGE_SZ < 2 ^ 31" using i by (simp add: FREE_RANGE_SZ_def)
  then have "retiree_done ab st = Inr False" "next_range ab st = Inr (int i, ?e)" "claim_range ab (int i) ?e st = Inr (True, ?st)"
    using b td i by (simp_all add: retiree_done_def next_range_def claim_range_def buf_modify_def cint_def FREE_RANGE_SZ_def)
  moreover have "draining ab xs i ?td ?st" using b td e by (auto simp: draining_def)
  note drain_take [OF this i]
  ultimately show ?thesis using e td True by (auto simp: free_ptrs_iter_def acquire_retiree_def Let_def)
qed

lemma drain_loop:
  assumes "draining ab xs i td st" "i + n = length xs" "length xs \<le> 2 ^ 30"
  shows "\<exists>td' st'. forkscan_util_free_ptrs n td st = Inr (td', st', unmarked (drop i xs)) \<and> draining ab xs (length xs) td' st'"
  using assms
proof (induction n arbitrary: i td st)
  case (Suc n)
  obtain td1 st1 where s: "free_ptrs_iter td st = Inr (td1, st1, unmarked [xs ! i], False)" "draining ab xs (Suc i) td1 st1"
    using drain_iter [OF Suc.prems(1)] Suc.prems(2,3) by auto
  moreover have "unmarked (drop i xs) = unmarked [xs ! i] @ unmarked (drop (Suc i) xs)"
    using Cons_nth_drop_Suc [of i xs, symmetric] Suc.prems(2) by (simp add: unmarked_def)
  ultimately show ?case using Suc.IH [OF s(2)] Suc.prems(2,3) by auto
qed (simp add: unmarked_def)

lemma iter_acquired:
  assumes "acquire_retiree td st = Inr (td1, st1)" "td_retiree_buffer td1 \<noteq> 0"
  shows "free_ptrs_iter td st = free_ptrs_iter td1 st1"
  using assms by (simp add: free_ptrs_iter_def acquire_retiree_def [of td1])

section \<open>The race past the end\<close>

text \<open>
  The sample run: one buffer with room for 256 addresses and one address in it, two threads
  that hold a reference to it.
\<close>

lemma sample_reclaimer:
  obtains p al b where "forkscan_make_reclaimer_buffer sample_os 1 buffer_init =
      Inr (p, buffer_init\<lparr>g_default_capacity := 256, bf_alloc := al, bf_store := [(p, b)]\<rparr>)"
    "p \<noteq> 0" "ab_addrs b = replicate 256 0" "ab_capacity b = 256"
proof -
  have "maps_top (al_mapped alloc_init) < 2 ^ 62" by (simp add: alloc_init_def maps_top_def)
  from alloc_mmap_ok [OF sample_os_ok(1) alloc_init_inv, of "0x1800" "''reclaimer''" False]
    sample_not_refused [OF this, of "0x1800"]
  obtain p al maps where run: "alloc_mmap sample_os 0x1800 ''reclaimer'' False alloc_init = Inr (p, al)" "apart p 0x1800 maps"
    by auto
  have sl: "slots 0x800 = replicate 256 0" by (simp add: slots_def)
  show thesis
    by (rule that [where p = p and al = al and b = "fresh_buffer\<lparr>ab_addrs := slots 0x800, ab_addrs_at := p + PAGESIZE, ab_n_addrs := 0,
          ab_capacity := 256, ab_is_aggregate := False, ab_ref_count := 0\<rparr>"])
      (use run in \<open>simp_all add: forkscan_make_reclaimer_buffer_def buffer_init_def MAX_THREAD_COUNT_def cint_def
        forkscan_alloc_mmap_def PAGESIZE_def apart_def sl fresh_buffer_def Let_def\<close>)
qed

definition two :: "'a \<Rightarrow> 'a \<Rightarrow> 'a \<Rightarrow> nat \<Rightarrow> 'a" where
  "two a b c t = (if t = 0 then a else if t = 1 then b else c)"

lemma two_simps [simp]: "two a b c 0 = a" "two a b c (Suc 0) = b" "(two a b c)(0 := x) = two x b c"
  "(two a b c)(Suc 0 := x) = two a x c"
  by (auto simp: two_def fun_eq_iff)

lemma two_const: "two a a a = (\<lambda>t. a)"
  by (auto simp: two_def fun_eq_iff)


text \<open>
  Both threads find the buffer not done; the second one takes the only range, then the first
  one reads \<^verbatim>\<open>free_idx\<close> again.
\<close>

definition race_buf :: "addr_buffer_t \<Rightarrow> int \<Rightarrow> int \<Rightarrow> addr_buffer_t" where
  "race_buf b r f = b\<lparr>ab_addrs := 0x100 # replicate 255 0, ab_n_addrs := 1, ab_ref_count := r, ab_free_idx := f, ab_next := 0\<rparr>"

definition race_td :: "size_t \<Rightarrow> int \<Rightarrow> int \<Rightarrow> thread_data_t" where
  "race_td p lo hi = thread_data_init\<lparr>td_retiree_buffer := p, td_begin_retiree_idx := lo, td_end_retiree_idx := hi\<rparr>"

definition race_sh :: "alloc_state \<Rightarrow> size_t \<Rightarrow> addr_buffer_t \<Rightarrow> buffer_state" where
  "race_sh al p c = buffer_init\<lparr>g_default_capacity := 256, bf_alloc := al, bf_store := [(p, c)],
     g_first_retiree_buffer := p, g_last_retiree_buffer := p\<rparr>"

definition race_st :: "alloc_state \<Rightarrow> size_t \<Rightarrow> addr_buffer_t \<Rightarrow> thread_data_t \<Rightarrow> thread_data_t \<Rightarrow> fp_pc \<Rightarrow> fp_pc \<Rightarrow>
    (nat \<times> int \<times> size_t) list \<Rightarrow> fp_state" where
  "race_st al p c t0 t1 p0 p1 log = \<lparr>fp_sh = race_sh al p c, fp_td = two t0 t1 thread_data_init,
     fp_pc = two p0 p1 Top, fp_own = [], fp_gc = p, fp_gen = 1,
     fp_cur = \<lambda>a. 0, fp_pub = (\<lambda>g. [])(0 := [0x100]), fp_log = log\<rparr>"

lemmas race_defs = race_st_def race_sh_def race_td_def race_buf_def thread_data_init_def buffer_init_def cint_def
  acquire_retiree_def forkscan_buffer_get_retiree_buffer_def retiree_done_def next_range_def claim_range_def
  buf_modify_def modify_def ld_def MIN_OF_def FREE_RANGE_SZ_def Let_def

lemma race_start:
  assumes "p \<noteq> 0" "ab_addrs b = replicate 256 0" "ab_capacity b = 256"
    and mk: "forkscan_make_reclaimer_buffer sample_os 1 buffer_init =
      Inr (p, buffer_init\<lparr>g_default_capacity := 256, bf_alloc := al, bf_store := [(p, b)]\<rparr>)"
  shows "fp_reach sample_os g e (race_st al p (race_buf b 1 0) thread_data_init thread_data_init Top Top [])"
proof -
  let ?sh = "buffer_init\<lparr>g_default_capacity := 256, bf_alloc := al, bf_store := [(p, b)]\<rparr>"
  let ?s = "fp_init\<lparr>fp_sh := ?sh, fp_own := [p]\<rparr>"
  have "fp_step sample_os g e fp_init ?s"
    using fp_step.make_reclaimer [of 1 sample_os fp_init p ?sh g e] mk by (simp add: fp_init_def MAX_THREAD_COUNT_def)
  then have r: "fp_reach sample_os g e ?s" by (rule fp_reach.step [OF fp_reach.init])
  let ?sh1 = "?sh\<lparr>bf_store := [(p, b\<lparr>ab_addrs := [0x100] @ drop 1 (ab_addrs b), ab_n_addrs := 1\<rparr>)]\<rparr>"
  have rep: "drop 1 (replicate 256 0) = replicate 255 (0 :: size_t)" by simp
  have cur: "(\<lambda>a. 0 :: nat)(p := 0) = (\<lambda>a. 0)" by auto
  have "fp_step sample_os g e ?s (race_st al p (race_buf b 1 0) thread_data_init thread_data_init Top Top [])"
    using fp_step.publish [of p ?s b e "[0x100]" ?sh1 "race_sh al p (race_buf b 1 0)" sample_os g] assms rep cur
    by (simp add: race_defs fp_init_def forkscan_buffer_push_back_def two_const)
  with r show ?thesis by (rule fp_reach.step)
qed

lemma race_steps:
  fixes al p b
  assumes "p \<noteq> 0"
  defines "S \<equiv> fp_step sample_os False True" and "c \<equiv> race_buf b" and "td \<equiv> race_td p" and "st \<equiv> race_st al p"
  shows "S (st (c 1 0) thread_data_init thread_data_init Top Top []) (st (c 2 0) (td 0 0) thread_data_init Top Top [])"
    and "S (st (c 2 0) (td 0 0) thread_data_init Top Top []) (st (c 3 0) (td 0 0) (td 0 0) Top Top [])"
    and "S (st (c 3 0) (td 0 0) (td 0 0) Top Top []) (st (c 3 0) (td 0 0) (td 0 0) Fetch Top [])"
    and "S (st (c 3 0) (td 0 0) (td 0 0) Fetch Top []) (st (c 3 0) (td 0 0) (td 0 0) Fetch Fetch [])"
    and "S (st (c 3 0) (td 0 0) (td 0 0) Fetch Fetch []) (st (c 3 0) (td 0 0) (td 0 0) Fetch (Swap 0 1) [])"
    and "S (st (c 3 0) (td 0 0) (td 0 0) Fetch (Swap 0 1) []) (st (c 3 1) (td 0 0) (td 0 1) Fetch Take [])"
    and "S (st (c 3 1) (td 0 0) (td 0 1) Fetch Take []) (st (c 3 1) (td 0 0) (td 0 1) (Swap 1 1) Take [])"
    and "S (st (c 3 1) (td 0 0) (td 0 1) (Swap 1 1) Take []) (st (c 3 1) (td 1 1) (td 0 1) Take Take [])"
    and "\<exists>d. S (st (c 3 1) (td 1 1) (td 0 1) Take Take []) (st d (td 2 1) (td 0 1) Top Take [(0, 1, 0)])"
proof -
  note defs = race_defs assms(2-)
  show "S (st (c 1 0) thread_data_init thread_data_init Top Top []) (st (c 2 0) (td 0 0) thread_data_init Top Top [])"
    using fp_step.acquire [of "race_st al p (race_buf b 1 0) thread_data_init thread_data_init Top Top []" 0 "race_td p 0 0"
      "race_sh al p (race_buf b 2 0)" sample_os False] assms(1) by (simp add: defs)
  show "S (st (c 2 0) (td 0 0) thread_data_init Top Top []) (st (c 3 0) (td 0 0) (td 0 0) Top Top [])"
    using fp_step.acquire [of "race_st al p (race_buf b 2 0) (race_td p 0 0) thread_data_init Top Top []" 1 "race_td p 0 0"
      "race_sh al p (race_buf b 3 0)" sample_os False] assms(1) by (simp add: defs)
  show "S (st (c 3 0) (td 0 0) (td 0 0) Top Top []) (st (c 3 0) (td 0 0) (td 0 0) Fetch Top [])"
    using fp_step.check [of "race_st al p (race_buf b 3 0) (race_td p 0 0) (race_td p 0 0) Top Top []" 0 p sample_os False]
      assms(1) by (simp add: defs)
  show "S (st (c 3 0) (td 0 0) (td 0 0) Fetch Top []) (st (c 3 0) (td 0 0) (td 0 0) Fetch Fetch [])"
    using fp_step.check [of "race_st al p (race_buf b 3 0) (race_td p 0 0) (race_td p 0 0) Fetch Top []" 1 p sample_os False]
      assms(1) by (simp add: defs)
  show "S (st (c 3 0) (td 0 0) (td 0 0) Fetch Fetch []) (st (c 3 0) (td 0 0) (td 0 0) Fetch (Swap 0 1) [])"
    using fp_step.fetch [of "race_st al p (race_buf b 3 0) (race_td p 0 0) (race_td p 0 0) Fetch Fetch []" 1 p 0 1 False sample_os]
      assms(1) by (simp add: defs)
  show "S (st (c 3 0) (td 0 0) (td 0 0) Fetch (Swap 0 1) []) (st (c 3 1) (td 0 0) (td 0 1) Fetch Take [])"
    using fp_step.swap [of "race_st al p (race_buf b 3 0) (race_td p 0 0) (race_td p 0 0) Fetch (Swap 0 1) []" 1 0 1 p
      "race_sh al p (race_buf b 3 1)" sample_os False] assms(1) by (simp add: defs)
  show "S (st (c 3 1) (td 0 0) (td 0 1) Fetch Take []) (st (c 3 1) (td 0 0) (td 0 1) (Swap 1 1) Take [])"
    using fp_step.fetch [of "race_st al p (race_buf b 3 1) (race_td p 0 0) (race_td p 0 1) Fetch Take []" 0 p 1 1 False sample_os]
      assms(1) by (simp add: defs)
  show "S (st (c 3 1) (td 0 0) (td 0 1) (Swap 1 1) Take []) (st (c 3 1) (td 1 1) (td 0 1) Take Take [])"
    using fp_step.swap [of "race_st al p (race_buf b 3 1) (race_td p 0 0) (race_td p 0 1) (Swap 1 1) Take []" 0 1 1 p
      "race_sh al p (race_buf b 3 1)" sample_os False] assms(1) by (simp add: defs)
  let ?d = "(race_buf b 3 1)\<lparr>ab_addrs := 0x100 # 2 # replicate 254 0\<rparr>"
  have rep: "replicate 255 (0 :: size_t) = 0 # replicate 254 0" by (simp add: numeral_eq_Suc)
  have run: "free_one (race_td p 1 1) (race_sh al p (race_buf b 3 1)) = Inr (race_td p 2 1, race_sh al p ?d, [0])"
    using assms(1) by (simp add: free_one_def rd_def wr_def defs rep)
  show "\<exists>d. S (st (c 3 1) (td 1 1) (td 0 1) Take Take []) (st d (td 2 1) (td 0 1) Top Take [(0, 1, 0)])"
    using fp_step.take [of "race_st al p (race_buf b 3 1) (race_td p 1 1) (race_td p 0 1) Take Take []" 0 p "race_td p 2 1"
      "race_sh al p ?d" "[0]" sample_os False] run unfolding S_def c_def td_def st_def
    by (intro exI [of _ ?d]) (simp add: race_st_def race_td_def)
qed

lemma reach_steps: "fp_reach os g e s \<Longrightarrow> (thread_step os g e t)\<^sup>*\<^sup>* s s' \<Longrightarrow> fp_reach os g e s'"
  by (rotate_tac, induction rule: rtranclp_induct) (auto simp: thread_step_def intro: fp_reach.step)

lemma thread_steps_frame:
  "(thread_step os g e t)\<^sup>*\<^sup>* s s' \<Longrightarrow> (\<forall>u. u \<noteq> t \<longrightarrow> fp_td s' u = fp_td s u \<and> fp_pc s' u = fp_pc s u) \<and>
     fp_own s' = fp_own s \<and> fp_gc s' = fp_gc s \<and> fp_gen s' = fp_gen s \<and> fp_cur s' = fp_cur s \<and> fp_pub s' = fp_pub s"
  by (induction rule: rtranclp_induct) (auto simp: thread_step_def)

text \<open>A run without a race: the only thread frees the only address.\<close>

lemma sample_free:
  obtains p al b td c where "p \<noteq> 0" "fp_reach sample_os g e (race_st al p (race_buf b 1 0) thread_data_init thread_data_init Top Top [])"
    "forkscan_util_free_ptrs 1 thread_data_init (race_sh al p (race_buf b 1 0)) = Inr (td, race_sh al p c, [0x100])"
proof -
  obtain p al b where mk: "forkscan_make_reclaimer_buffer sample_os 1 buffer_init =
      Inr (p, buffer_init\<lparr>g_default_capacity := 256, bf_alloc := al, bf_store := [(p, b)]\<rparr>)"
    "p \<noteq> 0" "ab_addrs b = replicate 256 0" "ab_capacity b = 256"
    by (rule sample_reclaimer)
  have one: "forkscan_util_free_ptrs 1 td st = bind_res (free_ptrs_iter td st) (\<lambda>(td, st, xs, ret). Inr (td, st, xs))" for td st
    by (auto simp: bind_res_def split: sum.splits)
  have "forkscan_util_free_ptrs 1 thread_data_init (race_sh al p (race_buf b 1 0)) =
      Inr (race_td p 1 1, race_sh al p ((race_buf b 2 1)\<lparr>ab_addrs := 2 # replicate 255 0\<rparr>), [0x100])"
    unfolding one using mk(2) by (simp add: free_ptrs_iter_def free_one_def rd_def wr_def race_defs)
  from that [OF mk(2) race_start [OF mk(2-4) mk(1)] this] show thesis .
qed

section \<open>Properties\<close>

text \<open>
  C5: for all interleavings of threads that free and collectors that make, publish and release
  buffers, in which no thread reads \<^verbatim>\<open>free_idx\<close> at the end of its buffer after having found it
  below, and in which every buffer published has at least one address: no entry of a published buffer is
  freed twice, and everything freed is an entry of a published buffer that no scan has marked. Both
  restrictions are needed; the code enforces neither.
\<close>

theorem free_ptrs_once:
  assumes "mmap_fresh os" and "munmap_works os" and "fp_reach os True True s"
  shows "distinct (map (\<lambda>(g, i, x). (g, i)) (fp_log s)) \<and>
    (\<forall>(g, i, x)\<in>set (fp_log s). g < fp_gen s \<and> 0 \<le> i \<and> i < int (length (fp_pub s g)) \<and>
       x = fp_pub s g ! nat i \<and> x AND 1 = 0)"
  using fp_reach_inv [OF assms] by (auto simp: fp_inv_def log_ok_def)

theorem free_ptrs_once_witness:
  "\<exists>s. fp_reach sample_os True True s \<and> map (\<lambda>(g, i, x). x) (fp_log s) = [0x100] \<and>
     distinct (map (\<lambda>(g, i, x). (g, i)) (fp_log s))"
proof -
  obtain p al b td c where s: "p \<noteq> 0"
    "fp_reach sample_os True True (race_st al p (race_buf b 1 0) thread_data_init thread_data_init Top Top [])"
    "forkscan_util_free_ptrs 1 thread_data_init (race_sh al p (race_buf b 1 0)) = Inr (td, race_sh al p c, [0x100])"
    by (rule sample_free)
  let ?s = "race_st al p (race_buf b 1 0) thread_data_init thread_data_init Top Top []"
  have v: "view ?s 0 = (thread_data_init, race_sh al p (race_buf b 1 0), Top, [])" by (simp add: view_def race_st_def)
  from run_steps [OF v s(3), of sample_os True True] obtain s' where s': "(thread_step sample_os True True 0)\<^sup>*\<^sup>* ?s s'"
    "view s' 0 = (td, race_sh al p c, Top, [0x100])" by auto
  then have "map (\<lambda>(g, i, x). x) (fp_log s') = [0x100]" by (simp add: view_def)
  moreover note r = reach_steps [OF s(2) s'(1)]
  moreover note conjunct1 [OF free_ptrs_once [OF sample_os_ok r]]
  ultimately show ?thesis by (intro exI [of _ s'] conjI)
qed

text \<open>
  C18: in the same interleavings, with the same two restrictions, the queue of retirees stays linked from its first to its last
  buffer, every reference count is the number of threads that hold the buffer and one for the
  collector that published it, and no buffer that is held, published or queued is in a pool.
\<close>

theorem retirees_counted:
  assumes "mmap_fresh os" and "munmap_works os" and "fp_reach os True True s"
  shows "\<exists>rs ts as. buffer_inv (fp_sh s) rs ts as \<and>
    (\<forall>ab. ab \<noteq> 0 \<and> (ab \<in> set ts \<or> fp_gc s = ab \<or> (\<exists>t. td_retiree_buffer (fp_td s t) = ab)) \<longrightarrow>
      ab \<notin> set rs \<and> ab \<notin> set as \<and>
      (\<exists>b. map_of (bf_store (fp_sh s)) ab = Some b \<and> finite {t. td_retiree_buffer (fp_td s t) = ab} \<and>
        ab_ref_count b = int (card {t. td_retiree_buffer (fp_td s t) = ab}) + (if fp_gc s = ab then 1 else 0)))"
proof -
  obtain rs ts as where inv: "fp_inv s rs ts as" using fp_reach_inv [OF assms] by blast
  have "ab \<notin> set rs \<and> ab \<notin> set as \<and> (\<exists>b. map_of (bf_store (fp_sh s)) ab = Some b \<and> counts_ok s ab b)"
    if "in_use s ts ab" for ab
    using inv that by (auto simp: fp_inv_def use_ok_def buf_ok_def)
  moreover have "buffer_inv (fp_sh s) rs ts as" using inv by (simp add: fp_inv_def)
  ultimately show ?thesis unfolding in_use_def counts_ok_def holders_def by blast
qed

theorem retirees_counted_witness:
  "\<exists>s ab b. fp_reach sample_os True True s \<and> fp_gc s = ab \<and> ab \<noteq> 0 \<and> map_of (bf_store (fp_sh s)) ab = Some b \<and>
     ab_ref_count b = int (card {t. td_retiree_buffer (fp_td s t) = ab}) + 1"
proof -
  obtain p al b where s: "p \<noteq> 0"
    "fp_reach sample_os True True (race_st al p (race_buf b 1 0) thread_data_init thread_data_init Top Top [])"
    by (rule sample_free)
  from retirees_counted [OF sample_os_ok s(2)] s show ?thesis by (fastforce simp: race_st_def)
qed

text \<open>
  C19: the restriction on the second reading of \<^verbatim>\<open>free_idx\<close> is needed. It is read once to see whether the buffer is done and
  again to claim a range. When another thread claims the last range in between, the empty range
  behind the end is claimed successfully, and the thread frees what stands behind the published
  addresses and goes on, since the beginning of its range has passed the end.
\<close>

theorem free_ptrs_past_end:
  "\<exists>s g i x. fp_reach sample_os False True s \<and> (g, i, x) \<in> set (fp_log s) \<and> int (length (fp_pub s g)) \<le> i \<and>
     (\<exists>t. td_end_retiree_idx (fp_td s t) < td_begin_retiree_idx (fp_td s t))"
proof -
  obtain p al b where mk: "forkscan_make_reclaimer_buffer sample_os 1 buffer_init =
      Inr (p, buffer_init\<lparr>g_default_capacity := 256, bf_alloc := al, bf_store := [(p, b)]\<rparr>)"
    "p \<noteq> 0" "ab_addrs b = replicate 256 0" "ab_capacity b = 256"
    by (rule sample_reclaimer)
  note r = race_steps [OF mk(2), of al b]
  obtain d where d: "fp_step sample_os False True (race_st al p (race_buf b 3 1) (race_td p 1 1) (race_td p 0 1) Take Take [])
      (race_st al p d (race_td p 2 1) (race_td p 0 1) Top Take [(0, 1, 0)])" using r(9) by blast
  note s = race_start [OF mk(2-4) mk(1), of False True, THEN fp_reach.step [OF _ r(1)], THEN fp_reach.step [OF _ r(2)],
      THEN fp_reach.step [OF _ r(3)], THEN fp_reach.step [OF _ r(4)], THEN fp_reach.step [OF _ r(5)],
      THEN fp_reach.step [OF _ r(6)], THEN fp_reach.step [OF _ r(7)], THEN fp_reach.step [OF _ r(8)],
      THEN fp_reach.step [OF _ d]]
  show ?thesis
    by (rule exI, rule exI [of _ 0], rule exI [of _ 1], rule exI [of _ 0], rule conjI [OF s])
      (auto simp: race_st_def race_td_def intro!: exI [of _ 0])
qed

text \<open>
  C20: every run of \<^verbatim>\<open>forkscan_util_free_ptrs\<close> is a sequence of moves of the calling thread in the
  interleaving semantics, none of which touches what belongs to another thread or to the collector. They
  end in the state in which only the thread's data, the shared buffers and the record of the frees
  have changed, and these as the function says.
\<close>

theorem free_ptrs_simulated:
  assumes "fp_pc s t = Top" and "forkscan_util_free_ptrs n (fp_td s t) (fp_sh s) = Inr (td, sh, xs)"
  shows "\<exists>log. (thread_step os True True t)\<^sup>*\<^sup>* s (s\<lparr>fp_td := (fp_td s)(t := td), fp_sh := sh, fp_log := log\<rparr>) \<and>
    map (\<lambda>(g, i, x). x) log = rev xs @ map (\<lambda>(g, i, x). x) (fp_log s)"
proof -
  obtain s' where s': "(thread_step os True True t)\<^sup>*\<^sup>* s s'" "view s' t = (td, sh, Top, rev xs @ map (\<lambda>(g, i, x). x) (fp_log s))"
    using run_steps [of s t "fp_td s t" "fp_sh s" "map (\<lambda>(g, i, x). x) (fp_log s)" n td sh xs os True True] assms by (auto simp: view_def)
  note fr = thread_steps_frame [OF s'(1)]
  have td: "fp_td s' = (fp_td s)(t := td)" using fr s'(2) by (auto simp: view_def fun_eq_iff)
  have pc: "fp_pc s' = fp_pc s"
  proof
    fix u show "fp_pc s' u = fp_pc s u" using fr s'(2) assms(1) by (cases "u = t") (simp_all add: view_def)
  qed
  have "s' = s\<lparr>fp_td := (fp_td s)(t := td), fp_sh := sh, fp_log := fp_log s'\<rparr>"
    using fr td pc s'(2) by (cases s; cases s') (simp add: view_def)
  with s' show ?thesis by (intro exI [of _ "fp_log s'"]) (simp add: view_def)
qed

theorem free_ptrs_simulated_witness:
  "\<exists>s s'. (thread_step sample_os True True 0)\<^sup>*\<^sup>* s s' \<and> fp_log s = [] \<and> map (\<lambda>(g, i, x). x) (fp_log s') = [0x100]"
proof -
  obtain p al b td c where s:
    "forkscan_util_free_ptrs 1 thread_data_init (race_sh al p (race_buf b 1 0)) = Inr (td, race_sh al p c, [0x100])"
    by (rule sample_free)
  let ?s = "race_st al p (race_buf b 1 0) thread_data_init thread_data_init Top Top []"
  have e: "fp_pc ?s 0 = Top" "fp_td ?s 0 = thread_data_init" "fp_sh ?s = race_sh al p (race_buf b 1 0)" "fp_log ?s = []"
    by (simp_all add: race_st_def)
  obtain log where "(thread_step sample_os True True 0)\<^sup>*\<^sup>* ?s (?s\<lparr>fp_td := (fp_td ?s)(0 := td), fp_sh := race_sh al p c, fp_log := log\<rparr>)"
    "map (\<lambda>(g, i, x). x) log = rev [0x100] @ []"
    using free_ptrs_simulated [of ?s 0 1, unfolded e, OF refl s, of sample_os] by auto
  with e(4) show ?thesis by (intro exI [of _ ?s] exI [of _ "?s\<lparr>fp_td := (fp_td ?s)(0 := td), fp_sh := race_sh al p c, fp_log := log\<rparr>"]) simp
qed

text \<open>
  C21: left alone, a thread frees what a collection left to be freed: with the first retiree
  just published, as many rounds of the loop as it has addresses free exactly its unmarked
  addresses, in order, and leave the buffer done.
\<close>

theorem free_ptrs_drains:
  assumes inv: "buffer_inv st rs (ab # ts) as" and td: "td_retiree_buffer td = 0"
    and b: "map_of (bf_store st) ab = Some b" "ab_free_idx b = 0" "0 \<le> ab_ref_count b" "ab_ref_count b < 2 ^ 30"
    and n: "ab_n_addrs b = int n" "0 < n"
  shows "\<exists>td' st'. forkscan_util_free_ptrs n td st = Inr (td', st', filter (\<lambda>x. x AND 1 = 0) (addrs_of b)) \<and>
    td_retiree_buffer td' = ab \<and> retiree_done ab st' = Inr True"
proof -
  have wf: "buffer_wf b" by (rule object_wf [OF inv b(1)])
  let ?st = "st\<lparr>bf_store := AList.update ab (b\<lparr>ab_ref_count := ab_ref_count b + 1\<rparr>) (bf_store st)\<rparr>"
  let ?td = "td\<lparr>td_retiree_buffer := ab, td_begin_retiree_idx := 0, td_end_retiree_idx := 0\<rparr>"
  have nz: "ab \<noteq> 0" using inv b(1) by (auto simp: buffer_inv_def objects_inv_def)
  have acq: "acquire_retiree td st = Inr (?td, ?st)"
    using get_retiree_ok(1) [OF inv b(1,3,4)] td by (simp add: acquire_retiree_def)
  have len: "length (addrs_of b) = n" "n \<le> length (ab_addrs b)" "n \<le> 2 ^ 30"
    using wf n by (auto simp: buffer_wf_def addrs_of_def n_of_def)
  have d: "draining ab (addrs_of b) 0 ?td ?st"
    using nz b n len by (auto simp: draining_def addrs_of_def n_of_def)
  obtain m where m: "n = Suc m" using n(2) by (cases n) auto
  have "forkscan_util_free_ptrs n td st = forkscan_util_free_ptrs n ?td ?st"
    using iter_acquired [OF acq] nz by (simp add: m)
  moreover obtain td' st' where "forkscan_util_free_ptrs n ?td ?st = Inr (td', st', unmarked (drop 0 (addrs_of b)))"
    "draining ab (addrs_of b) n td' st'"
    using drain_loop [OF d, of n] len by auto
  ultimately show ?thesis using len n by (fastforce simp: unmarked_def draining_def retiree_done_def)
qed

theorem free_ptrs_drains_witness:
  "\<exists>st td td' st' ab. td_retiree_buffer td = 0 \<and> forkscan_util_free_ptrs 1 td st = Inr (td', st', [0x100]) \<and>
     retiree_done ab st' = Inr True"
proof -
  obtain p al b td c where s: "p \<noteq> 0"
    "fp_reach sample_os True True (race_st al p (race_buf b 1 0) thread_data_init thread_data_init Top Top [])"
    by (rule sample_free)
  obtain rs ts as where inv: "buffer_inv (race_sh al p (race_buf b 1 0)) rs ts as"
    using fp_reach_inv [OF sample_os_ok s(2)] by (auto simp: fp_inv_def race_st_def)
  then have "path ab_next (bf_store (race_sh al p (race_buf b 1 0))) (g_first_retiree_buffer (race_sh al p (race_buf b 1 0))) ts 0"
    by (simp only: buffer_inv_def lists_inv_def)
  then have "path ab_next [(p, race_buf b 1 0)] p ts 0" by (simp add: race_sh_def)
  moreover have "path ab_next [(p, race_buf b 1 0)] p [p] 0" using s(1) by (simp add: race_buf_def)
  ultimately have "ts = [p]" by (rule path_unique)
  with inv have "buffer_inv (race_sh al p (race_buf b 1 0)) rs (p # []) as" by simp
  note d = free_ptrs_drains [OF this, of thread_data_init "race_buf b 1 0" 1]
  have "map_of (bf_store (race_sh al p (race_buf b 1 0))) p = Some (race_buf b 1 0)" by (simp add: race_sh_def)
  moreover have "addrs_of (race_buf b 1 0) = [0x100]" by (simp add: addrs_of_def n_of_def race_buf_def)
  ultimately obtain td' st' where
    "forkscan_util_free_ptrs 1 thread_data_init (race_sh al p (race_buf b 1 0)) = Inr (td', st', [0x100])"
    "retiree_done p st' = Inr True"
    using d by (auto simp: thread_data_init_def race_buf_def simp del: forkscan_util_free_ptrs.simps)
  moreover have "td_retiree_buffer thread_data_init = 0" by (simp add: thread_data_init_def)
  ultimately show ?thesis by blast
qed

end
