(* ===== verification/Env.thy ===== *)
theory Env
  imports Queue Buffer
begin

text \<open>
  The configuration, \<^verbatim>\<open>src/env.c\<close>: four environment variables are read once, before the program
  starts. The environment is the parameter \<open>getenv\<close>; C's \<^verbatim>\<open>atoi\<close> is modelled on the strings it
  is defined for and overflows like any other \<open>int\<close> arithmetic.
\<close>

section \<open>The code\<close>

text \<open>\<^verbatim>\<open>atoi\<close>: white space, a sign, digits; whatever follows is ignored.\<close>

definition is_digit :: "char \<Rightarrow> bool" where
  "is_digit c \<longleftrightarrow> 48 \<le> (of_char c :: int) \<and> (of_char c :: int) \<le> 57"

definition digits_value :: "string \<Rightarrow> int" where
  "digits_value ds = foldl (\<lambda>n c. 10 * n + (of_char c - 48)) 0 ds"

definition atoi :: "string \<Rightarrow> int res" where
  "atoi s =
     (case dropWhile is_space s of
        [] \<Rightarrow> Inr 0
      | c # cs \<Rightarrow>
          if c = CHR ''-'' then cint (- digits_value (takeWhile is_digit cs))
          else if c = CHR ''+'' then cint (digits_value (takeWhile is_digit cs))
          else cint (digits_value (takeWhile is_digit (c # cs))))"

definition get_int :: "string option \<Rightarrow> int \<Rightarrow> int res" where
  "get_int val default_val = (case val of None \<Rightarrow> Inr default_val | Some s \<Rightarrow> atoi s)"

definition MAX_PTRS_PER_THREAD :: int where
  "MAX_PTRS_PER_THREAD = 1024 * 1024"

definition MIN_PTRS_PER_THREAD :: int where
  "MIN_PTRS_PER_THREAD = 1024"

definition DEFAULT_THROTTLING_QUEUE :: int where
  "DEFAULT_THROTTLING_QUEUE = 16"

definition MAX_THROTTLING_QUEUE :: int where
  "MAX_THROTTLING_QUEUE = 32"

definition MAX_CHILDREN :: int where
  "MAX_CHILDREN = 16"

text \<open>The bit trick: copy the highest bit into all lower ones.\<close>

definition smear :: "int \<Rightarrow> int" where
  "smear n0 =
     (let n1 = n0 OR drop_bit 1 n0; n2 = n1 OR drop_bit 2 n1; n4 = n2 OR drop_bit 4 n2;
          n8 = n4 OR drop_bit 8 n4
      in n8 OR drop_bit 16 n8)"

definition round_up_pow2 :: "int \<Rightarrow> int res" where
  "round_up_pow2 n = bind_res (cint (n - 1)) (\<lambda>n. cint (smear n + 1))"

definition env_ptrs_per_thread :: "int \<Rightarrow> int res" where
  "env_ptrs_per_thread v =
     bind_res (cint (v * 1024)) (\<lambda>n.
     bind_res (round_up_pow2 n) (\<lambda>n.
     Inr (if n < MIN_PTRS_PER_THREAD then MIN_PTRS_PER_THREAD
          else if n > MAX_PTRS_PER_THREAD then MAX_PTRS_PER_THREAD else n)))"

record env_t =
  g_forkscan_ptrs_per_thread :: int
  g_forkscan_report_statistics :: int
  g_forkscan_throttling_queue :: int
  g_forkscan_max_children :: int

definition env_init :: "(string \<Rightarrow> string option) \<Rightarrow> env_t res" where
  "env_init getenv =
     bind_res (get_int (getenv ''FORKSCAN_PTRS_PER_THREAD'') 32) (\<lambda>v.
     bind_res (env_ptrs_per_thread v) (\<lambda>ptrs.
     bind_res (get_int (getenv ''FORKSCAN_REPORT_STATS'') 0) (\<lambda>report.
     bind_res (get_int (getenv ''FORKSCAN_THROTTLING_QUEUE'') DEFAULT_THROTTLING_QUEUE) (\<lambda>throttling.
     let throttling = (if throttling \<le> 0 then 1 else throttling) in
     bind_res (get_int (getenv ''FORKSCAN_MAX_CHILDREN'') MAX_CHILDREN) (\<lambda>children.
     let children = (if children \<le> 0 then 1 else children) in
     Inr \<lparr>g_forkscan_ptrs_per_thread = ptrs, g_forkscan_report_statistics = (if report \<noteq> 0 then 1 else 0),
       g_forkscan_throttling_queue = (if throttling > MAX_THROTTLING_QUEUE then MAX_THROTTLING_QUEUE else throttling),
       g_forkscan_max_children = (if children > MAX_CHILDREN then MAX_CHILDREN else children)\<rparr>)))))"

section \<open>Rounding up to a power of two\<close>

lemma smear_step:
  assumes "\<And>i. bit (a :: int) i \<longleftrightarrow> (\<exists>j<k. bit y (i + j))"
  shows "bit (a OR drop_bit k a) i \<longleftrightarrow> (\<exists>j<k + k. bit y (i + j))"
proof
  assume "bit (a OR drop_bit k a) i"
  then consider j where "j < k" "bit y (i + j)" | j where "j < k" "bit y (k + i + j)"
    by (auto simp: bit_simps assms)
  then show "\<exists>j<k + k. bit y (i + j)"
  proof cases
    case (2 j)
    then show ?thesis by (intro exI [of _ "k + j"]) (simp add: ac_simps)
  qed (auto intro: trans_less_add1)
next
  assume "\<exists>j<k + k. bit y (i + j)"
  then obtain j where j: "j < k + k" "bit y (i + j)" by blast
  show "bit (a OR drop_bit k a) i"
  proof (cases "j < k")
    case False
    then have "j - k < k" "k + i + (j - k) = i + j" using j(1) by auto
    then show ?thesis using j(2) assms by (auto simp: bit_simps intro!: exI [of _ "j - k"])
  qed (use j assms in \<open>auto simp: bit_simps\<close>)
qed

lemma bit_smear: "bit (smear y) i \<longleftrightarrow> (\<exists>j<32. bit y (i + j))"
proof -
  let ?n1 = "y OR drop_bit 1 y" let ?n2 = "?n1 OR drop_bit 2 ?n1" let ?n4 = "?n2 OR drop_bit 4 ?n2"
  let ?n8 = "?n4 OR drop_bit 8 ?n4"
  have "bit ?n1 i \<longleftrightarrow> (\<exists>j<1 + 1. bit y (i + j))" for i by (rule smear_step) auto
  then have "bit ?n2 i \<longleftrightarrow> (\<exists>j<2 + 2. bit y (i + j))" for i by (intro smear_step) (simp add: numeral_2_eq_2)
  then have "bit ?n4 i \<longleftrightarrow> (\<exists>j<4 + 4. bit y (i + j))" for i by (intro smear_step) simp
  then have "bit ?n8 i \<longleftrightarrow> (\<exists>j<8 + 8. bit y (i + j))" for i by (intro smear_step) simp
  then have "bit (?n8 OR drop_bit 16 ?n8) i \<longleftrightarrow> (\<exists>j<16 + 16. bit y (i + j))" by (intro smear_step) simp
  then show ?thesis by (simp add: smear_def Let_def)
qed

lemma smear_mask:
  assumes "2 ^ m \<le> y" "y < 2 ^ Suc m" "m < 32"
  shows "smear y = 2 ^ Suc m - 1"
proof -
  have y: "y = take_bit (Suc m) y" using assms by (simp add: take_bit_int_eq_self)
  have above: "\<not> bit y j" if "m < j" for j using y that by (metis bit_take_bit_iff not_less_eq)
  have top: "bit y m"
  proof -
    have "y div 2 ^ m = 1" using assms(1,2) by (intro int_div_pos_eq [of _ _ _ "y - 2 ^ m"]) auto
    then show ?thesis by (simp add: bit_iff_odd)
  qed
  have "smear y = mask (Suc m)"
  proof (rule bit_eqI)
    fix i
    show "bit (smear y) i \<longleftrightarrow> bit (mask (Suc m) :: int) i"
      using top above assms(3) by (auto simp: bit_smear bit_mask_iff less_Suc_eq_le intro!: exI [of _ "m - i"])
        (metis leI le_add1 le_trans)
  qed
  then show ?thesis by (simp add: mask_eq_exp_minus_1)
qed

text \<open>The highest bit of a positive number.\<close>

lemma log2_bounds: "0 < (y :: int) \<Longrightarrow> y < 2 ^ k \<Longrightarrow> \<exists>m<k. 2 ^ m \<le> y \<and> y < 2 ^ Suc m"
proof (induction k)
  case (Suc k)
  then show ?case by (cases "y < 2 ^ k") (auto intro: less_SucI)
qed simp

lemma smear_step_neg:
  assumes "(y :: int) < 0"
  shows "y \<le> y OR drop_bit k y \<and> y OR drop_bit k y < 0"
proof -
  let ?z = "NOT y AND NOT (drop_bit k y)"
  have "0 \<le> NOT y" "0 \<le> NOT (drop_bit k y)" using assms by (simp_all add: not_int_def)
  then have "0 \<le> ?z" "?z \<le> NOT y" by (simp_all add: AND_upper1)
  moreover have "y OR drop_bit k y = NOT ?z" by (rule or_eq_not_not_and)
  moreover have "NOT y = - y - 1" "NOT ?z = - ?z - 1" by (simp_all only: not_int_def)
  ultimately show ?thesis by linarith
qed

lemma smear_neg: "y < 0 \<Longrightarrow> y \<le> smear y \<and> smear y < 0"
  unfolding smear_def Let_def by (meson order_trans smear_step_neg)

text \<open>A positive number of at most 30 bits is rounded up to the next power of two.\<close>

lemma round_up_ok:
  assumes n: "1 < n" "n \<le> 2 ^ 30"
  obtains k where "round_up_pow2 n = Inr (2 ^ k)" "n \<le> 2 ^ k" "2 ^ k < 2 * n" "k \<le> 30"
proof -
  have "0 < n - 1" "n - 1 < 2 ^ 30" using n by auto
  from log2_bounds [OF this] obtain m where m: "m < 30" "2 ^ m \<le> n - 1" "n - 1 < 2 ^ Suc m" by blast
  have p: "(2 :: int) ^ Suc m \<le> 2 ^ 30" using m(1) by (intro power_increasing) auto
  have "smear (n - 1) = 2 ^ Suc m - 1" by (rule smear_mask [OF m(2,3)]) (use m(1) in simp)
  then have "round_up_pow2 n = Inr (2 ^ Suc m)" using n p by (simp add: round_up_pow2_def cint_def)
  then show thesis using that [of "Suc m"] m by simp
qed

definition power_in_bounds :: "int \<Rightarrow> bool" where
  "power_in_bounds n \<longleftrightarrow> (\<exists>k\<ge>10. k \<le> 20 \<and> n = 2 ^ k)"

lemma env_ptrs_ok:
  assumes v: "- (2 ^ 21) < v" "v \<le> 2 ^ 20"
  shows "\<exists>n. env_ptrs_per_thread v = Inr n \<and> power_in_bounds n \<and>
    (1 \<le> v \<and> v \<le> 1024 \<longrightarrow> 1024 * v \<le> n \<and> n < 2048 * v)"
proof (cases "1 \<le> v")
  case True
  have "1 < 1024 * v" "1024 * v \<le> 2 ^ 30" using True v by auto
  then obtain k where k: "round_up_pow2 (1024 * v) = Inr (2 ^ k)" "1024 * v \<le> 2 ^ k" "2 ^ k < 2 * (1024 * v)" "k \<le> 30"
    by (rule round_up_ok)
  have c: "cint (v * 1024) = Inr (1024 * v)" using v by (simp add: cint_def)
  have k10: "10 \<le> k"
  proof (rule ccontr)
    assume "\<not> 10 \<le> k"
    then have "(2 :: int) ^ k \<le> 2 ^ 9" by (intro power_increasing) auto
    then show False using k(2) True by simp
  qed
  have lo: "(2 :: int) ^ 10 \<le> 2 ^ k" using k10 by (intro power_increasing) auto
  show ?thesis
  proof (cases "k \<le> 20")
    case le: True
    then have "(2 :: int) ^ k \<le> 2 ^ 20" by (intro power_increasing) auto
    then have "env_ptrs_per_thread v = Inr (2 ^ k)"
      using c k(1) lo by (simp add: env_ptrs_per_thread_def MIN_PTRS_PER_THREAD_def MAX_PTRS_PER_THREAD_def)
    then show ?thesis using k k10 le by (auto simp: power_in_bounds_def)
  next
    case False
    then have gt: "(2 :: int) ^ 21 \<le> 2 ^ k" by (intro power_increasing) auto
    then have "env_ptrs_per_thread v = Inr (2 ^ 20)"
      using c k(1) lo by (simp add: env_ptrs_per_thread_def MIN_PTRS_PER_THREAD_def MAX_PTRS_PER_THREAD_def)
    moreover have "\<not> v \<le> 1024" using gt k(3) by auto
    moreover have "power_in_bounds (2 ^ 20)" unfolding power_in_bounds_def by (intro exI [of _ 20]) simp
    ultimately show ?thesis by auto
  qed
next
  case False
  have c: "cint (v * 1024) = Inr (1024 * v)" using v by (simp add: cint_def)
  have neg: "1024 * v - 1 \<le> smear (1024 * v - 1)" "smear (1024 * v - 1) < 0"
    using smear_neg [of "1024 * v - 1"] False by auto
  have "env_ptrs_per_thread v = Inr 1024"
    using c neg v False by (simp add: env_ptrs_per_thread_def round_up_pow2_def cint_def MIN_PTRS_PER_THREAD_def mult.commute)
  moreover have "power_in_bounds 1024" unfolding power_in_bounds_def by (intro exI [of _ 10]) simp
  ultimately show ?thesis using False by auto
qed

section \<open>Properties\<close>

text \<open>The values the program can be started with, without overflow: each of the four settings is read as an
  \<^verbatim>\<open>int\<close>, and rounding up the size of the queues stays within \<^verbatim>\<open>int\<close>.\<close>

definition env_fits :: "(string \<Rightarrow> string option) \<Rightarrow> bool" where
  "env_fits getenv \<longleftrightarrow> (\<exists>a b c v. get_int (getenv ''FORKSCAN_REPORT_STATS'') 0 = Inr a \<and>
     get_int (getenv ''FORKSCAN_THROTTLING_QUEUE'') DEFAULT_THROTTLING_QUEUE = Inr b \<and>
     get_int (getenv ''FORKSCAN_MAX_CHILDREN'') MAX_CHILDREN = Inr c \<and>
     get_int (getenv ''FORKSCAN_PTRS_PER_THREAD'') 32 = Inr v \<and> - (2 ^ 21) < v \<and> v \<le> 2 ^ 20)"

text \<open>
  C32: the configuration is well formed whatever the environment holds, as long as its numbers
  do not overflow: a thread's queue gets a capacity that is a power of two, as its index masks
  need, so that a queue made with it satisfies the queue invariant; the buffers for 256 such
  threads stay within the bounds of buffer.c; the throttling limit and the number of children
  are at least 1 and at most their maximum.
\<close>

theorem env_init_well_formed:
  assumes "env_fits getenv"
  shows "\<exists>e. env_init getenv = Inr e \<and> power_in_bounds (g_forkscan_ptrs_per_thread e) \<and>
    (\<forall>q buf. length buf = nat (g_forkscan_ptrs_per_thread e) \<longrightarrow>
       queue_inv (forkscan_queue_init q buf (word_of_int (g_forkscan_ptrs_per_thread e)))) \<and>
    g_forkscan_ptrs_per_thread e * MAX_THREAD_COUNT \<le> 2 ^ 30 \<and>
    1 \<le> g_forkscan_throttling_queue e \<and> g_forkscan_throttling_queue e \<le> MAX_THROTTLING_QUEUE \<and>
    1 \<le> g_forkscan_max_children e \<and> g_forkscan_max_children e \<le> MAX_CHILDREN"
proof -
  obtain v where v: "get_int (getenv ''FORKSCAN_PTRS_PER_THREAD'') 32 = Inr v" "- (2 ^ 21) < v" "v \<le> 2 ^ 20"
    using assms by (auto simp: env_fits_def)
  obtain n where n: "env_ptrs_per_thread v = Inr n" "power_in_bounds n" using env_ptrs_ok [OF v(2,3)] by blast
  obtain a b c where abc: "get_int (getenv ''FORKSCAN_REPORT_STATS'') 0 = Inr a"
    "get_int (getenv ''FORKSCAN_THROTTLING_QUEUE'') DEFAULT_THROTTLING_QUEUE = Inr b"
    "get_int (getenv ''FORKSCAN_MAX_CHILDREN'') MAX_CHILDREN = Inr c" using assms unfolding env_fits_def by metis
  obtain k where k: "10 \<le> k" "k \<le> 20" "n = 2 ^ k" using n(2) by (auto simp: power_in_bounds_def)
  have small: "n \<le> 2 ^ 20" unfolding k(3) by (intro power_increasing) (use k in auto)
  have "unat (word_of_int n :: size_t) = 2 ^ k"
  proof -
    have "uint (word_of_int n :: size_t) = n" 
      unfolding uint_word_of_int_eq by (rule take_bit_int_eq_self) (use small k(3) in auto)
    then show ?thesis by (simp add: unat_eq_nat_uint k(3) nat_power_eq)
  qed
  then have "queue_inv (forkscan_queue_init q buf (word_of_int n))" if "length buf = nat n" for q buf
    using that k by (intro queue_init_ok(1)) (auto simp: nat_power_eq)
  then show ?thesis using v n abc small
    by (auto simp: env_init_def Let_def MAX_THREAD_COUNT_def MAX_THROTTLING_QUEUE_def MAX_CHILDREN_def)
qed

theorem env_init_well_formed_witness:
  "\<exists>e. env_init (\<lambda>name. if name = ''FORKSCAN_PTRS_PER_THREAD'' then Some ''7'' else None) = Inr e \<and>
     power_in_bounds (g_forkscan_ptrs_per_thread e) \<and> 1 \<le> g_forkscan_max_children e"
proof -
  let ?g = "\<lambda>name. if name = ''FORKSCAN_PTRS_PER_THREAD'' then Some ''7'' else None"
  have seven: "atoi ''7'' = Inr 7" by code_simp
  then have "env_fits ?g" by (auto simp: env_fits_def get_int_def)
  from env_init_well_formed [OF this] show ?thesis by blast
qed

text \<open>
  The check against the maximum does not catch large settings: from 1048577 on, the
  arithmetic on the setting overflows before the bounds are checked.
\<close>

theorem env_ptrs_overflow:
  assumes "2 ^ 20 < v"
  shows "env_ptrs_per_thread v = Inl Int_overflow"
proof (cases "v * 1024 < 2 ^ 31")
  case True
  then have "0 < v * 1024 - 1" "v * 1024 - 1 < 2 ^ 31" using assms by auto
  from log2_bounds [OF this] obtain m where m: "m < 31" "2 ^ m \<le> v * 1024 - 1" "v * 1024 - 1 < 2 ^ Suc m" by blast
  have "(2 :: int) ^ 30 < 2 ^ Suc m" using m(3) assms by simp
  then have "30 < Suc m" by (rule power_less_imp_less_exp [rotated]) simp
  then have "m = 30" using m(1) by simp
  have "smear (v * 1024 - 1) = 2 ^ Suc m - 1" by (rule smear_mask [OF m(2,3)]) (use m(1) in simp)
  then show ?thesis using True assms \<open>m = 30\<close> by (simp add: env_ptrs_per_thread_def round_up_pow2_def cint_def)
next
  case False
  then show ?thesis by (simp add: env_ptrs_per_thread_def cint_def)
qed

theorem env_ptrs_overflow_witness: "env_ptrs_per_thread 2000000 = Inl Int_overflow"
  by (rule env_ptrs_overflow) simp

end
