(* ===== verification/Pool.thy ===== *)
theory Pool
  imports Buffer
begin

text \<open>
  The pool allocators that the macro \<^verbatim>\<open>DEFINE_POOL_ALLOC\<close> of \<^verbatim>\<open>src/metautil.h\<close> expands to: fixed
  size objects, mapped in batches and kept on a free list that is threaded through the objects.
  The pools for stacks (\<^verbatim>\<open>src/buffer.c\<close>), thread data and pointer lists (\<^verbatim>\<open>src/util.c\<close>) are
  instances. A pool's state is the head of the list and the \<open>next\<close> field of each free object.
\<close>

section \<open>The code\<close>

record pool_t =
  pl_head :: size_t
  pl_next :: "size_t store"

definition pool_push :: "size_t \<Rightarrow> pool_t \<Rightarrow> pool_t" where
  "pool_push node p = p\<lparr>pl_next := AList.update node (pl_head p) (pl_next p), pl_head := node\<rparr>"

text \<open>The loop that puts the objects of a batch on the list, all but the first.\<close>

definition pool_fill :: "size_t \<Rightarrow> size_t \<Rightarrow> nat \<Rightarrow> pool_t \<Rightarrow> pool_t" where
  "pool_fill arr dtsize batch_sz p = fold (\<lambda>i. pool_push (arr + of_nat i * dtsize)) [1..<batch_sz] p"

definition pool_alloc ::
    "(size_t \<Rightarrow> string \<Rightarrow> alloc_state \<Rightarrow> (size_t \<times> alloc_state) res) \<Rightarrow> size_t \<Rightarrow> nat \<Rightarrow> string \<Rightarrow>
      pool_t \<Rightarrow> alloc_state \<Rightarrow> (size_t \<times> pool_t \<times> alloc_state) res" where
  "pool_alloc mmap dtsize batch_sz reason p al =
     (if pl_head p \<noteq> 0
      then let ret = pl_head p in
        bind_res (ld (pl_next p) ret) (\<lambda>nxt.
        Inr (ret, p\<lparr>pl_head := nxt, pl_next := AList.delete ret (pl_next p)\<rparr>, al))
      else
        bind_res (mmap (dtsize * of_nat batch_sz) reason al) (\<lambda>(arr, al).
        Inr (arr, pool_fill arr dtsize batch_sz p, al)))"

definition pool_free :: "size_t \<Rightarrow> pool_t \<Rightarrow> pool_t" where
  "pool_free node p = pool_push node p"

text \<open>The pools: stacks handed to new threads, thread data, and the lists of retired pointers.\<close>

definition STACKSIZE :: size_t where
  "STACKSIZE = 2 * 1024 * 1024"

definition NSTACKS :: nat where
  "NSTACKS = 16"

definition MEMBLOCK_SIZE :: size_t where
  "MEMBLOCK_SIZE = PAGESIZE"

definition pool_alloc_stack :: "os_t \<Rightarrow> pool_t \<Rightarrow> alloc_state \<Rightarrow> (size_t \<times> pool_t \<times> alloc_state) res" where
  "pool_alloc_stack os = pool_alloc (forkscan_alloc_mmap os) STACKSIZE NSTACKS ''stack''"

definition forkscan_buffer_makestack ::
    "os_t \<Rightarrow> pool_t \<Rightarrow> alloc_state \<Rightarrow> ((size_t \<times> size_t) \<times> pool_t \<times> alloc_state) res" where
  "forkscan_buffer_makestack os p al =
     bind_res (pool_alloc_stack os p al) (\<lambda>(x, p, al). Inr ((x, STACKSIZE), p, al))"

definition forkscan_buffer_freestack :: "size_t \<Rightarrow> pool_t \<Rightarrow> pool_t" where
  "forkscan_buffer_freestack x p = pool_free x p"

definition pool_alloc_threaddata :: "os_t \<Rightarrow> pool_t \<Rightarrow> alloc_state \<Rightarrow> (size_t \<times> pool_t \<times> alloc_state) res" where
  "pool_alloc_threaddata os = pool_alloc (forkscan_alloc_mmap_shared os) MEMBLOCK_SIZE 8 ''threaddata''"

definition pool_alloc_ptrlist ::
    "os_t \<Rightarrow> size_t \<Rightarrow> pool_t \<Rightarrow> alloc_state \<Rightarrow> (size_t \<times> pool_t \<times> alloc_state) res" where
  "pool_alloc_ptrlist os ptrs_per_thread =
     pool_alloc (forkscan_alloc_mmap_shared os) (ptrs_per_thread * 8) 8 ''ptrlist''"

section \<open>The invariant\<close>

text \<open>
  Objects of \<open>sz\<close> bytes: each lies within a mapped block, no two overlap. \<open>fs\<close> are the free
  ones in the order of the list, \<open>ls\<close> those handed out.
\<close>

definition in_mapped :: "nat \<Rightarrow> (size_t \<times> size_t) list \<Rightarrow> size_t \<Rightarrow> bool" where
  "in_mapped sz maps x \<longleftrightarrow> (\<exists>(a, l)\<in>set maps. unat a \<le> unat x \<and> unat x + sz \<le> unat a + unat l)"

definition objects_apart :: "nat \<Rightarrow> size_t list \<Rightarrow> bool" where
  "objects_apart sz xs \<longleftrightarrow> distinct xs \<and>
     (\<forall>x\<in>set xs. \<forall>y\<in>set xs. x \<noteq> y \<longrightarrow> unat x + sz \<le> unat y \<or> unat y + sz \<le> unat x)"

definition pool_inv :: "nat \<Rightarrow> (size_t \<times> size_t) list \<Rightarrow> pool_t \<Rightarrow> size_t list \<Rightarrow> size_t list \<Rightarrow> bool" where
  "pool_inv sz maps p fs ls \<longleftrightarrow> path (\<lambda>n. n) (pl_next p) (pl_head p) fs 0 \<and>
     objects_apart sz (fs @ ls) \<and> (\<forall>x\<in>set (fs @ ls). x \<noteq> 0 \<and> in_mapped sz maps x)"

lemma path_delete [simp]: "a \<notin> set ps \<Longrightarrow> path nxt (AList.delete a s) p ps q = path nxt s p ps q"
  by (induction ps arbitrary: p) (auto simp: delete_conv' split: option.splits)

lemma pool_push_path:
  assumes "path (\<lambda>n. n) (pl_next p) (pl_head p) fs 0" "x \<notin> set fs" "x \<noteq> 0"
  shows "path (\<lambda>n. n) (pl_next (pool_push x p)) (pl_head (pool_push x p)) (x # fs) 0"
  using assms by (simp add: pool_push_def)

lemma objects_apart_perm: "mset xs = mset ys \<Longrightarrow> objects_apart sz xs = objects_apart sz ys"
  using mset_eq_setD [of xs ys] by (auto simp: objects_apart_def dest: mset_eq_imp_distinct_iff)

lemma pool_free_ok:
  assumes inv: "pool_inv sz maps p fs ls" and x: "x \<in> set ls"
  shows "pool_inv sz maps (pool_free x p) (x # fs) (remove1 x ls)"
proof -
  have d: "distinct (fs @ ls)" using inv by (simp add: pool_inv_def objects_apart_def)
  have "mset (fs @ ls) = mset ((x # fs) @ remove1 x ls)" using x by simp
  note same = objects_apart_perm [OF this, of sz] mset_eq_setD [OF this]
  have "path (\<lambda>n. n) (pl_next (pool_push x p)) (pl_head (pool_push x p)) (x # fs) 0"
    by (rule pool_push_path) (use inv d x in \<open>auto simp: pool_inv_def\<close>)
  then show ?thesis using inv same by (simp add: pool_inv_def pool_free_def)
qed

lemma pool_reuse_ok:
  assumes inv: "pool_inv sz maps p fs ls" and ne: "pl_head p \<noteq> 0"
  shows "\<exists>p'. pool_alloc mmap dtsize batch reason p al = Inr (hd fs, p', al) \<and> fs \<noteq> [] \<and>
    pool_inv sz maps p' (tl fs) (hd fs # ls)"
proof -
  have pa: "path (\<lambda>n. n) (pl_next p) (pl_head p) fs 0" using inv by (simp add: pool_inv_def)
  then obtain x gs where fs: "fs = x # gs" using ne path_head [OF pa] by (cases fs) auto
  then obtain n where n: "pl_head p = x" "map_of (pl_next p) x = Some n" "path (\<lambda>n. n) (pl_next p) n gs 0"
    using pa by (auto split: option.splits)
  have "x \<notin> set gs" using path_distinct [OF pa] fs by simp
  moreover have "mset (fs @ ls) = mset (gs @ x # ls)" using fs by simp
  note objects_apart_perm [OF this, of sz]
  ultimately have "pool_inv sz maps (p\<lparr>pl_head := n, pl_next := AList.delete x (pl_next p)\<rparr>) gs (x # ls)"
    using inv n(3) fs by (auto simp: pool_inv_def)
  then show ?thesis using ne n fs by (auto simp: pool_alloc_def)
qed

text \<open>The addresses of a new batch, in the order in which they end up on the list.\<close>

definition batch_objects :: "size_t \<Rightarrow> size_t \<Rightarrow> nat \<Rightarrow> size_t list" where
  "batch_objects arr dtsize n = rev (map (\<lambda>i. arr + of_nat i * dtsize) [1..<n])"

lemma pool_fill_path:
  assumes "path (\<lambda>n. n) (pl_next p) (pl_head p) [] 0"
    and "distinct (batch_objects arr dtsize n)" "\<forall>x\<in>set (batch_objects arr dtsize n). x \<noteq> 0"
  shows "path (\<lambda>n. n) (pl_next (pool_fill arr dtsize n p)) (pl_head (pool_fill arr dtsize n p)) (batch_objects arr dtsize n) 0"
  using assms(2,3)
proof (induction n)
  case 0
  then show ?case using assms(1) by (simp add: pool_fill_def batch_objects_def)
next
  case (Suc n)
  show ?case
  proof (cases "n = 0")
    case True
    then show ?thesis using assms(1) by (simp add: pool_fill_def batch_objects_def)
  next
    case False
    let ?x = "arr + of_nat n * dtsize"
    have b: "batch_objects arr dtsize (Suc n) = ?x # batch_objects arr dtsize n" using False by (simp add: batch_objects_def)
    have f: "pool_fill arr dtsize (Suc n) p = pool_push ?x (pool_fill arr dtsize n p)" using False by (simp add: pool_fill_def)
    have "path (\<lambda>n. n) (pl_next (pool_fill arr dtsize n p)) (pl_head (pool_fill arr dtsize n p)) (batch_objects arr dtsize n) 0"
      by (rule Suc.IH) (use Suc.prems b in auto)
    from pool_push_path [OF this, of ?x] show ?thesis using Suc.prems b f by auto
  qed
qed

lemma batch_unat:
  fixes arr dtsize :: size_t
  assumes "unat arr + unat dtsize * n < 2 ^ 64" "i < n"
  shows "unat (arr + of_nat i * dtsize) = unat arr + i * unat dtsize"
proof -
  have "i * unat dtsize \<le> n * unat dtsize" using assms(2) by simp
  then have "unat arr + i * unat dtsize \<le> unat arr + unat dtsize * n" by (simp only: mult.commute add_le_cancel_left)
  then have lt: "unat arr + i * unat dtsize < 2 ^ 64" using assms(1) by (rule le_less_trans)
  have "arr + of_nat i * dtsize = of_nat (unat arr + i * unat dtsize)" by simp
  then show ?thesis using lt by (simp only: unat_of_nat) simp
qed

lemma batch_ok:
  assumes lt: "unat arr + unat dtsize * n < 2 ^ 64" and pos: "0 < unat dtsize" "0 < n" "arr \<noteq> 0"
  shows "objects_apart (unat dtsize) (batch_objects arr dtsize n @ [arr])"
    "\<forall>x\<in>set (batch_objects arr dtsize n @ [arr]). x \<noteq> 0 \<and> unat arr \<le> unat x \<and>
       unat x + unat dtsize \<le> unat arr + unat dtsize * n"
proof -
  let ?f = "\<lambda>i. arr + of_nat i * dtsize"
  have s: "set (batch_objects arr dtsize n @ [arr]) = ?f ` {..<n}"
  proof -
    have "{..<n} = insert 0 {1..<n}" using pos(2) by auto
    then show ?thesis by (simp add: batch_objects_def insert_commute)
  qed
  have u: "unat (?f i) = unat arr + i * unat dtsize" if "i < n" for i using batch_unat [OF lt that] .
  have inj: "inj_on ?f {..<n}"
  proof (rule inj_onI)
    fix i j assume "i \<in> {..<n}" "j \<in> {..<n}" "?f i = ?f j"
    then have "unat (?f i) = unat (?f j)" "i < n" "j < n" by auto
    then show "i = j" using u pos(1) by simp
  qed
  have "distinct (batch_objects arr dtsize n @ [arr])"
  proof -
    have "card (set (batch_objects arr dtsize n @ [arr])) = length (batch_objects arr dtsize n @ [arr])"
      unfolding s card_image [OF inj] using pos(2) by (simp add: batch_objects_def)
    then show ?thesis by (rule card_distinct)
  qed
  moreover have "unat x + unat dtsize \<le> unat y \<or> unat y + unat dtsize \<le> unat x"
    if x: "x \<in> ?f ` {..<n}" and y: "y \<in> ?f ` {..<n}" and ne: "x \<noteq> y" for x y
  proof -
    obtain i j where ij: "i < n" "j < n" "x = ?f i" "y = ?f j" using x y by auto
    then have "i \<noteq> j" using ne by auto
    then consider "Suc i \<le> j" | "Suc j \<le> i" by linarith
    then have "Suc i * unat dtsize \<le> j * unat dtsize \<or> Suc j * unat dtsize \<le> i * unat dtsize"
      by cases (blast intro: mult_le_mono1)+
    then show ?thesis using u ij by auto
  qed
  ultimately show "objects_apart (unat dtsize) (batch_objects arr dtsize n @ [arr])"
    unfolding objects_apart_def s by blast
  have "x \<noteq> 0 \<and> unat arr \<le> unat x \<and> unat x + unat dtsize \<le> unat arr + unat dtsize * n" if x: "x \<in> ?f ` {..<n}" for x
  proof -
    obtain i where i: "i < n" "x = ?f i" using x by auto
    have "unat x = unat arr + i * unat dtsize" using u i by simp
    moreover have "Suc i * unat dtsize \<le> n * unat dtsize" using i(1) by (intro mult_le_mono1) simp
    moreover have "unat arr \<noteq> 0" using pos(3) by (simp add: unat_eq_zero)
    ultimately show ?thesis by (auto simp: mult.commute)
  qed
  then show "\<forall>x\<in>set (batch_objects arr dtsize n @ [arr]). x \<noteq> 0 \<and> unat arr \<le> unat x \<and>
       unat x + unat dtsize \<le> unat arr + unat dtsize * n" unfolding s by blast
qed

text \<open>A source of blocks for a pool: it stops the program, or returns a block apart from all mapped before.\<close>

definition block_source :: "(size_t \<Rightarrow> string \<Rightarrow> alloc_state \<Rightarrow> (size_t \<times> alloc_state) res) \<Rightarrow> bool" where
  "block_source mmap \<longleftrightarrow> (\<forall>sz reason al. alloc_ok al \<longrightarrow>
     or_fatal (mmap sz reason al) (\<lambda>(p, al'). alloc_ok al' \<and> (\<exists>maps. set (al_mapped al) \<subseteq> set maps \<and>
       apart p sz maps \<and> al_mapped al' = (p, sz) # maps)))"

lemma block_sources:
  assumes "mmap_fresh os"
  shows "block_source (forkscan_alloc_mmap os)" "block_source (forkscan_alloc_mmap_shared os)"
proof -
  have "or_fatal (alloc_mmap os sz reason shared al) (\<lambda>(p, al'). alloc_ok al' \<and>
      (\<exists>maps. set (al_mapped al) \<subseteq> set maps \<and> apart p sz maps \<and> al_mapped al' = (p, sz) # maps))"
    if ok: "alloc_ok al" for sz reason shared al
  proof -
    obtain ps fs where "alloc_inv al ps fs" using ok by (auto simp: alloc_ok_def)
    from alloc_mmap_ok [OF assms this, of sz reason shared] show ?thesis
      by (auto simp: or_fatal_def alloc_ok_def page_added_def)
  qed
  then show "block_source (forkscan_alloc_mmap os)" "block_source (forkscan_alloc_mmap_shared os)"
    by (simp_all add: block_source_def forkscan_alloc_mmap_def [abs_def] forkscan_alloc_mmap_shared_def [abs_def])
qed

lemma or_fatal_mono: "or_fatal r P \<Longrightarrow> (\<And>x. P x \<Longrightarrow> Q x) \<Longrightarrow> or_fatal r Q"
  by (auto simp: or_fatal_def)

lemma in_mapped_mono: "set maps \<subseteq> set maps' \<Longrightarrow> in_mapped sz maps x \<Longrightarrow> in_mapped sz maps' x"
  by (auto simp: in_mapped_def)

lemma pool_inv_mono: "pool_inv sz maps p fs ls \<Longrightarrow> set maps \<subseteq> set maps' \<Longrightarrow> pool_inv sz maps' p fs ls"
  by (auto simp: pool_inv_def intro: in_mapped_mono)

lemma pool_alloc_ok:
  assumes src: "block_source mmap" and ok: "alloc_ok al" and inv: "pool_inv (unat dtsize) (al_mapped al) p fs ls"
    and sz: "0 < unat dtsize" "0 < n" "unat dtsize * n < 2 ^ 62"
  shows "or_fatal (pool_alloc mmap dtsize n reason p al) (\<lambda>(x, p', al'). alloc_ok al' \<and>
    set (al_mapped al) \<subseteq> set (al_mapped al') \<and> x \<noteq> 0 \<and> x \<notin> set ls \<and>
    (\<exists>fs'. pool_inv (unat dtsize) (al_mapped al') p' fs' (x # ls)))"
proof (cases "pl_head p = 0")
  case False
  obtain p' where "pool_alloc mmap dtsize n reason p al = Inr (hd fs, p', al)" "fs \<noteq> []"
    "pool_inv (unat dtsize) (al_mapped al) p' (tl fs) (hd fs # ls)"
    using pool_reuse_ok [OF inv False] by blast
  moreover have "hd fs \<noteq> 0" "hd fs \<notin> set ls"
    using \<open>fs \<noteq> []\<close> inv by (cases fs; auto simp: pool_inv_def objects_apart_def)+
  ultimately show ?thesis using ok by (auto simp: or_fatal_def)
next
  case True
  have un: "unat (dtsize * of_nat n) = unat dtsize * n"
  proof -
    have "dtsize * of_nat n = (of_nat (unat dtsize * n) :: size_t)" by simp
    then show ?thesis using sz(3) by (simp only: unat_of_nat) simp
  qed
  have res: "or_fatal (mmap (dtsize * of_nat n) reason al) (\<lambda>(p, al'). alloc_ok al' \<and> (\<exists>maps. set (al_mapped al) \<subseteq> set maps \<and>
       apart p (dtsize * of_nat n) maps \<and> al_mapped al' = (p, dtsize * of_nat n) # maps))"
    using src ok unfolding block_source_def by blast
  have fs: "fs = []" using True path_head inv by (auto simp: pool_inv_def)
  show ?thesis
  proof (cases "mmap (dtsize * of_nat n) reason al")
    case (Inl e)
    then show ?thesis using res True by (auto simp: or_fatal_def pool_alloc_def)
  next
    case (Inr r)
    obtain arr al' where r: "r = (arr, al')" by fastforce
    obtain maps where m: "alloc_ok al'" "set (al_mapped al) \<subseteq> set maps" "apart arr (dtsize * of_nat n) maps"
      "al_mapped al' = (arr, dtsize * of_nat n) # maps" using res Inr r by (auto simp: or_fatal_def)
    have arr: "arr \<noteq> 0" "unat arr + unat dtsize * n < 2 ^ 64" using m(3) un by (auto simp: apart_def)
    note b = batch_ok [OF arr(2) sz(1,2) arr(1)]
    have sep: "unat x + unat dtsize \<le> unat y \<or> unat y + unat dtsize \<le> unat x"
      if x: "x \<in> set (batch_objects arr dtsize n @ [arr])" and y: "y \<in> set ls" for x y
    proof -
      obtain a l where al: "(a, l) \<in> set maps" "unat a \<le> unat y" "unat y + unat dtsize \<le> unat a + unat l"
        using y m(2) in_mapped_mono [OF m(2), of "unat dtsize" y] inv
        by (auto simp: pool_inv_def in_mapped_def [of _ maps] dest: bspec)
      have "unat arr + unat dtsize * n \<le> unat a \<or> unat a + unat l \<le> unat arr"
        using apartD [OF m(3) al(1)] un by simp
      moreover have "unat arr \<le> unat x" "unat x + unat dtsize \<le> unat arr + unat dtsize * n" using b(2) x by auto
      ultimately show ?thesis using al(2,3) by linarith
    qed
    have "x \<notin> set ls" if "x \<in> set (batch_objects arr dtsize n @ [arr])" for x
      using sep [OF that, of x] sz(1) by auto
    then have "objects_apart (unat dtsize) (batch_objects arr dtsize n @ arr # ls)"
      using b(1) inv sep unfolding objects_apart_def pool_inv_def fs by (auto 4 3)
    moreover have "path (\<lambda>n. n) (pl_next (pool_fill arr dtsize n p)) (pl_head (pool_fill arr dtsize n p)) (batch_objects arr dtsize n) 0"
      by (rule pool_fill_path) (use inv fs b in \<open>auto simp: pool_inv_def objects_apart_def\<close>)
    moreover have "in_mapped (unat dtsize) (al_mapped al') x" if "x \<in> set (batch_objects arr dtsize n @ [arr])" for x
      using b(2) that m(4) un by (auto simp: in_mapped_def)
    moreover have "x \<noteq> 0 \<and> in_mapped (unat dtsize) (al_mapped al') x" if "x \<in> set ls" for x
    proof -
      have "set (al_mapped al) \<subseteq> set (al_mapped al')" using m(2,4) by auto
      from in_mapped_mono [OF this, of "unat dtsize" x] show ?thesis using inv that by (simp add: pool_inv_def)
    qed
    ultimately have "pool_inv (unat dtsize) (al_mapped al') (pool_fill arr dtsize n p) (batch_objects arr dtsize n) (arr # ls)"
      using b(2) by (auto simp: pool_inv_def)
    moreover have "arr \<notin> set ls" using \<open>\<And>x. x \<in> set (batch_objects arr dtsize n @ [arr]) \<Longrightarrow> x \<notin> set ls\<close> by simp
    moreover have "pool_alloc mmap dtsize n reason p al = Inr (arr, pool_fill arr dtsize n p, al')"
      using True Inr r by (simp add: pool_alloc_def)
    ultimately show ?thesis using m arr(1) by (auto simp: or_fatal_def)
  qed
qed


section \<open>Histories of a pool\<close>

text \<open>
  \<open>pool_reach\<close>: the states of a pool with the objects in use, while the rest of the program maps
  further memory.
\<close>

definition pool_init :: pool_t where
  "pool_init = \<lparr>pl_head = 0, pl_next = []\<rparr>"

inductive pool_reach ::
    "(size_t \<Rightarrow> string \<Rightarrow> alloc_state \<Rightarrow> (size_t \<times> alloc_state) res) \<Rightarrow> size_t \<Rightarrow> nat \<Rightarrow> string \<Rightarrow>
      pool_t \<Rightarrow> size_t list \<Rightarrow> alloc_state \<Rightarrow> bool" for mmap dtsize n reason where
  init: "alloc_ok al \<Longrightarrow> pool_reach mmap dtsize n reason pool_init [] al"
| alloc: "pool_reach mmap dtsize n reason p ls al \<Longrightarrow> pool_alloc mmap dtsize n reason p al = Inr (x, p', al') \<Longrightarrow>
    pool_reach mmap dtsize n reason p' (x # ls) al'"
| free: "pool_reach mmap dtsize n reason p ls al \<Longrightarrow> x \<in> set ls \<Longrightarrow>
    pool_reach mmap dtsize n reason (pool_free x p) (remove1 x ls) al"
| others: "pool_reach mmap dtsize n reason p ls al \<Longrightarrow> alloc_ok al' \<Longrightarrow> set (al_mapped al) \<subseteq> set (al_mapped al') \<Longrightarrow>
    pool_reach mmap dtsize n reason p ls al'"

locale object_pool =
  fixes dtsize :: size_t and n :: nat
  assumes size_pos: "0 < unat dtsize" and some_objects: "0 < n" and batch_fits: "unat dtsize * n < 2 ^ 62"
begin

lemma history:
  assumes "block_source mmap" "pool_reach mmap dtsize n reason p ls al"
  shows "alloc_ok al \<and> (\<exists>fs. pool_inv (unat dtsize) (al_mapped al) p fs ls)"
  using assms(2)
proof induction
  case (init al)
  then show ?case by (auto simp: pool_inv_def pool_init_def objects_apart_def intro: exI [of _ "[]"])
next
  case (alloc p ls al x p' al')
  then obtain fs where "alloc_ok al" "pool_inv (unat dtsize) (al_mapped al) p fs ls" by blast
  from pool_alloc_ok [OF assms(1) this size_pos some_objects batch_fits, of reason] alloc(2)
  show ?case by (auto simp: or_fatal_def)
next
  case (free p ls al x)
  then show ?case using pool_free_ok by blast
next
  case (others p ls al al')
  then show ?case using pool_inv_mono by blast
qed

lemma next_object:
  assumes "block_source mmap" "pool_reach mmap dtsize n reason p ls al"
  shows "or_fatal (pool_alloc mmap dtsize n reason p al) (\<lambda>(x, p', al'). x \<noteq> 0 \<and>
    objects_apart (unat dtsize) (x # ls) \<and> (\<forall>y\<in>set (x # ls). in_mapped (unat dtsize) (al_mapped al') y))"
proof -
  obtain fs where "alloc_ok al" "pool_inv (unat dtsize) (al_mapped al) p fs ls" using history [OF assms] by blast
  from pool_alloc_ok [OF assms(1) this size_pos some_objects batch_fits, of reason]
  show ?thesis
    by (elim or_fatal_mono) (auto simp: pool_inv_def objects_apart_def)
qed

end

interpretation stack_pool: object_pool STACKSIZE NSTACKS
  by unfold_locales (simp_all add: STACKSIZE_def NSTACKS_def)

interpretation threaddata_pool: object_pool MEMBLOCK_SIZE 8
  by unfold_locales (simp_all add: MEMBLOCK_SIZE_def PAGESIZE_def)

section \<open>Properties\<close>

text \<open>
  In every history of taking and returning stacks, the stacks in use do not overlap and lie
  in mapped memory, and the next one handed out, unless mapping fails, has the size reported and
  overlaps none of them.
\<close>

theorem stacks_never_overlap:
  assumes "mmap_fresh os" and "pool_reach (forkscan_alloc_mmap os) STACKSIZE NSTACKS ''stack'' p ls al"
  shows "objects_apart (unat STACKSIZE) ls \<and> (\<forall>x\<in>set ls. in_mapped (unat STACKSIZE) (al_mapped al) x) \<and>
    or_fatal (forkscan_buffer_makestack os p al) (\<lambda>((x, sz), p', al'). sz = STACKSIZE \<and> x \<noteq> 0 \<and>
      objects_apart (unat STACKSIZE) (x # ls) \<and> in_mapped (unat STACKSIZE) (al_mapped al') x)"
proof -
  note src = block_sources(1) [OF assms(1)]
  obtain fs where inv: "pool_inv (unat STACKSIZE) (al_mapped al) p fs ls"
    using stack_pool.history [OF src assms(2)] by blast
  have "objects_apart (unat STACKSIZE) ls" using inv by (auto simp: pool_inv_def objects_apart_def)
  moreover have "\<forall>x\<in>set ls. in_mapped (unat STACKSIZE) (al_mapped al) x" using inv by (simp add: pool_inv_def)
  moreover have "or_fatal (forkscan_buffer_makestack os p al) (\<lambda>((x, sz), p', al'). sz = STACKSIZE \<and> x \<noteq> 0 \<and>
      objects_apart (unat STACKSIZE) (x # ls) \<and> in_mapped (unat STACKSIZE) (al_mapped al') x)"
    using stack_pool.next_object [OF src assms(2)]
    by (auto simp: or_fatal_def forkscan_buffer_makestack_def pool_alloc_stack_def)
  ultimately show ?thesis by blast
qed

lemma sample_stack:
  obtains x p al where "pool_alloc_stack sample_os pool_init alloc_init = Inr (x, p, al)"
proof -
  have "\<not> mmap_refuses sample_os [] (STACKSIZE * of_nat NSTACKS) False"
    by (rule sample_not_refused) (simp_all add: maps_top_def STACKSIZE_def NSTACKS_def)
  then obtain x al where "forkscan_alloc_mmap sample_os (STACKSIZE * of_nat NSTACKS) ''stack'' alloc_init = Inr (x, al)"
    using alloc_mmap_ok [OF sample_os_ok(1) alloc_init_inv, of "STACKSIZE * of_nat NSTACKS" "''stack''" False]
    by (auto simp: alloc_init_def forkscan_alloc_mmap_def)
  then show thesis using that by (simp add: pool_alloc_stack_def pool_alloc_def pool_init_def)
qed

theorem stacks_never_overlap_witness:
  "\<exists>p x al. pool_reach (forkscan_alloc_mmap sample_os) STACKSIZE NSTACKS ''stack'' p [x] al \<and>
     in_mapped (unat STACKSIZE) (al_mapped al) x"
proof -
  obtain x p al where run: "pool_alloc_stack sample_os pool_init alloc_init = Inr (x, p, al)" by (rule sample_stack)
  have "alloc_ok alloc_init" using alloc_init_inv by (auto simp: alloc_ok_def)
  from pool_reach.alloc [OF pool_reach.init [OF this] run [unfolded pool_alloc_stack_def]]
  have reach: "pool_reach (forkscan_alloc_mmap sample_os) STACKSIZE NSTACKS ''stack'' p [x] al" .
  then show ?thesis using stacks_never_overlap [OF sample_os_ok(1) reach] by auto
qed

end
