(* ===== verification/Proc.thy ===== *)
theory Proc
  imports Alloc "HOL-Library.Sublist"
begin

text \<open>
  Reading the memory map of the process, \<^verbatim>\<open>src/proc.c\<close>. The file \<^verbatim>\<open>/proc/self/maps\<close> is the string
  of its characters; the parts of \<^verbatim>\<open>fscanf\<close> that the code uses are modelled on it. What is left of
  the stream after a failed conversion is never read, so a failed conversion is \<open>None\<close>. A stream
  at its end makes \<^verbatim>\<open>read_mapline\<close> return zero, whether or not the end has been noticed before.
\<close>

section \<open>Formatted input\<close>

definition digit_val :: "nat \<Rightarrow> char \<Rightarrow> nat option" where
  "digit_val base c =
     (let k = of_char c :: int;
          d = (if 48 \<le> k \<and> k \<le> 57 then k - 48 else if 97 \<le> k \<and> k \<le> 102 then k - 87
               else if 65 \<le> k \<and> k \<le> 70 then k - 55 else int base)
      in if d < int base then Some (nat d) else None)"

definition is_digit_in :: "nat \<Rightarrow> char \<Rightarrow> bool" where
  "is_digit_in base c \<longleftrightarrow> digit_val base c \<noteq> None"

definition digits_nat :: "nat \<Rightarrow> string \<Rightarrow> nat" where
  "digits_nat base ds = foldl (\<lambda>n c. n * base + the (digit_val base c)) 0 ds"

definition scan_sign :: "string \<Rightarrow> bool \<times> string" where
  "scan_sign s =
     (case s of [] \<Rightarrow> (False, [])
      | c # t \<Rightarrow> if c = CHR ''-'' then (True, t) else if c = CHR ''+'' then (False, t) else (False, s))"

definition scan_prefix :: "nat \<Rightarrow> string \<Rightarrow> string" where
  "scan_prefix base s =
     (if base = 16 \<and> (take 2 s = ''0x'' \<or> take 2 s = ''0X'') then drop 2 s else s)"

text \<open>A number: white space, a sign, the prefix of a hexadecimal number, digits.\<close>

definition scan_num :: "nat \<Rightarrow> string \<Rightarrow> (int \<times> string) option" where
  "scan_num base s =
     (let (neg, t) = scan_sign (dropWhile is_space s);
          t = scan_prefix base t;
          ds = takeWhile (is_digit_in base) t
      in if ds = [] then None
         else Some (if neg then - int (digits_nat base ds) else int (digits_nat base ds), drop (length ds) t))"

text \<open>The conversions to the widths of the fields; a value too large becomes the largest one.\<close>

definition to_ull :: "int \<Rightarrow> size_t" where
  "to_ull v = (if \<bar>v\<bar> < 2 ^ 64 then word_of_int v else - 1)"

definition to_uint :: "int \<Rightarrow> 32 word" where
  "to_uint v = ucast (to_ull v)"

definition to_int :: "int \<Rightarrow> 32 word" where
  "to_int v = (if v < - (2 ^ 63) then 0 else if 2 ^ 63 \<le> v then - 1 else word_of_int v)"

definition scan_lit :: "char \<Rightarrow> string \<Rightarrow> string option" where
  "scan_lit c s = (case s of [] \<Rightarrow> None | d # t \<Rightarrow> if d = c then Some t else None)"

definition scan_str :: "string \<Rightarrow> (string \<times> string) option" where
  "scan_str s =
     (let t = dropWhile is_space s; w = takeWhile (\<lambda>c. \<not> is_space c) t
      in if w = [] then None else Some (w, drop (length w) t))"

section \<open>Lines of the map\<close>

definition MAPLINE_PATH_SIZE :: nat where
  "MAPLINE_PATH_SIZE = 256"

record mapline_t =
  ml_range_begin :: size_t
  ml_range_end :: size_t
  ml_bits :: string
  ml_f1 :: size_t
  ml_f2 :: "32 word"
  ml_f3 :: "32 word"
  ml_f4 :: "32 word"
  ml_path :: string

text \<open>
  The seven conversions of \<^verbatim>\<open>fscanf(fp, "%llx-%llx %s %llx %x:%x %d", ...)\<close>: the fields and the
  rest of the stream, or \<open>None\<close> when fewer than seven succeed.
\<close>

definition scan_mapline :: "string \<Rightarrow> (mapline_t \<times> string) option" where
  "scan_mapline s =
     Option.bind (scan_num 16 s) (\<lambda>(b, s).
     Option.bind (scan_lit (CHR ''-'') s) (\<lambda>s.
     Option.bind (scan_num 16 s) (\<lambda>(e, s).
     Option.bind (scan_str s) (\<lambda>(bits, s).
     Option.bind (scan_num 16 s) (\<lambda>(f1, s).
     Option.bind (scan_num 16 s) (\<lambda>(f2, s).
     Option.bind (scan_lit (CHR '':'') s) (\<lambda>s.
     Option.bind (scan_num 16 s) (\<lambda>(f3, s).
     Option.bind (scan_num 10 s) (\<lambda>(f4, s).
       Some (\<lparr>ml_range_begin = to_ull b, ml_range_end = to_ull e, ml_bits = bits, ml_f1 = to_ull f1,
              ml_f2 = to_uint f2, ml_f3 = to_uint f3, ml_f4 = to_int f4, ml_path = []\<rparr>, s))))))))))"

text \<open>\<^verbatim>\<open>while ('\n' != (c = fgetc(fp)));\<close> never ends without a newline ahead.\<close>

definition skip_line :: "string \<Rightarrow> string res" where
  "skip_line s =
     (case dropWhile (\<lambda>c. c \<noteq> CHR 0x0A) s of [] \<Rightarrow> Inl No_return | _ # t \<Rightarrow> Inr t)"

text \<open>
  \<open>None\<close> stands for the return value zero. Words longer than the arrays of the struct are
  written past their ends.
\<close>

definition read_mapline :: "string \<Rightarrow> (mapline_t option \<times> string) res" where
  "read_mapline fp =
     (if dropWhile is_space fp = [] then Inr (None, [])
      else case scan_mapline fp of
        None \<Rightarrow> Inl (Fatal ''forkscan internal error: fscanf returned %d (expected 7)'')
      | Some (m, s) \<Rightarrow>
          if 5 \<le> length (ml_bits m) then Inl Out_of_bounds
          else case dropWhile (\<lambda>c. c = CHR '' '') s of
            [] \<Rightarrow> Inr (Some m, [])
          | c # s \<Rightarrow>
              if c = CHR 0x0A then Inr (Some m, s)
              else case scan_str s of
                None \<Rightarrow> Inl (Fatal ''forkscan internal error: fscanf returned %d (expected 1)'')
              | Some (w, s) \<Rightarrow>
                  if MAPLINE_PATH_SIZE \<le> Suc (length w) then Inl Out_of_bounds
                  else bind_res (skip_line s) (\<lambda>s. Inr (Some (m\<lparr>ml_path := c # w\<rparr>), s)))"

section \<open>Iteration\<close>

text \<open>
  The loops read one line per round; every line has a character, so a file of \<open>n\<close> characters is
  read to its end in \<open>n + 1\<close> rounds.
\<close>

fun map_iterate_loop ::
    "nat \<Rightarrow> (size_t \<Rightarrow> size_t \<Rightarrow> string \<Rightarrow> string \<Rightarrow> 's \<Rightarrow> (bool \<times> 's) res) \<Rightarrow> string \<Rightarrow> 's \<Rightarrow> 's res" where
  "map_iterate_loop 0 f fp st = Inl No_return"
| "map_iterate_loop (Suc k) f fp st =
     bind_res (read_mapline fp) (\<lambda>(l, fp).
       case l of
         None \<Rightarrow> Inr st
       | Some m \<Rightarrow>
           bind_res (f (ml_range_begin m) (ml_range_end m) (ml_bits m) (ml_path m) st) (\<lambda>(continue, st).
           if continue then map_iterate_loop k f fp st else Inr st))"

definition forkscan_proc_map_iterate ::
    "string option \<Rightarrow> (size_t \<Rightarrow> size_t \<Rightarrow> string \<Rightarrow> string \<Rightarrow> 's \<Rightarrow> (bool \<times> 's) res) \<Rightarrow> 's \<Rightarrow> 's res" where
  "forkscan_proc_map_iterate maps f st =
     (case maps of
        None \<Rightarrow> Inl (Fatal ''unable to open memory map file.'')
      | Some fp \<Rightarrow> map_iterate_loop (Suc (length fp)) f fp st)"

fun stack_from_addr_loop :: "nat \<Rightarrow> size_t \<Rightarrow> string \<Rightarrow> mem_range_t res" where
  "stack_from_addr_loop 0 addr fp = Inl No_return"
| "stack_from_addr_loop (Suc k) addr fp =
     bind_res (read_mapline fp) (\<lambda>(l, fp).
       case l of
         None \<Rightarrow> Inr \<lparr>mr_low = 0, mr_high = 0\<rparr>
       | Some m \<Rightarrow>
           if addr > ml_range_begin m \<and> addr < ml_range_end m
           then Inr \<lparr>mr_low = ml_range_begin m, mr_high = ml_range_end m\<rparr>
           else stack_from_addr_loop k addr fp)"

definition forkscan_proc_stack_from_addr :: "string option \<Rightarrow> size_t \<Rightarrow> mem_range_t res" where
  "forkscan_proc_stack_from_addr maps addr =
     (case maps of
        None \<Rightarrow> Inl (Fatal ''unable to open memory map file.'')
      | Some fp \<Rightarrow> stack_from_addr_loop (Suc (length fp)) addr fp)"

section \<open>The text of a line\<close>

text \<open>
  How the kernel writes a line: numbers with any leading zeros, the fields separated by blanks,
  and behind the last number blanks and the end of the line, when the mapping has no name, or blanks
  and its name. (The kernel writes one blank behind the last number of every line, and more to align
  the names.) A name is read up to the first white space; the rest of the line is ignored. It fits
  the array of the struct.
\<close>

definition num_text :: "nat \<Rightarrow> string \<Rightarrow> int \<Rightarrow> bool" where
  "num_text base s v \<longleftrightarrow> s \<noteq> [] \<and> list_all (is_digit_in base) s \<and> v = int (digits_nat base s)"

definition path_text :: "string \<Rightarrow> string \<Rightarrow> bool" where
  "path_text pth s \<longleftrightarrow>
     (if pth = [] then \<exists>pad. s = replicate pad (CHR '' '') @ [CHR 0x0A]
      else 2 \<le> length pth \<and> length pth < MAPLINE_PATH_SIZE \<and> list_all (\<lambda>c. \<not> is_space c) pth \<and>
        (\<exists>pad tail. s = CHR '' '' # replicate pad (CHR '' '') @ pth @ tail @ [CHR 0x0A] \<and>
           CHR 0x0A \<notin> set tail \<and> (tail = [] \<or> is_space (hd tail))))"

definition mapline_text :: "mapline_t \<Rightarrow> string \<Rightarrow> bool" where
  "mapline_text m s \<longleftrightarrow>
     (\<exists>b e f1 f2 f3 f4 i p.
        s = b @ ''-'' @ e @ '' '' @ ml_bits m @ '' '' @ f1 @ '' '' @ f2 @ '':'' @ f3 @ '' '' @ i @ p \<and>
        num_text 16 b (uint (ml_range_begin m)) \<and> num_text 16 e (uint (ml_range_end m)) \<and>
        num_text 16 f1 (uint (ml_f1 m)) \<and> num_text 16 f2 (uint (ml_f2 m)) \<and> num_text 16 f3 (uint (ml_f3 m)) \<and>
        num_text 10 i f4 \<and> ml_f4 m = to_int f4 \<and>
        ml_bits m \<noteq> [] \<and> length (ml_bits m) \<le> 4 \<and> list_all (\<lambda>c. \<not> is_space c) (ml_bits m) \<and> path_text (ml_path m) p)"

lemma digit_not_sep:
  "is_digit_in base c \<Longrightarrow> \<not> is_space c \<and> c \<noteq> CHR ''-'' \<and> c \<noteq> CHR ''+'' \<and> c \<noteq> CHR ''x'' \<and> c \<noteq> CHR ''X'' \<and> c \<noteq> CHR '':''"
  if "base \<le> 16"
  using that
  by (auto simp: is_digit_in_def digit_val_def Let_def is_space_def split: if_splits)

definition num_end :: "string \<Rightarrow> bool" where
  "num_end s \<longleftrightarrow> s = [] \<or> hd s \<in> {CHR ''-'', CHR '' '', CHR '':'', CHR 0x0A}"

lemma num_end_simps [simp]:
  "num_end (c # s) \<longleftrightarrow> c \<in> {CHR ''-'', CHR '' '', CHR '':'', CHR 0x0A}" "num_end []"
  by (simp_all add: num_end_def)

lemma takeWhile_word:
  assumes "list_all P w" "r = [] \<or> \<not> P (hd r)"
  shows "takeWhile P (w @ r) = w" "dropWhile P (w @ r) = r"
  using assms by (induction w) (cases r; auto)+

lemma scan_num_text:
  assumes n: "num_text base s v" and base: "base = 10 \<or> base = 16" and r: "num_end r"
    and ws: "list_all is_space ws"
  shows "scan_num base (ws @ s @ r) = Some (v, r)"
proof -
  obtain c t where s: "s = c # t" using n by (cases s) (auto simp: num_text_def)
  have d: "list_all (is_digit_in base) s" using n by (simp add: num_text_def)
  have b: "base \<le> 16" using base by auto
  note sep = digit_not_sep [OF b]
  have "r = [] \<or> \<not> is_digit_in base (hd r)"
    using r sep [of "hd r"] by (auto simp: num_end_def is_space_def)
  then have w: "takeWhile (is_digit_in base) (s @ r) = s" using takeWhile_word(1) [OF d] by blast
  have c: "is_digit_in base c" using d s by simp
  have ws': "dropWhile is_space (ws @ s @ r) = s @ r"
    using takeWhile_word(2) [OF ws, of "s @ r"] sep [OF c] s by simp
  have sg: "scan_sign (s @ r) = (False, s @ r)" using sep [OF c] s by (simp add: scan_sign_def)
  have "take 2 (s @ r) \<noteq> ''0x''" "take 2 (s @ r) \<noteq> ''0X''"
    using d r s sep [of "hd t"] by (cases t; cases r; auto simp: num_end_def)+
  then have pf: "scan_prefix base (s @ r) = s @ r" by (simp add: scan_prefix_def)
  show ?thesis using n by (simp add: scan_num_def ws' sg pf w num_text_def)
qed

lemma scan_str_text:
  assumes "list_all (\<lambda>c. \<not> is_space c) w" "w \<noteq> []" "r = [] \<or> is_space (hd r)" "list_all is_space ws"
  shows "scan_str (ws @ w @ r) = Some (w, r)"
proof -
  have "dropWhile is_space (ws @ w @ r) = w @ r"
    using takeWhile_word(2) [OF assms(4), of "w @ r"] assms(1,2) by (cases w) auto
  moreover have "takeWhile (\<lambda>c. \<not> is_space c) (w @ r) = w" using takeWhile_word(1) [OF assms(1)] assms(3) by auto
  ultimately show ?thesis using assms(2) by (simp add: scan_str_def)
qed

lemma space_chars [simp]: "is_space (CHR '' '')" "is_space (CHR 0x0A)"
  by (simp_all add: is_space_def)

lemma to_ull_uint [simp]: "to_ull (uint x) = x"
  using unsigned_less [of x, where 'a = int] by (simp add: to_ull_def)

lemma to_uint_uint [simp]: "to_uint (uint x) = x"
proof -
  have lt: "uint x < 2 ^ 32" using unsigned_less [of x, where 'a = int] by simp
  have "to_ull (uint x) = ucast x" using lt by (simp add: to_ull_def)
  moreover have "ucast (ucast x :: size_t) = x" by (rule bit_word_eqI) (simp add: bit_simps)
  ultimately show ?thesis by (simp add: to_uint_def)
qed

lemma scan_mapline_text:
  assumes "mapline_text m s"
  obtains p where "path_text (ml_path m) p" "scan_mapline (s @ r) = Some (m\<lparr>ml_path := []\<rparr>, p @ r)"
    "dropWhile is_space (s @ r) \<noteq> []" "length (ml_bits m) \<le> 4"
proof -
  obtain b e f1 f2 f3 f4 i p where
    s: "s = b @ ''-'' @ e @ '' '' @ ml_bits m @ '' '' @ f1 @ '' '' @ f2 @ '':'' @ f3 @ '' '' @ i @ p"
    and n: "num_text 16 b (uint (ml_range_begin m))" "num_text 16 e (uint (ml_range_end m))"
      "num_text 16 f1 (uint (ml_f1 m))" "num_text 16 f2 (uint (ml_f2 m))" "num_text 16 f3 (uint (ml_f3 m))"
      "num_text 10 i f4" "ml_f4 m = to_int f4"
    and bits: "ml_bits m \<noteq> []" "length (ml_bits m) \<le> 4" "list_all (\<lambda>c. \<not> is_space c) (ml_bits m)"
    and p: "path_text (ml_path m) p"
    using assms unfolding mapline_text_def by blast
  have rep: "num_end (replicate pad (CHR '' '') @ CHR 0x0A # r)" for pad by (cases pad) simp_all
  have pe: "num_end (p @ r)" using p rep by (auto simp: path_text_def split: if_splits)
  note num = scan_num_text [where ws = "[]", simplified] scan_num_text [where ws = "'' ''", simplified]
  have "scan_mapline (s @ r) = Some (m\<lparr>ml_path := []\<rparr>, p @ r)"
    using scan_str_text [OF bits(3,1), where ws = "'' ''", simplified] pe n(7)
    by (simp add: scan_mapline_def s num [OF n(1)] num [OF n(2)] num [OF n(3)] num [OF n(4)] num [OF n(5)]
        num [OF n(6)] scan_lit_def)
  moreover have "dropWhile is_space (s @ r) \<noteq> []"
    using n(1) digit_not_sep [of 16 "hd b"] by (cases b) (auto simp: s num_text_def)
  ultimately show thesis using that p bits(2) by blast
qed

text \<open>What is written is read back, and the stream is left at the next line.\<close>

lemma read_mapline_text:
  assumes "mapline_text m s"
  shows "read_mapline (s @ r) = Inr (Some m, r)"
proof -
  obtain p where p: "path_text (ml_path m) p" "scan_mapline (s @ r) = Some (m\<lparr>ml_path := []\<rparr>, p @ r)"
    "dropWhile is_space (s @ r) \<noteq> []" "length (ml_bits m) \<le> 4"
    using scan_mapline_text [OF assms] by blast
  show ?thesis
  proof (cases "ml_path m")
    case Nil
    then obtain pad where pad: "p = replicate pad (CHR '' '') @ [CHR 0x0A]" using p(1) by (auto simp: path_text_def)
    have "dropWhile (\<lambda>c. c = CHR '' '') (p @ r) = CHR 0x0A # r"
      using takeWhile_word(2) [of "\<lambda>c. c = CHR '' ''" "replicate pad (CHR '' '')" "CHR 0x0A # r"]
      by (simp add: pad list_all_iff)
    then show ?thesis using p(2-4) Nil by (simp add: read_mapline_def)
  next
    case (Cons c w)
    have q: "path_text (c # w) p" using p(1) Cons by simp
    then obtain pad tl where "p = CHR '' '' # replicate pad (CHR '' '') @ (c # w) @ tl @ [CHR 0x0A]"
      "CHR 0x0A \<notin> set tl" "tl = [] \<or> is_space (hd tl)"
      unfolding path_text_def by auto
    with q have t: "p = CHR '' '' # replicate pad (CHR '' '') @ (c # w) @ tl @ [CHR 0x0A]"
      "CHR 0x0A \<notin> set tl" "tl = [] \<or> is_space (hd tl)" "w \<noteq> []" "list_all (\<lambda>c. \<not> is_space c) w" "\<not> is_space c"
      "length w < 255"
      by (auto simp: path_text_def MAPLINE_PATH_SIZE_def)
    have c: "c \<noteq> CHR '' ''" "c \<noteq> CHR 0x0A" using t(6) space_chars by auto
    have "dropWhile (\<lambda>c. c = CHR '' '') (p @ r) = c # w @ tl @ CHR 0x0A # r"
      using takeWhile_word(2) [of "\<lambda>c. c = CHR '' ''" "replicate pad (CHR '' '')" "c # w @ tl @ CHR 0x0A # r"] c
      by (simp add: t(1) list_all_iff)
    moreover have "scan_str (w @ tl @ CHR 0x0A # r) = Some (w, tl @ CHR 0x0A # r)"
      using scan_str_text [OF t(5,4), of "tl @ CHR 0x0A # r" "[]"] t(3) by (cases tl) auto
    moreover have "skip_line (tl @ CHR 0x0A # r) = Inr r"
    proof -
      have "list_all (\<lambda>c. c \<noteq> CHR 0x0A) tl" using t(2) by (auto simp: list_all_iff)
      then show ?thesis using takeWhile_word(2) [of "\<lambda>c. c \<noteq> CHR 0x0A" tl "CHR 0x0A # r"]
        by (simp add: skip_line_def)
    qed
    ultimately show ?thesis using p(2-4) t(7) c Cons
      by (simp add: read_mapline_def MAPLINE_PATH_SIZE_def)
  qed
qed

section \<open>Iterating over a map\<close>

text \<open>The iteration over the lines themselves, what the iteration over the file stands for.\<close>

fun visit_lines ::
    "(size_t \<Rightarrow> size_t \<Rightarrow> string \<Rightarrow> string \<Rightarrow> 's \<Rightarrow> (bool \<times> 's) res) \<Rightarrow> mapline_t list \<Rightarrow> 's \<Rightarrow> 's res" where
  "visit_lines f [] st = Inr st"
| "visit_lines f (m # ms) st =
     bind_res (f (ml_range_begin m) (ml_range_end m) (ml_bits m) (ml_path m) st) (\<lambda>(continue, st).
     if continue then visit_lines f ms st else Inr st)"

definition map_text :: "mapline_t list \<Rightarrow> string \<Rightarrow> bool" where
  "map_text ms fp \<longleftrightarrow> (\<exists>ss. list_all2 mapline_text ms ss \<and> fp = concat ss)"

lemma map_text_Nil [simp]: "map_text [] fp \<longleftrightarrow> fp = []"
  by (simp add: map_text_def)

lemma map_text_Cons:
  "map_text (m # ms) fp \<longleftrightarrow> (\<exists>s fp'. mapline_text m s \<and> map_text ms fp' \<and> fp = s @ fp')"
proof
  assume "map_text (m # ms) fp"
  then show "\<exists>s fp'. mapline_text m s \<and> map_text ms fp' \<and> fp = s @ fp'"
    unfolding map_text_def list_all2_Cons1 by fastforce
next
  assume "\<exists>s fp'. mapline_text m s \<and> map_text ms fp' \<and> fp = s @ fp'"
  then obtain s ss where "mapline_text m s" "list_all2 mapline_text ms ss" "fp = s @ concat ss"
    by (auto simp: map_text_def)
  then show "map_text (m # ms) fp" unfolding map_text_def by (intro exI [of _ "s # ss"]) simp
qed

lemma read_mapline_Nil [simp]: "read_mapline [] = Inr (None, [])"
  by (simp add: read_mapline_def)

lemma mapline_text_pos: "mapline_text m s \<Longrightarrow> 0 < length s"
  by (auto simp: mapline_text_def)

lemma map_iterate_loop_text:
  assumes "map_text ms fp" "length fp < k"
  shows "map_iterate_loop k f fp st = visit_lines f ms st"
  using assms
proof (induction ms arbitrary: fp k st)
  case Nil
  then show ?case by (cases k) auto
next
  case (Cons m ms)
  then obtain s fp' k' where s: "mapline_text m s" "map_text ms fp'" "fp = s @ fp'" "k = Suc k'"
    by (cases k) (auto simp: map_text_Cons)
  then have "length fp' < k'" using Cons.prems(2) mapline_text_pos [OF s(1)] by (simp del: length_greater_0_conv)
  note IH = Cons.IH [OF s(2) this]
  show ?case using IH read_mapline_text [OF s(1), of fp'] s(3,4)
    by (cases "f (ml_range_begin m) (ml_range_end m) (ml_bits m) (ml_path m) st") (auto simp: IH)
qed

lemma stack_from_addr_text:
  assumes "map_text ms fp" "length fp < k"
  shows "stack_from_addr_loop k addr fp =
    Inr (case find (\<lambda>m. ml_range_begin m < addr \<and> addr < ml_range_end m) ms of
           None \<Rightarrow> \<lparr>mr_low = 0, mr_high = 0\<rparr>
         | Some m \<Rightarrow> \<lparr>mr_low = ml_range_begin m, mr_high = ml_range_end m\<rparr>)"
  using assms
proof (induction ms arbitrary: fp k)
  case Nil
  then show ?case by (cases k) auto
next
  case (Cons m ms)
  then obtain s fp' k' where s: "mapline_text m s" "map_text ms fp'" "fp = s @ fp'" "k = Suc k'"
    by (cases k) (auto simp: map_text_Cons)
  then have "length fp' < k'" using Cons.prems(2) mapline_text_pos [OF s(1)] by (simp del: length_greater_0_conv)
  then show ?case using Cons.IH [OF s(2)] read_mapline_text [OF s(1), of fp'] s(3,4) by auto
qed

section \<open>Termination on any file\<close>

definition ends_line :: "string \<Rightarrow> bool" where
  "ends_line s \<longleftrightarrow> s = [] \<or> last s = CHR 0x0A"

lemma ends_line_suffix: "suffix t s \<Longrightarrow> ends_line s \<Longrightarrow> ends_line t"
  by (cases "t = []") (auto simp: suffix_def ends_line_def)

lemma drop_takeWhile_suffix:
  "takeWhile P u \<noteq> [] \<Longrightarrow> suffix (drop (length (takeWhile P u)) u) u \<and> length (drop (length (takeWhile P u)) u) < length u"
  by (cases u) (auto simp: suffix_drop)

lemma suffix_lengthI: "suffix u s \<Longrightarrow> suffix t u \<and> length t < length u \<Longrightarrow> suffix t s \<and> length t < length s"
  using suffix_length_le suffix_order.trans by fastforce

lemma scan_num_suffix:
  assumes "scan_num b s = Some (v, t)"
  shows "suffix t s \<and> length t < length s"
proof -
  obtain neg u where u: "scan_sign (dropWhile is_space s) = (neg, u)" by fastforce
  let ?p = "scan_prefix b u"
  have t: "takeWhile (is_digit_in b) ?p \<noteq> []" "t = drop (length (takeWhile (is_digit_in b) ?p)) ?p"
    using assms u by (auto simp: scan_num_def Let_def split: if_splits)
  have "suffix u (dropWhile is_space s)" using u
    by (auto simp: scan_sign_def suffix_Cons split: list.splits if_splits)
  then have "suffix u s" using suffix_dropWhile suffix_order.trans by blast
  moreover have "suffix ?p u" by (auto simp: scan_prefix_def suffix_drop)
  ultimately have "suffix ?p s" using suffix_order.trans by blast
  from suffix_lengthI [OF this] show ?thesis using drop_takeWhile_suffix [OF t(1)] unfolding t(2) by blast
qed

lemma scan_str_suffix:
  assumes "scan_str s = Some (w, t)"
  shows "suffix t s" "length t < length s" "ends_line s \<Longrightarrow> t \<noteq> []"
proof -
  let ?u = "dropWhile is_space s"
  have w: "w = takeWhile (\<lambda>c. \<not> is_space c) ?u" "w \<noteq> []" "t = drop (length w) ?u"
    using assms by (auto simp: scan_str_def Let_def split: if_splits)
  have "suffix ?u s" by (rule suffix_dropWhile)
  from suffix_lengthI [OF this] show "suffix t s" "length t < length s" using drop_takeWhile_suffix w by blast+
  show "t \<noteq> []" if "ends_line s"
  proof
    assume "t = []"
    then have u: "?u = w" using w(1,3) by (metis append_Nil2 append_take_drop_id takeWhile_eq_take)
    have "ends_line ?u" using ends_line_suffix [OF suffix_dropWhile that] .
    then have "is_space (last w)" using u w(2) by (auto simp: ends_line_def)
    moreover have "\<not> is_space (last w)" using w(1,2) by (metis last_in_set set_takeWhileD)
    ultimately show False by simp
  qed
qed

lemma scan_lit_suffix: "scan_lit c s = Some t \<Longrightarrow> suffix t s \<and> length t \<le> length s"
  by (auto simp: scan_lit_def suffix_Cons split: list.splits if_splits)

lemma scan_str_shorter: "scan_str s = Some (w, t) \<Longrightarrow> suffix t s \<and> length t < length s"
  using scan_str_suffix by blast

lemma scan_mapline_suffix:
  assumes "scan_mapline s = Some (m, t)"
  shows "suffix t s \<and> length t < length s"
  using assms unfolding scan_mapline_def
  by (auto simp: bind_eq_Some_conv suffix_appendI elim!: suffixE
      dest!: scan_num_suffix scan_lit_suffix scan_str_shorter split: prod.splits)

text \<open>Each line read uses up part of the file, and a file of whole lines is read without waiting for ever.\<close>

lemma read_mapline_progress:
  assumes "read_mapline s = Inr (Some m, t)"
  shows "suffix t s \<and> length t < length s"
proof -
  obtain m0 u where u: "scan_mapline s = Some (m0, u)" using assms
    by (auto simp: read_mapline_def split: if_splits option.splits)
  note su = scan_mapline_suffix [OF u]
  let ?d = "dropWhile (\<lambda>c. c = CHR '' '') u"
  have d: "suffix ?d u" by (rule suffix_dropWhile)
  have "suffix t ?d"
  proof (cases ?d)
    case (Cons c v)
    have sk: "suffix y x" if skip: "skip_line x = Inr y" for x y
    proof -
      obtain z where "dropWhile (\<lambda>c. c \<noteq> CHR 0x0A) x = z # y"
        using skip by (auto simp: skip_line_def split: list.splits)
      then show ?thesis by (metis suffix_ConsD suffix_dropWhile)
    qed
    show ?thesis using assms u Cons
      by (auto simp: read_mapline_def bind_res_eq_Inr split: if_splits option.splits
          dest!: sk scan_str_suffix(1) intro: suffix_ConsI suffix_order.trans)
  next
    case Nil
    then have "read_mapline s \<noteq> Inr (Some m, v # vs)" for v vs
      unfolding read_mapline_def u by (simp del: dropWhile_eq_Nil_conv)
    then have "t = []" using assms by (cases t) auto
    then show ?thesis by simp
  qed
  then show ?thesis using su d by (meson suffix_length_le suffix_order.trans le_less_trans)
qed

lemma read_mapline_returns:
  assumes "ends_line s"
  shows "read_mapline s \<noteq> Inl No_return"
proof
  assume a: "read_mapline s = Inl No_return"
  then obtain m u c v w x where u: "scan_mapline s = Some (m, u)" "dropWhile (\<lambda>c. c = CHR '' '') u = c # v"
    "scan_str v = Some (w, x)" "skip_line x = Inl No_return"
    by (auto simp: read_mapline_def bind_res_def split: if_splits option.splits list.splits sum.splits)
  have "suffix v u" using u(2) by (metis suffix_ConsD suffix_dropWhile)
  then have "ends_line v" using scan_mapline_suffix [OF u(1)] assms by (meson ends_line_suffix)
  then have x: "ends_line x" "x \<noteq> []" using scan_str_suffix [OF u(3)] by (auto intro: ends_line_suffix)
  then have "CHR 0x0A \<in> set x" by (auto simp: ends_line_def) (metis last_in_set)
  then show False using u(4) by (auto simp: skip_line_def split: list.splits)
qed

lemma map_iterate_loop_returns:
  assumes "\<And>lo hi bits pth st. f lo hi bits pth st \<noteq> Inl No_return" "ends_line fp" "length fp < k"
  shows "map_iterate_loop k f fp st \<noteq> Inl No_return"
  using assms(2,3)
proof (induction k arbitrary: fp st)
  case (Suc k)
  have "map_iterate_loop k f t st' \<noteq> Inl No_return" if "read_mapline fp = Inr (Some m, t)" for m t st'
    using read_mapline_progress [OF that] Suc.prems by (intro Suc.IH) (auto intro: ends_line_suffix)
  then show ?case using read_mapline_returns [OF Suc.prems(1)] assms(1)
    by (auto simp: bind_res_def split: sum.splits option.splits)
qed simp

section \<open>Properties\<close>

text \<open>
  C33: a line of the memory map in the form in which the kernel writes it, with a name or without one,
  is read back as the fields it was written from, and the stream is left at the start of the next
  line. Of a name with white space only the first word is read; names that do not fit the array of
  the struct are excluded.
\<close>

theorem mapline_roundtrip:
  assumes "mapline_text m s"
  shows "read_mapline (s @ rest) = Inr (Some m, rest)"
  using assms by (rule read_mapline_text)

definition sample_line :: mapline_t where
  "sample_line = \<lparr>ml_range_begin = 0x40F000, ml_range_end = 0x410000, ml_bits = ''rw-p'', ml_f1 = 0x1a, ml_f2 = 8,
     ml_f3 = 1, ml_f4 = 42, ml_path = ''/lib/a.so''\<rparr>"

lemma sample_line_text:
  "mapline_text sample_line (''0040f000-00410000 rw-p 0000001a 08:01 42   /lib/a.so (deleted)'' @ [CHR 0x0A])"
  unfolding mapline_text_def
  by (rule exI [of _ "''0040f000''"], rule exI [of _ "''00410000''"], rule exI [of _ "''0000001a''"],
      rule exI [of _ "''08''"], rule exI [of _ "''01''"], rule exI [of _ 42], rule exI [of _ "''42''"],
      rule exI [of _ "''   /lib/a.so (deleted)'' @ [CHR 0x0A]"])
    (auto simp: sample_line_def num_text_def is_digit_in_def digit_val_def digits_nat_def to_int_def path_text_def
      MAPLINE_PATH_SIZE_def is_space_def intro!: exI [of _ "Suc (Suc 0)"] exI [of _ "'' (deleted)''"])

definition anon_line :: mapline_t where
  "anon_line = \<lparr>ml_range_begin = 0x7F0000, ml_range_end = 0x7F2000, ml_bits = ''rw-p'', ml_f1 = 0, ml_f2 = 0,
     ml_f3 = 0, ml_f4 = 0, ml_path = []\<rparr>"

lemma anon_line_text: "mapline_text anon_line (''007f0000-007f2000 rw-p 00000000 00:00 0 '' @ [CHR 0x0A])"
  unfolding mapline_text_def
  by (rule exI [of _ "''007f0000''"], rule exI [of _ "''007f2000''"], rule exI [of _ "''00000000''"],
      rule exI [of _ "''00''"], rule exI [of _ "''00''"], rule exI [of _ 0], rule exI [of _ "''0''"],
      rule exI [of _ "'' '' @ [CHR 0x0A]"])
    (auto simp: anon_line_def num_text_def is_digit_in_def digit_val_def digits_nat_def to_int_def path_text_def
      is_space_def intro!: exI [of _ "Suc 0"])

theorem mapline_roundtrip_witness:
  "read_mapline (''0040f000-00410000 rw-p 0000001a 08:01 42   /lib/a.so (deleted)'' @ [CHR 0x0A] @ ''00'') =
     Inr (Some sample_line, ''00'') \<and>
   read_mapline (''007f0000-007f2000 rw-p 00000000 00:00 0 '' @ [CHR 0x0A] @ ''00'') = Inr (Some anon_line, ''00'')"
  using mapline_roundtrip [OF sample_line_text, of "''00''"] mapline_roundtrip [OF anon_line_text, of "''00''"]
  by (simp only: append_assoc simp_thms)

text \<open>
  C34: on a file that holds the text of some lines, each in the form of the previous property, the iteration calls the function it was given
  for exactly these lines, in order, until the function stops it; and the search for a stack
  returns the bounds of the first mapping that holds the address.
\<close>

theorem map_iterate_visits_lines:
  assumes "map_text ms fp"
  shows "forkscan_proc_map_iterate (Some fp) f st = visit_lines f ms st \<and>
    forkscan_proc_stack_from_addr (Some fp) addr =
      Inr (case find (\<lambda>m. ml_range_begin m < addr \<and> addr < ml_range_end m) ms of
             None \<Rightarrow> \<lparr>mr_low = 0, mr_high = 0\<rparr>
           | Some m \<Rightarrow> \<lparr>mr_low = ml_range_begin m, mr_high = ml_range_end m\<rparr>)"
  using map_iterate_loop_text [OF assms lessI] stack_from_addr_text [OF assms lessI]
  by (simp only: forkscan_proc_map_iterate_def forkscan_proc_stack_from_addr_def option.case simp_thms)

theorem map_iterate_visits_lines_witness:
  "\<exists>fp. map_text [sample_line, anon_line] fp \<and> forkscan_proc_stack_from_addr (Some fp) 0x7F0010 = Inr \<lparr>mr_low = 0x7F0000, mr_high = 0x7F2000\<rparr> \<and>
     forkscan_proc_map_iterate (Some fp) (\<lambda>lo hi bits pth n. Inr (True, Suc n)) 0 = Inr 2"
proof -
  let ?a = "''0040f000-00410000 rw-p 0000001a 08:01 42   /lib/a.so (deleted)'' @ [CHR 0x0A]"
  let ?b = "''007f0000-007f2000 rw-p 00000000 00:00 0 '' @ [CHR 0x0A]"
  have t: "map_text [sample_line, anon_line] (concat [?a, ?b])"
    unfolding map_text_def by (rule exI [of _ "[?a, ?b]"]) (simp only: list.rel_intros sample_line_text anon_line_text simp_thms)
  note m = map_iterate_visits_lines [OF t, of "\<lambda>lo hi bits pth n. Inr (True, Suc n)" "0 :: nat" "0x7F0010"]
  have "forkscan_proc_stack_from_addr (Some (concat [?a, ?b])) 0x7F0010 = Inr \<lparr>mr_low = 0x7F0000, mr_high = 0x7F2000\<rparr>"
    unfolding conjunct2 [OF m] by (simp add: sample_line_def anon_line_def)
  moreover have "forkscan_proc_map_iterate (Some (concat [?a, ?b])) (\<lambda>lo hi bits pth n. Inr (True, Suc n)) 0 = Inr (2 :: nat)"
    unfolding conjunct1 [OF m] by simp
  ultimately show ?thesis using t by blast
qed

text \<open>
  C35: whatever the file holds, as long as its last line is complete, the iteration ends: it
  returns or stops on an error, provided the function called for each line does so.
\<close>

theorem map_iterate_terminates:
  assumes "ends_line fp" and "\<And>lo hi bits pth st. f lo hi bits pth st \<noteq> Inl No_return"
  shows "forkscan_proc_map_iterate (Some fp) f st \<noteq> Inl No_return"
  using map_iterate_loop_returns [OF assms(2,1) lessI]
  by (simp only: forkscan_proc_map_iterate_def option.case not_False_eq_True)

theorem map_iterate_terminates_witness:
  "forkscan_proc_map_iterate (Some (''garbage'' @ [CHR 0x0A])) (\<lambda>_ _ _ _ n. Inr (True, Suc n)) 0 \<noteq> Inl No_return"
  by (rule map_iterate_terminates) (simp_all add: ends_line_def)

end
