(* ===== verification/Ranges.thy ===== *)
theory Ranges
  imports Proc Thread_Data
begin

text \<open>
  Choosing the memory to scan, \<^verbatim>\<open>src/child.c\<close>: the writable private ranges of the memory map,
  without Forkscan's own memory, cut to pieces of at most \<^verbatim>\<open>MAX_RANGE_SIZE\<close> bytes, and the stacks
  Forkscan has given to threads. The address of \<^verbatim>\<open>stderr->_lock\<close> is a parameter.
\<close>

section \<open>The code\<close>

definition MAX_MARK_AND_SWEEP_RANGES :: int where
  "MAX_MARK_AND_SWEEP_RANGES = 0x10000"

definition MAX_RANGE_SIZE :: size_t where
  "MAX_RANGE_SIZE = 8 * 1024 * 1024"

record ranges_t =
  g_ranges :: "mem_range_t list"
  g_n_ranges :: int
  g_bytes_to_scan :: size_t

text \<open>
  \<^verbatim>\<open>is_lib\<close>: the path is what is left of the string; the character behind a string is its
  terminating zero, so \<open>[]\<close> stands for the position of that zero.
\<close>

function is_lib_loop :: "string \<Rightarrow> string \<Rightarrow> bool" where
  "is_lib_loop library pth =
     (case pth of
        [] \<Rightarrow> False
      | _ # pth \<Rightarrow>
          if take (length library) pth = library \<and>
             (case drop (length library) pth of [] \<Rightarrow> False | c # _ \<Rightarrow> c = CHR ''.'' \<or> c = CHR ''-'')
          then True
          else is_lib_loop library (dropWhile (\<lambda>c. c \<noteq> CHR ''/'') pth))"
  by pat_completeness auto
termination
  by (relation "measure (\<lambda>(l, p). length p)") (auto simp: le_imp_less_Suc length_dropWhile_le)

definition is_lib :: "string \<Rightarrow> string \<Rightarrow> bool" where
  "is_lib library pth = (case pth of [] \<Rightarrow> False | c # t \<Rightarrow> if c \<noteq> CHR ''/'' then False else is_lib_loop library t)"

text \<open>The tests on a line of the map, in the order of the code; \<open>True\<close> when the range is passed over.\<close>

definition passed_over :: "size_t \<Rightarrow> size_t \<Rightarrow> size_t \<Rightarrow> string \<Rightarrow> string \<Rightarrow> bool res" where
  "passed_over stderr_lock low high bits pth =
     bind_res (rd bits 1) (\<lambda>w.
     if w = CHR ''-'' then Inr True
     else bind_res (rd bits 2) (\<lambda>x.
     if x = CHR ''x'' then Inr True
     else if low = high then Inr True
     else if low \<le> stderr_lock \<and> high \<ge> stderr_lock then Inr True
     else if is_lib ''libc'' pth then Inr True
     else if is_lib ''libdl'' pth then Inr True
     else if is_lib ''libforkscan'' pth then Inr True
     else bind_res (rd bits 3) (\<lambda>s.
     if s = CHR ''s'' then Inr True
     else Inr (take 7 pth = ''[stack:''))))"

text \<open>
  The inner loop that cuts a piece at a time. It writes before any check, so it ends at the latest
  when it runs off the array.
\<close>

function split_range :: "mem_range_t \<Rightarrow> ranges_t \<Rightarrow> (mem_range_t \<times> ranges_t) res" where
  "split_range nxt rs =
     (if mr_low nxt + MAX_RANGE_SIZE < mr_high nxt
      then
        bind_res (wr (g_ranges rs) (g_n_ranges rs) (nxt\<lparr>mr_high := mr_low nxt + MAX_RANGE_SIZE\<rparr>)) (\<lambda>a.
        split_range (nxt\<lparr>mr_low := mr_low nxt + MAX_RANGE_SIZE\<rparr>)
          (rs\<lparr>g_ranges := a, g_n_ranges := g_n_ranges rs + 1\<rparr>))
      else Inr (nxt, rs))"
  by pat_completeness auto
termination
  by (relation "measure (\<lambda>(nxt, rs). nat (int (length (g_ranges rs)) - g_n_ranges rs))") (auto simp: wr_eq_Inr)

definition add_range :: "mem_range_t \<Rightarrow> ranges_t \<Rightarrow> ranges_t res" where
  "add_range nxt rs =
     bind_res (split_range nxt (rs\<lparr>g_bytes_to_scan := g_bytes_to_scan rs + (mr_high nxt - mr_low nxt)\<rparr>)) (\<lambda>(nxt, rs).
     bind_res (wr (g_ranges rs) (g_n_ranges rs) nxt) (\<lambda>a.
     let rs = rs\<lparr>g_ranges := a, g_n_ranges := g_n_ranges rs + 1\<rparr> in
     if g_n_ranges rs \<ge> MAX_MARK_AND_SWEEP_RANGES then Inl (Fatal ''Too many memory ranges.'') else Inr rs))"

text \<open>
  The loop over the chunks of a range. Each round raises the low end, so \<open>high - low + 1\<close> rounds are
  enough.
\<close>

fun collect_loop :: "nat \<Rightarrow> alloc_state \<Rightarrow> mem_range_t \<Rightarrow> ranges_t \<Rightarrow> ranges_t res" where
  "collect_loop 0 al big rs = Inl No_return"
| "collect_loop (Suc k) al big rs =
     (if mr_low big \<noteq> mr_high big
      then
        bind_res (forkscan_alloc_next_subrange al big) (\<lambda>(nxt, big).
        bind_res (if mr_low nxt \<noteq> mr_high nxt then add_range nxt rs else Inr rs) (\<lambda>rs.
        collect_loop k al big rs))
      else Inr rs)"

definition collect_ranges ::
    "size_t \<Rightarrow> alloc_state \<Rightarrow> size_t \<Rightarrow> size_t \<Rightarrow> string \<Rightarrow> string \<Rightarrow> ranges_t \<Rightarrow> (bool \<times> ranges_t) res" where
  "collect_ranges stderr_lock al low high bits pth rs =
     bind_res (passed_over stderr_lock low high bits pth) (\<lambda>skip.
     if skip then Inr (True, rs)
     else
       bind_res (collect_loop (Suc (unat (high - low))) al \<lparr>mr_low = low, mr_high = high\<rparr> rs) (\<lambda>rs.
       Inr (True, rs)))"

text \<open>\<open>add_stack_ranges\<close> walks the thread list from its head.\<close>

fun stack_ranges_loop :: "nat \<Rightarrow> thread_data_t store \<Rightarrow> size_t \<Rightarrow> ranges_t \<Rightarrow> ranges_t res" where
  "stack_ranges_loop 0 tds td rs = Inl No_return"
| "stack_ranges_loop (Suc k) tds td rs =
     (if td = 0 then Inr rs
      else
        bind_res (ld tds td) (\<lambda>t.
        bind_res
          (if td_stack_is_ours t
           then
             bind_res (wr (g_ranges rs) (g_n_ranges rs)
                 \<lparr>mr_low = td_user_stack_low t, mr_high = td_user_stack_high t\<rparr>) (\<lambda>a.
             Inr (rs\<lparr>g_bytes_to_scan := g_bytes_to_scan rs + (td_user_stack_high t - td_user_stack_low t),
                     g_ranges := a, g_n_ranges := g_n_ranges rs + 1\<rparr>))
           else Inr rs) (\<lambda>rs.
        stack_ranges_loop k tds (td_next t) rs)))"

definition add_stack_ranges :: "thread_data_t store \<Rightarrow> size_t \<Rightarrow> ranges_t \<Rightarrow> ranges_t res" where
  "add_stack_ranges tds head rs = stack_ranges_loop (Suc (length tds)) tds head rs"

declare is_lib_loop.simps [simp del] split_range.simps [simp del]

section \<open>Libraries\<close>

lemma is_lib_loop_component:
  assumes "d \<noteq> []" "c = CHR ''.'' \<or> c = CHR ''-''"
  shows "is_lib_loop lib (d @ CHR ''/'' # lib @ c # rest)"
  using assms(1)
proof (induction "length d" arbitrary: d rule: less_induct)
  case less
  then obtain y e where d: "d = y # e" by (cases d) auto
  let ?t = "CHR ''/'' # lib @ c # rest"
  let ?drop = "\<lambda>p. dropWhile (\<lambda>c. c \<noteq> CHR ''/'') p"
  have "is_lib_loop lib (?drop (e @ ?t))"
  proof (cases "CHR ''/'' \<in> set e")
    case True
    have "?drop (e @ ?t) = ?drop e @ ?t" using True by (simp add: dropWhile_append1)
    moreover have "?drop e \<noteq> []" using True by auto
    moreover have "length (?drop e) < length d" using d by (simp add: le_imp_less_Suc length_dropWhile_le)
    ultimately show ?thesis using less.hyps [of "?drop e"] by simp
  next
    case False
    have "?drop (e @ ?t) = ?t" using False by (subst dropWhile_append2) auto
    then show ?thesis using assms(2) by (simp add: is_lib_loop.simps [of lib ?t])
  qed
  then show ?case unfolding d by (simp add: is_lib_loop.simps [of lib "y # e @ ?t"])
qed

section \<open>Cutting a range to pieces\<close>

definition live_ranges :: "ranges_t \<Rightarrow> mem_range_t list" where
  "live_ranges rs = take (nat (g_n_ranges rs)) (g_ranges rs)"

definition ranges_inv :: "ranges_t \<Rightarrow> bool" where
  "ranges_inv rs \<longleftrightarrow> int (length (g_ranges rs)) = MAX_MARK_AND_SWEEP_RANGES \<and> 0 \<le> g_n_ranges rs"

fun tiles :: "size_t \<Rightarrow> mem_range_t list \<Rightarrow> size_t \<Rightarrow> bool" where
  "tiles a [] b \<longleftrightarrow> a = b"
| "tiles a (p # ps) b \<longleftrightarrow> mr_low p = a \<and> mr_low p < mr_high p \<and> mr_high p - mr_low p \<le> MAX_RANGE_SIZE \<and>
     tiles (mr_high p) ps b"

lemma tiles_snoc: "tiles a (ps @ [p]) b \<longleftrightarrow> tiles a ps (mr_low p) \<and> tiles (mr_low p) [p] b"
  by (induction ps arbitrary: a) auto

lemma tiles_le: "tiles a ps b \<Longrightarrow> a \<le> b"
  by (induction ps arbitrary: a) force+

lemma tiles_within: "tiles a ps b \<Longrightarrow> q \<in> set ps \<Longrightarrow> a \<le> mr_low q \<and> mr_high q \<le> b"
proof (induction ps arbitrary: a)
  case (Cons p ps)
  then show ?case using tiles_le [of "mr_high p" ps b] by force
qed simp

lemma tiles_sorted: "tiles a ps b \<Longrightarrow> sorted_wrt (\<lambda>x y. mr_high x \<le> mr_low y) ps"
  by (induction ps arbitrary: a) (auto dest: tiles_within)

lemma tiles_cover: "tiles a ps b \<Longrightarrow> (\<exists>q\<in>set ps. in_range q x) \<longleftrightarrow> a \<le> x \<and> x < b"
proof (induction ps arbitrary: a)
  case (Cons p ps)
  then have "(\<exists>q\<in>set ps. in_range q x) \<longleftrightarrow> mr_high p \<le> x \<and> x < b" "mr_high p \<le> b" "a = mr_low p" "a < mr_high p"
    by (auto dest: tiles_le)
  then show ?case by (auto simp: in_range_def)
qed auto

lemma tiles_sizes:
  "tiles a ps b \<Longrightarrow> q \<in> set ps \<Longrightarrow> mr_low q < mr_high q \<and> mr_high q - mr_low q \<le> MAX_RANGE_SIZE"
  by (induction ps arbitrary: a) auto

definition range_bytes :: "mem_range_t list \<Rightarrow> size_t" where
  "range_bytes qs = sum_list (map (\<lambda>q. mr_high q - mr_low q) qs)"

lemma range_bytes_append [simp]: "range_bytes (ps @ qs) = range_bytes ps + range_bytes qs"
  by (simp add: range_bytes_def)

lemma range_bytes_Nil [simp]: "range_bytes [] = 0"
  by (simp add: range_bytes_def)

lemma tiles_bytes: "tiles a ps b \<Longrightarrow> range_bytes ps = b - a"
  by (induction ps arbitrary: a) (auto simp: range_bytes_def)

lemma live_ranges_snoc:
  assumes "ranges_inv rs" "wr (g_ranges rs) (g_n_ranges rs) q = Inr a"
  shows "live_ranges (rs\<lparr>g_ranges := a, g_n_ranges := g_n_ranges rs + 1, g_bytes_to_scan := b\<rparr>) = live_ranges rs @ [q]"
    "ranges_inv (rs\<lparr>g_ranges := a, g_n_ranges := g_n_ranges rs + 1, g_bytes_to_scan := b\<rparr>)"
proof -
  define n where "n = nat (g_n_ranges rs)"
  have n: "g_n_ranges rs = int n" "n < length (g_ranges rs)" "a = (g_ranges rs)[n := q]"
    using assms by (auto simp: wr_eq_Inr ranges_inv_def n_def)
  then show "live_ranges (rs\<lparr>g_ranges := a, g_n_ranges := g_n_ranges rs + 1, g_bytes_to_scan := b\<rparr>) = live_ranges rs @ [q]"
    by (simp add: live_ranges_def take_Suc_conv_app_nth)
  show "ranges_inv (rs\<lparr>g_ranges := a, g_n_ranges := g_n_ranges rs + 1, g_bytes_to_scan := b\<rparr>)"
    using assms(1) n by (simp add: ranges_inv_def)
qed

text \<open>No address of the range is within \<^verbatim>\<open>MAX_RANGE_SIZE\<close> of the end of the address space.\<close>

definition user_range :: "mem_range_t \<Rightarrow> bool" where
  "user_range r \<longleftrightarrow> mr_low r < mr_high r \<and> unat (mr_high r) + unat MAX_RANGE_SIZE < 2 ^ 64"

lemma user_range_step:
  assumes "user_range r"
  shows "mr_low r < mr_low r + MAX_RANGE_SIZE" "mr_low r + MAX_RANGE_SIZE - mr_low r = MAX_RANGE_SIZE"
    "\<not> mr_low r + MAX_RANGE_SIZE < mr_high r \<Longrightarrow> mr_high r - mr_low r \<le> MAX_RANGE_SIZE"
proof -
  have lt: "unat (mr_low r) < unat (mr_high r)" "unat (mr_high r) + unat MAX_RANGE_SIZE < 2 ^ 64"
    using assms by (auto simp: user_range_def word_less_nat_alt)
  then have u: "unat (mr_low r + MAX_RANGE_SIZE) = unat (mr_low r) + unat MAX_RANGE_SIZE"
    by (subst unat_add_lem [THEN iffD1]) auto
  show "mr_low r < mr_low r + MAX_RANGE_SIZE" using u by (simp add: word_less_nat_alt MAX_RANGE_SIZE_def)
  show "mr_low r + MAX_RANGE_SIZE - mr_low r = MAX_RANGE_SIZE" by simp
  show "mr_high r - mr_low r \<le> MAX_RANGE_SIZE" if "\<not> mr_low r + MAX_RANGE_SIZE < mr_high r"
    using that u lt(1) by (simp add: word_less_nat_alt word_le_nat_alt unat_sub)
qed

text \<open>
  What it takes for the array to overflow: with the ranges \<open>rs\<close> in it, pieces \<open>ps\<close> as \<open>P\<close> says would have
  to be stored that fill it up.
\<close>

definition too_many :: "ranges_t \<Rightarrow> (mem_range_t list \<Rightarrow> bool) \<Rightarrow> 'a res \<Rightarrow> bool" where
  "too_many rs P r \<longleftrightarrow> (r = Inl Out_of_bounds \<or> r = Inl (Fatal ''Too many memory ranges.'')) \<and>
     (\<exists>ps. P ps \<and> MAX_MARK_AND_SWEEP_RANGES \<le> int (length (live_ranges rs) + length ps))"

lemma too_many_bind: "too_many rs P m \<Longrightarrow> too_many rs P (bind_res m f)"
  by (auto simp: too_many_def)

lemma too_many_more:
  "too_many rs' P r \<Longrightarrow> live_ranges rs' = live_ranges rs @ ps \<Longrightarrow> (\<And>qs. P qs \<Longrightarrow> Q (ps @ qs)) \<Longrightarrow> too_many rs Q r"
  unfolding too_many_def by (metis (no_types, lifting) add.assoc length_append)

lemma wr_full:
  assumes "ranges_inv rs" "wr (g_ranges rs) (g_n_ranges rs) q = Inl e"
  shows "e = Out_of_bounds" "int (length (live_ranges rs)) = MAX_MARK_AND_SWEEP_RANGES"
  using assms by (auto simp: wr_def ranges_inv_def live_ranges_def split: if_splits)

text \<open>Pieces of the chunk from \<open>a\<close> to \<open>b\<close>, from the start on; each is of full size or ends where the chunk ends.\<close>

definition part_tiles :: "size_t \<Rightarrow> size_t \<Rightarrow> mem_range_t list \<Rightarrow> bool" where
  "part_tiles a b ps \<longleftrightarrow> (\<exists>l. tiles a ps l \<and> l \<le> b) \<and> (\<forall>q\<in>set ps. mr_high q - mr_low q = MAX_RANGE_SIZE \<or> mr_high q = b)"

lemma split_range_ok:
  assumes "user_range nxt" "ranges_inv rs"
  shows "too_many rs (part_tiles (mr_low nxt) (mr_high nxt)) (split_range nxt rs) \<or>
    (\<exists>l rs' ps. split_range nxt rs = Inr (nxt\<lparr>mr_low := l\<rparr>, rs') \<and> ranges_inv rs' \<and>
       live_ranges rs' = live_ranges rs @ ps \<and> tiles (mr_low nxt) ps l \<and> user_range (nxt\<lparr>mr_low := l\<rparr>) \<and>
       mr_high nxt - l \<le> MAX_RANGE_SIZE \<and> g_bytes_to_scan rs' = g_bytes_to_scan rs \<and>
       part_tiles (mr_low nxt) (mr_high nxt) ps)"
  using assms
proof (induction nxt rs rule: split_range.induct)
  case (1 nxt rs)
  let ?l = "mr_low nxt + MAX_RANGE_SIZE"
  note step = user_range_step [OF "1.prems"(1)]
  have lt: "mr_low nxt < mr_high nxt" using "1.prems"(1) by (simp add: user_range_def)
  then have nil: "part_tiles (mr_low nxt) (mr_high nxt) []" by (simp add: part_tiles_def)
  show ?case
  proof (cases "?l < mr_high nxt")
    case False
    have "split_range nxt rs = Inr (nxt, rs)" using False by (simp add: split_range.simps)
    then show ?thesis using "1.prems" step(3) [OF False] nil by (intro disjI2 exI [of _ "mr_low nxt"] exI [of _ rs] exI [of _ "[]"]) simp
  next
    case True
    show ?thesis
    proof (cases "wr (g_ranges rs) (g_n_ranges rs) (nxt\<lparr>mr_high := ?l\<rparr>)")
      case (Inl e)
      then have "split_range nxt rs = Inl Out_of_bounds" using True wr_full(1) [OF "1.prems"(2) Inl] by (simp add: split_range.simps)
      then show ?thesis using wr_full(2) [OF "1.prems"(2) Inl] nil by (auto simp: too_many_def intro!: exI [of _ "[]"])
    next
      case (Inr a)
      let ?rs = "rs\<lparr>g_ranges := a, g_n_ranges := g_n_ranges rs + 1\<rparr>" and ?p = "nxt\<lparr>mr_high := ?l\<rparr>"
      have eq: "split_range nxt rs = split_range (nxt\<lparr>mr_low := ?l\<rparr>) ?rs" using True Inr by (simp add: split_range.simps [of nxt])
      have u: "user_range (nxt\<lparr>mr_low := ?l\<rparr>)" using "1.prems"(1) True by (simp add: user_range_def)
      have r: "?rs = rs\<lparr>g_ranges := a, g_n_ranges := g_n_ranges rs + 1, g_bytes_to_scan := g_bytes_to_scan rs\<rparr>" by simp
      note live = live_ranges_snoc [OF "1.prems"(2) Inr, of "g_bytes_to_scan rs", folded r]
      have tile: "tiles (mr_low nxt) [?p] ?l" using step by simp
      have more: "part_tiles (mr_low nxt) (mr_high nxt) ([?p] @ qs)" if "part_tiles ?l (mr_high nxt) qs" for qs
        using that tile step(2) by (auto simp: part_tiles_def)
      from "1.IH" [OF True Inr u live(2)] show ?thesis
      proof (elim disjE exE conjE)
        assume "too_many ?rs (part_tiles (mr_low (nxt\<lparr>mr_low := ?l\<rparr>)) (mr_high (nxt\<lparr>mr_low := ?l\<rparr>))) (split_range (nxt\<lparr>mr_low := ?l\<rparr>) ?rs)"
        then have "too_many ?rs (part_tiles ?l (mr_high nxt)) (split_range (nxt\<lparr>mr_low := ?l\<rparr>) ?rs)" by simp
        then have "too_many rs (part_tiles (mr_low nxt) (mr_high nxt)) (split_range (nxt\<lparr>mr_low := ?l\<rparr>) ?rs)"
          by (rule too_many_more [OF _ live(1)]) (rule more)
        then show ?thesis unfolding eq by (rule disjI1)
      next
        fix l rs' ps
        assume h: "split_range (nxt\<lparr>mr_low := ?l\<rparr>) ?rs = Inr (nxt\<lparr>mr_low := ?l, mr_low := l\<rparr>, rs')" "ranges_inv rs'"
          "live_ranges rs' = live_ranges ?rs @ ps" "tiles (mr_low (nxt\<lparr>mr_low := ?l\<rparr>)) ps l"
          "user_range (nxt\<lparr>mr_low := ?l, mr_low := l\<rparr>)" "mr_high (nxt\<lparr>mr_low := ?l\<rparr>) - l \<le> MAX_RANGE_SIZE"
          "g_bytes_to_scan rs' = g_bytes_to_scan ?rs" "part_tiles (mr_low (nxt\<lparr>mr_low := ?l\<rparr>)) (mr_high (nxt\<lparr>mr_low := ?l\<rparr>)) ps"
        then show ?thesis using eq live tile more [of ps]
          by (intro disjI2 exI [of _ l] exI [of _ rs'] exI [of _ "?p # ps"]) simp
      qed
    qed
  qed
qed

lemma add_range_ok:
  assumes "user_range nxt" "ranges_inv rs"
  shows "too_many rs (part_tiles (mr_low nxt) (mr_high nxt)) (add_range nxt rs) \<or>
    (\<exists>rs' ps. add_range nxt rs = Inr rs' \<and> ranges_inv rs' \<and> g_n_ranges rs' < MAX_MARK_AND_SWEEP_RANGES \<and>
       live_ranges rs' = live_ranges rs @ ps \<and> tiles (mr_low nxt) ps (mr_high nxt) \<and>
       g_bytes_to_scan rs' = g_bytes_to_scan rs + range_bytes ps \<and> part_tiles (mr_low nxt) (mr_high nxt) ps)"
proof -
  let ?b = "g_bytes_to_scan rs + (mr_high nxt - mr_low nxt)"
  let ?rs = "rs\<lparr>g_bytes_to_scan := ?b\<rparr>"
  have inv: "ranges_inv ?rs" "live_ranges ?rs = live_ranges rs"
    using assms(2) by (simp_all add: ranges_inv_def live_ranges_def)
  from split_range_ok [OF assms(1) inv(1)] show ?thesis
  proof (elim disjE exE conjE)
    assume "too_many ?rs (part_tiles (mr_low nxt) (mr_high nxt)) (split_range nxt ?rs)"
    then have "too_many rs (part_tiles (mr_low nxt) (mr_high nxt)) (split_range nxt ?rs)" by (rule too_many_more [of _ _ _ _ "[]"]) (simp_all add: inv)
    then show ?thesis by (simp add: add_range_def too_many_bind)
  next
    fix l rs1 ps
    let ?n = "nxt\<lparr>mr_low := l\<rparr>"
    assume h: "split_range nxt ?rs = Inr (?n, rs1)" "ranges_inv rs1" "live_ranges rs1 = live_ranges ?rs @ ps"
      "tiles (mr_low nxt) ps l" "user_range ?n" "mr_high nxt - l \<le> MAX_RANGE_SIZE" "g_bytes_to_scan rs1 = g_bytes_to_scan ?rs"
      "part_tiles (mr_low nxt) (mr_high nxt) ps"
    have t: "tiles (mr_low nxt) (ps @ [?n]) (mr_high nxt)" using h(4-6) by (simp add: tiles_snoc user_range_def)
    then have pt: "part_tiles (mr_low nxt) (mr_high nxt) (ps @ [?n])" using h(8) by (auto simp: part_tiles_def)
    show ?thesis
    proof (cases "wr (g_ranges rs1) (g_n_ranges rs1) ?n")
      case (Inl e)
      then have "add_range nxt rs = Inl Out_of_bounds" using h(1) wr_full(1) [OF h(2) Inl] by (simp add: add_range_def)
      moreover have "MAX_MARK_AND_SWEEP_RANGES = int (length (live_ranges rs) + length ps)" using wr_full(2) [OF h(2) Inl] h(3) inv(2) by simp
      ultimately show ?thesis using h(8) by (auto simp: too_many_def)
    next
      case (Inr a)
      let ?r = "rs1\<lparr>g_ranges := a, g_n_ranges := g_n_ranges rs1 + 1\<rparr>"
      have r: "?r = rs1\<lparr>g_ranges := a, g_n_ranges := g_n_ranges rs1 + 1, g_bytes_to_scan := g_bytes_to_scan rs1\<rparr>" by simp
      note live = live_ranges_snoc [OF h(2) Inr, of "g_bytes_to_scan rs1", folded r]
      have run: "add_range nxt rs = (if g_n_ranges ?r \<ge> MAX_MARK_AND_SWEEP_RANGES then Inl (Fatal ''Too many memory ranges.'') else Inr ?r)"
        using h(1) Inr by (simp add: add_range_def)
      have all: "live_ranges ?r = live_ranges rs @ ps @ [?n]" using live(1) h(3) inv(2) by simp
      show ?thesis
      proof (cases "g_n_ranges ?r \<ge> MAX_MARK_AND_SWEEP_RANGES")
        case True
        then have "int (length (live_ranges ?r)) = MAX_MARK_AND_SWEEP_RANGES" using live(2) by (auto simp: ranges_inv_def live_ranges_def min_def)
        then have "MAX_MARK_AND_SWEEP_RANGES \<le> int (length (live_ranges rs) + length (ps @ [?n]))" unfolding all by simp
        then show ?thesis using True run pt unfolding too_many_def by auto
      next
        case False
        then show ?thesis using run live all h(7) t pt tiles_bytes [OF t] by auto
      qed
    qed
  qed
qed

section \<open>What is scanned of a range\<close>

text \<open>
  \<open>qs\<close> are ordered disjoint pieces of the range \<open>r\<close>, small and not empty, and together they hold
  exactly those addresses of the range that nobody owns.
\<close>

definition scan_plan :: "(size_t \<Rightarrow> bool) \<Rightarrow> mem_range_t \<Rightarrow> mem_range_t list \<Rightarrow> bool" where
  "scan_plan owned r qs \<longleftrightarrow> sorted_wrt (\<lambda>a b. mr_high a \<le> mr_low b) qs \<and>
     (\<forall>q\<in>set qs. mr_low q < mr_high q \<and> mr_high q - mr_low q \<le> MAX_RANGE_SIZE \<and>
        mr_low r \<le> mr_low q \<and> mr_high q \<le> mr_high r) \<and>
     (\<forall>x. in_range r x \<longrightarrow> (\<exists>q\<in>set qs. in_range q x) = (\<not> owned x))"

lemma scan_plan_cut:
  assumes cut: "good_cut owned r ret" and ps: "tiles (mr_low ret) ps (mr_high ret)"
    and qs: "scan_plan owned (r\<lparr>mr_low := mr_high ret\<rparr>) qs"
  shows "scan_plan owned r (ps @ qs)"
proof -
  have c: "mr_low r \<le> mr_low ret" "mr_low ret \<le> mr_high ret" "mr_high ret \<le> mr_high r"
    "\<And>x. in_range ret x \<Longrightarrow> \<not> owned x" "\<And>x. mr_low r \<le> x \<Longrightarrow> x < mr_low ret \<Longrightarrow> owned x"
    using cut by (auto simp: good_cut_def)
  have q: "sorted_wrt (\<lambda>a b. mr_high a \<le> mr_low b) qs"
    "\<And>q. q \<in> set qs \<Longrightarrow> mr_low q < mr_high q \<and> mr_high q - mr_low q \<le> MAX_RANGE_SIZE \<and>
        mr_high ret \<le> mr_low q \<and> mr_high q \<le> mr_high r"
    "\<And>x. mr_high ret \<le> x \<Longrightarrow> x < mr_high r \<Longrightarrow> (\<exists>q\<in>set qs. in_range q x) = (\<not> owned x)"
    using qs by (auto simp: scan_plan_def in_range_def)
  have "(\<exists>q\<in>set (ps @ qs). in_range q x) = (\<not> owned x)" if x: "in_range r x" for x
  proof -
    have "(\<exists>q\<in>set ps. in_range q x) = in_range ret x" using tiles_cover [OF ps] by (simp add: in_range_def)
    moreover have "\<not> (\<exists>q\<in>set qs. in_range q x)" if "x < mr_high ret" using q(2) that by (force simp: in_range_def)
    ultimately show ?thesis using x c q(3) [of x] by (fastforce simp: in_range_def not_less)
  qed
  moreover have "sorted_wrt (\<lambda>a b. mr_high a \<le> mr_low b) (ps @ qs)"
    using tiles_sorted [OF ps] q(1,2) tiles_within [OF ps] by (force simp: sorted_wrt_append)
  moreover have "mr_low r \<le> mr_low p \<and> mr_high p \<le> mr_high r" if "p \<in> set ps" for p
    using tiles_within [OF ps that] c by auto
  moreover have "mr_low r \<le> mr_low p" if "p \<in> set qs" for p using q(2) [OF that] c by auto
  ultimately show ?thesis using q(2) tiles_sizes [OF ps] unfolding scan_plan_def by auto
qed

text \<open>
  The same without the demand that everything is held: pieces that have to be told apart. Each is of
  full size, or ends where the range ends or at an address that is owned.
\<close>

definition cut_plan :: "(size_t \<Rightarrow> bool) \<Rightarrow> mem_range_t \<Rightarrow> mem_range_t list \<Rightarrow> bool" where
  "cut_plan owned r qs \<longleftrightarrow> sorted_wrt (\<lambda>a b. mr_high a \<le> mr_low b) qs \<and>
     (\<forall>q\<in>set qs. mr_low q < mr_high q \<and> mr_low r \<le> mr_low q \<and> mr_high q \<le> mr_high r \<and> (\<forall>x. in_range q x \<longrightarrow> \<not> owned x) \<and>
        (mr_high q - mr_low q = MAX_RANGE_SIZE \<or> mr_high q = mr_high r \<or> owned (mr_high q)))"

lemma cut_plan_Nil [simp]: "cut_plan owned r []"
  by (simp add: cut_plan_def)

lemma cut_plan_cut:
  assumes cut: "good_cut owned r ret" and ps: "part_tiles (mr_low ret) (mr_high ret) ps"
    and qs: "cut_plan owned (r\<lparr>mr_low := mr_high ret\<rparr>) qs"
  shows "cut_plan owned r (ps @ qs)"
proof -
  obtain l where l: "tiles (mr_low ret) ps l" "l \<le> mr_high ret" using ps by (auto simp: part_tiles_def)
  have c: "mr_low r \<le> mr_low ret" "mr_high ret \<le> mr_high r" "\<And>x. in_range ret x \<Longrightarrow> \<not> owned x" "mr_high ret = mr_high r \<or> owned (mr_high ret)"
    "mr_low r \<le> mr_high ret" using cut by (auto simp: good_cut_def)
  have p: "mr_low q < mr_high q \<and> mr_low ret \<le> mr_low q \<and> mr_high q \<le> mr_high ret" if "q \<in> set ps" for q
    using tiles_within [OF l(1) that] tiles_sizes [OF l(1) that] l(2) by auto
  have "sorted_wrt (\<lambda>a b. mr_high a \<le> mr_low b) (ps @ qs)"
    using tiles_sorted [OF l(1)] qs p by (force simp: sorted_wrt_append cut_plan_def)
  moreover have "mr_low r \<le> mr_low q \<and> mr_high q \<le> mr_high r \<and> (\<forall>x. in_range q x \<longrightarrow> \<not> owned x)" if "q \<in> set ps" for q
    using p [OF that] c(1-3) by (auto simp: in_range_def intro: order_trans less_le_trans)
  moreover have "mr_high q - mr_low q = MAX_RANGE_SIZE \<or> mr_high q = mr_high r \<or> owned (mr_high q)" if "q \<in> set ps" for q
    using ps that c(4) by (auto simp: part_tiles_def)
  ultimately show ?thesis using p qs c(5) unfolding cut_plan_def by auto
qed

text \<open>The pieces are bounded by the size of the range.\<close>

lemma cut_plan_length:
  "cut_plan owned r qs \<Longrightarrow> mr_low r \<le> mr_high r \<Longrightarrow> length qs \<le> unat (mr_high r) - unat (mr_low r)"
proof (induction qs arbitrary: r)
  case (Cons q qs)
  have q: "mr_low q < mr_high q" "mr_low r \<le> mr_low q" "mr_high q \<le> mr_high r" using Cons.prems by (simp_all add: cut_plan_def)
  have "cut_plan owned (r\<lparr>mr_low := mr_high q\<rparr>) qs" using Cons.prems(1) by (auto simp: cut_plan_def)
  then have "length qs \<le> unat (mr_high r) - unat (mr_high q)" using Cons.IH [of "r\<lparr>mr_low := mr_high q\<rparr>"] q by simp
  then show ?case using q by (simp add: word_less_nat_alt word_le_nat_alt)
qed simp

text \<open>A range of addresses that a program can use, possibly empty.\<close>

definition user_bounds :: "mem_range_t \<Rightarrow> bool" where
  "user_bounds r \<longleftrightarrow> mr_low r \<le> mr_high r \<and> unat (mr_high r) + unat MAX_RANGE_SIZE < 2 ^ 64"

text \<open>\<open>rs'\<close> extends \<open>rs\<close> by the pieces \<open>qs\<close>.\<close>

definition extended :: "ranges_t \<Rightarrow> ranges_t \<Rightarrow> mem_range_t list \<Rightarrow> bool" where
  "extended rs rs' qs \<longleftrightarrow> ranges_inv rs' \<and> live_ranges rs' = live_ranges rs @ qs \<and>
     g_bytes_to_scan rs' = g_bytes_to_scan rs + range_bytes qs"

lemma extended_refl: "ranges_inv rs \<Longrightarrow> extended rs rs []"
  by (simp add: extended_def)

lemma extended_trans: "extended rs rs' ps \<Longrightarrow> extended rs' rs'' qs \<Longrightarrow> extended rs rs'' (ps @ qs)"
  by (simp add: extended_def)

lemma collect_loop_ok:
  assumes "alloc_ready al" "user_bounds r" "ranges_inv rs" "unat (mr_high r) - unat (mr_low r) < k"
  shows "too_many rs (cut_plan (forkscan_memory al) r) (collect_loop k al r rs) \<or>
    (\<exists>rs' qs. collect_loop k al r rs = Inr rs' \<and> extended rs rs' qs \<and> scan_plan (forkscan_memory al) r qs \<and>
       cut_plan (forkscan_memory al) r qs)"
  using assms(2-)
proof (induction k arbitrary: r rs)
  case (Suc k)
  show ?case
  proof (cases "mr_low r = mr_high r")
    case True
    then have "scan_plan (forkscan_memory al) r []" by (auto simp: scan_plan_def in_range_def)
    then show ?thesis using True Suc.prems(2) by (auto intro!: exI [of _ "[]"] extended_refl)
  next
    case False
    then have lt: "mr_low r < mr_high r" using Suc.prems(1) by (simp add: user_bounds_def order.strict_iff_order)
    obtain ret where ret: "forkscan_alloc_next_subrange al r = Inr (ret, r\<lparr>mr_low := mr_high ret\<rparr>)"
      "good_cut (forkscan_memory al) r ret"
      using alloc_cut.cut [OF assms(1) lt] by blast
    let ?r = "r\<lparr>mr_low := mr_high ret\<rparr>"
    let ?m = "if mr_low ret \<noteq> mr_high ret then add_range ret rs else Inr rs"
    have b: "mr_low r < mr_high ret" "mr_high ret \<le> mr_high r" "mr_low ret \<le> mr_high ret"
      using ret(2) lt by (auto simp: good_cut_def)
    have ur: "user_bounds ?r" using Suc.prems(1) b by (simp add: user_bounds_def)
    have "unat (mr_low r) < unat (mr_high ret)" "unat (mr_high ret) \<le> unat (mr_high r)"
      using b by (auto simp: word_less_nat_alt word_le_nat_alt)
    then have fuel: "unat (mr_high ?r) - unat (mr_low ?r) < k" using Suc.prems(3) by simp
    have eq: "collect_loop (Suc k) al r rs = bind_res ?m (collect_loop k al ?r)" using False ret(1) by simp
    have "too_many rs (part_tiles (mr_low ret) (mr_high ret)) ?m \<or>
      (\<exists>rs' ps. ?m = Inr rs' \<and> extended rs rs' ps \<and> tiles (mr_low ret) ps (mr_high ret) \<and> part_tiles (mr_low ret) (mr_high ret) ps)"
    proof (cases "mr_low ret = mr_high ret")
      case True
      then show ?thesis using Suc.prems(2) by (auto simp: part_tiles_def intro!: exI [of _ "[]"] extended_refl)
    next
      case False
      have "unat (mr_high ret) \<le> unat (mr_high r)" using b(2) by (simp add: word_le_nat_alt)
      then have "user_range ret" using False b(3) Suc.prems(1) by (auto simp: user_range_def user_bounds_def)
      from add_range_ok [OF this Suc.prems(2)] show ?thesis using False by (auto simp: extended_def)
    qed
    then show ?thesis
    proof (elim disjE exE conjE)
      fix rs1 ps assume m: "?m = Inr rs1" "extended rs rs1 ps" "tiles (mr_low ret) ps (mr_high ret)" "part_tiles (mr_low ret) (mr_high ret) ps"
      have live: "ranges_inv rs1" "live_ranges rs1 = live_ranges rs @ ps" using m(2) by (simp_all add: extended_def)
      from Suc.IH [OF ur live(1) fuel] show ?thesis unfolding eq m(1) bind_res_Inr
        using extended_trans [OF m(2)] scan_plan_cut [OF ret(2) m(3)] cut_plan_cut [OF ret(2) m(4)] too_many_more [OF _ live(2)] by blast
    next
      assume "too_many rs (part_tiles (mr_low ret) (mr_high ret)) ?m"
      then have "too_many rs (cut_plan (forkscan_memory al) r) ?m"
        by (rule too_many_more [of _ _ _ _ "[]"]) (use cut_plan_cut [OF ret(2) _ cut_plan_Nil] in simp_all)
      then show ?thesis unfolding eq using too_many_bind by blast
    qed
  qed
qed simp

lemma collect_ranges_ok:
  assumes "alloc_ready al" "user_bounds \<lparr>mr_low = low, mr_high = high\<rparr>" "ranges_inv rs"
    and "passed_over lock low high bits pth = Inr skip"
  shows "\<not> skip \<and> too_many rs (cut_plan (forkscan_memory al) \<lparr>mr_low = low, mr_high = high\<rparr>) (collect_ranges lock al low high bits pth rs) \<or>
    (\<exists>rs' qs. collect_ranges lock al low high bits pth rs = Inr (True, rs') \<and> extended rs rs' qs \<and>
       (if skip then qs = [] else scan_plan (forkscan_memory al) \<lparr>mr_low = low, mr_high = high\<rparr> qs \<and>
         cut_plan (forkscan_memory al) \<lparr>mr_low = low, mr_high = high\<rparr> qs))"
proof (cases skip)
  case True
  then show ?thesis using assms(3,4) by (auto simp: collect_ranges_def intro: extended_refl)
next
  case False
  let ?r = "\<lparr>mr_low = low, mr_high = high\<rparr>"
  have "low \<le> high" using assms(2) by (simp add: user_bounds_def)
  then have "unat high - unat low < Suc (unat (high - low))" by (simp add: unat_sub)
  then have "too_many rs (cut_plan (forkscan_memory al) ?r) (collect_loop (Suc (unat (high - low))) al ?r rs) \<or>
      (\<exists>rs' qs. collect_loop (Suc (unat (high - low))) al ?r rs = Inr rs' \<and>
        extended rs rs' qs \<and> scan_plan (forkscan_memory al) ?r qs \<and> cut_plan (forkscan_memory al) ?r qs)"
    using collect_loop_ok [OF assms(1-3)] by (simp del: collect_loop.simps)
  then show ?thesis using False assms(4)
    by (elim disjE exE conjE) (auto simp add: collect_ranges_def too_many_bind simp del: collect_loop.simps)
qed

section \<open>Stacks\<close>

definition our_stacks :: "thread_data_t store \<Rightarrow> size_t list \<Rightarrow> mem_range_t list" where
  "our_stacks tds ps =
     map (\<lambda>t. \<lparr>mr_low = td_user_stack_low t, mr_high = td_user_stack_high t\<rparr>)
       (filter td_stack_is_ours (map (\<lambda>p. the (map_of tds p)) ps))"

lemma stack_ranges_loop_ok:
  assumes "path td_next tds head ps 0" "ranges_inv rs" "length ps < k"
  shows "too_many rs (\<lambda>qs. qs = our_stacks tds ps) (stack_ranges_loop k tds head rs) \<or>
    (\<exists>rs'. stack_ranges_loop k tds head rs = Inr rs' \<and> extended rs rs' (our_stacks tds ps))"
  using assms
proof (induction ps arbitrary: head rs k)
  case Nil
  then show ?case by (cases k) (auto simp: our_stacks_def intro: extended_refl)
next
  case (Cons p ps)
  then obtain t k' where t: "head = p" "p \<noteq> 0" "map_of tds p = Some t" "path td_next tds (td_next t) ps 0" "k = Suc k'"
    "length ps < k'"
    by (cases k) (auto split: option.splits)
  show ?case
  proof (cases "td_stack_is_ours t")
    case False
    then show ?thesis using Cons.IH [OF t(4) Cons.prems(2) t(6)] t by (simp add: our_stacks_def)
  next
    case True
    let ?q = "\<lparr>mr_low = td_user_stack_low t, mr_high = td_user_stack_high t\<rparr>"
    let ?b = "g_bytes_to_scan rs + (td_user_stack_high t - td_user_stack_low t)"
    show ?thesis
    proof (cases "wr (g_ranges rs) (g_n_ranges rs) ?q")
      case (Inl e)
      then have "stack_ranges_loop k tds head rs = Inl Out_of_bounds" using t True wr_full(1) [OF Cons.prems(2) Inl] by simp
      then show ?thesis using wr_full(2) [OF Cons.prems(2) Inl] by (simp add: too_many_def)
    next
      case (Inr a)
      let ?rs = "rs\<lparr>g_bytes_to_scan := ?b, g_ranges := a, g_n_ranges := g_n_ranges rs + 1\<rparr>"
      have r: "?rs = rs\<lparr>g_ranges := a, g_n_ranges := g_n_ranges rs + 1, g_bytes_to_scan := ?b\<rparr>" by simp
      note live = live_ranges_snoc [OF Cons.prems(2) Inr, of ?b, folded r]
      have ext: "extended rs ?rs [?q]" using live by (simp add: extended_def range_bytes_def)
      have os: "our_stacks tds (p # ps) = [?q] @ our_stacks tds ps" using True t(3) by (simp add: our_stacks_def)
      have "stack_ranges_loop k tds head rs = stack_ranges_loop k' tds (td_next t) ?rs" using t True Inr by simp
      moreover have "too_many rs (\<lambda>qs. qs = [?q] @ our_stacks tds ps) r" if "too_many ?rs (\<lambda>qs. qs = our_stacks tds ps) r" for r :: "ranges_t res"
        using that by (rule too_many_more [OF _ live(1)]) simp
      ultimately show ?thesis using Cons.IH [OF t(4) live(2) t(6)] extended_trans [OF ext] unfolding os by auto
    qed
  qed
qed

section \<open>Properties\<close>

text \<open>
  C36: the check for too many ranges comes too late. A range of more than \<^verbatim>\<open>MAX_RANGE_SIZE\<close> bytes
  that finds one free entry is written past the end of the array before the number is checked.
\<close>

theorem add_range_past_end:
  assumes "user_range nxt" and "ranges_inv rs" and "g_n_ranges rs = MAX_MARK_AND_SWEEP_RANGES - 1"
    and "mr_low nxt + MAX_RANGE_SIZE < mr_high nxt"
  shows "add_range nxt rs = Inl Out_of_bounds"
proof -
  have full: "split_range n r = Inl Out_of_bounds \<or> split_range n r = Inr (n, r)"
    if "g_n_ranges r = MAX_MARK_AND_SWEEP_RANGES" "int (length (g_ranges r)) = MAX_MARK_AND_SWEEP_RANGES" for n r
    using that by (simp add: split_range.simps [of n] wr_def)
  let ?rs = "rs\<lparr>g_bytes_to_scan := g_bytes_to_scan rs + (mr_high nxt - mr_low nxt)\<rparr>"
  let ?n = "nxt\<lparr>mr_low := mr_low nxt + MAX_RANGE_SIZE\<rparr>"
  obtain a where a: "wr (g_ranges ?rs) (g_n_ranges ?rs) (nxt\<lparr>mr_high := mr_low nxt + MAX_RANGE_SIZE\<rparr>) = Inr a"
    "length a = length (g_ranges rs)"
    using assms(2,3) by (auto simp: wr_def ranges_inv_def MAX_MARK_AND_SWEEP_RANGES_def)
  let ?r = "?rs\<lparr>g_ranges := a, g_n_ranges := g_n_ranges ?rs + 1\<rparr>"
  have "split_range nxt ?rs = split_range ?n ?r" using a(1) assms(4) by (simp add: split_range.simps [of nxt])
  moreover have "split_range ?n ?r = Inl Out_of_bounds \<or> split_range ?n ?r = Inr (?n, ?r)"
    using assms(2,3) a(2) by (intro full) (simp_all add: ranges_inv_def)
  moreover have "wr (g_ranges ?r) (g_n_ranges ?r) ?n = Inl Out_of_bounds"
    using assms(2,3) a(2) by (simp add: wr_def ranges_inv_def)
  ultimately show ?thesis by (auto simp: add_range_def)
qed

definition sample_ranges :: "int \<Rightarrow> ranges_t" where
  "sample_ranges n = \<lparr>g_ranges = replicate (nat MAX_MARK_AND_SWEEP_RANGES) \<lparr>mr_low = 0, mr_high = 0\<rparr>,
     g_n_ranges = n, g_bytes_to_scan = 0\<rparr>"

lemma sample_ranges_inv: "0 \<le> n \<Longrightarrow> ranges_inv (sample_ranges n)"
  by (simp add: ranges_inv_def sample_ranges_def MAX_MARK_AND_SWEEP_RANGES_def)

theorem add_range_past_end_witness:
  "add_range \<lparr>mr_low = 0x10000000, mr_high = 0x20000000\<rparr> (sample_ranges 0xFFFF) = Inl Out_of_bounds"
  by (rule add_range_past_end [OF _ sample_ranges_inv])
    (simp_all add: user_range_def MAX_RANGE_SIZE_def sample_ranges_def MAX_MARK_AND_SWEEP_RANGES_def)

end
