(* ===== verification/Child.thy ===== *)
theory Child
  imports Ranges Roots
begin

text \<open>
  The scanning processes, \<^verbatim>\<open>forkscan_child\<close> of \<^verbatim>\<open>src/child.c\<close>. The child that was forked for a
  collection chooses the ranges, forks siblings, and all of them take ranges from a shared counter,
  scan them, flush their lookaside lists and add up what they have done; whoever finds the sum
  complete writes to the parent. The buffer is shared memory; ranges, lookaside list and the other
  variables are private to each process after the fork. The snapshot of the memory that is scanned
  is the parameter \<open>mem\<close>. A scan of one range is one step of the interleaving: the processes have
  only the marks in common, and these are only ever set.
\<close>

section \<open>The code\<close>

definition MEMORY_THRESHOLD :: size_t where
  "MEMORY_THRESHOLD = 1024 * 1024 * 16"

definition n_siblings :: "int \<Rightarrow> ranges_t \<Rightarrow> int" where
  "n_siblings max_children rs =
     (let n = int_of_size (MIN_OF (word_of_int max_children) (g_bytes_to_scan rs div MEMORY_THRESHOLD)) in
      MAX_OF (MIN_OF n (g_n_ranges rs)) 1)"

text \<open>The part before the siblings are forked.\<close>

definition child_setup ::
    "string option \<Rightarrow> size_t \<Rightarrow> alloc_state \<Rightarrow> thread_data_t store \<Rightarrow> size_t \<Rightarrow> int \<Rightarrow> addr_buffer_t \<Rightarrow> ranges_t \<Rightarrow>
      (int \<times> trace_stats_t \<times> ranges_t \<times> addr_buffer_t) res" where
  "child_setup maps stderr_lock al tds head max_children ab rs =
     bind_res (forkscan_proc_map_iterate maps (collect_ranges stderr_lock al) (rs\<lparr>g_bytes_to_scan := 0\<rparr>)) (\<lambda>rs.
     bind_res (add_stack_ranges tds head rs) (\<lambda>rs.
     let ab = ab\<lparr>ab_completed_children := 0, ab_cutoff_reached := 0, ab_round := 0\<rparr>;
         n = n_siblings max_children rs;
         ab = ab\<lparr>ab_sibling_mode := SIBLING_MODE_MARKING, ab_root_counter := 0, ab_roots_completed := 0\<rparr> in
     bind_res (rd (ab_addrs ab) 0) (\<lambda>first.
     bind_res (rd (ab_addrs ab) (ab_n_addrs ab - 1)) (\<lambda>final.
     Inr (n, \<lparr>ts_min = PTR_MASK first, ts_max = PTR_MASK final\<rparr>, rs, ab)))))"

text \<open>What a sibling does: take a range, scan it, flush the lookaside list, report.\<close>

datatype sib_pc = Claim | Scan int | Flush | Report | Exit

record sibling_t =
  sb_pc :: sib_pc
  sb_lookaside_list :: "size_t list"
  sb_lookaside_count :: int
  sb_roots_completed :: int
  sb_rids :: "int list"

record child_t =
  ch_ab :: addr_buffer_t
  ch_sib :: "nat \<Rightarrow> sibling_t"
  ch_written :: "size_t list"

definition claim_root :: "int \<Rightarrow> sibling_t \<Rightarrow> addr_buffer_t \<Rightarrow> sibling_t \<times> addr_buffer_t" where
  "claim_root n_ranges sb ab =
     (let rid = ab_root_counter ab in
      (sb\<lparr>sb_pc := (if rid < n_ranges then Scan rid else Flush)\<rparr>, ab\<lparr>ab_root_counter := rid + 1\<rparr>))"

definition scan_root ::
    "(size_t \<Rightarrow> size_t) \<Rightarrow> (size_t \<Rightarrow> size_t) \<Rightarrow> addr_buffer_t \<Rightarrow> ranges_t \<Rightarrow> int \<Rightarrow> sibling_t \<Rightarrow> addr_buffer_t \<Rightarrow>
      (sibling_t \<times> addr_buffer_t) res" where
  "scan_root mem usable deadrefs rs rid sb ab =
     bind_res (rd (g_ranges rs) rid) (\<lambda>q.
     bind_res (find_roots mem usable (mr_low q) (mr_high q) deadrefs
         \<lparr>rt_ab = ab, g_lookaside_list = sb_lookaside_list sb, g_lookaside_count = sb_lookaside_count sb\<rparr>) (\<lambda>r.
     Inr (sb\<lparr>sb_pc := Claim, sb_lookaside_list := g_lookaside_list r, sb_lookaside_count := g_lookaside_count r,
             sb_roots_completed := sb_roots_completed sb + 1, sb_rids := rid # sb_rids sb\<rparr>, rt_ab r)))"

definition flush_lookaside ::
    "(size_t \<Rightarrow> size_t) \<Rightarrow> (size_t \<Rightarrow> size_t) \<Rightarrow> trace_stats_t \<Rightarrow> sibling_t \<Rightarrow> addr_buffer_t \<Rightarrow>
      (sibling_t \<times> addr_buffer_t) res" where
  "flush_lookaside mem usable ts sb ab =
     (if sb_lookaside_count sb > 0
      then bind_res (lookup_lookaside_list mem usable ab ts (sb_lookaside_list sb) (sb_lookaside_count sb)) (\<lambda>(ab, la, n).
           Inr (sb\<lparr>sb_pc := Report, sb_lookaside_list := la, sb_lookaside_count := n\<rparr>, ab))
      else Inr (sb\<lparr>sb_pc := Report\<rparr>, ab))"

text \<open>The report and whether the parent is notified.\<close>

definition report_roots :: "int \<Rightarrow> sibling_t \<Rightarrow> addr_buffer_t \<Rightarrow> bool \<times> sibling_t \<times> addr_buffer_t" where
  "report_roots n_ranges sb ab =
     (let total_roots = ab_roots_completed ab + sb_roots_completed sb in
      (total_roots = n_ranges, sb\<lparr>sb_pc := Exit\<rparr>, ab\<lparr>ab_roots_completed := total_roots\<rparr>))"

inductive child_step ::
    "(size_t \<Rightarrow> size_t) \<Rightarrow> (size_t \<Rightarrow> size_t) \<Rightarrow> addr_buffer_t \<Rightarrow> ranges_t \<Rightarrow> trace_stats_t \<Rightarrow> nat \<Rightarrow>
      child_t \<Rightarrow> child_t \<Rightarrow> bool" for mem usable deadrefs rs ts n where
  claim: "i < n \<Longrightarrow> sb_pc (ch_sib c i) = Claim \<Longrightarrow> claim_root (g_n_ranges rs) (ch_sib c i) (ch_ab c) = (sb, ab) \<Longrightarrow>
    child_step mem usable deadrefs rs ts n c (c\<lparr>ch_ab := ab, ch_sib := (ch_sib c)(i := sb)\<rparr>)"
| scan: "i < n \<Longrightarrow> sb_pc (ch_sib c i) = Scan rid \<Longrightarrow>
    scan_root mem usable deadrefs rs rid (ch_sib c i) (ch_ab c) = Inr (sb, ab) \<Longrightarrow>
    child_step mem usable deadrefs rs ts n c (c\<lparr>ch_ab := ab, ch_sib := (ch_sib c)(i := sb)\<rparr>)"
| flush: "i < n \<Longrightarrow> sb_pc (ch_sib c i) = Flush \<Longrightarrow>
    flush_lookaside mem usable ts (ch_sib c i) (ch_ab c) = Inr (sb, ab) \<Longrightarrow>
    child_step mem usable deadrefs rs ts n c (c\<lparr>ch_ab := ab, ch_sib := (ch_sib c)(i := sb)\<rparr>)"
| report: "i < n \<Longrightarrow> sb_pc (ch_sib c i) = Report \<Longrightarrow>
    report_roots (g_n_ranges rs) (ch_sib c i) (ch_ab c) = (full, sb, ab) \<Longrightarrow>
    child_step mem usable deadrefs rs ts n c (c\<lparr>ch_ab := ab, ch_sib := (ch_sib c)(i := sb),
      ch_written := (if full then g_bytes_to_scan rs # ch_written c else ch_written c)\<rparr>)"

definition sibling_init :: sibling_t where
  "sibling_init = \<lparr>sb_pc = Claim, sb_lookaside_list = replicate (nat LOOKASIDE_SZ) 0, sb_lookaside_count = 0,
     sb_roots_completed = 0, sb_rids = []\<rparr>"

definition child_init :: "addr_buffer_t \<Rightarrow> child_t" where
  "child_init ab = \<lparr>ch_ab = ab, ch_sib = (\<lambda>i. sibling_init), ch_written = []\<rparr>"

inductive child_reach ::
    "(size_t \<Rightarrow> size_t) \<Rightarrow> (size_t \<Rightarrow> size_t) \<Rightarrow> addr_buffer_t \<Rightarrow> ranges_t \<Rightarrow> trace_stats_t \<Rightarrow> nat \<Rightarrow>
      addr_buffer_t \<Rightarrow> child_t \<Rightarrow> bool" for mem usable deadrefs rs ts n ab where
  init: "child_reach mem usable deadrefs rs ts n ab (child_init ab)"
| step: "child_reach mem usable deadrefs rs ts n ab c \<Longrightarrow> child_step mem usable deadrefs rs ts n c c' \<Longrightarrow>
    child_reach mem usable deadrefs rs ts n ab c'"

section \<open>Views of the shared buffer\<close>

text \<open>The counters do not matter to the scan; marks do not change which addresses are tracked.\<close>

definition recount :: "int \<Rightarrow> int \<Rightarrow> addr_buffer_t \<Rightarrow> addr_buffer_t" where
  "recount rc dn ab = ab\<lparr>ab_root_counter := rc, ab_roots_completed := dn\<rparr>"

lemma recount_views [simp]:
  "n_of (recount rc dn ab) = n_of ab" "key (recount rc dn ab) = key ab" "marks (recount rc dn ab) = marks ab"
  "hits (recount rc dn ab) = hits ab" "scannable (recount rc dn ab) = scannable ab"
  "ts_of (recount rc dn ab) = ts_of ab" "tracked_keys (recount rc dn ab) = tracked_keys ab"
  "refs_of mem usable (recount rc dn ab) = refs_of mem usable ab"
  "hits_and_refs mem usable (recount rc dn ab) = hits_and_refs mem usable ab"
  by (auto simp: recount_def n_of_def key_def [abs_def] marks_def hits_def [abs_def] scannable_def ts_of_def
      tracked_keys_def refs_of_def [abs_def] hits_and_refs_def [abs_def])

lemma recount_recount [simp]: "recount a b (recount c d ab) = recount a b ab"
  by (simp add: recount_def)

lemma marked_more_recount: "marked_more a b \<Longrightarrow> marked_more (recount rc dn a) (recount rc dn b)"
  by (cases a; cases b) (auto simp: marked_more_def recount_def n_of_def)

text \<open>The buffer the siblings share, after some marking and counting.\<close>

definition view_of :: "addr_buffer_t \<Rightarrow> addr_buffer_t \<Rightarrow> bool" where
  "view_of ab0 ab \<longleftrightarrow> marked_more (recount (ab_root_counter ab) (ab_roots_completed ab) ab0) ab"

lemma view_of_recount: "view_of ab0 ab \<Longrightarrow> view_of ab0 (recount rc dn ab)"
  using marked_more_recount [of _ ab rc dn] by (fastforce simp: view_of_def recount_def)

lemma marked_more_counters:
  "marked_more a b \<Longrightarrow> ab_root_counter b = ab_root_counter a \<and> ab_roots_completed b = ab_roots_completed a"
  by (cases a; cases b) (auto simp: marked_more_def)

lemma view_of_marked: "view_of ab0 ab \<Longrightarrow> marked_more ab b \<Longrightarrow> view_of ab0 b"
  using marked_more_trans [of "recount (ab_root_counter ab) (ab_roots_completed ab) ab0" ab b]
    marked_more_counters [of ab b] by (simp add: view_of_def)

lemma hits_empty [simp]: "hits ab {} = {}"
  by (simp add: hits_def)

lemma tracked_keys_cong: "marked_more a b \<Longrightarrow> tracked_keys b = tracked_keys a"
  by (auto simp: tracked_keys_def marked_more_fields marked_more_key)

lemma view_of_same:
  assumes "view_of ab0 ab"
  shows "hits ab V = hits ab0 V" "hits_and_refs mem usable ab V = hits_and_refs mem usable ab0 V"
    "tracked_keys ab = tracked_keys ab0" "marks ab0 \<subseteq> marks ab" "scannable ab0 \<Longrightarrow> scannable ab"
    "scannable ab0 \<Longrightarrow> ts_of ab = ts_of ab0"
proof -
  let ?a = "recount (ab_root_counter ab) (ab_roots_completed ab) ab0"
  have m: "marked_more ?a ab" using assms by (simp add: view_of_def)
  show "hits ab V = hits ab0 V" using hits_cong [OF m] by simp
  show "hits_and_refs mem usable ab V = hits_and_refs mem usable ab0 V" using hits_and_refs_cong [OF m] by simp
  show "tracked_keys ab = tracked_keys ab0" using tracked_keys_cong [OF m] by simp
  show "marks ab0 \<subseteq> marks ab" using marked_more_marks [OF m] by simp
  show "scannable ab" if "scannable ab0" using marked_more_scannable [OF m] that by simp
  show "ts_of ab = ts_of ab0" if "scannable ab0" using ts_of_cong [OF m] scannable_n [OF that] by simp
qed

section \<open>The invariant of one sibling\<close>

text \<open>
  \<open>needed\<close> are the values in a range that the scan must not miss: those outside of all tracked
  and dead blocks. \<open>seen\<close> are all values in the ranges.
\<close>

definition needed :: "(size_t \<Rightarrow> size_t) \<Rightarrow> (size_t \<Rightarrow> size_t) \<Rightarrow> addr_buffer_t \<Rightarrow> addr_buffer_t \<Rightarrow> mem_range_t \<Rightarrow> size_t set" where
  "needed mem usable ab d q =
     val_at mem ` {w \<in> words (unat (mr_low q)) (unat (mr_high q)). \<not> in_block usable (tracked_keys ab \<union> dead_addrs_of d) w}"

definition seen :: "(size_t \<Rightarrow> size_t) \<Rightarrow> mem_range_t list \<Rightarrow> size_t set" where
  "seen mem qs = (\<Union>q\<in>set qs. val_at mem ` words (unat (mr_low q)) (unat (mr_high q)))"

definition pending :: "sibling_t \<Rightarrow> size_t set" where
  "pending sb = set (take (nat (sb_lookaside_count sb)) (sb_lookaside_list sb))"

definition sib_ok ::
    "(size_t \<Rightarrow> size_t) \<Rightarrow> (size_t \<Rightarrow> size_t) \<Rightarrow> addr_buffer_t \<Rightarrow> ranges_t \<Rightarrow> addr_buffer_t \<Rightarrow> nat set \<Rightarrow> sibling_t \<Rightarrow> bool" where
  "sib_ok mem usable d rs ab0 ms sb \<longleftrightarrow>
     length (sb_lookaside_list sb) = nat LOOKASIDE_SZ \<and> 0 \<le> sb_lookaside_count sb \<and> sb_lookaside_count sb < LOOKASIDE_SZ \<and>
     (\<forall>v\<in>pending sb. aligned v \<and> v \<le> ts_max (ts_of ab0)) \<and> pending sb \<subseteq> seen mem (live_ranges rs) \<and>
     (\<forall>r\<in>set (sb_rids sb). hits ab0 (needed mem usable ab0 d (g_ranges rs ! nat r)) \<subseteq> ms \<union> hits ab0 (pending sb)) \<and>
     sb_roots_completed sb = int (length (sb_rids sb)) \<and>
     (sb_pc sb = Report \<or> sb_pc sb = Exit \<longrightarrow> sb_lookaside_count sb = 0)"

lemma sib_ok_mono: "sib_ok mem usable d rs ab0 ms sb \<Longrightarrow> ms \<subseteq> ms' \<Longrightarrow> sib_ok mem usable d rs ab0 ms' sb"
  unfolding sib_ok_def by blast

text \<open>What a collection may rely on: the buffer and the dead references are well formed, ranges are aligned.\<close>

definition scan_ready :: "(size_t \<Rightarrow> size_t) \<Rightarrow> addr_buffer_t \<Rightarrow> addr_buffer_t \<Rightarrow> ranges_t \<Rightarrow> bool" where
  "scan_ready usable ab0 d rs \<longleftrightarrow> snapshot_ok usable ab0 d \<and> ranges_inv rs \<and> g_n_ranges rs \<le> MAX_MARK_AND_SWEEP_RANGES \<and>
     (\<forall>q\<in>set (live_ranges rs). 8 dvd unat (mr_low q) \<and> 8 dvd unat (mr_high q))"

lemma scan_ready_range:
  assumes "scan_ready usable ab0 d rs" "0 \<le> rid" "rid < g_n_ranges rs"
  shows "rd (g_ranges rs) rid = Inr (g_ranges rs ! nat rid)" "g_ranges rs ! nat rid \<in> set (live_ranges rs)"
proof -
  have "nat rid < length (g_ranges rs)" "nat rid < nat (g_n_ranges rs)"
    using assms by (auto simp: scan_ready_def ranges_inv_def)
  then show "rd (g_ranges rs) rid = Inr (g_ranges rs ! nat rid)" "g_ranges rs ! nat rid \<in> set (live_ranges rs)"
    using assms(2) by (auto simp: rd_def live_ranges_def in_set_conv_nth intro!: exI [of _ "nat rid"])
qed

lemma scan_root_ok:
  assumes ready: "scan_ready usable ab0 d rs" and v: "view_of ab0 ab" and ok: "sib_ok mem usable d rs ab0 (marks ab) sb"
    and rid: "0 \<le> rid" "rid < g_n_ranges rs"
  shows "\<exists>la n b. scan_root mem usable d rs rid sb ab =
      Inr (sb\<lparr>sb_pc := Claim, sb_lookaside_list := la, sb_lookaside_count := n,
              sb_roots_completed := sb_roots_completed sb + 1, sb_rids := rid # sb_rids sb\<rparr>, b) \<and>
    marked_more ab b \<and> marks b \<subseteq> marks ab \<union> hits_and_refs mem usable ab0 (seen mem (live_ranges rs)) \<and>
    sib_ok mem usable d rs ab0 (marks b)
      (sb\<lparr>sb_pc := Claim, sb_lookaside_list := la, sb_lookaside_count := n,
          sb_roots_completed := sb_roots_completed sb + 1, sb_rids := rid # sb_rids sb\<rparr>)"
proof -
  let ?q = "g_ranges rs ! nat rid"
  let ?r = "\<lparr>rt_ab = ab, g_lookaside_list = sb_lookaside_list sb, g_lookaside_count = sb_lookaside_count sb\<rparr>"
  have sn0: "snapshot_ok usable ab0 d" using ready by (simp add: scan_ready_def)
  then have sc: "scannable ab0" by (simp add: snapshot_ok_def)
  note same = view_of_same [OF v]
  have sn: "snapshot_ok usable ab d" using sn0 same(3,5) by (simp add: snapshot_ok_def)
  have "recorded mem usable ab (pending sb) ?r"
    using ok same(6) [OF sc] by (auto simp: recorded_def sib_ok_def pending_def Let_def)
  moreover have "8 dvd unat (mr_low ?q)" "8 dvd unat (mr_high ?q)"
    using ready scan_ready_range(2) [OF ready rid] by (auto simp: scan_ready_def)
  ultimately obtain r W where r: "find_roots mem usable (mr_low ?q) (mr_high ?q) d ?r = Inr r"
    "covers usable ab d (mr_low ?q) (mr_high ?q) W" "recorded mem usable ab (pending sb \<union> val_at mem ` W) r"
    using find_roots_ok [OF sn] by blast
  let ?P = "set (take (nat (g_lookaside_count r)) (g_lookaside_list r))"
  let ?V = "pending sb \<union> val_at mem ` W"
  have W: "val_at mem ` W \<subseteq> seen mem (live_ranges rs)" "needed mem usable ab0 d ?q \<subseteq> val_at mem ` W"
    using r(2) scan_ready_range(2) [OF ready rid] same(3) by (auto simp: covers_def seen_def needed_def)
  have R: "marked_more ab (rt_ab r)" "length (g_lookaside_list r) = nat LOOKASIDE_SZ" "0 \<le> g_lookaside_count r"
    "g_lookaside_count r < LOOKASIDE_SZ" "?P \<subseteq> ?V" "\<forall>v\<in>?P. aligned v \<and> v \<le> ts_max (ts_of ab0)"
    "hits ab0 ?V \<subseteq> marks (rt_ab r) \<union> hits ab0 ?P" "marks (rt_ab r) \<subseteq> marks ab \<union> hits_and_refs mem usable ab0 ?V"
    using r(3) same(1,2) same(6) [OF sc] by (auto simp: recorded_def Let_def)
  have PV: "?V \<subseteq> seen mem (live_ranges rs)" using ok W(1) by (auto simp: sib_ok_def)
  have up: "marks (rt_ab r) \<subseteq> marks ab \<union> hits_and_refs mem usable ab0 (seen mem (live_ranges rs))"
    using R(8) hits_and_refs_mono [OF PV, of mem usable ab0] by blast
  have new: "hits ab0 (needed mem usable ab0 d ?q) \<subseteq> marks (rt_ab r) \<union> hits ab0 ?P"
    using R(7) hits_mono [of "needed mem usable ab0 d ?q" ?V ab0] W(2) by blast
  have old: "hits ab0 (needed mem usable ab0 d (g_ranges rs ! nat s)) \<subseteq> marks (rt_ab r) \<union> hits ab0 ?P"
    if "s \<in> set (sb_rids sb)" for s
  proof -
    have "hits ab0 (needed mem usable ab0 d (g_ranges rs ! nat s)) \<subseteq> marks ab \<union> hits ab0 (pending sb)"
      using ok that by (simp add: sib_ok_def)
    then show ?thesis using R(7) hits_mono [of "pending sb" ?V ab0] marked_more_marks [OF R(1)] by blast
  qed
  have "?P \<subseteq> seen mem (live_ranges rs)" using R(5) PV by blast
  note now = R(2-4,6) this new ballI [OF old]
  have len: "sb_roots_completed sb = int (length (sb_rids sb))" using ok by (simp add: sib_ok_def)
  have "scan_root mem usable d rs rid sb ab =
      Inr (sb\<lparr>sb_pc := Claim, sb_lookaside_list := g_lookaside_list r, sb_lookaside_count := g_lookaside_count r,
              sb_roots_completed := sb_roots_completed sb + 1, sb_rids := rid # sb_rids sb\<rparr>, rt_ab r)"
    using r(1) scan_ready_range(1) [OF ready rid] by (simp add: scan_root_def)
  moreover have "sib_ok mem usable d rs ab0 (marks (rt_ab r))
      (sb\<lparr>sb_pc := Claim, sb_lookaside_list := g_lookaside_list r, sb_lookaside_count := g_lookaside_count r,
          sb_roots_completed := sb_roots_completed sb + 1, sb_rids := rid # sb_rids sb\<rparr>)"
    using now len by (simp add: sib_ok_def pending_def)
  ultimately show ?thesis using R(1) up by blast
qed

lemma flush_lookaside_ok:
  assumes ready: "scan_ready usable ab0 d rs" and v: "view_of ab0 ab" and ok: "sib_ok mem usable d rs ab0 (marks ab) sb"
  shows "\<exists>la b. flush_lookaside mem usable (ts_of ab0) sb ab =
      Inr (sb\<lparr>sb_pc := Report, sb_lookaside_list := la, sb_lookaside_count := 0\<rparr>, b) \<and>
    marked_more ab b \<and> marks b \<subseteq> marks ab \<union> hits_and_refs mem usable ab0 (seen mem (live_ranges rs)) \<and>
    sib_ok mem usable d rs ab0 (marks b) (sb\<lparr>sb_pc := Report, sb_lookaside_list := la, sb_lookaside_count := 0\<rparr>)"
proof -
  have sc: "scannable ab0" using ready by (simp add: scan_ready_def snapshot_ok_def)
  note same = view_of_same [OF v]
  have len: "length (sb_lookaside_list sb) = nat LOOKASIDE_SZ" "sb_roots_completed sb = int (length (sb_rids sb))"
    using ok by (auto simp: sib_ok_def)
  show ?thesis
  proof (cases "sb_lookaside_count sb = 0")
    case True
    let ?sb = "sb\<lparr>sb_pc := Report, sb_lookaside_list := sb_lookaside_list sb, sb_lookaside_count := 0\<rparr>"
    have "sib_ok mem usable d rs ab0 (marks ab) ?sb" using ok True by (simp add: sib_ok_def pending_def)
    moreover have "sb\<lparr>sb_pc := Report\<rparr> = ?sb" using True by simp
    then have "flush_lookaside mem usable (ts_of ab0) sb ab = Inr (?sb, ab)"
      using True by (simp only: flush_lookaside_def less_irrefl if_False)
    ultimately show ?thesis using marked_more_refl by blast
  next
    case False
    define n where "n = nat (sb_lookaside_count sb)"
    have n: "sb_lookaside_count sb = int n" "0 < n" "n \<le> length (sb_lookaside_list sb)" "n \<le> 16384"
      using ok False by (auto simp: sib_ok_def n_def LOOKASIDE_nat)
    have P: "\<forall>v\<in>set (take n (sb_lookaside_list sb)). aligned v \<and> v \<le> ts_max (ts_of ab)"
      using ok same(6) [OF sc] by (auto simp: sib_ok_def pending_def n_def)
    obtain c la where c: "lookup_lookaside_list mem usable ab (ts_of ab) (sb_lookaside_list sb) (int n) = Inr (c, la, 0)"
      "length la = length (sb_lookaside_list sb)" "marked_more ab c" "hits ab (pending sb) \<subseteq> marks c"
      "marks c \<subseteq> marks ab \<union> hits_and_refs mem usable ab (pending sb)"
      using flush_ok [OF same(5) [OF sc] marked_more_refl n(3,4) order_refl P, of mem usable]
      by (auto simp: pending_def n_def)
    have up: "marks c \<subseteq> marks ab \<union> hits_and_refs mem usable ab0 (seen mem (live_ranges rs))"
      using c(5) ok hits_and_refs_mono [of "pending sb" "seen mem (live_ranges rs)" mem usable ab0] same(2)
      by (auto simp: sib_ok_def)
    have "hits ab0 (needed mem usable ab0 d (g_ranges rs ! nat s)) \<subseteq> marks c" if "s \<in> set (sb_rids sb)" for s
    proof -
      have "hits ab0 (needed mem usable ab0 d (g_ranges rs ! nat s)) \<subseteq> marks ab \<union> hits ab0 (pending sb)"
        using ok that by (simp add: sib_ok_def)
      then show ?thesis using c(4) same(1) marked_more_marks [OF c(3)] by blast
    qed
    then have "sib_ok mem usable d rs ab0 (marks c) (sb\<lparr>sb_pc := Report, sb_lookaside_list := la, sb_lookaside_count := 0\<rparr>)"
      using c(2) len by (auto simp: sib_ok_def pending_def LOOKASIDE_nat)
    moreover have "flush_lookaside mem usable (ts_of ab0) sb ab =
        Inr (sb\<lparr>sb_pc := Report, sb_lookaside_list := la, sb_lookaside_count := 0\<rparr>, c)"
      using c(1) n(1,2) same(6) [OF sc] by (simp add: flush_lookaside_def)
    ultimately show ?thesis using c(3) up by blast
  qed
qed

section \<open>Taking turns\<close>

text \<open>
  Which ranges a sibling has taken: no range is taken twice, the shared counters agree with what
  the siblings have done, and the parent is told only when the siblings that are through have
  scanned every range.
\<close>

definition held :: "sibling_t \<Rightarrow> int list" where
  "held sb = (case sb_pc sb of Scan r \<Rightarrow> [r] | _ \<Rightarrow> []) @ sb_rids sb"

definition turns :: "int \<Rightarrow> nat \<Rightarrow> child_t \<Rightarrow> bool" where
  "turns N n c \<longleftrightarrow> 0 \<le> ab_root_counter (ch_ab c) \<and>
     (\<forall>i<n. distinct (held (ch_sib c i)) \<and>
        (\<forall>r\<in>set (held (ch_sib c i)). 0 \<le> r \<and> r < ab_root_counter (ch_ab c) \<and> r < N)) \<and>
     (\<forall>i<n. \<forall>j<n. i \<noteq> j \<longrightarrow> set (held (ch_sib c i)) \<inter> set (held (ch_sib c j)) = {}) \<and>
     ab_roots_completed (ch_ab c) = (\<Sum>i | i < n \<and> sb_pc (ch_sib c i) = Exit. sb_roots_completed (ch_sib c i))"

definition told :: "size_t \<Rightarrow> int \<Rightarrow> nat \<Rightarrow> child_t \<Rightarrow> bool" where
  "told bytes N n c \<longleftrightarrow> (\<forall>w\<in>set (ch_written c). w = bytes) \<and>
     (ch_written c \<noteq> [] \<longrightarrow> {0..<N} \<subseteq> (\<Union>i\<in>{i. i < n \<and> sb_pc (ch_sib c i) = Exit}. set (sb_rids (ch_sib c i))))"

text \<open>Steps that neither take a range nor leave keep the turns.\<close>

lemma exits_same:
  assumes "sb_pc (f i) \<noteq> Exit" "sb_pc sb \<noteq> Exit"
  shows "{j. j < n \<and> sb_pc ((f(i := sb)) j) = Exit} = {j. j < n \<and> sb_pc (f j) = Exit}"
    "(\<Sum>j | j < n \<and> sb_pc (f j) = Exit. sb_roots_completed ((f(i := sb)) j)) =
      (\<Sum>j | j < n \<and> sb_pc (f j) = Exit. sb_roots_completed (f j))"
    "(\<Union>j\<in>{j. j < n \<and> sb_pc (f j) = Exit}. set (sb_rids ((f(i := sb)) j))) =
      (\<Union>j\<in>{j. j < n \<and> sb_pc (f j) = Exit}. set (sb_rids (f j)))"
  using assms by (auto intro!: sum.cong split: if_splits)

lemma turns_same:
  assumes "turns N n c" "held sb = held (ch_sib c i)" "sb_pc (ch_sib c i) \<noteq> Exit" "sb_pc sb \<noteq> Exit"
    and "ab_root_counter ab = ab_root_counter (ch_ab c)" "ab_roots_completed ab = ab_roots_completed (ch_ab c)"
  shows "turns N n (c\<lparr>ch_ab := ab, ch_sib := (ch_sib c)(i := sb)\<rparr>)"
proof -
  have "held (((ch_sib c)(i := sb)) j) = held (ch_sib c j)" for j using assms(2) by simp
  then show ?thesis using assms(1,5,6) exits_same [where f = "ch_sib c" and n = n, OF assms(3,4)]
    by (simp add: turns_def del: fun_upd_apply)
qed

lemma told_same:
  assumes "told b N n c" "sb_pc (ch_sib c i) \<noteq> Exit" "sb_pc sb \<noteq> Exit"
  shows "told b N n (c\<lparr>ch_ab := ab, ch_sib := (ch_sib c)(i := sb)\<rparr>)"
  using assms(1) exits_same [where f = "ch_sib c" and n = n, OF assms(2,3)] by (simp add: told_def del: fun_upd_apply)

lemma turns_claim:
  assumes "turns N n c" "i < n" "sb_pc (ch_sib c i) = Claim" "claim_root N (ch_sib c i) (ch_ab c) = (sb, ab)"
  shows "turns N n (c\<lparr>ch_ab := ab, ch_sib := (ch_sib c)(i := sb)\<rparr>)" "sb_pc sb \<noteq> Exit"
proof -
  let ?r = "ab_root_counter (ch_ab c)"
  let ?s = "(ch_sib c)(i := sb)"
  have sb: "sb = (ch_sib c i)\<lparr>sb_pc := (if ?r < N then Scan ?r else Flush)\<rparr>" "ab = (ch_ab c)\<lparr>ab_root_counter := ?r + 1\<rparr>"
    using assms(4) by (auto simp: claim_root_def Let_def)
  have h: "held sb = (if ?r < N then [?r] else []) @ held (ch_sib c i)" using assms(3) by (simp add: sb held_def)
  have fresh: "?r \<notin> set (held (ch_sib c j))" if "j < n" for j using assms(1) that by (auto simp: turns_def)
  have old: "distinct (held (ch_sib c j))" "\<forall>r\<in>set (held (ch_sib c j)). 0 \<le> r \<and> r < ?r \<and> r < N" if "j < n" for j
    using assms(1) that by (auto simp: turns_def)
  have pcs: "sb_pc (ch_sib c i) \<noteq> Exit" "sb_pc sb \<noteq> Exit" using assms(3) sb(1) by auto
  note ex = exits_same [where f = "ch_sib c" and n = n, OF pcs]
  have cnt: "ab_roots_completed ab = (\<Sum>j | j < n \<and> sb_pc (?s j) = Exit. sb_roots_completed (?s j))"
    "ab_root_counter ab = ?r + 1"
    unfolding ex using assms(1) sb(2) by (simp_all add: turns_def)
  have "distinct (held (?s j)) \<and> (\<forall>r\<in>set (held (?s j)). 0 \<le> r \<and> r < ?r + 1 \<and> r < N)" if "j < n" for j
    using old [OF that] fresh [OF that] h assms(1) by (force simp: turns_def)
  moreover have "set (held (?s j)) \<inter> set (held (?s k)) = {}" if "j < n" "k < n" "j \<noteq> k" for j k
  proof -
    have "set (held (ch_sib c j)) \<inter> set (held (ch_sib c k)) = {}" using assms(1) that by (simp add: turns_def)
    then show ?thesis using that fresh [of j] fresh [of k] h by (cases "j = i"; cases "k = i") (auto split: if_splits)
  qed
  moreover have "0 \<le> ?r + 1" using assms(1) by (simp add: turns_def)
  ultimately show "turns N n (c\<lparr>ch_ab := ab, ch_sib := ?s\<rparr>)"
    using cnt by (simp add: turns_def del: fun_upd_apply)
  show "sb_pc sb \<noteq> Exit" by (rule pcs(2))
qed

text \<open>The sum of the reports counts the ranges that the siblings that are through have scanned.\<close>

lemma reports_count:
  assumes t: "turns N n c" and ok: "\<forall>i<n. sb_roots_completed (ch_sib c i) = int (length (sb_rids (ch_sib c i)))"
  defines "U \<equiv> \<Union>i\<in>{i. i < n \<and> sb_pc (ch_sib c i) = Exit}. set (sb_rids (ch_sib c i))"
  shows "int (card U) = ab_roots_completed (ch_ab c)" "U \<subseteq> {0..<N}"
proof -
  let ?E = "{i. i < n \<and> sb_pc (ch_sib c i) = Exit}"
  let ?S = "\<lambda>i. set (sb_rids (ch_sib c i))"
  have sub: "?S i \<subseteq> set (held (ch_sib c i))" "distinct (held (ch_sib c i)) \<longrightarrow> distinct (sb_rids (ch_sib c i))" for i
    by (auto simp: held_def split: sib_pc.splits)
  have card: "int (card (?S i)) = sb_roots_completed (ch_sib c i)" if "i \<in> ?E" for i
    using that t ok sub(2) [of i] by (simp add: turns_def distinct_card)
  have "card (\<Union>i\<in>?E. ?S i) = (\<Sum>i\<in>?E. card (?S i))"
  proof (rule card_UN_disjoint)
    show "\<forall>i\<in>?E. \<forall>j\<in>?E. i \<noteq> j \<longrightarrow> ?S i \<inter> ?S j = {}"
      using t sub(1) unfolding turns_def by blast
  qed auto
  then have "int (card U) = (\<Sum>i\<in>?E. sb_roots_completed (ch_sib c i))" using card by (simp add: U_def)
  then show "int (card U) = ab_roots_completed (ch_ab c)" using t by (simp add: turns_def)
  show "U \<subseteq> {0..<N}" using t sub(1) by (fastforce simp: turns_def U_def)
qed

lemma all_scanned:
  assumes "turns N n c" "\<forall>i<n. sb_roots_completed (ch_sib c i) = int (length (sb_rids (ch_sib c i)))"
    and full: "ab_roots_completed (ch_ab c) = N"
  shows "{0..<N} \<subseteq> (\<Union>i\<in>{i. i < n \<and> sb_pc (ch_sib c i) = Exit}. set (sb_rids (ch_sib c i)))"
  using card_subset_eq [OF _ reports_count(2) [OF assms(1,2)]] reports_count(1) [OF assms(1,2)] full by simp

lemma turns_report:
  assumes t: "turns N n c" and i: "i < n" "sb_pc (ch_sib c i) = Report"
    and ab: "ab = (ch_ab c)\<lparr>ab_roots_completed := ab_roots_completed (ch_ab c) + sb_roots_completed (ch_sib c i)\<rparr>"
  shows "turns N n (c\<lparr>ch_ab := ab, ch_sib := (ch_sib c)(i := (ch_sib c i)\<lparr>sb_pc := Exit\<rparr>), ch_written := w\<rparr>)"
proof -
  let ?s = "(ch_sib c)(i := (ch_sib c i)\<lparr>sb_pc := Exit\<rparr>)"
  let ?E = "{j. j < n \<and> sb_pc (ch_sib c j) = Exit}"
  have h: "held (?s j) = held (ch_sib c j)" for j using i(2) by (simp add: held_def)
  have "{j. j < n \<and> sb_pc (?s j) = Exit} = insert i ?E" using i by auto
  moreover have "(\<Sum>j\<in>insert i ?E. sb_roots_completed (?s j)) = sb_roots_completed (ch_sib c i) + (\<Sum>j\<in>?E. sb_roots_completed (?s j))"
    using i(2) by (subst sum.insert) auto
  moreover have "(\<Sum>j\<in>?E. sb_roots_completed (?s j)) = (\<Sum>j\<in>?E. sb_roots_completed (ch_sib c j))"
    using i(2) by (intro sum.cong) auto
  ultimately have "ab_roots_completed ab = (\<Sum>j | j < n \<and> sb_pc (?s j) = Exit. sb_roots_completed (?s j))"
    using t ab by (simp add: turns_def del: fun_upd_apply)
  moreover have "ab_root_counter ab = ab_root_counter (ch_ab c)" using ab by simp
  ultimately show ?thesis using t by (simp add: turns_def h del: fun_upd_apply)
qed

section \<open>The invariant of all siblings\<close>

definition child_inv ::
    "(size_t \<Rightarrow> size_t) \<Rightarrow> (size_t \<Rightarrow> size_t) \<Rightarrow> addr_buffer_t \<Rightarrow> ranges_t \<Rightarrow> nat \<Rightarrow> addr_buffer_t \<Rightarrow> child_t \<Rightarrow> bool" where
  "child_inv mem usable d rs n ab0 c \<longleftrightarrow> view_of ab0 (ch_ab c) \<and>
     marks (ch_ab c) \<subseteq> marks ab0 \<union> hits_and_refs mem usable ab0 (seen mem (live_ranges rs)) \<and>
     (\<forall>i<n. sib_ok mem usable d rs ab0 (marks (ch_ab c)) (ch_sib c i)) \<and>
     turns (g_n_ranges rs) n c \<and> told (g_bytes_to_scan rs) (g_n_ranges rs) n c"

lemma child_init_inv:
  assumes "ab_root_counter ab = 0" "ab_roots_completed ab = 0"
  shows "child_inv mem usable d rs n ab (child_init ab)"
proof -
  have "recount 0 0 ab = ab" using assms by (simp add: recount_def)
  then have "view_of ab ab" using assms by (simp add: view_of_def)
  then show ?thesis using assms
    by (simp add: child_inv_def child_init_def sibling_init_def sib_ok_def pending_def turns_def told_def held_def LOOKASIDE_nat)
qed

lemma child_inv_mark:
  assumes inv: "child_inv mem usable d rs n ab0 c" and m: "marked_more (ch_ab c) b"
    and up: "marks b \<subseteq> marks (ch_ab c) \<union> hits_and_refs mem usable ab0 (seen mem (live_ranges rs))"
    and sb: "sib_ok mem usable d rs ab0 (marks b) sb" "held sb = held (ch_sib c i)" "sb_pc (ch_sib c i) \<noteq> Exit" "sb_pc sb \<noteq> Exit"
  shows "child_inv mem usable d rs n ab0 (c\<lparr>ch_ab := b, ch_sib := (ch_sib c)(i := sb)\<rparr>)"
proof -
  have I: "view_of ab0 (ch_ab c)" "marks (ch_ab c) \<subseteq> marks ab0 \<union> hits_and_refs mem usable ab0 (seen mem (live_ranges rs))"
    "\<And>j. j < n \<Longrightarrow> sib_ok mem usable d rs ab0 (marks (ch_ab c)) (ch_sib c j)"
    "turns (g_n_ranges rs) n c" "told (g_bytes_to_scan rs) (g_n_ranges rs) n c"
    using inv by (auto simp: child_inv_def)
  have "sib_ok mem usable d rs ab0 (marks b) (((ch_sib c)(i := sb)) j)" if "j < n" for j
    using sb(1) sib_ok_mono [OF I(3) [OF that] marked_more_marks [OF m]] by simp
  moreover have "turns (g_n_ranges rs) n (c\<lparr>ch_ab := b, ch_sib := (ch_sib c)(i := sb)\<rparr>)"
    using turns_same [OF I(4) sb(2-4)] marked_more_counters [OF m] by blast
  ultimately show ?thesis using view_of_marked [OF I(1) m] up I(2) told_same [OF I(5) sb(3,4), of b]
    by (auto simp: child_inv_def)
qed

lemma child_step_inv:
  assumes ready: "scan_ready usable ab0 d rs" and inv: "child_inv mem usable d rs n ab0 c"
    and step: "child_step mem usable d rs (ts_of ab0) n c c'"
  shows "child_inv mem usable d rs n ab0 c'"
proof -
  have v: "view_of ab0 (ch_ab c)" and up: "marks (ch_ab c) \<subseteq> marks ab0 \<union> hits_and_refs mem usable ab0 (seen mem (live_ranges rs))"
    and ok: "\<And>j. j < n \<Longrightarrow> sib_ok mem usable d rs ab0 (marks (ch_ab c)) (ch_sib c j)"
    and t: "turns (g_n_ranges rs) n c" and tl: "told (g_bytes_to_scan rs) (g_n_ranges rs) n c"
    using inv by (auto simp: child_inv_def)
  from step show ?thesis
  proof cases
    case (claim i sb ab)
    have ab: "ab = recount (ab_root_counter (ch_ab c) + 1) (ab_roots_completed (ch_ab c)) (ch_ab c)"
      and sb: "sb = (ch_sib c i)\<lparr>sb_pc := sb_pc sb\<rparr>" "sb_pc sb \<noteq> Report"
      using claim(4) by (auto simp: claim_root_def Let_def recount_def split: if_splits)
    note tc = turns_claim [OF t claim(2-4)]
    have "sib_ok mem usable d rs ab0 (marks (ch_ab c)) sb"
      using ok [OF claim(2)] sb(2) tc(2) by (subst sb(1)) (simp add: sib_ok_def pending_def)
    then have "sib_ok mem usable d rs ab0 (marks ab) (((ch_sib c)(i := sb)) j)" if "j < n" for j using ok [OF that] ab by simp
    moreover have "told (g_bytes_to_scan rs) (g_n_ranges rs) n (c\<lparr>ch_ab := ab, ch_sib := (ch_sib c)(i := sb)\<rparr>)"
      by (rule told_same [OF tl _ tc(2)]) (use claim(3) in simp)
    ultimately show ?thesis using view_of_recount [OF v] up tc(1) by (simp add: child_inv_def ab claim(1))
  next
    case (scan i rid sb ab)
    have rid: "0 \<le> rid" "rid < g_n_ranges rs" using t scan(2,3) by (force simp: turns_def held_def)+
    from scan_root_ok [OF ready v ok [OF scan(2)] rid] scan(4)
    have r: "marked_more (ch_ab c) ab" "marks ab \<subseteq> marks (ch_ab c) \<union> hits_and_refs mem usable ab0 (seen mem (live_ranges rs))"
      "sib_ok mem usable d rs ab0 (marks ab) sb" "held sb = held (ch_sib c i)" "sb_pc sb \<noteq> Exit"
      using scan(3) by (auto simp: held_def)
    show ?thesis unfolding scan(1) by (rule child_inv_mark [OF inv r(1-4) _ r(5)]) (use scan(3) in simp)
  next
    case (flush i sb ab)
    from flush_lookaside_ok [OF ready v ok [OF flush(2)]] flush(4)
    have r: "marked_more (ch_ab c) ab" "marks ab \<subseteq> marks (ch_ab c) \<union> hits_and_refs mem usable ab0 (seen mem (live_ranges rs))"
      "sib_ok mem usable d rs ab0 (marks ab) sb" "held sb = held (ch_sib c i)" "sb_pc sb \<noteq> Exit"
      using flush(3) by (auto simp: held_def)
    show ?thesis unfolding flush(1) by (rule child_inv_mark [OF inv r(1-4) _ r(5)]) (use flush(3) in simp)
  next
    case (report i full sb ab)
    let ?sum = "ab_roots_completed (ch_ab c) + sb_roots_completed (ch_sib c i)"
    have R: "ab = (ch_ab c)\<lparr>ab_roots_completed := ?sum\<rparr>" "sb = (ch_sib c i)\<lparr>sb_pc := Exit\<rparr>" "full \<longleftrightarrow> ?sum = g_n_ranges rs"
      using report(4) by (auto simp: report_roots_def Let_def)
    have ab: "ab = recount (ab_root_counter (ch_ab c)) ?sum (ch_ab c)" using R(1) by (simp add: recount_def)
    have "sib_ok mem usable d rs ab0 (marks (ch_ab c)) sb"
      using ok [OF report(2)] report(3) by (simp add: R(2) sib_ok_def pending_def) fastforce
    then have oks: "sib_ok mem usable d rs ab0 (marks ab) (((ch_sib c)(i := sb)) j)" if "j < n" for j using ok [OF that] ab by simp
    have t': "turns (g_n_ranges rs) n c'" unfolding report(1) R(2) by (rule turns_report [OF t report(2,3) R(1)])
    have "\<forall>j<n. sb_roots_completed (ch_sib c' j) = int (length (sb_rids (ch_sib c' j)))"
      using oks by (simp add: report(1) sib_ok_def del: fun_upd_apply)
    note all = all_scanned [OF t' this]
    have mono: "(\<Union>j\<in>{j. j < n \<and> sb_pc (ch_sib c j) = Exit}. set (sb_rids (ch_sib c j)))
        \<subseteq> (\<Union>j\<in>{j. j < n \<and> sb_pc (ch_sib c' j) = Exit}. set (sb_rids (ch_sib c' j)))"
      using report(3) by (auto simp: report(1) R(2))
    have "told (g_bytes_to_scan rs) (g_n_ranges rs) n c'"
    proof (cases full)
      case True
      then have "{0..<g_n_ranges rs} \<subseteq> (\<Union>j\<in>{j. j < n \<and> sb_pc (ch_sib c' j) = Exit}. set (sb_rids (ch_sib c' j)))"
        using all R(1,3) by (simp add: report(1) del: fun_upd_apply)
      then show ?thesis using tl by (auto simp: told_def report(1))
    next
      case False
      have "ch_written c' = ch_written c" using False by (simp add: report(1))
      then show ?thesis using tl mono unfolding told_def by auto
    qed
    then show ?thesis using t' oks view_of_recount [OF v] up by (simp add: child_inv_def report(1) ab)
  qed
qed

lemma child_reach_inv:
  assumes "scan_ready usable ab0 d rs" "ab_root_counter ab0 = 0" "ab_roots_completed ab0 = 0"
    and "child_reach mem usable d rs (ts_of ab0) n ab0 c"
  shows "child_inv mem usable d rs n ab0 c"
  using assms(4)
proof induction
  case init
  then show ?case using child_init_inv assms(2,3) by blast
next
  case (step c c')
  then show ?case using child_step_inv [OF assms(1)] by blast
qed

section \<open>Every run ends with a notification\<close>

text \<open>No range is skipped, nobody stops before all are taken, and the last report is complete.\<close>

definition attended :: "int \<Rightarrow> nat \<Rightarrow> child_t \<Rightarrow> bool" where
  "attended N n c \<longleftrightarrow>
     {0..<min (ab_root_counter (ch_ab c)) N} \<subseteq> (\<Union>i\<in>{..<n}. set (held (ch_sib c i))) \<and>
     (\<forall>i<n. sb_pc (ch_sib c i) \<in> {Flush, Report, Exit} \<longrightarrow> N \<le> ab_root_counter (ch_ab c)) \<and>
     ((\<exists>i<n. sb_pc (ch_sib c i) = Exit) \<longrightarrow> ab_roots_completed (ch_ab c) = N \<longrightarrow> ch_written c \<noteq> [])"

text \<open>A bound on the number of steps that are left.\<close>

definition sib_work :: "sibling_t \<Rightarrow> nat" where
  "sib_work sb = (case sb_pc sb of Claim \<Rightarrow> 3 | Scan r \<Rightarrow> 4 | Flush \<Rightarrow> 2 | Report \<Rightarrow> 1 | Exit \<Rightarrow> 0)"

definition child_work :: "int \<Rightarrow> nat \<Rightarrow> child_t \<Rightarrow> nat" where
  "child_work N n c = (\<Sum>i<n. sib_work (ch_sib c i)) + 2 * nat (N - ab_root_counter (ch_ab c))"

lemma sum_upd:
  fixes g :: "'a \<Rightarrow> nat" and n :: nat
  assumes "i < n"
  shows "(\<Sum>j<n. g ((f(i := x)) j)) + g (f i) = (\<Sum>j<n. g (f j)) + g x"
proof -
  have "(\<Sum>j<n. g ((f(i := x)) j)) = g x + (\<Sum>j\<in>{..<n} - {i}. g (f j))"
    using assms by (subst sum.remove [of _ i]) (auto intro!: sum.cong)
  moreover have "(\<Sum>j<n. g (f j)) = g (f i) + (\<Sum>j\<in>{..<n} - {i}. g (f j))"
    using assms by (subst sum.remove [of _ i]) auto
  ultimately show ?thesis by simp
qed

text \<open>What a step does to the point a sibling is at, to the ranges it holds and to the counters.\<close>

inductive moves :: "int \<Rightarrow> int \<Rightarrow> sibling_t \<Rightarrow> int \<Rightarrow> sibling_t \<Rightarrow> bool" for N rc sb where
  take: "sb_pc sb = Claim \<Longrightarrow> rc < N \<Longrightarrow> sb_pc sb' = Scan rc \<Longrightarrow> held sb' = rc # held sb \<Longrightarrow> moves N rc sb (rc + 1) sb'"
| late: "sb_pc sb = Claim \<Longrightarrow> N \<le> rc \<Longrightarrow> sb_pc sb' = Flush \<Longrightarrow> held sb' = held sb \<Longrightarrow> moves N rc sb (rc + 1) sb'"
| scanned: "sb_pc sb = Scan r \<Longrightarrow> sb_pc sb' = Claim \<Longrightarrow> held sb' = held sb \<Longrightarrow> moves N rc sb rc sb'"
| flushed: "sb_pc sb = Flush \<Longrightarrow> sb_pc sb' = Report \<Longrightarrow> held sb' = held sb \<Longrightarrow> moves N rc sb rc sb'"
| reported: "sb_pc sb = Report \<Longrightarrow> sb_pc sb' = Exit \<Longrightarrow> held sb' = held sb \<Longrightarrow> moves N rc sb rc sb'"

lemma step_moves:
  assumes ready: "scan_ready usable ab0 d rs" and inv: "child_inv mem usable d rs n ab0 c"
    and step: "child_step mem usable d rs (ts_of ab0) n c c'"
  shows "\<exists>i<n. \<exists>sb. ch_sib c' = (ch_sib c)(i := sb) \<and>
    moves (g_n_ranges rs) (ab_root_counter (ch_ab c)) (ch_sib c i) (ab_root_counter (ch_ab c')) sb \<and>
    (if sb_pc sb = Exit then ab_roots_completed (ch_ab c') = g_n_ranges rs \<longrightarrow> ch_written c' \<noteq> []
     else ab_roots_completed (ch_ab c') = ab_roots_completed (ch_ab c) \<and> ch_written c' = ch_written c)"
proof -
  have v: "view_of ab0 (ch_ab c)" and ok: "\<And>j. j < n \<Longrightarrow> sib_ok mem usable d rs ab0 (marks (ch_ab c)) (ch_sib c j)"
    and t: "turns (g_n_ranges rs) n c" using inv by (auto simp: child_inv_def)
  from step show ?thesis
  proof cases
    case (claim i sb ab)
    let ?r = "ab_root_counter (ch_ab c)"
    have sb: "sb = (ch_sib c i)\<lparr>sb_pc := (if ?r < g_n_ranges rs then Scan ?r else Flush)\<rparr>"
      "ab = (ch_ab c)\<lparr>ab_root_counter := ?r + 1\<rparr>"
      using claim(4) by (auto simp: claim_root_def Let_def)
    have "moves (g_n_ranges rs) ?r (ch_sib c i) (?r + 1) sb"
    proof (cases "?r < g_n_ranges rs")
      case True
      then show ?thesis using claim(3) sb(1) by (intro moves.take) (simp_all add: held_def)
    next
      case False
      then show ?thesis using claim(3) sb(1) by (intro moves.late) (simp_all add: held_def)
    qed
    then show ?thesis using claim(1,2) sb by (intro exI [of _ i] conjI exI [of _ sb]) simp_all
  next
    case (scan i rid sb ab)
    have rid: "0 \<le> rid" "rid < g_n_ranges rs" using t scan(2,3) by (force simp: turns_def held_def)+
    from scan_root_ok [OF ready v ok [OF scan(2)] rid] scan(3,4)
    have "marked_more (ch_ab c) ab" "sb_pc sb = Claim" "held sb = held (ch_sib c i)" by (auto simp: held_def)
    then show ?thesis using scan(1-3) marked_more_counters [of "ch_ab c" ab]
      by (intro exI [of _ i] conjI exI [of _ sb]) (auto intro: moves.scanned)
  next
    case (flush i sb ab)
    from flush_lookaside_ok [OF ready v ok [OF flush(2)]] flush(3,4)
    have "marked_more (ch_ab c) ab" "sb_pc sb = Report" "held sb = held (ch_sib c i)" by (auto simp: held_def)
    then show ?thesis using flush(1-3) marked_more_counters [of "ch_ab c" ab]
      by (intro exI [of _ i] conjI exI [of _ sb]) (auto intro: moves.flushed)
  next
    case (report i full sb ab)
    have sb: "sb = (ch_sib c i)\<lparr>sb_pc := Exit\<rparr>" "ab_root_counter ab = ab_root_counter (ch_ab c)"
      "full \<longleftrightarrow> ab_roots_completed ab = g_n_ranges rs"
      using report(4) by (auto simp: report_roots_def Let_def)
    have "moves (g_n_ranges rs) (ab_root_counter (ch_ab c)) (ch_sib c i) (ab_root_counter ab) sb"
      unfolding sb(2) by (rule moves.reported) (use report(3) sb(1) in \<open>simp_all add: held_def\<close>)
    then show ?thesis using report(1,2) sb by (intro exI [of _ i] conjI exI [of _ sb]) simp_all
  qed
qed

lemma work_decreases:
  assumes "i < n" "ch_sib c' = (ch_sib c)(i := sb)"
    and "moves N (ab_root_counter (ch_ab c)) (ch_sib c i) (ab_root_counter (ch_ab c')) sb"
  shows "child_work N n c' < child_work N n c"
proof -
  note sum = sum_upd [OF assms(1), of sib_work "ch_sib c" sb]
  from assms(3) show ?thesis
    by cases (use sum in \<open>auto simp: child_work_def assms(2) sib_work_def simp del: fun_upd_apply\<close>)
qed

lemma attended_step:
  assumes a: "attended N n c" and i: "i < n" "ch_sib c' = (ch_sib c)(i := sb)"
    and m: "moves N (ab_root_counter (ch_ab c)) (ch_sib c i) (ab_root_counter (ch_ab c')) sb"
    and w: "if sb_pc sb = Exit then ab_roots_completed (ch_ab c') = N \<longrightarrow> ch_written c' \<noteq> []
      else ab_roots_completed (ch_ab c') = ab_roots_completed (ch_ab c) \<and> ch_written c' = ch_written c"
  shows "attended N n c'"
proof -
  let ?r = "ab_root_counter (ch_ab c)" and ?r' = "ab_root_counter (ch_ab c')"
  have A: "{0..<min ?r N} \<subseteq> (\<Union>i\<in>{..<n}. set (held (ch_sib c i)))"
    "\<And>i. i < n \<Longrightarrow> sb_pc (ch_sib c i) \<in> {Flush, Report, Exit} \<Longrightarrow> N \<le> ?r"
    "(\<exists>i<n. sb_pc (ch_sib c i) = Exit) \<Longrightarrow> ab_roots_completed (ch_ab c) = N \<Longrightarrow> ch_written c \<noteq> []"
    using a by (auto simp: attended_def)
  have keep: "(\<Union>j\<in>{..<n}. set (held (ch_sib c j))) \<subseteq> (\<Union>j\<in>{..<n}. set (held (ch_sib c' j)))"
    using m by (cases rule: moves.cases) (auto simp: i(2))
  have "{0..<min ?r' N} \<subseteq> {0..<min ?r N} \<union> set (held sb)" using m by (cases rule: moves.cases) auto
  also have "\<dots> \<subseteq> (\<Union>j\<in>{..<n}. set (held (ch_sib c' j)))" using A(1) keep i by auto
  finally have "{0..<min ?r' N} \<subseteq> (\<Union>j\<in>{..<n}. set (held (ch_sib c' j)))" .
  moreover have "N \<le> ?r'" if "j < n" "sb_pc (ch_sib c' j) \<in> {Flush, Report, Exit}" for j
    using m that A(2) [of j] A(2) [OF i(1)] by (cases rule: moves.cases) (auto simp: i(2) split: if_splits)
  moreover have "ch_written c' \<noteq> []" if "\<exists>j<n. sb_pc (ch_sib c' j) = Exit" "ab_roots_completed (ch_ab c') = N"
    using that w A(3) by (auto simp: i(2) split: if_splits)
  ultimately show ?thesis by (auto simp: attended_def)
qed

lemma child_reach_attended:
  assumes "scan_ready usable ab0 d rs" "ab_root_counter ab0 = 0" "ab_roots_completed ab0 = 0"
    and "child_reach mem usable d rs (ts_of ab0) n ab0 c"
  shows "attended (g_n_ranges rs) n c"
  using assms(4)
proof induction
  case init
  then show ?case using assms(2,3) by (simp add: attended_def child_init_def sibling_init_def)
next
  case (step c c')
  then show ?case
    using step_moves [OF assms(1) child_reach_inv [OF assms(1-3) step.hyps(1)] step.hyps(2)] attended_step by blast
qed

lemma sibling_can_move:
  assumes ready: "scan_ready usable ab0 d rs" and inv: "child_inv mem usable d rs n ab0 c"
    and i: "i < n" "sb_pc (ch_sib c i) \<noteq> Exit"
  shows "\<exists>c'. child_step mem usable d rs (ts_of ab0) n c c' \<and> ch_sib c' i \<noteq> ch_sib c i"
proof -
  have v: "view_of ab0 (ch_ab c)" and ok: "sib_ok mem usable d rs ab0 (marks (ch_ab c)) (ch_sib c i)"
    and t: "turns (g_n_ranges rs) n c" using inv i(1) by (auto simp: child_inv_def)
  show ?thesis
  proof (cases "sb_pc (ch_sib c i)")
    case Claim
    obtain sb ab where r: "claim_root (g_n_ranges rs) (ch_sib c i) (ch_ab c) = (sb, ab)" by fastforce
    then have "sb_pc sb \<noteq> Claim" by (auto simp: claim_root_def Let_def split: if_splits)
    then have "sb \<noteq> ch_sib c i" using Claim by auto
    with child_step.claim [OF i(1) Claim r] show ?thesis by fastforce
  next
    case (Scan rid)
    have rid: "0 \<le> rid" "rid < g_n_ranges rs" using t i(1) Scan by (force simp: turns_def held_def)+
    from scan_root_ok [OF ready v ok rid] obtain sb ab where
      r: "scan_root mem usable d rs rid (ch_sib c i) (ch_ab c) = Inr (sb, ab)" "sb_pc sb = Claim" by auto
    then have "sb \<noteq> ch_sib c i" using Scan by auto
    with child_step.scan [OF i(1) Scan r(1)] show ?thesis by fastforce
  next
    case Flush
    from flush_lookaside_ok [OF ready v ok] obtain sb ab where
      r: "flush_lookaside mem usable (ts_of ab0) (ch_sib c i) (ch_ab c) = Inr (sb, ab)" "sb_pc sb = Report" by auto
    then have "sb \<noteq> ch_sib c i" using Flush by auto
    with child_step.flush [OF i(1) Flush r(1)] show ?thesis by fastforce
  next
    case Report
    obtain full sb ab where r: "report_roots (g_n_ranges rs) (ch_sib c i) (ch_ab c) = (full, sb, ab)" by (cases "report_roots (g_n_ranges rs) (ch_sib c i) (ch_ab c)")
    then have "sb_pc sb = Exit" by (auto simp: report_roots_def Let_def)
    then have "sb \<noteq> ch_sib c i" using Report by auto
    with child_step.report [OF i(1) Report r] show ?thesis by fastforce
  qed (use i(2) in simp)
qed

lemma last_report_notifies:
  assumes inv: "child_inv mem usable d rs n ab0 c" and att: "attended (g_n_ranges rs) n c" and N: "0 \<le> g_n_ranges rs"
    and n: "0 < n" "\<forall>i<n. sb_pc (ch_sib c i) = Exit"
  shows "ch_written c \<noteq> []"
proof -
  let ?N = "g_n_ranges rs"
  let ?U = "\<Union>i\<in>{i. i < n \<and> sb_pc (ch_sib c i) = Exit}. set (sb_rids (ch_sib c i))"
  have t: "turns ?N n c" and ok: "\<forall>i<n. sb_roots_completed (ch_sib c i) = int (length (sb_rids (ch_sib c i)))"
    using inv by (auto simp: child_inv_def sib_ok_def)
  have "?N \<le> ab_root_counter (ch_ab c)" using att n unfolding attended_def by blast
  then have "{0..<?N} \<subseteq> (\<Union>i\<in>{..<n}. set (held (ch_sib c i)))" using att by (simp add: attended_def min_absorb2)
  also have "\<dots> = ?U" using n(2) by (auto simp: held_def)
  finally have "?U = {0..<?N}" using reports_count(2) [OF t ok] by blast
  then have "ab_roots_completed (ch_ab c) = ?N" using reports_count(1) [OF t ok] N by simp
  then show ?thesis using att n unfolding attended_def by blast
qed

section \<open>What the ranges hold\<close>

definition line_range :: "mapline_t \<Rightarrow> mem_range_t" where
  "line_range m = \<lparr>mr_low = ml_range_begin m, mr_high = ml_range_end m\<rparr>"

definition wanted :: "size_t \<Rightarrow> mapline_t \<Rightarrow> bool" where
  "wanted lock m \<longleftrightarrow> passed_over lock (ml_range_begin m) (ml_range_end m) (ml_bits m) (ml_path m) = Inr False"

definition line_ok :: "mapline_t \<Rightarrow> bool" where
  "line_ok m \<longleftrightarrow> user_bounds (line_range m) \<and> length (ml_bits m) = 4"

lemma passed_over_returns: "length bits = 4 \<Longrightarrow> \<exists>skip. passed_over lock low high bits pth = Inr skip"
  by (auto simp: passed_over_def rd_def)

lemma scan_plan_iff:
  assumes "scan_plan owned r qs"
  shows "(\<exists>q\<in>set qs. in_range q x) \<longleftrightarrow> in_range r x \<and> \<not> owned x"
proof -
  have "in_range r x" if "q \<in> set qs" "in_range q x" for q
    using assms that unfolding scan_plan_def in_range_def by (meson order_trans less_le_trans)
  then show ?thesis using assms unfolding scan_plan_def by blast
qed

text \<open>
  Pieces of the lines that are wanted: of each line disjoint, foreign pieces that cannot be longer. The map
  is crowded when there are so many of them that, with the stacks, they do not fit the array of
  ranges.
\<close>

definition plans :: "size_t \<Rightarrow> alloc_state \<Rightarrow> mapline_t list \<Rightarrow> mem_range_t list \<Rightarrow> bool" where
  "plans lock al ms qs \<longleftrightarrow>
     (\<exists>qss. list_all2 (\<lambda>m. cut_plan (forkscan_memory al) (line_range m)) (filter (wanted lock) ms) qss \<and> qs = concat qss)"

definition crowded :: "size_t \<Rightarrow> alloc_state \<Rightarrow> mapline_t list \<Rightarrow> nat \<Rightarrow> bool" where
  "crowded lock al ms stacks \<longleftrightarrow> (\<exists>qs. plans lock al ms qs \<and> MAX_MARK_AND_SWEEP_RANGES \<le> int (length qs + stacks))"

lemma plans_Nil: "plans lock al ms []"
  unfolding plans_def
  by (intro exI [of _ "map (\<lambda>m. []) (filter (wanted lock) ms)"]) (simp add: list_all2_map2 list.rel_refl concat_eq_Nil_conv [symmetric])

lemma plans_skip: "\<not> wanted lock m \<Longrightarrow> plans lock al ms qs \<Longrightarrow> plans lock al (m # ms) qs"
  by (simp add: plans_def)

lemma plans_line:
  assumes "wanted lock m" "cut_plan (forkscan_memory al) (line_range m) ps" "plans lock al ms qs"
  shows "plans lock al (m # ms) (ps @ qs)"
proof -
  obtain qss where "list_all2 (\<lambda>m. cut_plan (forkscan_memory al) (line_range m)) (filter (wanted lock) ms) qss" "qs = concat qss"
    using assms(3) by (auto simp: plans_def)
  then show ?thesis using assms(1,2) unfolding plans_def by (intro exI [of _ "ps # qss"]) simp
qed

lemma visit_collect:
  assumes "alloc_ready al" "\<forall>m\<in>set ms. line_ok m" "ranges_inv rs"
  shows "too_many rs (plans lock al ms) (visit_lines (collect_ranges lock al) ms rs) \<or>
    (\<exists>rs' qs. visit_lines (collect_ranges lock al) ms rs = Inr rs' \<and> extended rs rs' qs \<and> plans lock al ms qs \<and>
       (\<forall>x. (\<exists>q\<in>set qs. in_range q x) \<longleftrightarrow>
          (\<exists>m\<in>set ms. wanted lock m \<and> in_range (line_range m) x) \<and> \<not> forkscan_memory al x))"
  using assms(2,3)
proof (induction ms arbitrary: rs)
  case Nil
  then show ?case using plans_Nil by (auto intro!: exI [of _ "[]"] extended_refl)
next
  case (Cons m ms)
  let ?f = "collect_ranges lock al (ml_range_begin m) (ml_range_end m) (ml_bits m) (ml_path m) rs"
  obtain skip where skip: "passed_over lock (ml_range_begin m) (ml_range_end m) (ml_bits m) (ml_path m) = Inr skip"
    using passed_over_returns Cons.prems(1) by (force simp: line_ok_def)
  then have w: "wanted lock m \<longleftrightarrow> \<not> skip" by (simp add: wanted_def)
  have ub: "user_bounds \<lparr>mr_low = ml_range_begin m, mr_high = ml_range_end m\<rparr>"
    using Cons.prems(1) by (simp add: line_ok_def line_range_def)
  from collect_ranges_ok [OF assms(1) ub Cons.prems(2) skip, folded line_range_def] show ?case
  proof (elim disjE exE conjE)
    assume no: "\<not> skip" and "too_many rs (cut_plan (forkscan_memory al) (line_range m)) ?f"
    then have "too_many rs (plans lock al (m # ms)) ?f"
      by - (erule too_many_more [of _ _ _ _ "[]"], simp, use w plans_line [OF _ _ plans_Nil] in simp)
    then show ?thesis by (simp add: too_many_bind)
  next
    fix rs1 ps assume h: "?f = Inr (True, rs1)" "extended rs rs1 ps"
      "if skip then ps = [] else scan_plan (forkscan_memory al) (line_range m) ps \<and> cut_plan (forkscan_memory al) (line_range m) ps"
    have ps: "(\<exists>q\<in>set ps. in_range q x) \<longleftrightarrow> wanted lock m \<and> in_range (line_range m) x \<and> \<not> forkscan_memory al x" for x
      using h(3) w scan_plan_iff [of "forkscan_memory al" "line_range m" ps x] by (auto split: if_splits)
    have pl: "plans lock al (m # ms) (ps @ qs)" if "plans lock al ms qs" for qs
      using h(3) w that plans_line plans_skip by (cases skip) auto
    have live: "ranges_inv rs1" "live_ranges rs1 = live_ranges rs @ ps" and ok: "\<forall>m\<in>set ms. line_ok m"
      using h(2) Cons.prems(1) by (simp_all add: extended_def)
    from Cons.IH [OF ok live(1)] show ?thesis
    proof (elim disjE exE conjE)
      assume "too_many rs1 (plans lock al ms) (visit_lines (collect_ranges lock al) ms rs1)"
      then have "too_many rs (plans lock al (m # ms)) (visit_lines (collect_ranges lock al) ms rs1)"
        by (rule too_many_more [OF _ live(2)]) (rule pl)
      then show ?thesis using h(1) by simp
    next
      fix rs2 qs assume "visit_lines (collect_ranges lock al) ms rs1 = Inr rs2" "extended rs1 rs2 qs" "plans lock al ms qs"
        "\<forall>x. (\<exists>q\<in>set qs. in_range q x) \<longleftrightarrow> (\<exists>m\<in>set ms. wanted lock m \<and> in_range (line_range m) x) \<and> \<not> forkscan_memory al x"
      then show ?thesis using h(1) ps extended_trans [OF h(2)] pl
        by (intro disjI2 exI [of _ rs2] exI [of _ "ps @ qs"]) (auto simp: bex_Un)
    qed
  qed
qed

lemma n_siblings_bounds:
  assumes "1 \<le> max_children" "max_children < 2 ^ 31"
  shows "1 \<le> n_siblings max_children rs" "n_siblings max_children rs \<le> max_children"
proof -
  let ?w = "min (word_of_int max_children) (g_bytes_to_scan rs div MEMORY_THRESHOLD)"
  have u: "uint (word_of_int max_children :: size_t) = max_children"
    using assms by (simp add: uint_word_of_int_eq take_bit_int_eq_self)
  have "?w \<le> word_of_int max_children" by simp
  then have le: "uint ?w \<le> max_children" using u by (metis word_le_def)
  then have "int_of_size ?w = uint ?w" using int_of_size_small [of "uint ?w"] assms by simp
  then show "1 \<le> n_siblings max_children rs" "n_siblings max_children rs \<le> max_children"
    using le assms(1) by (auto simp: n_siblings_def Let_def)
qed

section \<open>Properties\<close>

text \<open>Once the parent has been notified, what every range refers to is marked.\<close>

lemma complete_when_told:
  assumes inv: "child_inv mem usable d rs n ab c" and w: "ch_written c \<noteq> []" and q: "q \<in> set (live_ranges rs)"
  shows "hits ab (needed mem usable ab d q) \<subseteq> marks (ch_ab c)"
proof -
  obtain k where k: "k < nat (g_n_ranges rs)" "g_ranges rs ! k = q"
    using q by (auto simp: live_ranges_def in_set_conv_nth)
  then have "int k \<in> {0..<g_n_ranges rs}" by simp
  then obtain i where i: "i < n" "sb_pc (ch_sib c i) = Exit" "int k \<in> set (sb_rids (ch_sib c i))"
    using inv w unfolding child_inv_def told_def by blast
  then have "sib_ok mem usable d rs ab (marks (ch_ab c)) (ch_sib c i)" using inv by (simp add: child_inv_def)
  then have "sb_lookaside_count (ch_sib c i) = 0"
    "hits ab (needed mem usable ab d (g_ranges rs ! nat (int k))) \<subseteq> marks (ch_ab c) \<union> hits ab (pending (ch_sib c i))"
    using i(2,3) unfolding sib_ok_def by blast+
  then show ?thesis using k(2) by (simp add: pending_def)
qed

text \<open>
  C4: the siblings scan together. In every interleaving, once the parent has been written to, every
  tracked address that some word of the ranges refers to is marked, unless the word lies inside a
  tracked or a dead block; nothing is marked but addresses in the ranges and what their blocks
  refer to; and what is written is the number of bytes to scan.
\<close>

theorem child_notifies_complete:
  assumes "scan_ready usable ab deadrefs rs" and "ab_root_counter ab = 0" and "ab_roots_completed ab = 0"
    and "child_reach mem usable deadrefs rs (ts_of ab) n ab c"
  shows "(ch_written c \<noteq> [] \<longrightarrow>
      (\<forall>q\<in>set (live_ranges rs). hits ab (needed mem usable ab deadrefs q) \<subseteq> marks (ch_ab c))) \<and>
    marks (ch_ab c) \<subseteq> marks ab \<union> hits_and_refs mem usable ab (seen mem (live_ranges rs)) \<and>
    (\<forall>w\<in>set (ch_written c). w = g_bytes_to_scan rs)"
proof -
  note inv = child_reach_inv [OF assms]
  have told: "told (g_bytes_to_scan rs) (g_n_ranges rs) n c" using inv by (simp add: child_inv_def)
  have "hits ab (needed mem usable ab deadrefs q) \<subseteq> marks (ch_ab c)"
    if "ch_written c \<noteq> []" "q \<in> set (live_ranges rs)" for q by (rule complete_when_told [OF inv that])
  then show ?thesis using inv told by (auto simp: child_inv_def told_def)
qed

text \<open>
  C16: the scan always ends with a notification. Every step uses up part of a bounded amount of work,
  no sibling that has not left is ever stuck, and when all siblings have left, the parent has been
  written to.
\<close>

theorem child_always_notifies:
  assumes "scan_ready usable ab deadrefs rs" and "ab_root_counter ab = 0" and "ab_roots_completed ab = 0"
    and "child_reach mem usable deadrefs rs (ts_of ab) n ab c"
  shows "(\<forall>c'. child_step mem usable deadrefs rs (ts_of ab) n c c' \<longrightarrow>
      child_work (g_n_ranges rs) n c' < child_work (g_n_ranges rs) n c) \<and>
    (\<forall>i<n. sb_pc (ch_sib c i) \<noteq> Exit \<longrightarrow>
      (\<exists>c'. child_step mem usable deadrefs rs (ts_of ab) n c c' \<and> ch_sib c' i \<noteq> ch_sib c i)) \<and>
    (0 < n \<and> (\<forall>i<n. sb_pc (ch_sib c i) = Exit) \<longrightarrow> ch_written c \<noteq> [])"
proof -
  note inv = child_reach_inv [OF assms]
  have "0 \<le> g_n_ranges rs" using assms(1) by (simp add: scan_ready_def ranges_inv_def)
  note last = last_report_notifies [OF inv child_reach_attended [OF assms] this]
  have "child_work (g_n_ranges rs) n c' < child_work (g_n_ranges rs) n c"
    if "child_step mem usable deadrefs rs (ts_of ab) n c c'" for c'
    using step_moves [OF assms(1) inv that] work_decreases by blast
  then show ?thesis using last sibling_can_move [OF assms(1) inv] by blast
qed

text \<open>Such runs exist: going on until all have left.\<close>

lemma run_to_end:
  assumes "scan_ready usable ab d rs" "ab_root_counter ab = 0" "ab_roots_completed ab = 0"
    and "child_reach mem usable d rs (ts_of ab) n ab c"
  shows "\<exists>c'. child_reach mem usable d rs (ts_of ab) n ab c' \<and> (\<forall>i<n. sb_pc (ch_sib c' i) = Exit)"
  using assms(4)
proof (induction "child_work (g_n_ranges rs) n c" arbitrary: c rule: less_induct)
  case less
  note inv = child_reach_inv [OF assms(1-3) less.prems]
  show ?case
  proof (cases "\<forall>i<n. sb_pc (ch_sib c i) = Exit")
    case False
    then obtain c' where c': "child_step mem usable d rs (ts_of ab) n c c'"
      using sibling_can_move [OF assms(1) inv] by blast
    then have "child_work (g_n_ranges rs) n c' < child_work (g_n_ranges rs) n c"
      using step_moves [OF assms(1) inv] work_decreases by blast
    then show ?thesis using less.hyps child_reach.step [OF less.prems c'] by blast
  qed (use less.prems in blast)
qed

definition sample_scan :: ranges_t where
  "sample_scan = \<lparr>g_ranges = \<lparr>mr_low = 0x8000, mr_high = 0x8010\<rparr> # replicate 0xFFFF \<lparr>mr_low = 0, mr_high = 0\<rparr>,
     g_n_ranges = 1, g_bytes_to_scan = 16\<rparr>"

lemma sample_scan_ready: "scan_ready sample_usable sample_ab sample_dead sample_scan"
  using sample_snapshot
  by (simp add: scan_ready_def sample_scan_def ranges_inv_def MAX_MARK_AND_SWEEP_RANGES_def live_ranges_def)

lemma sample_counters: "ab_root_counter sample_ab = 0" "ab_roots_completed sample_ab = 0"
  by (simp_all add: sample_ab_def)

lemmas sample_run = run_to_end [OF sample_scan_ready sample_counters child_reach.init]

theorem child_notifies_complete_witness:
  "\<exists>c. child_reach (\<lambda>a. if a = 0x8008 then 0x2002 else 0) sample_usable sample_dead sample_scan (ts_of sample_ab) 2 sample_ab c \<and>
     hits sample_ab {0x2000} \<subseteq> marks (ch_ab c)"
proof -
  let ?mem = "\<lambda>a :: size_t. if a = 0x8008 then 0x2002 else 0 :: size_t"
  obtain c where c: "child_reach ?mem sample_usable sample_dead sample_scan (ts_of sample_ab) 2 sample_ab c"
    "\<forall>i<2. sb_pc (ch_sib c i) = Exit" using sample_run by blast
  have "0 \<le> g_n_ranges sample_scan" by (simp add: sample_scan_def)
  from last_report_notifies [OF child_reach_inv [OF sample_scan_ready sample_counters c(1)]
      child_reach_attended [OF sample_scan_ready sample_counters c(1)] this] c(2)
  have "ch_written c \<noteq> []" by simp
  moreover have "\<lparr>mr_low = 0x8000, mr_high = 0x8010\<rparr> \<in> set (live_ranges sample_scan)"
    by (simp add: live_ranges_def sample_scan_def)
  ultimately have "hits sample_ab (needed ?mem sample_usable sample_ab sample_dead \<lparr>mr_low = 0x8000, mr_high = 0x8010\<rparr>) \<subseteq> marks (ch_ab c)"
    using child_notifies_complete [OF sample_scan_ready sample_counters c(1)] by blast
  moreover have "0x2000 \<in> needed ?mem sample_usable sample_ab sample_dead \<lparr>mr_low = 0x8000, mr_high = 0x8010\<rparr>"
    unfolding needed_def
    by (rule image_eqI [of _ _ "0x8008"]) (simp_all add: val_at_def PTR_MASK_def in_block_def sample_keys sample_usable_def words_def)
  ultimately have "hits sample_ab {0x2000} \<subseteq> marks (ch_ab c)"
    using hits_mono [of "{0x2000}" "needed ?mem sample_usable sample_ab sample_dead \<lparr>mr_low = 0x8000, mr_high = 0x8010\<rparr>" sample_ab] by blast
  with c(1) show ?thesis by blast
qed

theorem child_always_notifies_witness:
  "\<exists>c. child_reach (\<lambda>a. 0) sample_usable sample_dead sample_scan (ts_of sample_ab) 3 sample_ab c \<and> ch_written c \<noteq> []"
proof -
  obtain c where c: "child_reach (\<lambda>a. 0) sample_usable sample_dead sample_scan (ts_of sample_ab) 3 sample_ab c"
    "\<forall>i<3. sb_pc (ch_sib c i) = Exit" using sample_run by blast
  then show ?thesis using child_always_notifies [OF sample_scan_ready sample_counters c(1)] by auto
qed

lemma too_many_crowded:
  assumes tm: "too_many rs P r" and "live_ranges rs = []" and ex: "\<And>qs. P qs \<Longrightarrow> \<exists>qs'. plans lock al ms qs' \<and> length qs \<le> length qs' + k"
  shows "(r = Inl Out_of_bounds \<or> r = Inl (Fatal ''Too many memory ranges.'')) \<and> crowded lock al ms k"
proof -
  obtain qs where q: "P qs" "MAX_MARK_AND_SWEEP_RANGES \<le> int (length qs)" using tm assms(2) by (auto simp: too_many_def)
  obtain qs' where "plans lock al ms qs'" "length qs \<le> length qs' + k" using ex [OF q(1)] by blast
  then have "crowded lock al ms k" using q(2) unfolding crowded_def by (intro exI [of _ qs']) simp
  then show ?thesis using tm by (simp add: too_many_def)
qed

lemma child_setup_returns:
  assumes "forkscan_proc_map_iterate (Some fp) (collect_ranges lock al) (rs\<lparr>g_bytes_to_scan := 0\<rparr>) = Inr rs1"
    and "add_stack_ranges tds head rs1 = Inr rs2" and "0 < ab_n_addrs ab" and "n_of ab \<le> length (ab_addrs ab)"
  shows "\<exists>ab'. child_setup (Some fp) lock al tds head max_children ab rs = Inr (n_siblings max_children rs2, ts_of ab, rs2, ab') \<and>
    ab_root_counter ab' = 0 \<and> ab_roots_completed ab' = 0 \<and> ab_addrs ab' = ab_addrs ab"
proof -
  have "nat (ab_n_addrs ab - 1) < length (ab_addrs ab)" "nat (ab_n_addrs ab - 1) = n_of ab - 1" using assms(3,4) by (auto simp: n_of_def)
  then have "rd (ab_addrs ab) 0 = Inr (ab_addrs ab ! 0)" "rd (ab_addrs ab) (ab_n_addrs ab - 1) = Inr (ab_addrs ab ! (n_of ab - 1))"
    using assms(3) by (auto simp: rd_def)
  then show ?thesis using assms(1,2) by (simp add: child_setup_def ts_of_def key_def)
qed

text \<open>
  C17: the setup of a scan, on a memory map that holds the text of some lines. It returns unless the
  wanted mappings, cut at Forkscan's own memory and to pieces of the maximal size, together with the
  stacks are too many for the array of ranges. The ranges then hold exactly the addresses of the writable,
  private mappings that are not passed over and are not Forkscan's own, and the stacks given to the
  threads of the list; the counters are reset, and between one and the maximal number of processes take
  part.
\<close>

theorem child_setup_covers:
  assumes "alloc_ready al" and "map_text ms fp" and "\<forall>m\<in>set ms. line_ok m" and "ranges_inv rs" and "g_n_ranges rs = 0"
    and "path td_next tds head ps 0" and "1 \<le> max_children" and "max_children < 2 ^ 31"
    and "0 < ab_n_addrs ab" and "n_of ab \<le> length (ab_addrs ab)"
  shows "(child_setup (Some fp) lock al tds head max_children ab rs = Inl Out_of_bounds \<or>
      child_setup (Some fp) lock al tds head max_children ab rs = Inl (Fatal ''Too many memory ranges.'')) \<and>
      crowded lock al ms (length (our_stacks tds ps)) \<or>
    (\<exists>n rs' ab'. child_setup (Some fp) lock al tds head max_children ab rs = Inr (n, ts_of ab, rs', ab') \<and>
       1 \<le> n \<and> n \<le> max_children \<and> ab_root_counter ab' = 0 \<and> ab_roots_completed ab' = 0 \<and> ab_addrs ab' = ab_addrs ab \<and>
       g_bytes_to_scan rs' = range_bytes (live_ranges rs') \<and>
       (\<forall>x. (\<exists>q\<in>set (live_ranges rs'). in_range q x) \<longleftrightarrow>
          (\<exists>m\<in>set ms. wanted lock m \<and> in_range (line_range m) x) \<and> \<not> forkscan_memory al x \<or>
          (\<exists>q\<in>set (our_stacks tds ps). in_range q x)))"
proof -
  let ?rs = "rs\<lparr>g_bytes_to_scan := 0\<rparr>" and ?run = "child_setup (Some fp) lock al tds head max_children ab rs"
  let ?it = "forkscan_proc_map_iterate (Some fp) (collect_ranges lock al) ?rs"
  have inv: "ranges_inv ?rs" "live_ranges ?rs = []" using assms(4,5) by (simp_all add: ranges_inv_def live_ranges_def)
  have it: "?it = visit_lines (collect_ranges lock al) ms ?rs"
    using map_iterate_loop_text [OF assms(2) lessI] by (simp only: forkscan_proc_map_iterate_def option.case)
  from visit_collect [OF assms(1,3) inv(1), where lock = lock] show ?thesis
  proof (elim disjE exE conjE)
    assume "too_many ?rs (plans lock al ms) (visit_lines (collect_ranges lock al) ms ?rs)"
    then have "too_many ?rs (plans lock al ms) ?run" unfolding child_setup_def it by (rule too_many_bind)
    then have "(?run = Inl Out_of_bounds \<or> ?run = Inl (Fatal ''Too many memory ranges.'')) \<and> crowded lock al ms (length (our_stacks tds ps))"
      by (rule too_many_crowded [OF _ inv(2)]) (auto intro: trans_le_add1)
    then show ?thesis by (rule disjI1)
  next
    fix rs1 qs
    assume v: "visit_lines (collect_ranges lock al) ms ?rs = Inr rs1" "extended ?rs rs1 qs" "plans lock al ms qs"
      "\<forall>x. (\<exists>q\<in>set qs. in_range q x) \<longleftrightarrow>
          (\<exists>m\<in>set ms. wanted lock m \<and> in_range (line_range m) x) \<and> \<not> forkscan_memory al x"
    have live1: "ranges_inv rs1" "live_ranges rs1 = live_ranges ?rs @ qs" using v(2) by (simp_all add: extended_def)
    have "length ps < Suc (length tds)"
      using chain_length [OF path_distinct [OF assms(6)], of tds] path_live [OF assms(6)] by (simp add: less_Suc_eq_le)
    then consider "too_many rs1 (\<lambda>qs. qs = our_stacks tds ps) (add_stack_ranges tds head rs1)"
      | rs2 where "add_stack_ranges tds head rs1 = Inr rs2" "extended rs1 rs2 (our_stacks tds ps)"
      using stack_ranges_loop_ok [OF assms(6) live1(1)] unfolding add_stack_ranges_def by blast
    then show ?thesis
    proof cases
      case 1
      have "too_many rs1 (\<lambda>qs. qs = our_stacks tds ps) ?run"
        unfolding child_setup_def it v(1) bind_res_Inr by (rule too_many_bind [OF 1])
      then have "too_many ?rs (\<lambda>qs'. qs' = qs @ our_stacks tds ps) ?run" by (rule too_many_more [OF _ live1(2)]) simp
      then have "(?run = Inl Out_of_bounds \<or> ?run = Inl (Fatal ''Too many memory ranges.'')) \<and> crowded lock al ms (length (our_stacks tds ps))"
        by (rule too_many_crowded [OF _ inv(2)]) (use v(3) in \<open>auto intro!: exI [of _ qs]\<close>)
      then show ?thesis by (rule disjI1)
    next
      case 2
      have live: "live_ranges rs2 = qs @ our_stacks tds ps" "g_bytes_to_scan rs2 = range_bytes (live_ranges rs2)"
        using v(2) 2(2) inv(2) by (auto simp: extended_def)
      have all: "(\<exists>q\<in>set (live_ranges rs2). in_range q x) \<longleftrightarrow>
          (\<exists>m\<in>set ms. wanted lock m \<and> in_range (line_range m) x) \<and> \<not> forkscan_memory al x \<or>
          (\<exists>q\<in>set (our_stacks tds ps). in_range q x)" for x
        using v(4) live(1) by (simp add: bex_Un)
      show ?thesis using child_setup_returns [OF it [unfolded v(1)] 2(1) assms(9,10)] all live(2) n_siblings_bounds [OF assms(7,8), of rs2] by blast
    qed
  qed
qed

theorem child_setup_covers_witness:
  "\<exists>al fp n rs' ab'. map_text [sample_line, anon_line] fp \<and>
     child_setup (Some fp) 0 al [] 0 4 sample_ab (sample_ranges 0) = Inr (n, ts_of sample_ab, rs', ab') \<and> n \<le> 4 \<and>
     (\<forall>x. (\<exists>q\<in>set (live_ranges rs'). in_range q x) \<longleftrightarrow>
        (in_range (line_range sample_line) x \<or> in_range (line_range anon_line) x) \<and> \<not> forkscan_memory al x)"
proof -
  obtain al p where al: "alloc_ok al" "al_alloc_list al \<noteq> 0" using sample_alloc by metis
  have ready: "alloc_ready al" using al by (simp add: alloc_ready_def)
  let ?ms = "[sample_line, anon_line]"
  obtain fp where mt: "map_text ?ms fp" using sample_line_text anon_line_text unfolding map_text_def by (meson list.rel_intros)
  have ok: "\<forall>m\<in>set ?ms. line_ok m"
    by (simp add: line_ok_def sample_line_def anon_line_def line_range_def user_bounds_def MAX_RANGE_SIZE_def)
  have w: "wanted 0 sample_line" "wanted 0 anon_line"
    by (simp_all add: wanted_def sample_line_def anon_line_def passed_over_def rd_def is_lib_def is_lib_loop.simps)
  have ab: "0 < ab_n_addrs sample_ab" "n_of sample_ab \<le> length (ab_addrs sample_ab)" by (simp_all add: sample_ab_def n_of_def)
  have pa: "path td_next [] 0 [] 0" and n0: "g_n_ranges (sample_ranges 0) = 0" by (simp_all add: sample_ranges_def)
  note c = child_setup_covers [OF ready mt ok sample_ranges_inv [OF order_refl] n0 pa _ _ ab, of 4 0]
  have "\<not> crowded 0 al ?ms (length (our_stacks [] []))"
  proof
    assume "crowded 0 al ?ms (length (our_stacks [] []))"
    then obtain ps qs where p: "cut_plan (forkscan_memory al) (line_range sample_line) ps" "cut_plan (forkscan_memory al) (line_range anon_line) qs"
      "MAX_MARK_AND_SWEEP_RANGES \<le> int (length ps + length qs)"
      using w by (auto simp: crowded_def plans_def our_stacks_def list_all2_Cons1)
    have "length ps \<le> 0x1000" "length qs \<le> 0x2000"
      using cut_plan_length [OF p(1)] cut_plan_length [OF p(2)] by (simp_all add: line_range_def sample_line_def anon_line_def)
    with p(3) show False by (simp add: MAX_MARK_AND_SWEEP_RANGES_def)
  qed
  with c w obtain n rs' ab' where "child_setup (Some fp) 0 al [] 0 4 sample_ab (sample_ranges 0) = Inr (n, ts_of sample_ab, rs', ab')" "n \<le> 4"
    "\<forall>x. (\<exists>q\<in>set (live_ranges rs'). in_range q x) \<longleftrightarrow>
        (in_range (line_range sample_line) x \<or> in_range (line_range anon_line) x) \<and> \<not> forkscan_memory al x"
    by (auto simp: our_stacks_def)
  with mt show ?thesis by blast
qed

end
