(* ===== verification/Reclaim.thy ===== *)
theory Reclaim
  imports Child Util_Sort Buffer
begin

text \<open>
  The collector thread, \<^verbatim>\<open>src/forkscan.c\<close>: buffers of retired addresses are aggregated, scanned for
  references by the forked child, and published for freeing; addresses still referenced go into
  the next collection. The buffers the child works on are shared memory, so its writes are seen
  by the collector. Whether the pipe and the child can be had is a parameter, and so is what the
  scanning processes do to the buffer and what they report; the theory \<open>Child\<close> has their steps.
\<close>

section \<open>The code\<close>

text \<open>\<open>do { ... } while ((tmp = tmp->next))\<close>: adding up the buffers of a list.\<close>

fun sum_addrs :: "nat \<Rightarrow> addr_buffer_t store \<Rightarrow> size_t \<Rightarrow> size_t \<Rightarrow> int \<Rightarrow> (size_t \<times> int) res" where
  "sum_addrs 0 s tmp n_addrs list_count = Inl No_return"
| "sum_addrs (Suc k) s tmp n_addrs list_count =
     bind_res (ld s tmp) (\<lambda>b.
     bind_res (cint (list_count + 1)) (\<lambda>list_count.
     let n_addrs = n_addrs + word_of_int (ab_n_addrs b) in
     if ab_next b \<noteq> 0 then sum_addrs k s (ab_next b) n_addrs list_count else Inr (n_addrs, list_count)))"

text \<open>Appending one buffer to another, and all buffers of a list.\<close>

definition append_addrs :: "size_t \<Rightarrow> size_t \<Rightarrow> buffer_state \<Rightarrow> buffer_state res" where
  "append_addrs ret ab st =
     bind_res (ld (bf_store st) ret) (\<lambda>r.
     bind_res (ld (bf_store st) ab) (\<lambda>d.
     bind_res (memcpy (ab_addrs r) (n_of r) (ab_addrs d) 0 (n_of d)) (\<lambda>xs.
     bind_res (cint (ab_n_addrs r + ab_n_addrs d)) (\<lambda>n.
     buf_modify ret (\<lambda>r. r\<lparr>ab_addrs := xs, ab_n_addrs := n\<rparr>) st))))"

fun append_list :: "nat \<Rightarrow> size_t \<Rightarrow> size_t \<Rightarrow> buffer_state \<Rightarrow> buffer_state res" where
  "append_list 0 ret data_list st = Inl No_return"
| "append_list (Suc k) ret data_list st =
     (if data_list = 0 then Inr st
      else
        bind_res (append_addrs ret data_list st) (\<lambda>st.
        bind_res (ld (bf_store st) data_list) (\<lambda>d.
        append_list k ret (ab_next d) st)))"

text \<open>The buffer the addresses are gathered in: the old one when it has room, or a new one.\<close>

definition take_over :: "size_t \<Rightarrow> size_t \<Rightarrow> buffer_state \<Rightarrow> (size_t \<times> buffer_state) res" where
  "take_over ret old st =
     bind_res (buf_modify ret (\<lambda>b. b\<lparr>ab_next := 0\<rparr>) st) (\<lambda>st.
     if old \<noteq> 0
     then
       bind_res (ld (bf_store st) ret) (\<lambda>r.
       bind_res (ld (bf_store st) old) (\<lambda>o'.
       bind_res (memcpy (ab_addrs r) 0 (ab_addrs o') 0 (n_of o')) (\<lambda>xs.
       bind_res (buf_modify ret (\<lambda>r. r\<lparr>ab_addrs := xs, ab_n_addrs := ab_n_addrs o'\<rparr>) st) (\<lambda>st.
       bind_res (forkscan_release_buffer old st) (\<lambda>st.
       Inr (ret, st))))))
     else Inr (ret, st))"

definition gather_buffer :: "os_t \<Rightarrow> size_t \<Rightarrow> size_t \<Rightarrow> size_t \<Rightarrow> buffer_state \<Rightarrow> (size_t \<times> buffer_state) res" where
  "gather_buffer os old data_list n_addrs st =
     bind_res (if old \<noteq> 0 then bind_res (ld (bf_store st) old) (\<lambda>o'. Inr (word_of_int (ab_capacity o') > n_addrs)) else Inr False) (\<lambda>fits.
     if fits then Inr (old, st)
     else
       bind_res (ld (bf_store st) data_list) (\<lambda>d.
       bind_res (forkscan_make_aggregate_buffer os
         (int_of_size (if n_addrs > word_of_int (ab_capacity d) then n_addrs else word_of_int (ab_capacity d))) st) (\<lambda>(ret, st).
       take_over ret old st)))"

definition aggregate_addrs :: "os_t \<Rightarrow> size_t \<Rightarrow> size_t \<Rightarrow> buffer_state \<Rightarrow> (size_t \<times> int \<times> buffer_state) res" where
  "aggregate_addrs os old data_list st =
     bind_res (if old \<noteq> 0 then bind_res (ld (bf_store st) old) (\<lambda>o'. Inr (word_of_int (ab_n_addrs o'))) else Inr 0) (\<lambda>n0.
     bind_res (sum_addrs (Suc (length (bf_store st))) (bf_store st) data_list n0 0) (\<lambda>(n_addrs, list_count).
     bind_res (cint (list_count * 8)) (\<lambda>frees.
     bind_res (gather_buffer os old data_list n_addrs st) (\<lambda>(ret, st).
     bind_res (append_list (Suc (length (bf_store st))) ret data_list st) (\<lambda>st.
     Inr (ret, MAX_OF frees 8, st))))))"

text \<open>The child's work before the scan: sort the addresses, make the minimap, sort the dead references.\<close>

definition child_prepare :: "size_t \<Rightarrow> size_t \<Rightarrow> buffer_state \<Rightarrow> buffer_state res" where
  "child_prepare working_data deadrefs st =
     bind_res (ld (bf_store st) working_data) (\<lambda>w.
     bind_res (forkscan_util_sort (ab_addrs w) (ab_n_addrs w)) (\<lambda>xs.
     bind_res (generate_minimap (w\<lparr>ab_addrs := xs\<rparr>)) (\<lambda>w.
     bind_res (buf_modify working_data (\<lambda>_. w) st) (\<lambda>st.
     bind_res (ld (bf_store st) deadrefs) (\<lambda>d.
     if ab_n_addrs d > 1
     then bind_res (forkscan_util_sort (ab_addrs d) (ab_n_addrs d)) (\<lambda>ys.
          buf_modify deadrefs (\<lambda>d. d\<lparr>ab_addrs := ys\<rparr>) st)
     else Inr st)))))"

fun release_list :: "nat \<Rightarrow> size_t \<Rightarrow> buffer_state \<Rightarrow> buffer_state res" where
  "release_list 0 ab st = Inl No_return"
| "release_list (Suc k) ab st =
     (if ab = 0 then Inr st
      else
        bind_res (ld (bf_store st) ab) (\<lambda>b.
        bind_res (forkscan_release_buffer ab st) (\<lambda>st.
        release_list k (ab_next b) st)))"

text \<open>The loop over the scanned buffer that keeps the addresses still referenced.\<close>

definition keep_marked :: "size_t \<Rightarrow> size_t \<Rightarrow> nat \<Rightarrow> buffer_state \<Rightarrow> buffer_state res" where
  "keep_marked working_data uncollected i st =
     bind_res (ld (bf_store st) working_data) (\<lambda>w.
     bind_res (rd (ab_addrs w) (int i)) (\<lambda>x.
     if x AND 1 = 0 then Inr st
     else
       bind_res (ld (bf_store st) uncollected) (\<lambda>u.
       bind_res (wr (ab_addrs u) (ab_n_addrs u) (PTR_MASK x)) (\<lambda>xs.
       bind_res (cint (ab_n_addrs u + 1)) (\<lambda>n.
       buf_modify uncollected (\<lambda>u. u\<lparr>ab_addrs := xs, ab_n_addrs := n\<rparr>) st)))))"

record gc_state =
  gc_buf :: buffer_state
  g_addr_buffer :: size_t
  g_uncollected_data :: size_t
  g_waiting_collects :: int
  g_frees_required :: int
  g_cleanup_counter :: size_t
  g_scan_max :: size_t

text \<open>
  What the system does for one collection: whether the pipe and the child were made, and the
  scan: the buffer and the dead references go in, the buffer with its marks and what is read from
  the pipe come out, the number of bytes scanned or nothing.
\<close>

record gc_env =
  ge_pipe :: bool
  ge_fork :: bool
  ge_scan :: "addr_buffer_t \<Rightarrow> addr_buffer_t \<Rightarrow> addr_buffer_t \<times> size_t option"

text \<open>The part of a collection in the parent after the child has reported.\<close>

definition publish_and_keep :: "os_t \<Rightarrow> size_t \<Rightarrow> buffer_state \<Rightarrow> (size_t \<times> buffer_state) res" where
  "publish_and_keep os working_data st =
     bind_res (forkscan_buffer_push_back working_data st) (\<lambda>st.
     bind_res (ld (bf_store st) working_data) (\<lambda>w.
     bind_res (forkscan_make_aggregate_buffer os (ab_capacity w) st) (\<lambda>(unc, st).
     bind_res (for_res (keep_marked working_data unc) [0..<n_of w] st) (\<lambda>st.
     bind_res (forkscan_buffer_unref_buffer working_data st) (\<lambda>st.
     Inr (unc, st))))))"

definition reclaim_iteration :: "os_t \<Rightarrow> gc_env \<Rightarrow> size_t \<Rightarrow> gc_state \<Rightarrow> gc_state res" where
  "reclaim_iteration os env ab g =
     bind_res (aggregate_addrs os (g_uncollected_data g) ab (gc_buf g)) (\<lambda>(working_data, frees, st).
     let g = g\<lparr>g_uncollected_data := 0, g_frees_required := frees\<rparr> in
     if \<not> ge_pipe env then Inl (Fatal ''GC thread was unable to open a pipe.'')
     else
       bind_res (forkscan_buffer_get_dead_references os st) (\<lambda>(deadrefs, st).
       if \<not> ge_fork env then Inl (Fatal ''Collection failed (fork).'')
       else
         bind_res (child_prepare working_data deadrefs st) (\<lambda>st.
         let g = g\<lparr>g_cleanup_counter := g_cleanup_counter g + 1\<rparr> in
         bind_res (release_list (Suc (length (bf_store st))) ab st) (\<lambda>st.
         bind_res (ld (bf_store st) working_data) (\<lambda>w.
         bind_res (ld (bf_store st) deadrefs) (\<lambda>d.
         case ge_scan env w d of
           (w', None) \<Rightarrow> Inl (Fatal ''Failed to read from child.'')
         | (w', Some bytes_scanned) \<Rightarrow>
             bind_res (buf_modify working_data (\<lambda>_. w') st) (\<lambda>st.
             let g = g\<lparr>g_scan_max := (if bytes_scanned > g_scan_max g then bytes_scanned else g_scan_max g)\<rparr> in
             bind_res (publish_and_keep os working_data st) (\<lambda>(unc, st).
             Inr (g\<lparr>gc_buf := st, g_uncollected_data := unc\<rparr>)))))))))"

section \<open>Buffers in the collector's hands\<close>

lemma update_same: "map_of s k = Some v \<Longrightarrow> AList.update k v s = s"
  by (induction s) auto

text \<open>Buffers that are on none of the lists.\<close>

definition in_hand :: "buffer_state \<Rightarrow> size_t list \<Rightarrow> size_t list \<Rightarrow> size_t list \<Rightarrow> size_t \<Rightarrow> bool" where
  "in_hand st rs ts as a \<longleftrightarrow> a \<notin> set (rs @ ts @ as) \<and> a \<noteq> g_deadrefs st \<and> map_of (bf_store st) a \<noteq> None"

definition contents :: "addr_buffer_t store \<Rightarrow> size_t \<Rightarrow> size_t list" where
  "contents s a = addrs_of (the (map_of s a))"

lemma length_addrs_of: "buffer_wf b \<Longrightarrow> length (addrs_of b) = n_of b" "buffer_wf b \<Longrightarrow> ab_n_addrs b = int (n_of b)"
  by (auto simp: addrs_of_def buffer_wf_def n_of_def)

text \<open>A buffer that has received more addresses is otherwise the same.\<close>

definition grown :: "addr_buffer_t \<Rightarrow> addr_buffer_t \<Rightarrow> bool" where
  "grown r r' \<longleftrightarrow> r' = r\<lparr>ab_addrs := ab_addrs r', ab_n_addrs := ab_n_addrs r'\<rparr> \<and> length (ab_addrs r') = length (ab_addrs r) \<and>
     0 \<le> ab_n_addrs r' \<and> ab_n_addrs r' \<le> ab_capacity r"

lemma grown_fields:
  assumes "grown r r'"
  shows "ab_capacity r' = ab_capacity r" "ab_is_aggregate r' = ab_is_aggregate r" "ab_next r' = ab_next r"
    "ab_minimap r' = ab_minimap r" "buffer_wf r \<Longrightarrow> buffer_wf r'"
proof -
  obtain xs n where r': "r' = r\<lparr>ab_addrs := xs, ab_n_addrs := n\<rparr>" using assms unfolding grown_def by blast
  then show "ab_capacity r' = ab_capacity r" "ab_is_aggregate r' = ab_is_aggregate r" "ab_next r' = ab_next r"
    "ab_minimap r' = ab_minimap r" by simp_all
  show "buffer_wf r'" if "buffer_wf r" using that assms r' by (auto simp: grown_def buffer_wf_def)
qed

lemma grown_trans: "grown a b \<Longrightarrow> grown b c \<Longrightarrow> grown a c"
proof -
  assume ab: "grown a b" and bc: "grown b c"
  obtain xs n ys m where "b = a\<lparr>ab_addrs := xs, ab_n_addrs := n\<rparr>" "c = b\<lparr>ab_addrs := ys, ab_n_addrs := m\<rparr>"
    using ab bc unfolding grown_def by blast
  then show "grown a c" using ab bc by (simp add: grown_def)
qed

lemma grown_refl: "buffer_wf r \<Longrightarrow> grown r r"
  by (simp add: grown_def buffer_wf_def)

lemma append_addrs_ok:
  assumes r: "ret \<noteq> 0" "map_of (bf_store st) ret = Some r" "buffer_wf r"
    and d: "ab \<noteq> 0" "map_of (bf_store st) ab = Some d" "buffer_wf d" and fit: "n_of r + n_of d \<le> nat (ab_capacity r)"
  shows "\<exists>r'. append_addrs ret ab st = Inr (st\<lparr>bf_store := AList.update ret r' (bf_store st)\<rparr>) \<and>
    addrs_of r' = addrs_of r @ addrs_of d \<and> grown r r'"
proof -
  have len: "n_of r + n_of d \<le> length (ab_addrs r)" "n_of d \<le> length (ab_addrs d)" "ab_n_addrs r = int (n_of r)"
    "ab_n_addrs d = int (n_of d)" "n_of r + n_of d \<le> 2 ^ 30"
    using r(3) d(3) fit by (auto simp: buffer_wf_def n_of_def)
  let ?xs = "take (n_of r) (ab_addrs r) @ take (n_of d) (ab_addrs d) @ drop (n_of r + n_of d) (ab_addrs r)"
  let ?r = "r\<lparr>ab_addrs := ?xs, ab_n_addrs := int (n_of r + n_of d)\<rparr>"
  have "memcpy (ab_addrs r) (n_of r) (ab_addrs d) 0 (n_of d) = Inr ?xs" using len by (simp add: memcpy_def)
  moreover have "cint (ab_n_addrs r + ab_n_addrs d) = Inr (int (n_of r + n_of d))" using len by (simp add: cint_def)
  ultimately have "append_addrs ret ab st = Inr (st\<lparr>bf_store := AList.update ret ?r (bf_store st)\<rparr>)"
    using r d by (simp add: append_addrs_def buf_modify_def)
  moreover have "n_of ?r = n_of r + n_of d" unfolding n_of_def [of ?r] by simp
  then have "addrs_of ?r = addrs_of r @ addrs_of d" unfolding addrs_of_def using len(1,2) by simp
  moreover have "int (n_of r + n_of d) \<le> ab_capacity r"
    using fit r(3) unfolding buffer_wf_def by (metis int_nat_eq of_nat_mono order_trans)
  then have "grown r ?r" using len(1,2) by (simp add: grown_def)
  ultimately show ?thesis by blast
qed

lemma append_list_ok:
  assumes "path ab_next (bf_store st) ab ds 0" "ret \<notin> set ds" "ret \<noteq> 0" "map_of (bf_store st) ret = Some r" "buffer_wf r"
    and "\<forall>d\<in>set ds. buffer_wf (the (map_of (bf_store st) d))"
    and "n_of r + length (concat (map (contents (bf_store st)) ds)) \<le> nat (ab_capacity r)" "length ds < k"
  shows "\<exists>r'. append_list k ret ab st = Inr (st\<lparr>bf_store := AList.update ret r' (bf_store st)\<rparr>) \<and>
    addrs_of r' = addrs_of r @ concat (map (contents (bf_store st)) ds) \<and> grown r r'"
  using assms
proof (induction ds arbitrary: ab st r k)
  case Nil
  have "st\<lparr>bf_store := AList.update ret r (bf_store st)\<rparr> = st" using Nil.prems(4) by (simp add: update_same)
  then show ?case using Nil.prems grown_refl [of r] by (cases k) (auto intro: exI [of _ r])
next
  case (Cons d ds)
  let ?s = "bf_store st"
  obtain b k' where b: "ab = d" "d \<noteq> 0" "map_of ?s d = Some b" "path ab_next ?s (ab_next b) ds 0" "k = Suc k'" "length ds < k'"
    using Cons.prems(1,8) by (cases k) (auto split: option.splits)
  have wf: "buffer_wf b" using Cons.prems(6) b(3) by simp
  have c: "contents ?s d = addrs_of b" "length (addrs_of b) = n_of b" using b(3) length_addrs_of(1) [OF wf] by (simp_all add: contents_def)
  have "n_of r + n_of b \<le> nat (ab_capacity r)" using Cons.prems(7) c by simp
  from append_addrs_ok [OF Cons.prems(3-5) b(2,3) wf this] obtain r1 where
    r1: "append_addrs ret d st = Inr (st\<lparr>bf_store := AList.update ret r1 ?s\<rparr>)" "addrs_of r1 = addrs_of r @ addrs_of b" "grown r r1"
    by blast
  let ?st = "st\<lparr>bf_store := AList.update ret r1 ?s\<rparr>"
  note g = grown_fields [OF r1(3)]
  have same: "contents (bf_store ?st) x = contents ?s x" "map_of (bf_store ?st) x = map_of ?s x" if "x \<noteq> ret" for x
    using that by (simp_all add: contents_def)
  have cs: "map (contents (bf_store ?st)) ds = map (contents ?s) ds" using Cons.prems(2) by (intro map_cong) (auto simp: contents_def)
  have n1: "n_of r1 = n_of r + n_of b"
    using length_addrs_of(1) [OF g(5) [OF Cons.prems(5)]] length_addrs_of(1) [OF Cons.prems(5)] c(2) r1(2) by simp
  have "\<exists>r'. append_list k' ret (ab_next b) ?st = Inr (?st\<lparr>bf_store := AList.update ret r' (bf_store ?st)\<rparr>) \<and>
      addrs_of r' = addrs_of r1 @ concat (map (contents (bf_store ?st)) ds) \<and> grown r1 r'"
  proof (rule Cons.IH)
    show "path ab_next (bf_store ?st) (ab_next b) ds 0" using b(4) Cons.prems(2) by simp
    show "\<forall>d\<in>set ds. buffer_wf (the (map_of (bf_store ?st) d))" using same(2) Cons.prems(2,6) by auto
    show "n_of r1 + length (concat (map (contents (bf_store ?st)) ds)) \<le> nat (ab_capacity r1)"
      unfolding cs n1 g(1) using Cons.prems(7) c by simp
  qed (use Cons.prems(2,3) g(5) [OF Cons.prems(5)] b(6) in auto)
  then obtain r' where r': "append_list k' ret (ab_next b) ?st = Inr (?st\<lparr>bf_store := AList.update ret r' (bf_store ?st)\<rparr>)"
    "addrs_of r' = addrs_of r1 @ concat (map (contents ?s) ds)" "grown r1 r'" unfolding cs by blast
  have "ret \<noteq> d" using Cons.prems(2) by auto
  then have "append_list k ret ab st = Inr (st\<lparr>bf_store := AList.update ret r' ?s\<rparr>)" using b r1(1) r'(1) by simp
  then show ?case using r'(2) r1(2) c(1) grown_trans [OF r1(3) r'(3)] by auto
qed

lemma sum_addrs_ok:
  assumes "path ab_next s ab ds 0" "ds \<noteq> []" "\<forall>d\<in>set ds. buffer_wf (the (map_of s d))" "length ds \<le> k"
    and "0 \<le> c" "c + int (length ds) < 2 ^ 31"
  shows "sum_addrs k s ab n c = Inr (n + of_nat (length (concat (map (contents s) ds))), c + int (length ds))"
  using assms
proof (induction ds arbitrary: ab n c k)
  case (Cons d ds)
  obtain b k' where b: "ab = d" "d \<noteq> 0" "map_of s d = Some b" "path ab_next s (ab_next b) ds 0" "k = Suc k'" "length ds \<le> k'"
    using Cons.prems(1,4) by (cases k) (auto split: option.splits)
  have wf: "buffer_wf b" using Cons.prems(3) b(3) by simp
  have len: "word_of_int (ab_n_addrs b) = (of_nat (length (contents s d)) :: size_t)"
    using length_addrs_of [OF wf] b(3) by (simp add: contents_def)
  have c: "cint (c + 1) = Inr (c + 1)" using Cons.prems(5,6) by (simp add: cint_def)
  show ?case
  proof (cases "ds = []")
    case True
    then show ?thesis using b c len by simp
  next
    case False
    then have "ab_next b \<noteq> 0" using path_head [OF b(4)] by simp
    moreover have "sum_addrs k' s (ab_next b) (n + word_of_int (ab_n_addrs b)) (c + 1) =
        Inr (n + word_of_int (ab_n_addrs b) + of_nat (length (concat (map (contents s) ds))), c + 1 + int (length ds))"
      using Cons.IH [OF b(4) False, of k' "c + 1"] Cons.prems(3,5,6) b(6) by simp
    ultimately show ?thesis using b(1-3,5) c len by (simp add: algebra_simps)
  qed
qed simp

text \<open>
  \<open>ret\<close> is an aggregate buffer in the collector's hands that holds \<open>xs\<close> and has room for \<open>n\<close>
  addresses; the buffers \<open>ds\<close> and the retirees are as before.
\<close>

definition gathered ::
    "buffer_state \<Rightarrow> size_t list \<Rightarrow> size_t list \<Rightarrow> size_t list \<Rightarrow> nat \<Rightarrow> size_t \<Rightarrow> buffer_state \<Rightarrow> bool" where
  "gathered st ts ds xs n ret st' \<longleftrightarrow> (\<exists>rs' as' r. buffer_inv st' rs' ts as' \<and> in_hand st' rs' ts as' ret \<and>
     map_of (bf_store st') ret = Some r \<and> ab_is_aggregate r \<and> addrs_of r = xs \<and> int n \<le> ab_capacity r \<and>
     g_deadrefs st' = g_deadrefs st \<and> g_default_capacity st' = g_default_capacity st \<and>
     ret \<notin> set ds \<and> (\<forall>d\<in>set ds. map_of (bf_store st') d = map_of (bf_store st) d \<and> in_hand st' rs' ts as' d) \<and>
     (\<forall>a\<in>insert (g_deadrefs st) (set ts). map_of (bf_store st) a \<noteq> None \<longrightarrow> map_of (bf_store st') a = map_of (bf_store st) a))"

lemma release_in_hand:
  assumes inv: "buffer_inv st rs ts as" and h: "in_hand st rs ts as a"
  obtains st' rs' as' b n where "forkscan_release_buffer a st = Inr st'" "buffer_inv st' rs' ts as'"
    "map_of (bf_store st) a = Some b" "bf_store st' = AList.update a (b\<lparr>ab_next := n\<rparr>) (bf_store st)"
    "g_deadrefs st' = g_deadrefs st" "set (rs' @ ts @ as') = insert a (set (rs @ ts @ as))"
    "\<And>x. x \<noteq> a \<Longrightarrow> in_hand st rs ts as x \<Longrightarrow> in_hand st' rs' ts as' x" "g_default_capacity st' = g_default_capacity st"
proof -
  obtain b where b: "map_of (bf_store st) a = Some b" using h by (auto simp: in_hand_def)
  obtain st' rs' as' n where r: "forkscan_release_buffer a st = Inr st'" "buffer_inv st' rs' ts as'" "pooled b a rs as rs' as'"
    "bf_store st' = AList.update a (b\<lparr>ab_next := n\<rparr>) (bf_store st)" "g_deadrefs st' = g_deadrefs st"
    using release_ok [OF inv b] h by (auto simp: in_hand_def)
  have s: "set (rs' @ ts @ as') = insert a (set (rs @ ts @ as))" using r(3) by (auto simp: pooled_def split: if_splits)
  have "a \<noteq> 0" using inv b by (auto simp: buffer_inv_def objects_inv_def)
  then have "g_default_capacity st' = g_default_capacity st"
    using r(1) b by (auto simp: forkscan_release_buffer_def buf_modify_def split: if_splits)
  with s r b show thesis by (intro that [of st' rs' as' b n]) (auto simp: in_hand_def)
qed

lemma drop_small_default: "drop_small k os c ab st = Inr (p, st') \<Longrightarrow> g_default_capacity st' = g_default_capacity st"
  by (induction k arbitrary: ab st) (auto simp: bind_res_eq_Inr split: if_splits)

lemma make_aggregate_default:
  "forkscan_make_aggregate_buffer os req st = Inr (p, st') \<Longrightarrow> g_default_capacity st' = g_default_capacity st"
  by (auto simp: forkscan_make_aggregate_buffer_def new_aggregate_def buf_modify_def Let_def bind_res_eq_Inr
      split: if_splits dest: drop_small_default)

text \<open>A new aggregate buffer comes into the collector's hands; buffers in use are as before.\<close>

definition handed :: "buffer_state \<Rightarrow> size_t list \<Rightarrow> size_t list \<Rightarrow> size_t list \<Rightarrow> int \<Rightarrow> size_t \<times> buffer_state \<Rightarrow> bool" where
  "handed st rs ts as req = (\<lambda>(ret, st'). \<exists>as' r. set as' \<subseteq> set as \<and> buffer_inv st' rs ts as' \<and> in_hand st' rs ts as' ret \<and>
     map_of (bf_store st') ret = Some r \<and> ab_is_aggregate r \<and> addrs_of r = [] \<and> req \<le> ab_capacity r \<and>
     g_deadrefs st' = g_deadrefs st \<and> g_default_capacity st' = g_default_capacity st \<and>
     (\<forall>a. a \<notin> set as \<longrightarrow> map_of (bf_store st) a \<noteq> None \<longrightarrow> a \<noteq> ret \<and> map_of (bf_store st') a = map_of (bf_store st) a))"

lemma make_aggregate_handed:
  assumes os: "mmap_fresh os" "munmap_works os" and inv: "buffer_inv st rs ts as" and req: "0 \<le> req" "req \<le> 2 ^ 30"
  shows "or_fatal (forkscan_make_aggregate_buffer os req st) (handed st rs ts as req)"
proof -
  obtain as' where as': "set as' \<subseteq> set as" "or_fatal (forkscan_make_aggregate_buffer os req st)
      (\<lambda>r. made st as r rs ts as' (\<lambda>b. ab_is_aggregate b \<and> req \<le> ab_capacity b))"
    using make_aggregate_ok [OF os inv req] by blast
  have "handed st rs ts as req (ret, st')" if run: "forkscan_make_aggregate_buffer os req st = Inr (ret, st')" for ret st'
  proof -
    have m: "buffer_inv st' rs ts as'" "ret \<notin> set (rs @ ts @ as')" "ret \<noteq> g_deadrefs st'" "g_deadrefs st' = g_deadrefs st"
      "ret \<in> set as \<or> map_of (bf_store st) ret = None"
      "\<And>a. a \<notin> set (ret # as) \<Longrightarrow> map_of (bf_store st') a = map_of (bf_store st) a"
      using as'(2) run by (auto simp: or_fatal_def made_def)
    obtain r where r: "map_of (bf_store st') ret = Some r" "ab_n_addrs r = 0" "ab_is_aggregate r" "req \<le> ab_capacity r"
      using as'(2) run by (auto simp: or_fatal_def made_def)
    have "addrs_of r = []" using r(2) by (simp add: addrs_of_def n_of_def)
    moreover have "\<forall>a. a \<notin> set as \<longrightarrow> map_of (bf_store st) a \<noteq> None \<longrightarrow> a \<noteq> ret \<and> map_of (bf_store st') a = map_of (bf_store st) a"
    proof (intro allI impI)
      fix a assume "a \<notin> set as" "map_of (bf_store st) a \<noteq> None"
      moreover from this have "a \<noteq> ret" using m(5) by auto
      ultimately show "a \<noteq> ret \<and> map_of (bf_store st') a = map_of (bf_store st) a" using m(6) [of a] by simp
    qed
    moreover have "in_hand st' rs ts as' ret" using m(2,3) r(1) by (simp add: in_hand_def)
    ultimately show ?thesis unfolding handed_def using as'(1) m(1,4) r make_aggregate_default [OF run] by blast
  qed
  then show ?thesis using as'(2) by (auto simp: or_fatal_def)
qed

lemma in_hand_mono:
  assumes "in_hand st rs ts as x" "set as' \<subseteq> set as" "g_deadrefs st' = g_deadrefs st"
    and "map_of (bf_store st') x = map_of (bf_store st) x"
  shows "in_hand st' rs ts as' x"
  using assms by (auto simp: in_hand_def)

text \<open>What a collection starts from: the buffers of a list, and what an earlier one has left.\<close>

definition batch :: "buffer_state \<Rightarrow> size_t list \<Rightarrow> size_t list \<Rightarrow> size_t list \<Rightarrow> size_t \<Rightarrow> size_t list \<Rightarrow> bool" where
  "batch st rs ts as old ds \<longleftrightarrow> buffer_inv st rs ts as \<and> distinct ds \<and> ds \<noteq> [] \<and> (\<forall>d\<in>set ds. in_hand st rs ts as d) \<and>
     (old \<noteq> 0 \<longrightarrow> in_hand st rs ts as old \<and> old \<notin> set ds \<and> ab_is_aggregate (the (map_of (bf_store st) old)))"

definition left_over :: "addr_buffer_t store \<Rightarrow> size_t \<Rightarrow> size_t list" where
  "left_over s old = (if old = 0 then [] else contents s old)"

lemma batch_live:
  assumes "batch st rs ts as old ds" "d \<in> set ds \<or> d = old \<and> old \<noteq> 0"
  obtains b where "d \<noteq> 0" "map_of (bf_store st) d = Some b" "buffer_wf b" "d \<notin> set as" "in_hand st rs ts as d"
proof -
  have h: "in_hand st rs ts as d" "buffer_inv st rs ts as" using assms by (auto simp: batch_def)
  then obtain b where b: "map_of (bf_store st) d = Some b" by (auto simp: in_hand_def)
  show thesis using that [of b] b h object_wf [OF h(2) b] by (auto simp: in_hand_def buffer_inv_def objects_inv_def)
qed

lemma batch_kept:
  assumes "batch st rs ts as old ds" "\<forall>a. a \<notin> set as \<longrightarrow> map_of (bf_store st) a \<noteq> None \<longrightarrow> map_of (bf_store st') a = map_of (bf_store st) a"
  shows "\<forall>a\<in>insert (g_deadrefs st) (set ts). map_of (bf_store st) a \<noteq> None \<longrightarrow> map_of (bf_store st') a = map_of (bf_store st) a"
  using assms by (auto simp: batch_def buffer_inv_def lists_inv_def)

lemma word_gt_small:
  "0 \<le> c \<Longrightarrow> c \<le> 2 ^ 30 \<Longrightarrow> n \<le> 2 ^ 30 \<Longrightarrow> (word_of_int c > (of_nat n :: size_t)) = (int n < c)"
proof -
  assume a: "0 \<le> c" "c \<le> 2 ^ 30" "n \<le> 2 ^ 30"
  have "uint (word_of_int c :: size_t) = c" "uint (of_nat n :: size_t) = int n"
    using uint_small [of c] uint_small [of "int n"] a by simp_all
  then show ?thesis by (simp add: word_less_def)
qed

lemma int_of_size_nat: "n \<le> 2 ^ 30 \<Longrightarrow> int_of_size (of_nat n) = int n"
  using int_of_size_small [of "int n"] by simp

lemma take_over_ok:
  assumes inv: "buffer_inv st rs ts as" and h: "in_hand st rs ts as ret" and r: "map_of (bf_store st) ret = Some r" "ab_is_aggregate r"
    and e: "addrs_of r = []" and old: "old \<noteq> 0 \<Longrightarrow> in_hand st rs ts as old \<and> old \<noteq> ret"
    and fit: "length (left_over (bf_store st) old) \<le> nat (ab_capacity r)"
  obtains st' rs' as' r' where "take_over ret old st = Inr (ret, st')" "buffer_inv st' rs' ts as'" "in_hand st' rs' ts as' ret"
    "map_of (bf_store st') ret = Some r'" "ab_is_aggregate r'" "addrs_of r' = left_over (bf_store st) old" "ab_capacity r' = ab_capacity r"
    "g_deadrefs st' = g_deadrefs st" "g_default_capacity st' = g_default_capacity st"
    "\<And>a. a \<noteq> ret \<Longrightarrow> a \<noteq> old \<Longrightarrow> map_of (bf_store st') a = map_of (bf_store st) a"
    "\<And>x. x \<noteq> old \<Longrightarrow> in_hand st rs ts as x \<Longrightarrow> in_hand st' rs' ts as' x"
proof -
  let ?r = "r\<lparr>ab_next := 0\<rparr>"
  let ?st = "st\<lparr>bf_store := AList.update ret ?r (bf_store st)\<rparr>"
  have nz: "ret \<noteq> 0" "buffer_wf r" using inv r(1) object_wf [OF inv r(1)] by (auto simp: buffer_inv_def objects_inv_def)
  have out: "ret \<notin> set (rs @ ts @ as)" using h by (simp add: in_hand_def)
  have wf: "buffer_wf ?r" using nz(2) by (simp add: buffer_wf_def)
  have inv1: "buffer_inv ?st rs ts as" by (rule buffer_modify [OF inv r(1) wf]) (use out in simp_all)
  have m: "buf_modify ret (\<lambda>b. b\<lparr>ab_next := 0\<rparr>) st = Inr ?st" using nz(1) r(1) by (simp add: buf_modify_def)
  have keep: "in_hand ?st rs ts as x" if "in_hand st rs ts as x" for x using that by (auto simp: in_hand_def)
  have n0: "n_of r = 0" using e length_addrs_of(1) [OF nz(2)] by simp
  show thesis
  proof (cases "old = 0")
    case True
    have "take_over ret old st = Inr (ret, ?st)" using True m by (simp add: take_over_def)
    then show ?thesis using that [of ?st rs as ?r] inv1 keep h r(2) True e
      by (simp add: left_over_def addrs_of_def n_of_def)
  next
    case False
    then have o1: "in_hand st rs ts as old" "old \<noteq> ret" using old by auto
    then obtain b where b: "map_of (bf_store st) old = Some b" by (auto simp: in_hand_def)
    have bw: "buffer_wf b" by (rule object_wf [OF inv b])
    have lo: "left_over (bf_store st) old = addrs_of b" using False b by (simp add: left_over_def contents_def)
    let ?xs = "take (n_of b) (ab_addrs b) @ drop (n_of b) (ab_addrs r)"
    let ?r2 = "?r\<lparr>ab_addrs := ?xs, ab_n_addrs := ab_n_addrs b\<rparr>"
    let ?st2 = "?st\<lparr>bf_store := AList.update ret ?r2 (bf_store ?st)\<rparr>"
    have len: "n_of b \<le> length (ab_addrs b)" "n_of b \<le> nat (ab_capacity r)" "nat (ab_capacity r) \<le> length (ab_addrs r)"
      using bw nz(2) fit lo length_addrs_of(1) [OF bw] by (auto simp: buffer_wf_def n_of_def)
    have wf2: "buffer_wf ?r2" using nz(2) bw len by (auto simp: buffer_wf_def n_of_def)
    have "map_of (bf_store ?st) ret = Some ?r" by simp
    then have inv2: "buffer_inv ?st2 rs ts as"
      by (rule buffer_modify [OF inv1 _ wf2]) (use out in simp_all)
    have oh2: "in_hand ?st2 rs ts as old" using o1 by (simp add: in_hand_def)
    obtain st3 rs' as' b' n where
      st3': "forkscan_release_buffer old ?st2 = Inr st3" "buffer_inv st3 rs' ts as'" "map_of (bf_store ?st2) old = Some b'"
        "bf_store st3 = AList.update old (b'\<lparr>ab_next := n\<rparr>) (bf_store ?st2)" "g_deadrefs st3 = g_deadrefs ?st2"
        "set (rs' @ ts @ as') = insert old (set (rs @ ts @ as))"
        "\<And>x. x \<noteq> old \<Longrightarrow> in_hand ?st2 rs ts as x \<Longrightarrow> in_hand st3 rs' ts as' x" "g_default_capacity st3 = g_default_capacity ?st2"
      by (rule release_in_hand [OF inv2 oh2]) (rule that)
    note st3 = st3'(1,2,4,5,8,7)
    have nb: "old \<noteq> 0" using False .
    have cp: "memcpy (ab_addrs r) 0 (ab_addrs b) 0 (n_of b) = Inr ?xs" using len by (simp add: memcpy_def)
    have run: "take_over ret old st = Inr (ret, st3)"
      using m nz(1) nb b o1(2) cp st3(1) by (simp add: take_over_def buf_modify_def)
    have h2: "in_hand ?st2 rs ts as x" if "in_hand st rs ts as x" for x using that by (auto simp: in_hand_def)
    have ar: "addrs_of ?r2 = addrs_of b" using len(1) by (simp add: addrs_of_def n_of_def)
    show ?thesis
    proof (rule that [OF run st3(2)])
      show "in_hand st3 rs' ts as' ret" by (rule st3(6) [OF o1(2) [symmetric] h2 [OF h]])
      show "map_of (bf_store st3) ret = Some ?r2" using st3(3) o1(2) by simp
      show "in_hand st3 rs' ts as' x" if "x \<noteq> old" "in_hand st rs ts as x" for x by (rule st3(6) [OF that(1) h2 [OF that(2)]])
    qed (use st3(3-5) ar lo r(2) in simp_all)
  qed
qed

lemma gather_buffer_ok:
  assumes os: "mmap_fresh os" "munmap_works os" and bt: "batch st rs ts as old ds"
    and head: "data_list \<in> set ds" and n: "length (left_over (bf_store st) old) \<le> n" "n \<le> 2 ^ 30"
  shows "or_fatal (gather_buffer os old data_list (of_nat n) st)
    (\<lambda>(ret, st'). gathered st ts ds (left_over (bf_store st) old) n ret st')"
proof -
  let ?s = "bf_store st"
  have inv: "buffer_inv st rs ts as" using bt by (simp add: batch_def)
  obtain d where d: "data_list \<noteq> 0" "map_of ?s data_list = Some d" "buffer_wf d" using batch_live [OF bt] head by metis
  let ?fits = "old \<noteq> 0 \<and> int n < ab_capacity (the (map_of ?s old))"
  have fits: "(if old \<noteq> 0 then bind_res (ld ?s old) (\<lambda>o'. Inr (word_of_int (ab_capacity o') > (of_nat n :: size_t))) else Inr False) = Inr ?fits"
  proof (cases "old = 0")
    case False
    then obtain b where b: "map_of ?s old = Some b" "buffer_wf b" using batch_live [OF bt] by metis
    then show ?thesis using False word_gt_small [of "ab_capacity b" n] n(2) by (auto simp: buffer_wf_def)
  qed simp
  show ?thesis
  proof (cases ?fits)
    case True
    then obtain b where b: "map_of ?s old = Some b" "in_hand st rs ts as old" using batch_live [OF bt] by metis
    have "gathered st ts ds (left_over ?s old) n old st"
      unfolding gathered_def using bt True b inv
      by (intro exI [of _ rs] exI [of _ as] exI [of _ b]) (auto simp: batch_def left_over_def contents_def)
    moreover have "gather_buffer os old data_list (of_nat n) st = Inr (old, st)"
      unfolding gather_buffer_def fits using True by simp
    ultimately show ?thesis by simp
  next
    case False
    define req where "req = int_of_size (if of_nat n > (word_of_int (ab_capacity d) :: size_t) then of_nat n else word_of_int (ab_capacity d))"
    have cap: "0 \<le> ab_capacity d" "ab_capacity d \<le> 2 ^ 30" using d(3) by (auto simp: buffer_wf_def)
    have "int n \<le> req \<and> 0 \<le> req \<and> req \<le> 2 ^ 30"
    proof -
      have "uint (word_of_int (ab_capacity d) :: size_t) = ab_capacity d" "uint (of_nat n :: size_t) = int n"
        using uint_small [of "ab_capacity d"] uint_small [of "int n"] cap n(2) by simp_all
      then have "of_nat n > (word_of_int (ab_capacity d) :: size_t) \<longleftrightarrow> ab_capacity d < int n" by (simp add: word_less_def)
      then show ?thesis using int_of_size_nat [OF n(2)] int_of_size_small [of "ab_capacity d"] cap n(2) by (auto simp: req_def)
    qed
    then have req: "int n \<le> req" "0 \<le> req" "req \<le> 2 ^ 30" by simp_all
    have eq: "gather_buffer os old data_list (of_nat n) st = bind_res (forkscan_make_aggregate_buffer os req st) (\<lambda>(ret, st). take_over ret old st)"
      unfolding gather_buffer_def fits bind_res_Inr ld_ok [OF d(1,2)] req_def using False by (simp only: if_False)
    show ?thesis unfolding eq
    proof (rule or_fatal_bind [OF make_aggregate_handed [OF os inv req(2,3)]], clarify)
      fix ret st1 assume "handed st rs ts as req (ret, st1)"
      then obtain as' r where h: "set as' \<subseteq> set as" "buffer_inv st1 rs ts as'" "in_hand st1 rs ts as' ret"
        "map_of (bf_store st1) ret = Some r" "ab_is_aggregate r" "addrs_of r = []" "req \<le> ab_capacity r"
        "g_deadrefs st1 = g_deadrefs st" "g_default_capacity st1 = g_default_capacity st"
        "\<And>a. a \<notin> set as \<Longrightarrow> map_of ?s a \<noteq> None \<Longrightarrow> a \<noteq> ret \<and> map_of (bf_store st1) a = map_of ?s a"
        unfolding handed_def by blast
      have kept: "a \<noteq> ret" "map_of (bf_store st1) a = map_of ?s a" "in_hand st1 rs ts as' a" if "in_hand st rs ts as a" for a
        using h(10) [of a] that in_hand_mono [OF that h(1,8)] by (auto simp: in_hand_def)
      have lo: "left_over (bf_store st1) old = left_over ?s old"
        using kept(2) [of old] bt by (auto simp: left_over_def contents_def batch_def)
      have oh: "in_hand st1 rs ts as' old \<and> old \<noteq> ret" if "old \<noteq> 0" using that kept [of old] bt by (auto simp: batch_def)
      have fit: "length (left_over (bf_store st1) old) \<le> nat (ab_capacity r)" unfolding lo using n(1) req(1) h(7) by linarith
      obtain st' rs' as'' r' where t: "take_over ret old st1 = Inr (ret, st')" "buffer_inv st' rs' ts as''"
        "in_hand st' rs' ts as'' ret" "map_of (bf_store st') ret = Some r'" "ab_is_aggregate r'" "addrs_of r' = left_over (bf_store st1) old"
        "ab_capacity r' = ab_capacity r" "g_deadrefs st' = g_deadrefs st1" "g_default_capacity st' = g_default_capacity st1"
        "\<And>a. a \<noteq> ret \<Longrightarrow> a \<noteq> old \<Longrightarrow> map_of (bf_store st') a = map_of (bf_store st1) a"
        "\<And>x. x \<noteq> old \<Longrightarrow> in_hand st1 rs ts as' x \<Longrightarrow> in_hand st' rs' ts as'' x"
        by (rule take_over_ok [OF h(2-6) oh fit]) (assumption, rule that)
      have ds: "d \<noteq> ret \<and> map_of (bf_store st') d = map_of ?s d \<and> in_hand st' rs' ts as'' d" if "d \<in> set ds" for d
      proof -
        have hd: "in_hand st rs ts as d" "d \<noteq> old \<or> old = 0" "d \<noteq> 0" using bt that batch_live [OF bt, of d] by (auto simp: batch_def)
        then have "d \<noteq> old" by auto
        then show ?thesis using kept [OF hd(1)] t(10) [of d] t(11) [of d] by simp
      qed
      have tsd: "map_of (bf_store st') a = map_of ?s a" if "a \<in> insert (g_deadrefs st) (set ts)" "map_of ?s a \<noteq> None" for a
      proof -
        have na: "a \<notin> set as" "a \<noteq> 0" using inv that by (auto simp: buffer_inv_def lists_inv_def objects_inv_def)
        have "a \<noteq> old" using na(2) that(1) bt by (auto simp: batch_def in_hand_def)
        then show ?thesis using h(10) [OF na(1) that(2)] t(10) [of a] by simp
      qed
      have "gathered st ts ds (left_over ?s old) n ret st'"
        unfolding gathered_def using t(2-9) h(7-9) req(1) ds tsd lo
        by (intro exI [of _ rs'] exI [of _ as''] exI [of _ r']) auto
      then show "or_fatal (take_over ret old st1) (\<lambda>(ret, st'). gathered st ts ds (left_over ?s old) n ret st')"
        using t(1) by simp
    qed
  qed
qed

lemma gathered_append:
  assumes g: "gathered st ts ds xs n ret st'" and pa: "path ab_next (bf_store st) data_list ds 0"
    and wf: "\<forall>d\<in>set ds. buffer_wf (the (map_of (bf_store st) d))"
    and n: "n = length xs + length (concat (map (contents (bf_store st)) ds))"
  shows "\<exists>st''. append_list (Suc (length (bf_store st'))) ret data_list st' = Inr st'' \<and>
    gathered st ts ds (xs @ concat (map (contents (bf_store st)) ds)) n ret st''"
proof -
  obtain rs' as' r where h: "buffer_inv st' rs' ts as'" "in_hand st' rs' ts as' ret" "map_of (bf_store st') ret = Some r"
    "ab_is_aggregate r" "addrs_of r = xs" "int n \<le> ab_capacity r" "g_deadrefs st' = g_deadrefs st"
    "g_default_capacity st' = g_default_capacity st" "ret \<notin> set ds"
    "\<And>d. d \<in> set ds \<Longrightarrow> map_of (bf_store st') d = map_of (bf_store st) d \<and> in_hand st' rs' ts as' d"
    "\<And>a. a \<in> insert (g_deadrefs st) (set ts) \<Longrightarrow> map_of (bf_store st) a \<noteq> None \<Longrightarrow> map_of (bf_store st') a = map_of (bf_store st) a"
    using g unfolding gathered_def by blast
  have pa': "path ab_next (bf_store st') data_list ds 0" by (rule path_cong [OF pa]) (use h(10) in simp)
  have rw: "ret \<noteq> 0" "buffer_wf r" using h(1,3) object_wf [OF h(1,3)] by (auto simp: buffer_inv_def objects_inv_def)
  have cs: "map (contents (bf_store st')) ds = map (contents (bf_store st)) ds"
    using h(10) by (intro map_cong) (auto simp: contents_def)
  have "n_of r + length (concat (map (contents (bf_store st')) ds)) \<le> nat (ab_capacity r)"
  proof -
    have "n_of r = length xs" using h(5) length_addrs_of(1) [OF rw(2)] by simp
    then show ?thesis unfolding cs using n h(6) by linarith
  qed
  moreover have "\<forall>d\<in>set ds. buffer_wf (the (map_of (bf_store st') d))" using wf h(10) by auto
  ultimately obtain r' where r': "append_list (Suc (length (bf_store st'))) ret data_list st' =
      Inr (st'\<lparr>bf_store := AList.update ret r' (bf_store st')\<rparr>)"
    "addrs_of r' = addrs_of r @ concat (map (contents (bf_store st)) ds)" "grown r r'"
    using append_list_ok [OF pa' h(9) rw(1) h(3) rw(2) _ _ chain_fuel [OF pa']] unfolding cs by blast
  let ?st = "st'\<lparr>bf_store := AList.update ret r' (bf_store st')\<rparr>"
  note gf = grown_fields [OF r'(3)]
  have "buffer_inv ?st rs' ts as'"
    by (rule buffer_modify [OF h(1,3) gf(5) [OF rw(2)]]) (use gf(2,3) in simp_all)
  moreover have "in_hand ?st rs' ts as' x" if "in_hand st' rs' ts as' x" for x using that by (auto simp: in_hand_def)
  moreover have "a \<noteq> ret" if "a \<in> insert (g_deadrefs st) (set ts)" for a
    using that h(2,7) by (auto simp: in_hand_def)
  ultimately have "gathered st ts ds (xs @ concat (map (contents (bf_store st)) ds)) n ret ?st"
    unfolding gathered_def using h(2,4-11) r'(2) gf(1,2)
    by (intro exI [of _ rs'] exI [of _ as'] exI [of _ r']) auto
  with r'(1) show ?thesis by blast
qed

lemma aggregate_addrs_ok:
  assumes os: "mmap_fresh os" "munmap_works os" and bt: "batch st rs ts as old ds"
    and pa: "path ab_next (bf_store st) data_list ds 0"
    and n: "length (left_over (bf_store st) old @ concat (map (contents (bf_store st)) ds)) \<le> 2 ^ 30" "length ds \<le> 2 ^ 27"
  shows "or_fatal (aggregate_addrs os old data_list st) (\<lambda>(ret, frees, st').
    gathered st ts ds (left_over (bf_store st) old @ concat (map (contents (bf_store st)) ds))
      (length (left_over (bf_store st) old @ concat (map (contents (bf_store st)) ds))) ret st')"
proof -
  let ?s = "bf_store st"
  let ?lo = "left_over ?s old" and ?new = "concat (map (contents ?s) ds)"
  have ne: "ds \<noteq> []" using bt by (simp add: batch_def)
  have wf: "\<forall>d\<in>set ds. buffer_wf (the (map_of ?s d))"
  proof
    fix d assume "d \<in> set ds"
    then show "buffer_wf (the (map_of ?s d))" using batch_live [OF bt, of d] by force
  qed
  have n0: "(if old \<noteq> 0 then bind_res (ld ?s old) (\<lambda>o'. Inr (word_of_int (ab_n_addrs o'))) else Inr 0) = Inr (of_nat (length ?lo) :: size_t)"
  proof (cases "old = 0")
    case False
    then obtain b where "map_of ?s old = Some b" "buffer_wf b" using batch_live [OF bt] by metis
    then show ?thesis using False length_addrs_of [of b] by (simp add: left_over_def contents_def)
  qed (simp add: left_over_def)
  have sum: "sum_addrs (Suc (length ?s)) ?s data_list (of_nat (length ?lo)) 0 = Inr (of_nat (length (?lo @ ?new)), int (length ds))"
    using sum_addrs_ok [OF pa ne wf, of "Suc (length ?s)" 0 "of_nat (length ?lo)"] chain_fuel [OF pa] n(2)
    by (simp del: sum_addrs.simps)
  have fr: "cint (int (length ds) * 8) = Inr (int (length ds) * 8)" using n(2) by (simp add: cint_def)
  have head: "data_list \<in> set ds" using path_first [OF pa ne] ne by simp
  show ?thesis unfolding aggregate_addrs_def n0 bind_res_Inr sum prod.case fr
  proof (rule or_fatal_bind [OF gather_buffer_ok [OF os bt head _ n(1)]], simp, clarify)
    fix ret st' assume "gathered st ts ds ?lo (length (?lo @ ?new)) ret st'"
    from gathered_append [OF this pa wf] show "or_fatal (bind_res (append_list (Suc (length (bf_store st'))) ret data_list st')
        (\<lambda>st. Inr (ret, MAX_OF (int (length ds) * 8) 8, st)))
      (\<lambda>(ret, frees, st'). gathered st ts ds (?lo @ ?new) (length (?lo @ ?new)) ret st')" by (auto simp del: append_list.simps)
  qed
qed

end
