(* ===== verification/Collection.thy ===== *)
theory Collection
  imports Reclaim
begin

text \<open>
  One collection from end to end: the child's preparation of the buffers, the publication of the
  scanned buffer and what is kept for the next collection, and the composition with the scan of
  the theory \<open>Child\<close>.
\<close>

section \<open>Preparing the buffers for the scan\<close>

lemma and_1_cases: "(v::size_t) AND 1 = 0 \<longleftrightarrow> even (unat v)"
  by (simp add: and_1_eq_0_iff)

lemma sorted_distinct_ascending:
  assumes "sorted (take n xs)" "distinct (take n xs)" "n \<le> length xs"
  shows "ascending xs 0 n"
proof (unfold ascending_def, intro allI impI)
  fix i j assume ij: "i < j" "j < n"
  then have "take n xs ! i \<le> take n xs ! j" "take n xs ! i \<noteq> take n xs ! j"
    using assms sorted_nth_mono [OF assms(1), of i j] nth_eq_iff_index_eq [OF assms(2), of i j] by simp_all
  then show "xs ! i < xs ! j" using ij by simp
qed

text \<open>Addresses of blocks, each once.\<close>

definition clean :: "size_t list \<Rightarrow> bool" where
  "clean xs \<longleftrightarrow> distinct xs \<and> (\<forall>x\<in>set xs. aligned x)"

lemma clean_perm: "clean xs \<Longrightarrow> mset ys = mset xs \<Longrightarrow> clean ys"
  unfolding clean_def by (metis mset_eq_setD mset_eq_imp_distinct_iff)

lemma sorted_buffer:
  assumes wf: "buffer_wf b"
  obtains xs where "forkscan_util_sort (ab_addrs b) (ab_n_addrs b) = Inr xs" "sorted (take (n_of b) xs)"
    "mset (take (n_of b) xs) = mset (addrs_of b)" "length xs = length (ab_addrs b)"
proof -
  have n: "n_of b \<le> length (ab_addrs b)" "n_of b \<le> 2 ^ 30" "ab_n_addrs b = int (n_of b)"
    using wf by (auto simp: buffer_wf_def n_of_def)
  obtain xs where xs: "forkscan_util_sort (ab_addrs b) (int (n_of b)) = Inr xs" "sorted (take (n_of b) xs)"
    "mset xs = mset (ab_addrs b)" "drop (n_of b) xs = drop (n_of b) (ab_addrs b)" "length xs = length (ab_addrs b)"
    by (rule util_sort_ok [OF n(1,2)])
  show thesis
    by (rule that [OF xs(1) [folded n(3)] xs(2) _ xs(5)]) (simp add: addrs_of_def mset_take_eq(1) [OF xs(3,4)])
qed

text \<open>The buffer of a collection after the child has sorted it and made the minimap.\<close>

lemma prepared_scannable:
  assumes wf: "buffer_wf w" and agg: "ab_is_aggregate w" and ne: "addrs_of w \<noteq> []" and cl: "clean (addrs_of w)"
    and xs: "sorted (take (n_of w) xs)" "mset (take (n_of w) xs) = mset (addrs_of w)" "length xs = length (ab_addrs w)"
  obtains w' where "generate_minimap (w\<lparr>ab_addrs := xs\<rparr>) = Inr w'" "scannable w'" "buffer_wf w'" "addrs_of w' = take (n_of w) xs"
    "ab_next w' = ab_next w" "ab_is_aggregate w'" "marks w' = {}"
proof -
  let ?n = "n_of w" and ?w = "w\<lparr>ab_addrs := xs\<rparr>"
  have n: "ab_n_addrs w = int ?n" "?n \<le> length xs" "?n \<le> 2 ^ 30" "0 < ?n" "?n \<le> nat (ab_capacity w)"
    using wf ne xs(3) by (auto simp: buffer_wf_def n_of_def addrs_of_def)
  have "minimap_entries ?n \<le> minimap_entries (nat (ab_capacity w))"
    using n(5) by (simp add: minimap_entries_def div_le_mono)
  then have "minimap_entries ?n \<le> length (ab_minimap w)" using wf agg by (auto simp: buffer_wf_def)
  then obtain mm where mm: "generate_minimap ?w = Inr (?w\<lparr>ab_minimap := mm, ab_n_minimap := int (minimap_entries ?n)\<rparr>)"
    "length mm = length (ab_minimap w)" "\<forall>k<minimap_entries ?n. mm ! k = xs ! (512 * k)" "minimap_entries ?n \<le> length mm"
    using generate_minimap_ok [of ?w ?n] n by auto
  let ?w' = "?w\<lparr>ab_minimap := mm, ab_n_minimap := int (minimap_entries ?n)\<rparr>"
  have c: "clean (take ?n xs)" by (rule clean_perm [OF cl xs(2)])
  then have asc: "ascending xs 0 ?n" using sorted_distinct_ascending [OF xs(1) _ n(2)] by (simp add: clean_def)
  have al: "aligned (xs ! i)" if "i < ?n" for i
  proof -
    have "xs ! i \<in> set (take ?n xs)" using that n(2) by (auto simp: in_set_conv_nth intro!: exI [of _ i])
    then show ?thesis using c by (simp add: clean_def)
  qed
  have k: "key ?w' i = xs ! i" if "i < ?n" for i using al [OF that] by (simp add: key_def PTR_MASK_id)
  have nw: "n_of ?w' = ?n" by (simp add: n_of_def)
  have m: "512 * k < ?n" if "k < minimap_entries ?n" for k using that by (simp add: minimap_entries_def)
  have "scannable ?w'" unfolding scannable_def nw
  proof (intro conjI)
    show "\<forall>i j. i < j \<longrightarrow> j < ?n \<longrightarrow> key ?w' i < key ?w' j" using asc k by (simp add: ascending_def)
    show "\<forall>i<?n. ab_addrs ?w' ! i = key ?w' i \<or> ab_addrs ?w' ! i = key ?w' i OR 1" using k by simp
    show "\<forall>k<minimap_entries ?n. ab_minimap ?w' ! k = key ?w' (512 * k)" using mm(3) m k by simp
  qed (use n mm(4) in simp_all)
  moreover have "buffer_wf ?w'" using wf xs(3) mm(2) by (simp add: buffer_wf_def)
  moreover have "marks ?w' = {}"
  proof -
    have "even (unat (xs ! i))" if "i < ?n" for i using al [OF that] by presburger
    then show ?thesis unfolding marks_def nw by (auto simp: and_1_cases)
  qed
  ultimately show thesis using that [OF mm(1)] agg by (simp add: addrs_of_def nw)
qed

text \<open>What a sort does to the buffer of dead references.\<close>

definition sorted_dead :: "addr_buffer_t \<Rightarrow> addr_buffer_t \<Rightarrow> bool" where
  "sorted_dead d d' \<longleftrightarrow> deadrefs_ok d' \<and> buffer_wf d' \<and> dead_addrs_of d' = set (addrs_of d) \<and>
     d' = d\<lparr>ab_addrs := ab_addrs d'\<rparr>"

lemma sorted_dead_intro:
  assumes wf: "buffer_wf d" and cl: "clean (addrs_of d)"
    and xs: "sorted (take (n_of d) xs)" "mset (take (n_of d) xs) = mset (addrs_of d)" "length xs = length (ab_addrs d)"
  shows "sorted_dead d (d\<lparr>ab_addrs := xs\<rparr>)"
proof -
  let ?n = "n_of d" and ?d = "d\<lparr>ab_addrs := xs\<rparr>"
  have n: "?n \<le> length xs" "?n \<le> 2 ^ 30" "0 \<le> ab_n_addrs d" "n_of ?d = ?n"
    using wf xs(3) by (auto simp: buffer_wf_def n_of_def)
  have c: "clean (take ?n xs)" by (rule clean_perm [OF cl xs(2)])
  have set: "(\<lambda>i. xs ! i) ` {..<?n} = set (take ?n xs)" using nth_image [OF n(1)] by (simp add: lessThan_atLeast0)
  have "aligned (xs ! i)" if "i < ?n" for i using c set that unfolding clean_def by blast
  moreover have "ascending xs 0 ?n" using sorted_distinct_ascending [OF xs(1) _ n(1)] c by (simp add: clean_def)
  moreover have "set (take ?n xs) = set (addrs_of d)" by (rule mset_eq_setD [OF xs(2)])
  ultimately show ?thesis using n wf xs(3) set
    by (simp add: sorted_dead_def deadrefs_ok_def dead_addrs_of_def buffer_wf_def)
qed

lemma child_prepare_ok:
  assumes inv: "buffer_inv st rs ts as" and w: "map_of (bf_store st) p = Some w" "ab_is_aggregate w" "addrs_of w \<noteq> []" "clean (addrs_of w)"
    and d: "map_of (bf_store st) q = Some d" "clean (addrs_of d)" and pq: "p \<noteq> q"
  shows "\<exists>w' d'. child_prepare p q st = Inr (st\<lparr>bf_store := AList.update q d' (AList.update p w' (bf_store st))\<rparr>) \<and>
    scannable w' \<and> marks w' = {} \<and> mset (addrs_of w') = mset (addrs_of w) \<and> buffer_wf w' \<and> ab_next w' = ab_next w \<and>
    ab_is_aggregate w' \<and> sorted_dead d d'"
proof -
  have nz: "p \<noteq> 0" "q \<noteq> 0" using inv w(1) d(1) by (auto simp: buffer_inv_def objects_inv_def)
  have wf: "buffer_wf w" "buffer_wf d" using object_wf [OF inv] w(1) d(1) by blast+
  obtain xs where xs: "forkscan_util_sort (ab_addrs w) (ab_n_addrs w) = Inr xs" "sorted (take (n_of w) xs)"
    "mset (take (n_of w) xs) = mset (addrs_of w)" "length xs = length (ab_addrs w)" by (rule sorted_buffer [OF wf(1)])
  obtain w' where w': "generate_minimap (w\<lparr>ab_addrs := xs\<rparr>) = Inr w'" "scannable w'" "buffer_wf w'" "addrs_of w' = take (n_of w) xs"
    "ab_next w' = ab_next w" "ab_is_aggregate w'" "marks w' = {}" by (rule prepared_scannable [OF wf(1) w(2-4) xs(2-4)])
  obtain ys where ys: "forkscan_util_sort (ab_addrs d) (ab_n_addrs d) = Inr ys" "sorted (take (n_of d) ys)"
    "mset (take (n_of d) ys) = mset (addrs_of d)" "length ys = length (ab_addrs d)" by (rule sorted_buffer [OF wf(2)])
  define d' where "d' = (if ab_n_addrs d > 1 then d\<lparr>ab_addrs := ys\<rparr> else d)"
  have "sorted (addrs_of d)" if "\<not> ab_n_addrs d > 1"
  proof -
    have "length (addrs_of d) \<le> 1" using that by (auto simp: addrs_of_def n_of_def)
    then show ?thesis by (cases "addrs_of d") auto
  qed
  then have "sorted_dead d d'"
    using sorted_dead_intro [OF wf(2) d(2) ys(2-4)] sorted_dead_intro [OF wf(2) d(2), of "ab_addrs d"]
    by (auto simp: d'_def addrs_of_def)
  moreover have "child_prepare p q st = Inr (st\<lparr>bf_store := AList.update q d' (AList.update p w' (bf_store st))\<rparr>)"
    using nz w(1) d(1) pq xs(1) w'(1) ys(1)
    by (auto simp: child_prepare_def buf_modify_def d'_def update_same)
  ultimately show ?thesis using w'(2-7) xs(3) by (intro exI [of _ w'] exI [of _ d']) simp
qed

section \<open>Releasing the buffers of the list\<close>

lemma release_list_ok:
  assumes "path ab_next (bf_store st) ab ds 0" "distinct ds" "buffer_inv st rs ts as" "\<forall>d\<in>set ds. in_hand st rs ts as d" "length ds < k"
  shows "\<exists>st' rs' as'. release_list k ab st = Inr st' \<and> buffer_inv st' rs' ts as' \<and> g_deadrefs st' = g_deadrefs st \<and>
    g_default_capacity st' = g_default_capacity st \<and>
    (\<forall>x. x \<notin> set ds \<longrightarrow> map_of (bf_store st') x = map_of (bf_store st) x \<and> (in_hand st rs ts as x \<longrightarrow> in_hand st' rs' ts as' x))"
  using assms
proof (induction ds arbitrary: ab st rs as k)
  case Nil
  then have "release_list k ab st = Inr st" by (cases k) auto
  with Nil.prems(3) show ?case by blast
next
  case (Cons d ds)
  obtain b k' where b: "ab = d" "d \<noteq> 0" "map_of (bf_store st) d = Some b" "path ab_next (bf_store st) (ab_next b) ds 0" "k = Suc k'" "length ds < k'"
    using Cons.prems(1,5) by (cases k) (auto split: option.splits)
  have h: "in_hand st rs ts as d" using Cons.prems(4) by simp
  obtain st1 rs1 as1 b1 n where r: "forkscan_release_buffer d st = Inr st1" "buffer_inv st1 rs1 ts as1"
    "map_of (bf_store st) d = Some b1" "bf_store st1 = AList.update d (b1\<lparr>ab_next := n\<rparr>) (bf_store st)"
    "g_deadrefs st1 = g_deadrefs st" "set (rs1 @ ts @ as1) = insert d (set (rs @ ts @ as))"
    "\<And>x. x \<noteq> d \<Longrightarrow> in_hand st rs ts as x \<Longrightarrow> in_hand st1 rs1 ts as1 x" "g_default_capacity st1 = g_default_capacity st"
    by (rule release_in_hand [OF Cons.prems(3) h]) (rule that)
  have nd: "d \<notin> set ds" using Cons.prems(2) by simp
  have "path ab_next (bf_store st1) (ab_next b) ds 0" using b(4) nd by (simp add: r(4))
  moreover have "\<forall>x\<in>set ds. in_hand st1 rs1 ts as1 x" 
  proof
    fix x assume "x \<in> set ds"
    then show "in_hand st1 rs1 ts as1 x" using nd Cons.prems(4) by (intro r(7)) auto
  qed
  ultimately obtain st' rs' as' where st': "release_list k' (ab_next b) st1 = Inr st'" "buffer_inv st' rs' ts as'"
    "g_deadrefs st' = g_deadrefs st1" "g_default_capacity st' = g_default_capacity st1"
    "\<forall>x. x \<notin> set ds \<longrightarrow> map_of (bf_store st') x = map_of (bf_store st1) x \<and> (in_hand st1 rs1 ts as1 x \<longrightarrow> in_hand st' rs' ts as' x)"
    using Cons.IH [of st1 "ab_next b" rs1 as1 k'] Cons.prems(2) r(2) b(6) by auto
  have "release_list k ab st = Inr st'" using b r(1) st'(1) by simp
  moreover have "map_of (bf_store st') x = map_of (bf_store st) x \<and> (in_hand st rs ts as x \<longrightarrow> in_hand st' rs' ts as' x)"
    if "x \<notin> set (d # ds)" for x using that st'(5) r(4,7) by simp
  ultimately show ?case using st'(2-4) r(5,8) by auto
qed

section \<open>Publishing the scanned buffer\<close>

definition kept :: "size_t list \<Rightarrow> size_t list" where
  "kept xs = map PTR_MASK (filter (\<lambda>x. x AND 1 \<noteq> 0) xs)"

definition unmarked :: "size_t list \<Rightarrow> size_t list" where
  "unmarked xs = filter (\<lambda>x. x AND 1 = 0) xs"

lemma push_back_frame:
  assumes "forkscan_buffer_push_back p st = Inr st'" "x \<noteq> p" "x \<noteq> g_last_retiree_buffer st"
  shows "map_of (bf_store st') x = map_of (bf_store st) x"
  using assms by (auto simp: forkscan_buffer_push_back_def buf_modify_def modify_def Let_def bind_res_eq_Inr split: if_splits)

lemma push_back_default: "forkscan_buffer_push_back p st = Inr st' \<Longrightarrow> g_default_capacity st' = g_default_capacity st"
  by (auto simp: forkscan_buffer_push_back_def buf_modify_def Let_def bind_res_eq_Inr split: if_splits)

lemma keep_marked_ok:
  assumes w: "p \<noteq> 0" "map_of (bf_store st) p = Some w" "i < n_of w" "n_of w \<le> length (ab_addrs w)"
    and u: "unc \<noteq> 0" "unc \<noteq> p" "map_of (bf_store st) unc = Some u" "buffer_wf u" and room: "int (length (addrs_of u)) < ab_capacity u"
  shows "\<exists>u'. keep_marked p unc i st = Inr (st\<lparr>bf_store := AList.update unc u' (bf_store st)\<rparr>) \<and>
    addrs_of u' = addrs_of u @ kept [ab_addrs w ! i] \<and> grown u u'"
proof -
  have r: "rd (ab_addrs w) (int i) = Inr (ab_addrs w ! i)" using w(3,4) by (simp add: rd_def)
  show ?thesis
  proof (cases "ab_addrs w ! i AND 1 = 0")
    case True
    then show ?thesis using w r u(3) grown_refl [OF u(4)]
      by (intro exI [of _ u]) (simp add: keep_marked_def kept_def update_same)
  next
    case False
    let ?x = "PTR_MASK (ab_addrs w ! i)" and ?n = "n_of u"
    let ?u = "u\<lparr>ab_addrs := (ab_addrs u)[?n := ?x], ab_n_addrs := int ?n + 1\<rparr>"
    have n: "ab_n_addrs u = int ?n" "int ?n < ab_capacity u" "?n < length (ab_addrs u)" "int ?n < 2 ^ 30"
      using u(4) room length_addrs_of [OF u(4)] by (auto simp: buffer_wf_def)
    have run: "keep_marked p unc i st = Inr (st\<lparr>bf_store := AList.update unc ?u (bf_store st)\<rparr>)"
      using w r u(1-3) False n by (simp add: keep_marked_def buf_modify_def wr_def cint_def)
    have "n_of ?u = Suc ?n" unfolding n_of_def [of ?u] by simp
    then have "addrs_of ?u = addrs_of u @ [?x]" using n(3) by (simp add: addrs_of_def take_Suc_conv_app_nth)
    moreover have "grown u ?u" using n(2) by (simp add: grown_def)
    ultimately show ?thesis using run False by (intro exI [of _ ?u]) (simp add: kept_def)
  qed
qed

lemma keep_loop_ok:
  assumes w: "p \<noteq> 0" "map_of (bf_store st) p = Some w" "n_of w \<le> length (ab_addrs w)"
    and u: "unc \<noteq> 0" "unc \<noteq> p" "map_of (bf_store st) unc = Some u" "buffer_wf u" "addrs_of u = []"
    and room: "int (n_of w) \<le> ab_capacity u"
  shows "\<exists>u'. for_res (keep_marked p unc) [0..<n_of w] st = Inr (st\<lparr>bf_store := AList.update unc u' (bf_store st)\<rparr>) \<and>
    addrs_of u' = kept (addrs_of w) \<and> grown u u'"
proof -
  define I where "I i st' \<longleftrightarrow> (\<exists>u'. st' = st\<lparr>bf_store := AList.update unc u' (bf_store st)\<rparr> \<and>
      addrs_of u' = kept (take i (ab_addrs w)) \<and> grown u u')" for i st'
  have "\<exists>s'. for_res (keep_marked p unc) [0..<n_of w] st = Inr s' \<and> I (n_of w) s'"
  proof (rule for_res_upt)
    show "I 0 st" unfolding I_def using u(3,5) grown_refl [OF u(4)]
      by (intro exI [of _ u]) (simp add: update_same kept_def)
  next
    fix i s assume i: "i < n_of w" "I i s"
    then obtain u1 where u1: "s = st\<lparr>bf_store := AList.update unc u1 (bf_store st)\<rparr>" "addrs_of u1 = kept (take i (ab_addrs w))" "grown u u1"
      by (auto simp: I_def)
    note g = grown_fields [OF u1(3)]
    have "length (addrs_of u1) \<le> i" using u1(2) length_filter_le [of "\<lambda>x. x AND 1 \<noteq> 0" "take i (ab_addrs w)"] by (simp add: kept_def)
    then have "int (length (addrs_of u1)) < ab_capacity u1" using i(1) room g(1) by simp
    then obtain u2 where u2: "keep_marked p unc i s = Inr (s\<lparr>bf_store := AList.update unc u2 (bf_store s)\<rparr>)"
      "addrs_of u2 = addrs_of u1 @ kept [ab_addrs w ! i]" "grown u1 u2"
      using keep_marked_ok [of p s w i unc u1] w u(1,2) i(1) g(5) [OF u(4)] u1(1) by auto
    have "addrs_of u2 = kept (take (Suc i) (ab_addrs w))"
      using u2(2) u1(2) i(1) w(3) by (simp add: kept_def take_Suc_conv_app_nth)
    then have "I (Suc i) (s\<lparr>bf_store := AList.update unc u2 (bf_store s)\<rparr>)"
      using u1(1) grown_trans [OF u1(3) u2(3)] by (auto simp: I_def)
    with u2(1) show "\<exists>s'. keep_marked p unc i s = Inr s' \<and> I (Suc i) s'" by blast
  qed simp
  then show ?thesis by (auto simp: I_def addrs_of_def)
qed

text \<open>
  The buffer \<open>p\<close> is the last retiree, \<open>unc\<close> is in the collector's hands and holds what is kept; the
  other buffers in hand are as they were.
\<close>

definition published ::
    "buffer_state \<Rightarrow> size_t list \<Rightarrow> size_t list \<Rightarrow> size_t list \<Rightarrow> size_t \<Rightarrow> addr_buffer_t \<Rightarrow> size_t \<times> buffer_state \<Rightarrow> bool" where
  "published st rs ts as p w = (\<lambda>(unc, st'). \<exists>as' u. buffer_inv st' rs (ts @ [p]) as' \<and> in_hand st' rs (ts @ [p]) as' unc \<and>
     map_of (bf_store st') unc = Some u \<and> ab_is_aggregate u \<and> addrs_of u = kept (addrs_of w) \<and>
     map_of (bf_store st') p = Some (w\<lparr>ab_free_idx := 0, ab_next := 0, ab_ref_count := 0\<rparr>) \<and>
     g_deadrefs st' = g_deadrefs st \<and> g_default_capacity st' = g_default_capacity st \<and>
     (\<forall>x. in_hand st rs ts as x \<longrightarrow> x \<noteq> p \<longrightarrow>
        x \<noteq> unc \<and> map_of (bf_store st') x = map_of (bf_store st) x \<and> in_hand st' rs (ts @ [p]) as' x))"

lemma publish_and_keep_ok:
  assumes os: "mmap_fresh os" "munmap_works os" and inv: "buffer_inv st rs ts as" and h: "in_hand st rs ts as p"
    and w: "map_of (bf_store st) p = Some w" "0 < ab_n_addrs w"
  shows "or_fatal (publish_and_keep os p st) (published st rs ts as p w)"
proof -
  have nz: "p \<noteq> 0" "buffer_wf w" using inv w(1) object_wf [OF inv w(1)] by (auto simp: buffer_inv_def objects_inv_def)
  let ?w = "w\<lparr>ab_ref_count := 1, ab_free_idx := 0, ab_next := 0\<rparr>"
  obtain st1 where st1: "forkscan_buffer_push_back p st = Inr st1" "buffer_inv st1 rs (ts @ [p]) as"
    "map_of (bf_store st1) p = Some ?w" "g_deadrefs st1 = g_deadrefs st"
    using push_back_ok [OF inv w(1)] h by (auto simp: in_hand_def)
  have fr1: "map_of (bf_store st1) x = map_of (bf_store st) x \<and> in_hand st1 rs (ts @ [p]) as x" if "in_hand st rs ts as x" "x \<noteq> p" for x
  proof -
    have "x \<noteq> 0" using inv that(1) by (auto simp: in_hand_def buffer_inv_def objects_inv_def)
    then have "x \<noteq> g_last_retiree_buffer st" using inv that(1) by (auto simp: in_hand_def buffer_inv_def lists_inv_def)
    then show ?thesis using push_back_frame [OF st1(1) that(2)] that st1(4) by (auto simp: in_hand_def)
  qed
  have cap: "0 \<le> ab_capacity w" "ab_capacity w \<le> 2 ^ 30" "n_of w \<le> length (ab_addrs w)" "int (n_of w) \<le> ab_capacity w"
    using nz(2) by (auto simp: buffer_wf_def n_of_def)
  have eq: "publish_and_keep os p st = bind_res (forkscan_make_aggregate_buffer os (ab_capacity w) st1) (\<lambda>(unc, st).
     bind_res (for_res (keep_marked p unc) [0..<n_of w] st) (\<lambda>st.
     bind_res (forkscan_buffer_unref_buffer p st) (\<lambda>st. Inr (unc, st))))"
    using st1(1,3) nz(1) by (simp add: publish_and_keep_def n_of_def)
  show ?thesis unfolding eq
  proof (rule or_fatal_bind [OF make_aggregate_handed [OF os st1(2) cap(1,2)]], clarify)
    fix unc st2 assume "handed st1 rs (ts @ [p]) as (ab_capacity w) (unc, st2)"
    then obtain as' u where u: "set as' \<subseteq> set as" "buffer_inv st2 rs (ts @ [p]) as'" "in_hand st2 rs (ts @ [p]) as' unc"
      "map_of (bf_store st2) unc = Some u" "ab_is_aggregate u" "addrs_of u = []" "ab_capacity w \<le> ab_capacity u"
      "g_deadrefs st2 = g_deadrefs st1" "g_default_capacity st2 = g_default_capacity st1"
      "\<And>a. a \<notin> set as \<Longrightarrow> map_of (bf_store st1) a \<noteq> None \<Longrightarrow> a \<noteq> unc \<and> map_of (bf_store st2) a = map_of (bf_store st1) a"
      unfolding handed_def by blast
    have pw: "p \<noteq> unc" "map_of (bf_store st2) p = Some ?w" using u(10) [of p] h st1(3) by (auto simp: in_hand_def)
    have uw: "unc \<noteq> 0" "buffer_wf u" using u(2,4) object_wf [OF u(2,4)] by (auto simp: buffer_inv_def objects_inv_def)
    have nw: "n_of ?w = n_of w" "addrs_of ?w = addrs_of w" by (simp_all add: n_of_def addrs_of_def)
    obtain u' where u': "for_res (keep_marked p unc) [0..<n_of w] st2 = Inr (st2\<lparr>bf_store := AList.update unc u' (bf_store st2)\<rparr>)"
      "addrs_of u' = kept (addrs_of w)" "grown u u'"
      using keep_loop_ok [OF nz(1) pw(2) _ uw(1) pw(1) [symmetric] u(4) uw(2) u(6)] cap(3,4) u(7) nw by auto
    note g = grown_fields [OF u'(3)]
    let ?st3 = "st2\<lparr>bf_store := AList.update unc u' (bf_store st2)\<rparr>" and ?z = "w\<lparr>ab_free_idx := 0, ab_next := 0, ab_ref_count := 0\<rparr>"
    let ?st4 = "?st3\<lparr>bf_store := AList.update p ?z (bf_store ?st3)\<rparr>"
    have inv3: "buffer_inv ?st3 rs (ts @ [p]) as'"
      by (rule buffer_modify [OF u(2,4) g(5) [OF uw(2)]]) (use g(2,3) in simp_all)
    have p3: "map_of (bf_store ?st3) p = Some ?w" using pw by simp
    have "buffer_wf ?z" using nz(2) by (simp add: buffer_wf_def)
    then have inv4: "buffer_inv ?st4 rs (ts @ [p]) as'" by (rule buffer_modify [OF inv3 p3]) simp_all
    have run: "forkscan_buffer_unref_buffer p ?st3 = Inr ?st4"
      using nz(1) p3 w(2) by (simp add: forkscan_buffer_unref_buffer_def buf_modify_def cint_def)
    have fr: "x \<noteq> unc \<and> map_of (bf_store ?st4) x = map_of (bf_store st) x \<and> in_hand ?st4 rs (ts @ [p]) as' x"
      if x: "in_hand st rs ts as x" "x \<noteq> p" for x
      using fr1 [OF x] u(10) [of x] x u(1,8) by (auto simp: in_hand_def)
    have "published st rs ts as p w (unc, ?st4)"
      unfolding published_def using inv4 u(3,5) u'(2) g(2) fr pw(1) st1(4) u(8,9) push_back_default [OF st1(1)]
      by (simp, intro exI [of _ as'] exI [of _ u']) (auto simp: in_hand_def)
    then show "or_fatal (bind_res (for_res (keep_marked p unc) [0..<n_of w] st2) (\<lambda>st.
        bind_res (forkscan_buffer_unref_buffer p st) (\<lambda>st. Inr (unc, st)))) (published st rs ts as p w)"
      using u'(1) run by simp
  qed
qed

section \<open>The scan, seen from the collector\<close>

text \<open>The fields the child writes before it scans.\<close>

definition child_reset :: "addr_buffer_t \<Rightarrow> addr_buffer_t" where
  "child_reset ab = ab\<lparr>ab_completed_children := 0, ab_cutoff_reached := 0, ab_round := 0,
     ab_sibling_mode := SIBLING_MODE_MARKING, ab_root_counter := 0, ab_roots_completed := 0\<rparr>"

lemma child_setup_reset:
  "child_setup maps lock al tds head mx ab rs = Inr (n, ts, rs', ab') \<Longrightarrow> ab' = child_reset ab"
  by (auto simp: child_setup_def child_reset_def Let_def bind_res_eq_Inr)

lemma child_reset_views [simp]:
  "n_of (child_reset ab) = n_of ab" "key (child_reset ab) = key ab" "marks (child_reset ab) = marks ab"
  "hits (child_reset ab) = hits ab" "scannable (child_reset ab) = scannable ab" "ts_of (child_reset ab) = ts_of ab"
  "tracked_keys (child_reset ab) = tracked_keys ab" "ab_root_counter (child_reset ab) = 0" "ab_roots_completed (child_reset ab) = 0"
  "refs_of mem usable (child_reset ab) = refs_of mem usable ab" "ab_addrs (child_reset ab) = ab_addrs ab"
  "ab_n_addrs (child_reset ab) = ab_n_addrs ab" "ab_is_aggregate (child_reset ab) = ab_is_aggregate ab"
  "ab_next (child_reset ab) = ab_next ab" "buffer_wf (child_reset ab) = buffer_wf ab"
  "needed mem usable (child_reset ab) = needed mem usable ab"
  "hits_and_refs mem usable (child_reset ab) = hits_and_refs mem usable ab" "snapshot_ok usable (child_reset ab) = snapshot_ok usable ab"
  by (auto simp: child_reset_def n_of_def key_def [abs_def] marks_def hits_def [abs_def] scannable_def ts_of_def
      tracked_keys_def refs_of_def [abs_def] hits_and_refs_def [abs_def] buffer_wf_def needed_def [abs_def] snapshot_ok_def [abs_def])

text \<open>Ranges that can be scanned.\<close>

definition ranges_ready :: "ranges_t \<Rightarrow> bool" where
  "ranges_ready rs \<longleftrightarrow> ranges_inv rs \<and> g_n_ranges rs \<le> MAX_MARK_AND_SWEEP_RANGES \<and>
     (\<forall>q\<in>set (live_ranges rs). 8 dvd unat (mr_low q) \<and> 8 dvd unat (mr_high q))"

text \<open>What is read from the pipe was written by a run of the scanning processes, at a moment where they had marked \<open>w'\<close>.\<close>

definition scans :: "(size_t \<Rightarrow> size_t) \<Rightarrow> (size_t \<Rightarrow> size_t) \<Rightarrow> ranges_t \<Rightarrow> gc_env \<Rightarrow> bool" where
  "scans mem usable rs env \<longleftrightarrow> (\<forall>w d w' bytes. ge_scan env w d = (w', Some bytes) \<longrightarrow>
     (\<exists>n c. child_reach mem usable d rs (ts_of w) n (child_reset w) c \<and> ch_ab c = w' \<and> bytes \<in> set (ch_written c)))"

text \<open>The scanned buffer: the same addresses, some of them marked.\<close>

lemma view_same_fields:
  assumes "view_of a b"
  shows "n_of b = n_of a" "ab_capacity b = ab_capacity a" "ab_next b = ab_next a" "ab_is_aggregate b = ab_is_aggregate a"
    "ab_minimap b = ab_minimap a" "ab_n_addrs b = ab_n_addrs a" "length (ab_addrs b) = length (ab_addrs a)"
    "\<And>i. i < n_of a \<Longrightarrow> ab_addrs b ! i = ab_addrs a ! i \<or> ab_addrs b ! i = ab_addrs a ! i OR 1"
proof -
  let ?a = "recount (ab_root_counter b) (ab_roots_completed b) a"
  have m: "marked_more ?a b" using assms by (simp add: view_of_def)
  then obtain xs where b: "b = ?a\<lparr>ab_addrs := xs\<rparr>" by (auto simp: marked_more_def)
  show "ab_next b = ab_next a" "ab_is_aggregate b = ab_is_aggregate a" using arg_cong [OF b, of ab_next] arg_cong [OF b, of ab_is_aggregate]
    by (simp_all add: recount_def)
  show "n_of b = n_of a" "ab_capacity b = ab_capacity a" "ab_minimap b = ab_minimap a" "ab_n_addrs b = ab_n_addrs a"
    "length (ab_addrs b) = length (ab_addrs a)"
    using marked_more_fields [OF m] by (simp_all add: recount_def n_of_def)
  show "ab_addrs b ! i = ab_addrs a ! i \<or> ab_addrs b ! i = ab_addrs a ! i OR 1" if "i < n_of a" for i
    using marked_more_entry [OF m, of i] that by (simp add: recount_def n_of_def)
qed

lemma view_of_wf: "view_of a b \<Longrightarrow> buffer_wf a \<Longrightarrow> buffer_wf b"
  using view_same_fields [of a b] by (simp add: buffer_wf_def)

lemma mask_of_marked: "v = a \<or> v = a OR 1 \<Longrightarrow> aligned a \<Longrightarrow> PTR_MASK v = a \<and> (v AND 1 = 0 \<longrightarrow> v = a)"
proof -
  assume a: "v = a \<or> v = a OR 1" "aligned a"
  have "(a OR 1) AND 1 \<noteq> 0" by (simp add: and_1_eq_0_iff)
  then show ?thesis using a PTR_MASK_id [OF a(2)] by auto
qed

text \<open>Every address is either kept or left unmarked.\<close>

lemma kept_and_unmarked:
  assumes "list_all2 (\<lambda>v a. v = a \<or> v = a OR 1) vs as" "\<forall>a\<in>set as. aligned a"
  shows "mset (kept vs) + mset (unmarked vs) = mset as"
  using assms
proof (induction rule: list_all2_induct)
  case (Cons v vs a as)
  have "PTR_MASK v = a" "v AND 1 = 0 \<Longrightarrow> v = a" using mask_of_marked [OF Cons.hyps(1)] Cons.prems by auto
  moreover have "mset (kept vs) + mset (unmarked vs) = mset as" using Cons by simp
  ultimately show ?case by (cases "v AND 1 = 0") (auto simp: kept_def unmarked_def)
qed (simp add: kept_def unmarked_def)

lemma view_entries:
  assumes "view_of a b" "buffer_wf a"
  shows "list_all2 (\<lambda>v a. v = a \<or> v = a OR 1) (addrs_of b) (addrs_of a)"
  using view_same_fields [OF assms(1)] assms(2) by (auto simp: list_all2_conv_all_nth addrs_of_def buffer_wf_def n_of_def)

text \<open>The kept addresses are the marked keys, the others the unmarked ones.\<close>

lemma set_addrs_of:
  assumes "buffer_wf b"
  shows "set (addrs_of b) = (\<lambda>i. ab_addrs b ! i) ` {..<n_of b}"
proof -
  have "n_of b \<le> length (ab_addrs b)" using assms by (auto simp: buffer_wf_def n_of_def)
  from nth_image [OF this] show ?thesis by (simp add: addrs_of_def lessThan_atLeast0)
qed

lemma kept_keys: "buffer_wf b \<Longrightarrow> set (kept (addrs_of b)) = key b ` marks b"
  by (auto simp: kept_def set_addrs_of marks_def key_def)

lemma unmarked_index:
  assumes "buffer_wf b" "x \<in> set (unmarked (addrs_of b))"
  obtains i where "i < n_of b" "i \<notin> marks b" "ab_addrs b ! i = x"
  using assms by (auto simp: unmarked_def addrs_of_def marks_def in_set_conv_nth buffer_wf_def n_of_def)


lemma scanned_ok:
  assumes snap: "snapshot_ok usable w d" and rr: "ranges_ready rs" and sc: "scans mem usable rs env"
    and run: "ge_scan env w d = (w', Some bytes)" and m0: "marks w = {}" and wf: "buffer_wf w" and al: "\<forall>a\<in>set (addrs_of w). aligned a"
  shows "buffer_wf w'" "ab_next w' = ab_next w" "ab_is_aggregate w' = ab_is_aggregate w" "ab_n_addrs w' = ab_n_addrs w"
    "mset (kept (addrs_of w')) + mset (unmarked (addrs_of w')) = mset (addrs_of w)"
    "\<And>x q. x \<in> set (unmarked (addrs_of w')) \<Longrightarrow> q \<in> set (live_ranges rs) \<Longrightarrow> x \<notin> needed mem usable w d q"
    "set (kept (addrs_of w')) \<subseteq> key w ` hits_and_refs mem usable w (seen mem (live_ranges rs))"
proof -
  let ?w = "child_reset w"
  obtain n c where c: "child_reach mem usable d rs (ts_of w) n ?w c" "ch_ab c = w'" "ch_written c \<noteq> []"
    using sc run by (force simp: scans_def)
  have ready: "scan_ready usable ?w d rs" using snap rr by (simp add: scan_ready_def ranges_ready_def)
  have "child_reach mem usable d rs (ts_of ?w) n ?w c" using c(1) by simp
  note inv = child_reach_inv [OF ready child_reset_views(8,9) this]
  have told: "told (g_bytes_to_scan rs) (g_n_ranges rs) n c" using inv by (simp add: child_inv_def)
  have v: "view_of ?w w'" using inv c(2) by (simp add: child_inv_def)
  note f = view_same_fields [OF v]
  show wf': "buffer_wf w'" using view_of_wf [OF v] wf by simp
  show "ab_next w' = ab_next w" "ab_is_aggregate w' = ab_is_aggregate w" "ab_n_addrs w' = ab_n_addrs w" using f by simp_all
  have ent: "list_all2 (\<lambda>v a. v = a \<or> v = a OR 1) (addrs_of w') (addrs_of w)"
    using view_entries [OF v] wf by (simp add: addrs_of_def)
  show "mset (kept (addrs_of w')) + mset (unmarked (addrs_of w')) = mset (addrs_of w)" by (rule kept_and_unmarked [OF ent al])
  have same: "key w' i = key w i" if "i < n_of w" for i
    using f(8) [of i] that by (auto simp: key_def)
  show "x \<notin> needed mem usable w d q" if x: "x \<in> set (unmarked (addrs_of w'))" and q: "q \<in> set (live_ranges rs)" for x q
  proof
    assume nd: "x \<in> needed mem usable w d q"
    obtain i where i: "i < n_of w'" "i \<notin> marks w'" "ab_addrs w' ! i = x" by (rule unmarked_index [OF wf' x])
    have "ab_addrs w ! i \<in> set (addrs_of w)" using i(1) f(1) set_addrs_of [OF wf] by simp
    then have "x = key w i" using f(8) [of i] i f(1) al mask_of_marked [of x "ab_addrs w ! i"] by (auto simp: key_def marks_def PTR_MASK_id)
    then have "i \<in> hits w (needed mem usable w d q)" using nd i(1) f(1) by (simp add: hits_def)
    moreover have "hits ?w (needed mem usable ?w d q) \<subseteq> marks (ch_ab c)"
      by (rule complete_when_told [OF inv c(3) q])
    ultimately show False using i(2) c(2) by auto
  qed
  have "marks w' \<subseteq> hits_and_refs mem usable w (seen mem (live_ranges rs))" using inv c(2) m0 by (simp add: child_inv_def)
  moreover have "key w' ` marks w' = key w ` marks w'" using same f(1) by (intro image_cong) (auto simp: marks_def)
  ultimately show "set (kept (addrs_of w')) \<subseteq> key w ` hits_and_refs mem usable w (seen mem (live_ranges rs))"
    using kept_keys [OF wf'] by auto
qed


section \<open>A whole collection\<close>

text \<open>
  What a collection is about: the addresses left from an earlier one and those of the buffers
  \<open>ds\<close>, and the retired addresses that wait to be freed.
\<close>

definition retired :: "gc_state \<Rightarrow> size_t list \<Rightarrow> size_t list" where
  "retired g ds = left_over (bf_store (gc_buf g)) (g_uncollected_data g) @ concat (map (contents (bf_store (gc_buf g))) ds)"

definition dead_waiting :: "gc_state \<Rightarrow> size_t list \<Rightarrow> size_t list" where
  "dead_waiting g ts = dead_in (bf_store (gc_buf g)) ts"

text \<open>
  Buffers in order, addresses of distinct blocks in the buffers, and at least one address. The last is
  an assumption on the clients, who may force a collection with nothing retired: only an assertion in
  \<^verbatim>\<open>aggregate_addrs\<close> checks it, and \<open>empty_collection_pooled\<close> below shows what the release build does without
  it.
\<close>

definition gc_ready :: "(size_t \<Rightarrow> size_t) \<Rightarrow> gc_state \<Rightarrow> size_t list \<Rightarrow> size_t list \<Rightarrow> size_t list \<Rightarrow> size_t \<Rightarrow> size_t list \<Rightarrow> bool" where
  "gc_ready usable g rs ts as ab ds \<longleftrightarrow> batch (gc_buf g) rs ts as (g_uncollected_data g) ds \<and>
     path ab_next (bf_store (gc_buf g)) ab ds 0 \<and> length (retired g ds) \<le> 2 ^ 30 \<and> length ds \<le> 2 ^ 27 \<and>
     0 < g_default_capacity (gc_buf g) \<and>
     (\<forall>b. map_of (bf_store (gc_buf g)) (g_deadrefs (gc_buf g)) = Some b \<longrightarrow> 0 < ab_capacity b) \<and>
     retired g ds \<noteq> [] \<and> distinct (retired g ds) \<and> distinct (dead_waiting g ts) \<and> set (retired g ds) \<inter> set (dead_waiting g ts) = {} \<and>
     blocks_ok usable (set (retired g ds) \<union> set (dead_waiting g ts))"

text \<open>The collector stops the program or goes on.\<close>

definition gc_result :: "'a res \<Rightarrow> ('a \<Rightarrow> bool) \<Rightarrow> bool" where
  "gc_result r P \<longleftrightarrow> (\<exists>x. r = Inr x \<and> P x) \<or>
     r \<in> Inl ` Fatal ` {''failed mmap().'', ''GC thread was unable to open a pipe.'', ''Collection failed (fork).'', ''Failed to read from child.''}"

lemma gc_result_bind: "or_fatal m P \<Longrightarrow> (\<And>x. P x \<Longrightarrow> gc_result (f x) Q) \<Longrightarrow> gc_result (bind_res m f) Q"
  unfolding or_fatal_def by (elim disjE exE conjE) (simp_all add: gc_result_def)

text \<open>What the child is handed: a snapshot that can be scanned.\<close>

definition at_scan :: "(size_t \<Rightarrow> size_t) \<Rightarrow> gc_state \<Rightarrow> size_t list \<Rightarrow> size_t list \<Rightarrow> size_t \<Rightarrow> size_t \<Rightarrow> buffer_state \<Rightarrow> bool" where
  "at_scan usable g ts ds p q st \<longleftrightarrow> (\<exists>rs as w d. buffer_inv st rs ts as \<and> in_hand st rs ts as p \<and>
     map_of (bf_store st) p = Some w \<and> map_of (bf_store st) q = Some d \<and> q = g_deadrefs st \<and> 0 < ab_capacity d \<and>
     0 < g_default_capacity st \<and> snapshot_ok usable w d \<and> marks w = {} \<and> mset (addrs_of w) = mset (retired g ds) \<and>
     ab_is_aggregate w \<and> dead_addrs_of d \<subseteq> set (dead_waiting g ts))"


lemma dead_found_frame:
  assumes "dead_found st rs ts as (q, st')" "in_hand st rs ts as x"
  shows "x \<noteq> q" "map_of (bf_store st') x = map_of (bf_store st) x" "in_hand st' rs ts as x"
proof -
  show ne: "x \<noteq> q" using assms by (auto simp: dead_found_def in_hand_def)
  with assms(1) show m: "map_of (bf_store st') x = map_of (bf_store st) x" by (simp add: dead_found_def)
  with ne assms show "in_hand st' rs ts as x" by (simp add: dead_found_def in_hand_def)
qed

lemma blocks_ok_mono: "blocks_ok usable S \<Longrightarrow> T \<subseteq> S \<Longrightarrow> blocks_ok usable T"
  by (auto simp: blocks_ok_def)

lemma blocks_clean: "distinct xs \<Longrightarrow> blocks_ok usable S \<Longrightarrow> set xs \<subseteq> S \<Longrightarrow> clean xs"
proof -
  assume a: "distinct xs" "blocks_ok usable S" "set xs \<subseteq> S"
  have "aligned x" if "x \<in> set xs" for x
  proof -
    have "8 dvd unat x" using that a(2,3) by (auto simp: blocks_ok_def)
    then show ?thesis by (rule dvd_trans [rotated]) simp
  qed
  with a(1) show ?thesis by (simp add: clean_def)
qed

lemma snapshot_of_prepared:
  assumes sw: "scannable w" "buffer_wf w" "marks w = {}" "mset (addrs_of w) = mset xs" and sd: "sorted_dead d d'" "set (addrs_of d) \<subseteq> set ys"
    and b: "blocks_ok usable (set xs \<union> set ys)" "set xs \<inter> set ys = {}"
  shows "snapshot_ok usable w d'" "dead_addrs_of d' \<subseteq> set ys"
proof -
  have "tracked_keys w = set (addrs_of w)"
  proof -
    have "key w i = ab_addrs w ! i" if "i < n_of w" for i using unmarked_entry [OF sw(1) that] sw(3) by simp
    then show ?thesis unfolding tracked_keys_def set_addrs_of [OF sw(2)] by (intro image_cong) auto
  qed
  then have "tracked_keys w = set xs" using mset_eq_setD [OF sw(4)] by simp
  moreover show "dead_addrs_of d' \<subseteq> set ys" using sd by (simp add: sorted_dead_def)
  ultimately show "snapshot_ok usable w d'"
    using sw(1) sd(1) b blocks_ok_mono [OF b(1), of "set xs \<union> dead_addrs_of d'"] by (auto simp: snapshot_ok_def sorted_dead_def)
qed

lemma prepared_at_scan:
  assumes gr: "gc_ready usable g rs ts as ab ds" and ga: "gathered (gc_buf g) ts ds (retired g ds) n p st1"
    and inv1: "buffer_inv st1 rs1 ts as1" "in_hand st1 rs1 ts as1 p" "\<forall>d\<in>set ds. map_of (bf_store st1) d = map_of (bf_store (gc_buf g)) d \<and> in_hand st1 rs1 ts as1 d"
    and df: "dead_found st1 rs1 ts as1 (q, st2)"
  shows "\<exists>st3 st4. child_prepare p q st2 = Inr st3 \<and> release_list (Suc (length (bf_store st3))) ab st3 = Inr st4 \<and>
    at_scan usable g ts ds p q st4"
proof -
  let ?s = "bf_store (gc_buf g)" and ?xs = "retired g ds" and ?ys = "dead_waiting g ts"
  have r: "path ab_next ?s ab ds 0" "0 < g_default_capacity (gc_buf g)" "distinct ?xs" "distinct ?ys" "?xs \<noteq> []" "set ?xs \<inter> set ?ys = {}"
    "blocks_ok usable (set ?xs \<union> set ?ys)" "distinct ds" using gr by (auto simp: gc_ready_def batch_def)
  obtain w where w1: "map_of (bf_store st1) p = Some w" "ab_is_aggregate w" "addrs_of w = ?xs" and pd: "p \<notin> set ds"
    and dc: "g_default_capacity st1 = g_default_capacity (gc_buf g)" using ga by (auto simp: gathered_def)
  have ts: "dead_in (bf_store st1) ts = ?ys"
  proof -
    have "map_of ?s t \<noteq> None" if "t \<in> set ts" for t
      using gr that listed_live [of "gc_buf g" rs ts as t] by (auto simp: gc_ready_def batch_def buffer_inv_def)
    then have "map_of (bf_store st1) t = map_of ?s t" if "t \<in> set ts" for t using ga that by (auto simp: gathered_def)
    then show ?thesis unfolding dead_in_def dead_waiting_def by (intro arg_cong [of _ _ concat] map_cong) auto
  qed
  obtain d where d: "map_of (bf_store st2) q = Some d" "0 < ab_capacity d" "addrs_of d = take (nat (ab_capacity d)) ?ys"
    and inv2: "buffer_inv st2 rs1 ts as1" "q = g_deadrefs st2" "g_default_capacity st2 = g_default_capacity st1"
    using df ts by (auto simp: dead_found_def)
  note fr = dead_found_frame [OF df]
  have w2: "map_of (bf_store st2) p = Some w" "p \<noteq> q" using fr(1,2) [OF inv1(2)] w1(1) by simp_all
  have sub: "set (addrs_of d) \<subseteq> set ?ys" "distinct (addrs_of d)" unfolding d(3) using r(4) by (auto dest: in_set_takeD)
  have cl: "clean (addrs_of w)" unfolding w1(3) by (rule blocks_clean [OF r(3,7)]) simp
  have cd: "clean (addrs_of d)" by (rule blocks_clean [OF sub(2) r(7)]) (use sub(1) in auto)
  from child_prepare_ok [OF inv2(1) w2(1) w1(2) _ cl d(1) cd w2(2)] w1(3) r(5) obtain w' d' where
    prep: "child_prepare p q st2 = Inr (st2\<lparr>bf_store := AList.update q d' (AList.update p w' (bf_store st2))\<rparr>)"
      "scannable w'" "marks w' = {}" "mset (addrs_of w') = mset ?xs" "buffer_wf w'" "ab_next w' = ab_next w" "ab_is_aggregate w'" "sorted_dead d d'"
    by auto
  let ?s3 = "AList.update q d' (AList.update p w' (bf_store st2))"
  let ?st3 = "st2\<lparr>bf_store := ?s3\<rparr>"
  have dw: "buffer_wf d'" "ab_next d' = ab_next d" "ab_is_aggregate d' = ab_is_aggregate d" "ab_capacity d' = ab_capacity d"
  proof -
    obtain zs where "d' = d\<lparr>ab_addrs := zs\<rparr>" "buffer_wf d'" using prep(8) unfolding sorted_dead_def by blast
    then show "buffer_wf d'" "ab_next d' = ab_next d" "ab_is_aggregate d' = ab_is_aggregate d" "ab_capacity d' = ab_capacity d" by simp_all
  qed
  have "buffer_inv (st2\<lparr>bf_store := AList.update p w' (bf_store st2)\<rparr>) rs1 ts as1"
    by (rule buffer_modify [OF inv2(1) w2(1) prep(5)]) (use prep(6,7) w1(2) in simp_all)
  then have inv3: "buffer_inv ?st3 rs1 ts as1"
    using buffer_modify [of "st2\<lparr>bf_store := AList.update p w' (bf_store st2)\<rparr>" rs1 ts as1 q d d'] d(1) w2(2) dw by simp
  have h3: "in_hand ?st3 rs1 ts as1 x" if "in_hand st1 rs1 ts as1 x" for x using fr(3) [OF that] by (simp add: in_hand_def)
  have ds3: "map_of ?s3 x = map_of ?s x \<and> in_hand ?st3 rs1 ts as1 x" if "x \<in> set ds" for x
  proof -
    have hx: "map_of (bf_store st1) x = map_of ?s x" "in_hand st1 rs1 ts as1 x" "x \<noteq> p" using inv1(3) that pd by auto
    then show ?thesis using fr(1,2) [OF hx(2)] h3 [OF hx(2)] by simp
  qed
  have pa: "path ab_next (bf_store ?st3) ab ds 0" by (rule path_cong [OF r(1)]) (use ds3 in simp)
  have "\<forall>x\<in>set ds. in_hand ?st3 rs1 ts as1 x" using ds3 by blast
  from release_list_ok [OF pa r(8) inv3 this chain_fuel [OF pa]] obtain st4 rs' as' where
    rel: "release_list (Suc (length (bf_store ?st3))) ab ?st3 = Inr st4" "buffer_inv st4 rs' ts as'" "g_deadrefs st4 = g_deadrefs ?st3"
      "g_default_capacity st4 = g_default_capacity ?st3"
      "\<forall>x. x \<notin> set ds \<longrightarrow> map_of (bf_store st4) x = map_of ?s3 x \<and> (in_hand ?st3 rs1 ts as1 x \<longrightarrow> in_hand st4 rs' ts as' x)"
    by (auto simp del: release_list.simps)
  have "q \<notin> set ds" using fr(1) inv1(3) by blast
  then have m4: "map_of (bf_store st4) q = Some d'" "map_of (bf_store st4) p = Some w'" "in_hand st4 rs' ts as' p"
    using rel(5) pd w2(2) h3 [OF inv1(2)] by auto
  note snap = snapshot_of_prepared [OF prep(2,5,3,4,8) sub(1) r(7,6)]
  have "at_scan usable g ts ds p q st4"
    unfolding at_scan_def using rel(2-4) m4 snap prep(3,4,7) d(2) dw(4) inv2(2,3) dc r(2)
    by (intro exI [of _ rs'] exI [of _ as'] exI [of _ w'] exI [of _ d']) simp
  then show ?thesis using prep(1) rel(1) by blast
qed


text \<open>What a collection achieves.\<close>

definition collected ::
    "(size_t \<Rightarrow> size_t) \<Rightarrow> (size_t \<Rightarrow> size_t) \<Rightarrow> ranges_t \<Rightarrow> gc_state \<Rightarrow> size_t list \<Rightarrow> size_t list \<Rightarrow> addr_buffer_t \<Rightarrow> addr_buffer_t \<Rightarrow> bool" where
  "collected mem usable rgs g ts ds w u \<longleftrightarrow>
     mset (addrs_of u) + mset (unmarked (addrs_of w)) = mset (retired g ds) \<and>
     (\<forall>a\<in>set (unmarked (addrs_of w)). \<forall>q\<in>set (live_ranges rgs). \<forall>x\<in>words (unat (mr_low q)) (unat (mr_high q)).
        in_block usable (set (retired g ds) \<union> set (dead_waiting g ts)) x \<or> val_at mem x \<noteq> a) \<and>
     (\<forall>a\<in>set (addrs_of u). a \<in> seen mem (live_ranges rgs) \<or>
        (\<exists>b\<in>set (retired g ds). b \<in> seen mem (live_ranges rgs) \<and>
           (\<exists>j<unat (usable b div 8). PTR_MASK (mem (b + 8 * of_nat j)) = a)))"

lemma scanned_collected:
  assumes snap: "snapshot_ok usable w d" and rr: "ranges_ready rgs" and sc: "scans mem usable rgs env"
    and run: "ge_scan env w d = (w', Some bytes)" and m0: "marks w = {}" and wf: "buffer_wf w"
    and xs: "mset (addrs_of w) = mset (retired g ds)" and d: "dead_addrs_of d \<subseteq> set (dead_waiting g ts)"
    and u: "addrs_of u = kept (addrs_of w')" and w'': "addrs_of w'' = addrs_of w'"
  shows "collected mem usable rgs g ts ds w'' u"
proof -
  let ?R = "set (retired g ds)" and ?D = "set (dead_waiting g ts)"
  have key: "key w i = ab_addrs w ! i" if "i < n_of w" for i
    using unmarked_entry [of w i] snap m0 that by (simp add: snapshot_ok_def)
  then have al: "\<forall>a\<in>set (addrs_of w). aligned a"
    unfolding set_addrs_of [OF wf] by (auto simp: key_def) (metis PTR_MASK_aligned)
  have keys: "tracked_keys w = ?R"
    using mset_eq_setD [OF xs] key unfolding tracked_keys_def set_addrs_of [OF wf] by (metis (no_types, lifting) image_cong lessThan_iff)
  note s = scanned_ok [OF snap rr sc run m0 wf al]
  have sub: "tracked_keys w \<union> dead_addrs_of d \<subseteq> ?R \<union> ?D" using keys d by auto
  have "in_block usable (?R \<union> ?D) x \<or> val_at mem x \<noteq> a"
    if "a \<in> set (unmarked (addrs_of w'))" "q \<in> set (live_ranges rgs)" "x \<in> words (unat (mr_low q)) (unat (mr_high q))" for a q x
    using s(6) [OF that(1,2)] that(3) sub unfolding needed_def in_block_def by blast
  moreover have "a \<in> seen mem (live_ranges rgs) \<or> (\<exists>b\<in>?R. b \<in> seen mem (live_ranges rgs) \<and>
      (\<exists>j<unat (usable b div 8). PTR_MASK (mem (b + 8 * of_nat j)) = a))" if k: "a \<in> set (kept (addrs_of w'))" for a
  proof -
    obtain i where i: "i \<in> hits_and_refs mem usable w (seen mem (live_ranges rgs))" "a = key w i" using s(7) k by blast
    then consider "i \<in> hits w (seen mem (live_ranges rgs))"
      | r where "r \<in> hits w (seen mem (live_ranges rgs))" "i \<in> refs_of mem usable w (key w r)" by (auto simp: hits_and_refs_def)
    then show ?thesis
    proof cases
      case 2
      then have "key w r \<in> ?R" using keys by (auto simp: hits_def tracked_keys_def)
      then show ?thesis using 2 i(2) by (auto simp: hits_def refs_of_def)
    qed (use i(2) in \<open>simp add: hits_def\<close>)
  qed
  ultimately show ?thesis using s(5) xs u w'' by (simp add: collected_def)
qed

lemma scanned_published:
  assumes at: "at_scan usable g ts ds p q st" and os: "mmap_fresh os" "munmap_works os" and rr: "ranges_ready rgs" and sc: "scans mem usable rgs env"
    and w: "map_of (bf_store st) p = Some w" and d: "map_of (bf_store st) q = Some d" and run: "ge_scan env w d = (w', Some bytes)"
  shows "\<exists>st'. buf_modify p (\<lambda>_. w') st = Inr st' \<and> or_fatal (publish_and_keep os p st') (\<lambda>(unc, st''). \<exists>rs' as' w'' u.
    buffer_inv st'' rs' (ts @ [p]) as' \<and> in_hand st'' rs' (ts @ [p]) as' unc \<and> map_of (bf_store st'') p = Some w'' \<and>
    map_of (bf_store st'') unc = Some u \<and> ab_is_aggregate u \<and> collected mem usable rgs g ts ds w'' u)"
proof -
  obtain rs as where a: "buffer_inv st rs ts as" "in_hand st rs ts as p" "snapshot_ok usable w d" "marks w = {}"
    "mset (addrs_of w) = mset (retired g ds)" "ab_is_aggregate w" "dead_addrs_of d \<subseteq> set (dead_waiting g ts)"
    using at w d by (auto simp: at_scan_def)
  have wf: "buffer_wf w" by (rule object_wf [OF a(1) w])
  have key: "key w i = ab_addrs w ! i" if "i < n_of w" for i
    using unmarked_entry [of w i] a(3,4) that by (simp add: snapshot_ok_def)
  have al: "\<forall>x\<in>set (addrs_of w). aligned x"
    unfolding set_addrs_of [OF wf] using key by (auto simp: key_def) (metis PTR_MASK_aligned)
  note s = scanned_ok [OF a(3) rr sc run a(4) wf al]
  let ?st = "st\<lparr>bf_store := AList.update p w' (bf_store st)\<rparr>"
  have nz: "p \<noteq> 0" using a(1) w by (auto simp: buffer_inv_def objects_inv_def)
  have m: "buf_modify p (\<lambda>_. w') st = Inr ?st" using w nz by (simp add: buf_modify_def)
  have inv: "buffer_inv ?st rs ts as" by (rule buffer_modify [OF a(1) w s(1)]) (use s(2,3) in simp_all)
  have h: "in_hand ?st rs ts as p" using a(2) by (simp add: in_hand_def)
  have "0 < ab_n_addrs w'" using s(4) a(3) by (simp add: snapshot_ok_def scannable_def)
  then have "or_fatal (publish_and_keep os p ?st) (published ?st rs ts as p w')"
    using publish_and_keep_ok [OF os inv h, of w'] by simp
  moreover have "collected mem usable rgs g ts ds (w'\<lparr>ab_free_idx := 0, ab_next := 0, ab_ref_count := 0\<rparr>) u" if "addrs_of u = kept (addrs_of w')" for u
    by (rule scanned_collected [OF a(3) rr sc run a(4) wf a(5,7) that]) (simp add: addrs_of_def n_of_def)
  ultimately show ?thesis using m by (fastforce simp: or_fatal_def published_def)
qed

definition well_collected ::
    "(size_t \<Rightarrow> size_t) \<Rightarrow> (size_t \<Rightarrow> size_t) \<Rightarrow> ranges_t \<Rightarrow> gc_state \<Rightarrow> size_t list \<Rightarrow> size_t list \<Rightarrow> gc_state \<Rightarrow> bool" where
  "well_collected mem usable rgs g ts ds g' \<longleftrightarrow> (\<exists>rs' as' p w u. buffer_inv (gc_buf g') rs' (ts @ [p]) as' \<and>
     in_hand (gc_buf g') rs' (ts @ [p]) as' (g_uncollected_data g') \<and> ab_is_aggregate u \<and>
     map_of (bf_store (gc_buf g')) p = Some w \<and> map_of (bf_store (gc_buf g')) (g_uncollected_data g') = Some u \<and>
     collected mem usable rgs g ts ds w u)"

lemma reclaim_tail:
  assumes at: "at_scan usable g ts ds p q st" and os: "mmap_fresh os" "munmap_works os" and rr: "ranges_ready rgs" and sc: "scans mem usable rgs env"
  shows "gc_result (bind_res (ld (bf_store st) p) (\<lambda>w. bind_res (ld (bf_store st) q) (\<lambda>d.
    case ge_scan env w d of (w', None) \<Rightarrow> Inl (Fatal ''Failed to read from child.'')
    | (w', Some bytes) \<Rightarrow> bind_res (buf_modify p (\<lambda>_. w') st) (\<lambda>st.
        let g = h bytes in bind_res (publish_and_keep os p st) (\<lambda>(unc, st). Inr (g\<lparr>gc_buf := st, g_uncollected_data := unc\<rparr>))))))
    (well_collected mem usable rgs g ts ds)"
proof -
  obtain w d where wd: "map_of (bf_store st) p = Some w" "map_of (bf_store st) q = Some d" "p \<noteq> 0" "q \<noteq> 0"
    using at by (auto simp: at_scan_def buffer_inv_def objects_inv_def)
  obtain w' m where e: "ge_scan env w d = (w', m)" by fastforce
  show ?thesis
  proof (cases m)
    case None
    then show ?thesis using wd e by (simp add: gc_result_def)
  next
    case (Some bytes)
    obtain st' where st': "buf_modify p (\<lambda>_. w') st = Inr st'" and of: "or_fatal (publish_and_keep os p st') (\<lambda>(unc, st''). \<exists>rs' as' w'' u.
        buffer_inv st'' rs' (ts @ [p]) as' \<and> in_hand st'' rs' (ts @ [p]) as' unc \<and> map_of (bf_store st'') p = Some w'' \<and>
        map_of (bf_store st'') unc = Some u \<and> ab_is_aggregate u \<and> collected mem usable rgs g ts ds w'' u)"
      using scanned_published [OF at os rr sc wd(1,2) e [unfolded Some]] by blast
    have "gc_result (bind_res (publish_and_keep os p st') (\<lambda>(unc, st). Inr ((h bytes)\<lparr>gc_buf := st, g_uncollected_data := unc\<rparr>)))
      (well_collected mem usable rgs g ts ds)"
      by (rule gc_result_bind [OF of]) (auto simp: gc_result_def well_collected_def)
    then show ?thesis using wd e Some st' by (simp add: Let_def)
  qed
qed

text \<open>
  C1: a collection of at least one address is safe and loses nothing. Unless the system refuses memory, the pipe, the child or
  the child's report, a collection publishes one buffer behind the retirees and keeps one. Every address
  it started from is either unmarked in the published buffer, and will be freed, or it is kept, each
  exactly once. No word of the scanned ranges outside of the retired blocks refers to an address that
  will be freed, and every kept address has been seen in the scanned memory or in a retired block
  that was.
\<close>

theorem collection_safe:
  assumes "mmap_fresh os" and "munmap_works os" and "gc_ready usable g rs ts as ab ds"
    and "ranges_ready rgs" and "scans mem usable rgs env"
  shows "gc_result (reclaim_iteration os env ab g) (well_collected mem usable rgs g ts ds)"
proof -
  have gr: "batch (gc_buf g) rs ts as (g_uncollected_data g) ds" "path ab_next (bf_store (gc_buf g)) ab ds 0"
    "length (retired g ds) \<le> 2 ^ 30" "length ds \<le> 2 ^ 27" "0 < g_default_capacity (gc_buf g)"
    "\<forall>b. map_of (bf_store (gc_buf g)) (g_deadrefs (gc_buf g)) = Some b \<longrightarrow> 0 < ab_capacity b" using assms(3) by (auto simp: gc_ready_def)
  note agg = aggregate_addrs_ok [OF assms(1,2) gr(1,2) gr(3) [unfolded retired_def] gr(4), folded retired_def]
  show ?thesis unfolding reclaim_iteration_def
  proof (rule gc_result_bind [OF agg], clarify, goal_cases)
    case (1 p frees st1)
    then obtain rs1 as1 where g1: "buffer_inv st1 rs1 ts as1" "in_hand st1 rs1 ts as1 p"
      "\<forall>d\<in>set ds. map_of (bf_store st1) d = map_of (bf_store (gc_buf g)) d \<and> in_hand st1 rs1 ts as1 d"
      "g_deadrefs st1 = g_deadrefs (gc_buf g)" "g_default_capacity st1 = g_default_capacity (gc_buf g)"
      "\<forall>a\<in>insert (g_deadrefs (gc_buf g)) (set ts). map_of (bf_store (gc_buf g)) a \<noteq> None \<longrightarrow> map_of (bf_store st1) a = map_of (bf_store (gc_buf g)) a"
      unfolding gathered_def by blast
    have cap: "0 < g_default_capacity st1" "\<forall>b. map_of (bf_store st1) (g_deadrefs st1) = Some b \<longrightarrow> 0 < ab_capacity b"
      using g1 gr(1,5,6) by (auto simp: batch_def buffer_inv_def lists_inv_def objects_inv_def)
    note dead = get_dead_references_ok [OF assms(1) g1(1) cap]
    show ?case
    proof (cases "ge_pipe env")
      case pipe: True
      have np: "(\<not> ge_pipe env) = False" using pipe by simp
      show ?thesis unfolding Let_def np if_False
      proof (rule gc_result_bind [OF dead], clarify, goal_cases)
        case (1 q st2)
        show ?case
        proof (cases "ge_fork env")
          case True
          from prepared_at_scan [OF assms(3) \<open>gathered (gc_buf g) ts ds (retired g ds) (length (retired g ds)) p st1\<close> g1(1-3) 1]
          obtain st3 st4 where st: "child_prepare p q st2 = Inr st3" "release_list (Suc (length (bf_store st3))) ab st3 = Inr st4"
            "at_scan usable g ts ds p q st4" by blast
          have nf: "(\<not> ge_fork env) = False" using True by simp
          show ?thesis unfolding nf if_False
            by (simp add: st(1,2) del: release_list.simps, rule reclaim_tail [OF st(3) assms(1,2,4,5), unfolded Let_def])
        qed (simp add: gc_result_def)
      qed
    qed (simp add: gc_result_def)
  qed
qed


text \<open>There are environments whose scan always reports.\<close>

lemma scanning_env:
  assumes rr: "ranges_ready rgs"
  obtains env where "ge_pipe env" "ge_fork env" "scans mem usable rgs env" "\<And>w d. snapshot_ok usable w d \<Longrightarrow> snd (ge_scan env w d) \<noteq> None"
proof -
  define P where "P w d r \<longleftrightarrow> (\<exists>n c. child_reach mem usable d rgs (ts_of w) n (child_reset w) c \<and> ch_ab c = fst r \<and> snd r \<in> set (ch_written c))" for w d r
  have ex: "\<exists>r. P w d r" if snap: "snapshot_ok usable w d" for w d
  proof -
    have ready: "scan_ready usable (child_reset w) d rgs" using snap rr by (simp add: scan_ready_def ranges_ready_def)
    note i = child_reset_views(8,9) [of w]
    obtain c where c: "child_reach mem usable d rgs (ts_of (child_reset w)) 1 (child_reset w) c" "\<forall>i<1. sb_pc (ch_sib c i) = Exit"
      using run_to_end [OF ready i child_reach.init] by blast
    have "0 \<le> g_n_ranges rgs" using rr by (simp add: ranges_ready_def ranges_inv_def)
    from last_report_notifies [OF child_reach_inv [OF ready i c(1)] child_reach_attended [OF ready i c(1)] this] c(2)
    have "ch_written c \<noteq> []" by simp
    then have "P w d (ch_ab c, hd (ch_written c))" unfolding P_def using c(1) by (intro exI [of _ 1] exI [of _ c]) simp
    then show ?thesis by blast
  qed
  define env where "env = \<lparr>ge_pipe = True, ge_fork = True,
    ge_scan = (\<lambda>w d. if \<exists>r. P w d r then map_prod id Some (SOME r. P w d r) else (w, None))\<rparr>"
  have "scans mem usable rgs env" unfolding scans_def
  proof (intro allI impI)
    fix w d w' bytes assume a: "ge_scan env w d = (w', Some bytes)"
    then have "\<exists>r. P w d r" by (auto simp: env_def split: if_splits)
    then have "P w d (SOME r. P w d r)" by (rule someI_ex)
    moreover have "(SOME r. P w d r) = (w', bytes)" using a by (cases "SOME r. P w d r") (auto simp: env_def split: if_splits)
    ultimately show "\<exists>n c. child_reach mem usable d rgs (ts_of w) n (child_reset w) c \<and> ch_ab c = w' \<and> bytes \<in> set (ch_written c)"
      by (simp add: P_def)
  qed
  moreover have "snd (ge_scan env w d) \<noteq> None" if "snapshot_ok usable w d" for w d using ex [OF that] by (simp add: env_def)
  ultimately show thesis using that [of env] by (simp add: env_def)
qed

theorem collection_safe_witness:
  "\<exists>g env ab. retired g [ab] = [0x100] \<and> ge_pipe env \<and> ge_fork env \<and>
     gc_result (reclaim_iteration sample_os env ab g) (well_collected (\<lambda>a. 0) (\<lambda>a. 16) sample_scan g [] [ab])"
proof -
  obtain st x where st: "buffer_inv st [] [] []" "g_deadrefs st = 0" "map_of (bf_store st) x = Some (small_buffer 0x100)"
    by (rule sample_buffers) blast
  define g where "g = \<lparr>gc_buf = st\<lparr>g_default_capacity := 1\<rparr>, g_addr_buffer = 0, g_uncollected_data = 0, g_waiting_collects = 0,
    g_frees_required = 8, g_cleanup_counter = 0, g_scan_max = 0\<rparr>"
  have inv: "buffer_inv (gc_buf g) [] [] []" using st(1) by (simp add: g_def buffer_inv_def lists_inv_def objects_inv_def)
  have x: "x \<noteq> 0" "map_of (bf_store st) 0 = None"
    using st by (auto simp: buffer_inv_def objects_inv_def) (metis option.exhaust)
  have ret: "retired g [x] = [0x100]"
    using st(3) by (simp add: retired_def g_def left_over_def contents_def addrs_of_def n_of_def small_buffer_def)
  have dead: "dead_waiting g [] = []" by (simp add: dead_waiting_def dead_in_def)
  have "batch (gc_buf g) [] [] [] (g_uncollected_data g) [x]"
    using inv st(2,3) x by (simp add: batch_def in_hand_def) (simp add: g_def)
  moreover have "path ab_next (bf_store (gc_buf g)) x [x] 0" using st(3) x by (simp add: g_def small_buffer_def fresh_buffer_def)
  ultimately have ready: "gc_ready (\<lambda>a. 16) g [] [] [] x [x]"
    unfolding gc_ready_def ret dead using st(2) x by (simp add: blocks_ok_def) (simp add: g_def)
  have rr: "ranges_ready sample_scan" using sample_scan_ready by (simp add: scan_ready_def ranges_ready_def)
  obtain env where env: "ge_pipe env" "ge_fork env" "scans (\<lambda>a. 0) (\<lambda>a. 16) sample_scan env" by (rule scanning_env [OF rr])
  show ?thesis
    by (rule exI [of _ g], rule exI [of _ env], rule exI [of _ x])
      (simp add: ret env collection_safe [OF sample_os_ok ready rr env(3)])
qed

text \<open>
  A collection of no addresses corrupts the buffers. When the last part of it publishes the empty working
  buffer, dropping the collector's reference finds the buffer done and releases it: it is the last retiree
  and at the same time the first of the pool of aggregate buffers, so that the next aggregate buffer asked
  for is one that threads may take for a buffer to free from.
\<close>

theorem empty_collection_pooled:
  assumes os: "mmap_fresh os" "munmap_works os" and inv: "buffer_inv st rs ts as" and h: "in_hand st rs ts as p"
    and w: "map_of (bf_store st) p = Some w" "ab_n_addrs w = 0" "ab_is_aggregate w"
  shows "or_fatal (publish_and_keep os p st) (\<lambda>(unc, st'). g_last_retiree_buffer st' = p \<and>
    (ts = [] \<longrightarrow> g_first_retiree_buffer st' = p) \<and> g_available_aggregates st' = p \<and>
    (\<forall>cap. round_capacity cap \<le> ab_capacity w \<longrightarrow> (\<exists>st''. forkscan_make_aggregate_buffer os cap st' = Inr (p, st''))))"
proof -
  have nz: "p \<noteq> 0" "buffer_wf w" using inv w(1) object_wf [OF inv w(1)] by (auto simp: buffer_inv_def objects_inv_def)
  let ?w = "w\<lparr>ab_ref_count := 1, ab_free_idx := 0, ab_next := 0\<rparr>"
  obtain st1 where st1: "forkscan_buffer_push_back p st = Inr st1" "buffer_inv st1 rs (ts @ [p]) as" "map_of (bf_store st1) p = Some ?w"
    using push_back_ok [OF inv w(1)] h by (auto simp: in_hand_def)
  have cap: "0 \<le> ab_capacity w" "ab_capacity w \<le> 2 ^ 30" using nz(2) by (auto simp: buffer_wf_def)
  have eq: "publish_and_keep os p st = bind_res (forkscan_make_aggregate_buffer os (ab_capacity w) st1) (\<lambda>(unc, st).
     bind_res (forkscan_buffer_unref_buffer p st) (\<lambda>st. Inr (unc, st)))"
    using st1(1,3) nz(1) w(2) by (simp add: publish_and_keep_def n_of_def)
  obtain as' where "or_fatal (forkscan_make_aggregate_buffer os (ab_capacity w) st1)
      (\<lambda>r. made st1 as r rs (ts @ [p]) as' (\<lambda>b. ab_is_aggregate b \<and> ab_capacity w \<le> ab_capacity b))"
    using make_aggregate_ok [OF os st1(2) cap] by blast
  then show ?thesis unfolding eq
  proof (rule or_fatal_bind, clarify)
    fix unc st2 assume m: "made st1 as (unc, st2) rs (ts @ [p]) as' (\<lambda>b. ab_is_aggregate b \<and> ab_capacity w \<le> ab_capacity b)"
    have "p \<notin> set (unc # as)" using m h by (auto simp: made_def in_hand_def)
    then have p2: "map_of (bf_store st2) p = Some ?w" using m st1(3) by (simp add: made_def)
    have inv2: "lists_inv st2 rs (ts @ [p]) as'" using m by (simp add: made_def buffer_inv_def)
    let ?st = "st2\<lparr>bf_store := AList.update p (?w\<lparr>ab_ref_count := 0, ab_next := g_available_aggregates st2\<rparr>)
      (AList.update p (?w\<lparr>ab_ref_count := 0\<rparr>) (bf_store st2)), g_available_aggregates := p\<rparr>"
    have run: "forkscan_buffer_unref_buffer p st2 = Inr ?st"
      using p2 nz(1) w(2,3) by (simp add: forkscan_buffer_unref_buffer_def forkscan_release_buffer_def buf_modify_def cint_def)
    have make: "\<exists>st''. forkscan_make_aggregate_buffer os cap ?st = Inr (p, st'')" if "round_capacity cap \<le> ab_capacity w" for cap
      using that nz(1) by (simp add: forkscan_make_aggregate_buffer_def Let_def buf_modify_def)
    show "or_fatal (bind_res (forkscan_buffer_unref_buffer p st2) (\<lambda>st. Inr (unc, st))) (\<lambda>(unc, st'). g_last_retiree_buffer st' = p \<and>
      (ts = [] \<longrightarrow> g_first_retiree_buffer st' = p) \<and> g_available_aggregates st' = p \<and>
      (\<forall>cap. round_capacity cap \<le> ab_capacity w \<longrightarrow> (\<exists>st''. forkscan_make_aggregate_buffer os cap st' = Inr (p, st''))))"
      unfolding run using inv2 make by (auto simp: lists_inv_def)
  qed
qed

end
