(* ===== verification/Collector.thy ===== *)
theory Collector
  imports Collection
begin

text \<open>
  The collector thread and the threads that hand it work, \<^verbatim>\<open>forkscan_thread\<close> and
  \<^verbatim>\<open>forkscan_initiate_collection\<close> of \<^verbatim>\<open>src/forkscan.c\<close>: the collector sleeps until work is announced, threads
  that announce too much are throttled until the collector has taken it up. What is done under one of
  the two mutexes is one step; the collector keeps the first while it takes the second for its
  broadcast, so no work is announced in between.
\<close>

section \<open>The code\<close>

datatype gc_pc = Lock | Asleep | Woken | Broadcast size_t | Collect size_t

datatype client_pc = Outside | Throttle | Check | Sleeping

record collector_t =
  co_gc :: gc_state
  g_gc_waiting :: bool
  co_pc :: gc_pc
  co_cl :: "nat \<Rightarrow> client_pc"

text \<open>The part under \<^verbatim>\<open>g_gc_mutex\<close>. The signal is lost when the collector is not asleep.\<close>

definition forkscan_initiate_collection :: "size_t \<Rightarrow> int \<Rightarrow> bool \<Rightarrow> collector_t \<Rightarrow> collector_t res" where
  "forkscan_initiate_collection ab auto_run force c =
     (let g = co_gc c; announce = (auto_run \<noteq> 0 \<or> force) in
      bind_res (if announce then cint (g_waiting_collects g + 1) else Inr (g_waiting_collects g)) (\<lambda>n.
      bind_res (buf_modify ab (\<lambda>b. b\<lparr>ab_next := g_addr_buffer g\<rparr>) (gc_buf g)) (\<lambda>st.
      let c = c\<lparr>co_gc := g\<lparr>gc_buf := st, g_addr_buffer := ab, g_waiting_collects := n\<rparr>\<rparr> in
      Inr (if g_gc_waiting c \<and> announce \<and> co_pc c = Asleep then c\<lparr>co_pc := Woken\<rparr> else c))))"

text \<open>The loop that throttles: the test in front of the lock and the test behind it.\<close>

definition throttle_test :: "int \<Rightarrow> nat \<Rightarrow> collector_t \<Rightarrow> collector_t" where
  "throttle_test thr i c =
     c\<lparr>co_cl := (co_cl c)(i := if g_waiting_collects (co_gc c) \<ge> thr then Check else Outside)\<rparr>"

definition throttle_wait :: "int \<Rightarrow> nat \<Rightarrow> collector_t \<Rightarrow> collector_t" where
  "throttle_wait thr i c =
     c\<lparr>co_cl := (co_cl c)(i := if g_waiting_collects (co_gc c) \<ge> thr then Sleeping else Throttle)\<rparr>"

text \<open>The loop of the collector.\<close>

definition gc_take_work :: "int \<Rightarrow> collector_t \<Rightarrow> collector_t" where
  "gc_take_work thr c =
     (let g = co_gc c; ab = g_addr_buffer g in
      c\<lparr>co_gc := g\<lparr>g_addr_buffer := 0, g_waiting_collects := 0\<rparr>,
        co_pc := (if g_waiting_collects g \<ge> thr then Broadcast ab else Collect ab)\<rparr>)"

definition gc_check_work :: "int \<Rightarrow> collector_t \<Rightarrow> collector_t" where
  "gc_check_work thr c =
     (if g_waiting_collects (co_gc c) < 1 then c\<lparr>g_gc_waiting := True, co_pc := Asleep\<rparr>
      else gc_take_work thr c)"

definition gc_wake :: "int \<Rightarrow> collector_t \<Rightarrow> collector_t" where
  "gc_wake thr c = gc_take_work thr (c\<lparr>g_gc_waiting := False\<rparr>)"

definition gc_broadcast :: "size_t \<Rightarrow> collector_t \<Rightarrow> collector_t" where
  "gc_broadcast ab c =
     c\<lparr>co_cl := (\<lambda>i. if co_cl c i = Sleeping then Throttle else co_cl c i), co_pc := Collect ab\<rparr>"

text \<open>Moves of the collector and of the other threads. \<open>sp\<close> tells whether there are spurious wakeups.\<close>

inductive gc_step :: "os_t \<Rightarrow> gc_env \<Rightarrow> int \<Rightarrow> bool \<Rightarrow> collector_t \<Rightarrow> collector_t \<Rightarrow> bool" for os env thr sp where
  check_work: "co_pc c = Lock \<Longrightarrow> gc_step os env thr sp c (gc_check_work thr c)"
| spurious: "sp \<Longrightarrow> co_pc c = Asleep \<Longrightarrow> gc_step os env thr sp c (c\<lparr>co_pc := Woken\<rparr>)"
| wake: "co_pc c = Woken \<Longrightarrow> gc_step os env thr sp c (gc_wake thr c)"
| broadcast: "co_pc c = Broadcast ab \<Longrightarrow> gc_step os env thr sp c (gc_broadcast ab c)"
| collect: "co_pc c = Collect ab \<Longrightarrow> reclaim_iteration os env ab (co_gc c) = Inr g \<Longrightarrow>
    gc_step os env thr sp c (c\<lparr>co_gc := g, co_pc := Lock\<rparr>)"

inductive client_step :: "int \<Rightarrow> nat \<Rightarrow> collector_t \<Rightarrow> collector_t \<Rightarrow> bool" for thr i where
  initiate: "co_cl c i = Outside \<Longrightarrow> (\<forall>ab. co_pc c \<noteq> Broadcast ab) \<Longrightarrow>
    forkscan_initiate_collection ab auto_run force c = Inr c' \<Longrightarrow>
    client_step thr i c (if auto_run > 0 then c'\<lparr>co_cl := (co_cl c')(i := Throttle)\<rparr> else c')"
| test: "co_cl c i = Throttle \<Longrightarrow> client_step thr i c (throttle_test thr i c)"
| wait: "co_cl c i = Check \<Longrightarrow> client_step thr i c (throttle_wait thr i c)"

definition co_init :: "gc_state \<Rightarrow> collector_t" where
  "co_init g = \<lparr>co_gc = g\<lparr>g_addr_buffer := 0, g_waiting_collects := 0\<rparr>, g_gc_waiting = True, co_pc = Lock, co_cl = (\<lambda>i. Outside)\<rparr>"

inductive co_reach :: "os_t \<Rightarrow> gc_env \<Rightarrow> int \<Rightarrow> bool \<Rightarrow> gc_state \<Rightarrow> collector_t \<Rightarrow> bool" for os env thr sp g where
  init: "co_reach os env thr sp g (co_init g)"
| gc: "co_reach os env thr sp g c \<Longrightarrow> gc_step os env thr sp c c' \<Longrightarrow> co_reach os env thr sp g c'"
| client: "co_reach os env thr sp g c \<Longrightarrow> client_step thr i c c' \<Longrightarrow> co_reach os env thr sp g c'"

inductive_cases gc_stepE: "gc_step os env thr sp c c'"
inductive_cases client_stepE: "client_step thr i c c'"

section \<open>The invariant\<close>

lemma reclaim_keeps: "reclaim_iteration os env ab g = Inr g' \<Longrightarrow>
    g_waiting_collects g' = g_waiting_collects g \<and> g_addr_buffer g' = g_addr_buffer g"
  unfolding reclaim_iteration_def Let_def
  by (auto simp del: release_list.simps elim!: bind_res_InrE split: if_split_asm prod.split_asm option.split_asm)

lemma initiate_unfold:
  assumes "forkscan_initiate_collection ab auto_run force c = Inr c'"
  shows "g_gc_waiting c' = g_gc_waiting c" "co_cl c' = co_cl c" "g_addr_buffer (co_gc c') = ab" "ab \<noteq> 0"
    "g_waiting_collects (co_gc c') = g_waiting_collects (co_gc c) + (if auto_run \<noteq> 0 \<or> force then 1 else 0)"
    "co_pc c' = (if g_gc_waiting c \<and> (auto_run \<noteq> 0 \<or> force) \<and> co_pc c = Asleep then Woken else co_pc c)"
proof -
  let ?g = "co_gc c" and ?an = "auto_run \<noteq> 0 \<or> force"
  obtain n st where n: "(if ?an then cint (g_waiting_collects ?g + 1) else Inr (g_waiting_collects ?g)) = Inr n"
    and st: "buf_modify ab (\<lambda>b. b\<lparr>ab_next := g_addr_buffer ?g\<rparr>) (gc_buf ?g) = Inr st"
    and c': "c' = (let c = c\<lparr>co_gc := ?g\<lparr>gc_buf := st, g_addr_buffer := ab, g_waiting_collects := n\<rparr>\<rparr> in
      if g_gc_waiting c \<and> ?an \<and> co_pc c = Asleep then c\<lparr>co_pc := Woken\<rparr> else c)"
    using assms unfolding forkscan_initiate_collection_def Let_def by (auto elim!: bind_res_InrE)
  have "n = g_waiting_collects ?g + (if ?an then 1 else 0)" using n by (auto simp: cint_def split: if_splits)
  then show "g_gc_waiting c' = g_gc_waiting c" "co_cl c' = co_cl c" "g_addr_buffer (co_gc c') = ab"
    "g_waiting_collects (co_gc c') = g_waiting_collects (co_gc c) + (if ?an then 1 else 0)"
    "co_pc c' = (if g_gc_waiting c \<and> ?an \<and> co_pc c = Asleep then Woken else co_pc c)"
    unfolding c' Let_def by (simp_all only: split: if_split) simp_all
  show "ab \<noteq> 0" using st by (auto simp: buf_modify_def modify_def ld_def)
qed

text \<open>Nobody sleeps while there is something to wake up for.\<close>

definition co_inv :: "int \<Rightarrow> bool \<Rightarrow> collector_t \<Rightarrow> bool" where
  "co_inv thr sp c \<longleftrightarrow> 0 \<le> g_waiting_collects (co_gc c) \<and>
     ((\<exists>i. co_cl c i = Sleeping) \<longrightarrow> thr \<le> g_waiting_collects (co_gc c) \<or> (\<exists>ab. co_pc c = Broadcast ab)) \<and>
     (co_pc c = Asleep \<longrightarrow> g_waiting_collects (co_gc c) = 0 \<and> g_gc_waiting c) \<and>
     (\<not> sp \<longrightarrow> (1 \<le> g_waiting_collects (co_gc c) \<or> co_pc c = Woken \<longrightarrow> g_addr_buffer (co_gc c) \<noteq> 0) \<and>
       (\<forall>ab. co_pc c = Broadcast ab \<or> co_pc c = Collect ab \<longrightarrow> ab \<noteq> 0))"

lemma gc_take_work_inv:
  assumes "co_inv thr sp c" "\<not> sp \<Longrightarrow> g_addr_buffer (co_gc c) \<noteq> 0" "\<forall>ab. co_pc c \<noteq> Broadcast ab"
  shows "co_inv thr sp (gc_take_work thr c)"
  using assms by (auto simp: co_inv_def gc_take_work_def Let_def)

lemma gc_step_inv:
  assumes "gc_step os env thr sp c c'" "co_inv thr sp c"
  shows "co_inv thr sp c'"
  using assms(1)
proof cases
  case check_work
  show ?thesis
  proof (cases "g_waiting_collects (co_gc c) < 1")
    case True
    then show ?thesis using assms(2) check_work by (auto simp: co_inv_def gc_check_work_def)
  next
    case False
    then have "co_inv thr sp (gc_take_work thr c)"
      using assms(2) check_work(2) by (intro gc_take_work_inv) (auto simp: co_inv_def)
    then show ?thesis using check_work(1) False by (simp add: gc_check_work_def)
  qed
next
  case wake
  have "co_inv thr sp (c\<lparr>g_gc_waiting := False\<rparr>)" using assms(2) wake(2) by (auto simp: co_inv_def)
  then show ?thesis unfolding wake(1) gc_wake_def
    by (rule gc_take_work_inv) (use assms(2) wake(2) in \<open>auto simp: co_inv_def\<close>)
next
  case (collect ab g)
  then show ?thesis using assms(2) reclaim_keeps [OF collect(3)] by (auto simp: co_inv_def)
qed (use assms(2) in \<open>auto simp: co_inv_def gc_broadcast_def split: if_splits\<close>)

lemma client_step_inv:
  assumes "client_step thr i c c'" "co_inv thr sp c"
  shows "co_inv thr sp c'"
  using assms(1)
proof cases
  case (initiate ab auto_run force c1)
  note u = initiate_unfold [OF initiate(4)]
  have "co_inv thr sp c1" unfolding co_inv_def u(1-3,5,6) using assms(2) initiate(3) u(4) by (auto simp: co_inv_def)
  then show ?thesis using initiate(1) by (auto simp: co_inv_def split: if_splits)
qed (use assms(2) in \<open>auto simp: co_inv_def throttle_test_def throttle_wait_def split: if_splits\<close>)

lemma co_reach_inv: "co_reach os env thr sp g c \<Longrightarrow> co_inv thr sp c"
proof (induction rule: co_reach.induct)
  case init
  show ?case by (simp add: co_inv_def co_init_def)
qed (blast intro: gc_step_inv client_step_inv)+

section \<open>Properties\<close>

text \<open>How many moves the collector is away from waking the threads that sleep.\<close>

definition gc_dist :: "collector_t \<Rightarrow> nat" where
  "gc_dist c = (case co_pc c of Collect ab \<Rightarrow> 3 | Lock \<Rightarrow> 2 | Woken \<Rightarrow> 2 | Broadcast ab \<Rightarrow> 1 | Asleep \<Rightarrow> 0)"

lemma gc_nears:
  assumes "gc_step os env thr sp c c'" "co_inv thr sp c" "co_cl c i = Sleeping" "1 \<le> thr"
  shows "co_cl c' i \<noteq> Sleeping \<or> gc_dist c' < gc_dist c"
  using assms(1)
proof cases
  case check_work
  then show ?thesis using assms(2-4) by (auto simp: co_inv_def gc_check_work_def gc_take_work_def gc_dist_def Let_def)
next
  case wake
  then have "thr \<le> g_waiting_collects (co_gc c)" using assms(2,3) by (auto simp: co_inv_def)
  then show ?thesis using wake by (simp add: gc_wake_def gc_take_work_def gc_dist_def Let_def)
next
  case spurious
  then show ?thesis using assms(2-4) by (auto simp: co_inv_def)
qed (auto simp: gc_broadcast_def gc_dist_def)

lemma client_keeps:
  assumes "client_step thr j c c'" "co_cl c i = Sleeping" "co_pc c \<noteq> Asleep"
  shows "co_cl c' i = Sleeping \<and> gc_dist c' = gc_dist c"
  using assms(1)
proof cases
  case (initiate ab auto_run force c1)
  note u = initiate_unfold [OF initiate(4)]
  have "i \<noteq> j" "gc_dist c1 = gc_dist c" using initiate(2) assms(2,3) u(6) by (auto simp: gc_dist_def)
  then show ?thesis using initiate(1) assms(2) u(2) by (auto simp: gc_dist_def)
qed (use assms(2) in \<open>auto simp: throttle_test_def throttle_wait_def gc_dist_def\<close>)

text \<open>
  C11: no thread is throttled for ever. While a thread sleeps in \<^verbatim>\<open>forkscan_initiate_collection\<close>, the collector
  is awake, every move of the collector wakes the thread or brings the collector nearer to the
  broadcast, no move of another thread takes it away from there, and the collector can move unless
  its collection has failed. This needs a throttling limit of at least one, which the
  configuration guarantees.
\<close>

theorem throttled_clients_woken:
  assumes "1 \<le> thr" and "co_reach os env thr sp g c" and "co_cl c i = Sleeping"
  shows "co_pc c \<noteq> Asleep \<and>
    (\<forall>c'. gc_step os env thr sp c c' \<longrightarrow> co_cl c' i \<noteq> Sleeping \<or> gc_dist c' < gc_dist c) \<and>
    (\<forall>j c'. client_step thr j c c' \<longrightarrow> co_cl c' i = Sleeping \<and> gc_dist c' = gc_dist c) \<and>
    ((\<exists>c'. gc_step os env thr sp c c') \<or>
      (\<exists>ab e. co_pc c = Collect ab \<and> reclaim_iteration os env ab (co_gc c) = Inl e))"
proof -
  note inv = co_reach_inv [OF assms(2)]
  have awake: "co_pc c \<noteq> Asleep" using inv assms(1,3) by (auto simp: co_inv_def)
  have "(\<exists>c'. gc_step os env thr sp c c') \<or> (\<exists>ab e. co_pc c = Collect ab \<and> reclaim_iteration os env ab (co_gc c) = Inl e)"
  proof (cases "co_pc c")
    case (Collect ab)
    then show ?thesis by (cases "reclaim_iteration os env ab (co_gc c)") (auto intro: gc_step.collect)
  qed (use awake in \<open>auto intro: gc_step.intros\<close>)
  then show ?thesis using awake gc_nears [OF _ inv assms(3,1)] client_keeps [OF _ assms(3) awake] by blast
qed

text \<open>
  C13: the collector never sleeps over work that has been announced, and when there are no spurious
  wakeups it never starts a collection without a buffer.
\<close>

theorem collector_has_work:
  assumes "co_reach os env thr sp g c"
  shows "(co_pc c = Asleep \<longrightarrow> g_waiting_collects (co_gc c) = 0) \<and>
    (\<not> sp \<longrightarrow> (\<forall>ab. co_pc c = Collect ab \<longrightarrow> ab \<noteq> 0))"
  using co_reach_inv [OF assms] by (auto simp: co_inv_def)

text \<open>The moves up to a sleeping collector.\<close>

lemma asleep_reach: "co_reach os env thr sp g ((co_init g)\<lparr>co_pc := Asleep\<rparr>)"
proof -
  have "gc_step os env thr sp (co_init g) (gc_check_work thr (co_init g))" by (rule gc_step.check_work) (simp add: co_init_def)
  then show ?thesis using co_reach.gc [OF co_reach.init] by (simp add: gc_check_work_def co_init_def)
qed

text \<open>
  C37: \<^verbatim>\<open>pthread_cond_wait\<close> stands under an \<open>if\<close>. A spurious wakeup in front of the first collection starts a
  collection of the null pointer, which is then dereferenced.
\<close>

theorem spurious_wakeup_null:
  assumes "1 \<le> thr" and "g_uncollected_data g = 0"
  shows "\<exists>c. co_reach os env thr True g c \<and> co_pc c = Collect 0 \<and>
    reclaim_iteration os env 0 (co_gc c) = Inl Null_deref"
proof -
  let ?a = "(co_init g)\<lparr>co_pc := Asleep\<rparr>" and ?w = "(co_init g)\<lparr>co_pc := Woken\<rparr>"
  have "gc_step os env thr True ?a (?a\<lparr>co_pc := Woken\<rparr>)" by (rule gc_step.spurious) simp_all
  then have "co_reach os env thr True g ?w" using co_reach.gc [OF asleep_reach] by simp
  moreover have "gc_step os env thr True ?w (gc_wake thr ?w)" by (rule gc_step.wake) simp
  ultimately have "co_reach os env thr True g (gc_wake thr ?w)" by (rule co_reach.gc)
  moreover have "co_pc (gc_wake thr ?w) = Collect 0" "g_uncollected_data (co_gc (gc_wake thr ?w)) = 0"
    using assms by (simp_all add: gc_wake_def gc_take_work_def co_init_def Let_def)
  moreover have "reclaim_iteration os env 0 h = Inl Null_deref" if "g_uncollected_data h = 0" for h
    using that by (simp add: reclaim_iteration_def aggregate_addrs_def ld_def)
  ultimately show ?thesis by blast
qed

definition sample_gc :: "buffer_state \<Rightarrow> gc_state" where
  "sample_gc st = \<lparr>gc_buf = st, g_addr_buffer = 0, g_uncollected_data = 0, g_waiting_collects = 0,
     g_frees_required = 8, g_cleanup_counter = 0, g_scan_max = 0\<rparr>"

definition sample_env :: gc_env where
  "sample_env = \<lparr>ge_pipe = True, ge_fork = True, ge_scan = (\<lambda>w d. (w, None))\<rparr>"

theorem spurious_wakeup_null_witness:
  "\<exists>c. co_reach sample_os sample_env 16 True (sample_gc buffer_init) c \<and> co_pc c = Collect 0 \<and>
     reclaim_iteration sample_os sample_env 0 (co_gc c) = Inl Null_deref"
  by (rule spurious_wakeup_null) (simp_all add: sample_gc_def)

theorem collector_has_work_witness:
  "\<exists>c. co_reach sample_os sample_env 16 False (sample_gc buffer_init) c \<and> co_pc c = Asleep \<and> g_waiting_collects (co_gc c) = 0"
proof -
  let ?c = "(co_init (sample_gc buffer_init))\<lparr>co_pc := Asleep\<rparr>"
  have "co_reach sample_os sample_env 16 False (sample_gc buffer_init) ?c" by (rule asleep_reach)
  moreover from collector_has_work [OF this] have "g_waiting_collects (co_gc ?c) = 0" by simp
  ultimately show ?thesis by (intro exI [of _ ?c]) simp
qed

theorem throttled_clients_woken_witness:
  "\<exists>st c. co_reach sample_os sample_env 1 False (sample_gc st) c \<and> co_cl c 0 = Sleeping \<and> co_pc c = Lock \<and>
     (\<exists>c'. gc_step sample_os sample_env 1 False c c')"
proof -
  obtain st x where st: "buffer_inv st [] [] []" "map_of (bf_store st) x = Some (small_buffer 0x100)" by (rule sample_buffers) blast
  have x: "x \<noteq> 0" using st by (auto simp: buffer_inv_def objects_inv_def)
  let ?c = "co_init (sample_gc st)" and ?R = "co_reach sample_os sample_env 1 False (sample_gc st)"
  obtain c1 where c1: "forkscan_initiate_collection x 1 False ?c = Inr c1"
    using st(2) x by (simp add: forkscan_initiate_collection_def co_init_def sample_gc_def buf_modify_def cint_def)
  note u = initiate_unfold [OF c1]
  let ?c2 = "c1\<lparr>co_cl := (co_cl c1)(0 := Throttle)\<rparr>"
  let ?e = "throttle_wait 1 0 (throttle_test 1 0 ?c2)"
  have w: "g_waiting_collects (co_gc c1) = 1" "co_pc c1 = Lock" using u(5,6) by (simp_all add: co_init_def sample_gc_def)
  have "client_step 1 0 ?c (if (1::int) > 0 then ?c2 else c1)" by (rule client_step.initiate [OF _ _ c1]) (simp_all add: co_init_def)
  then have "?R ?c2" using co_reach.client [OF co_reach.init] by simp
  moreover have "client_step 1 0 ?c2 (throttle_test 1 0 ?c2)" by (rule client_step.test) simp
  ultimately have "?R (throttle_test 1 0 ?c2)" by (rule co_reach.client)
  moreover have "client_step 1 0 (throttle_test 1 0 ?c2) (throttle_wait 1 0 (throttle_test 1 0 ?c2))"
    by (rule client_step.wait) (simp add: throttle_test_def w)
  ultimately have r: "?R ?e" by (rule co_reach.client)
  have e: "co_cl ?e 0 = Sleeping" "co_pc ?e = Lock" using w by (simp_all add: throttle_test_def throttle_wait_def)
  have "\<exists>c'. gc_step sample_os sample_env 1 False ?e c'" using throttled_clients_woken [OF _ r e(1)] e(2) by simp
  with r e show ?thesis by (intro exI [of _ st] exI [of _ ?e]) blast
qed

end
