(* ===== verification/Handshake.thy ===== *)
theory Handshake
  imports Prelude
begin

text \<open>
  Stopping the threads for a snapshot: the collector's part in \<^verbatim>\<open>reclaim_iteration\<close> and
  \<^verbatim>\<open>forkscan_proc_signal\<close>, the threads' part in \<^verbatim>\<open>signal_handler\<close>, \<^verbatim>\<open>forkscan_malloc\<close>, \<^verbatim>\<open>forkscan_free\<close> and
  \<^verbatim>\<open>forkscan_acknowledge_signal\<close>. A thread runs its own code, or is inside the allocator, or has left it and
  is about to test whether a signal came meanwhile, or acknowledges. The handler can interrupt it
  wherever it is, and runs with the signal blocked, so the place it returns to is part of the state.
\<close>

section \<open>The code\<close>

datatype hs_pc = User | Malloc | Leave | Ack bool hs_pc | Add size_t bool hs_pc | Spin size_t bool hs_pc

record hs_thread =
  th_active :: bool
  th_pending :: bool
  g_in_malloc :: bool
  g_waiting_to_fork :: bool
  th_pc :: hs_pc

text \<open>Whether a handler is running: the flag of a frame tells that the handler made the call.\<close>

fun blocked :: "hs_pc \<Rightarrow> bool" where
  "blocked (Ack h k) = (h \<or> blocked k)"
| "blocked (Add old h k) = (h \<or> blocked k)"
| "blocked (Spin old h k) = (h \<or> blocked k)"
| "blocked _ = False"

definition signal_handler :: "hs_thread \<Rightarrow> hs_thread" where
  "signal_handler th =
     (if g_in_malloc th then th\<lparr>g_waiting_to_fork := True\<rparr> else th\<lparr>th_pc := Ack True (th_pc th)\<rparr>)"

text \<open>The calls of the allocator and what follows them.\<close>

definition enter_malloc :: "hs_thread \<Rightarrow> hs_thread" where
  "enter_malloc th = th\<lparr>g_in_malloc := True, th_pc := Malloc\<rparr>"

definition leave_malloc :: "hs_thread \<Rightarrow> hs_thread" where
  "leave_malloc th = th\<lparr>g_in_malloc := False, th_pc := Leave\<rparr>"

definition test_waiting :: "hs_thread \<Rightarrow> hs_thread" where
  "test_waiting th =
     (if g_waiting_to_fork th then th\<lparr>g_waiting_to_fork := False, th_pc := Ack False User\<rparr> else th\<lparr>th_pc := User\<rparr>)"

text \<open>Moves of one thread, with the counter of collections and the number of signals received.\<close>

inductive th_step :: "size_t \<Rightarrow> hs_thread \<Rightarrow> int \<Rightarrow> hs_thread \<Rightarrow> int \<Rightarrow> bool" for counter where
  deliver: "th_pending th \<Longrightarrow> \<not> blocked (th_pc th) \<Longrightarrow>
    th_step counter th r (signal_handler (th\<lparr>th_pending := False\<rparr>)) r"
| enter: "th_pc th = User \<Longrightarrow> th_step counter th r (enter_malloc th) r"
| leave: "th_pc th = Malloc \<Longrightarrow> th_step counter th r (leave_malloc th) r"
| test: "th_pc th = Leave \<Longrightarrow> th_step counter th r (test_waiting th) r"
| read: "th_pc th = Ack h k \<Longrightarrow> th_step counter th r (th\<lparr>th_pc := Add counter h k\<rparr>) r"
| add: "th_pc th = Add old h k \<Longrightarrow> th_step counter th r (th\<lparr>th_pc := Spin old h k\<rparr>) (r + 1)"
| spin: "th_pc th = Spin old h k \<Longrightarrow> old \<noteq> counter \<Longrightarrow> th_step counter th r (th\<lparr>th_pc := k\<rparr>) r"
| start: "th_pc th = User \<Longrightarrow> th_step counter th r (th\<lparr>th_active := True\<rparr>) r"
| exit: "th_pc th = User \<Longrightarrow> th_step counter th r (th\<lparr>th_active := False\<rparr>) r"

text \<open>
  The collector: signals are sent to the threads of the list one after the other, each counted unless
  \<^verbatim>\<open>pthread_kill\<close> finds no thread. \<open>hs_sent\<close> records who was signalled, \<open>hs_round\<close> counts the snapshots.
\<close>

datatype hs_gc = Idle | Send nat int | Wait int | Fork

record hs_state =
  hs_thread :: "nat \<Rightarrow> hs_thread"
  g_received_signal :: int
  hs_counter :: size_t
  hs_gc :: hs_gc
  hs_sent :: "nat set"
  hs_round :: nat

definition send_signal :: "nat \<Rightarrow> bool \<Rightarrow> int \<Rightarrow> hs_state \<Rightarrow> hs_state" where
  "send_signal k esrch n s =
     (let th = hs_thread s k in
      if th_active th \<and> \<not> esrch
      then s\<lparr>hs_thread := (hs_thread s)(k := th\<lparr>th_pending := True\<rparr>), hs_gc := Send (k + 1) (n + 1), hs_sent := insert k (hs_sent s)\<rparr>
      else s\<lparr>hs_gc := Send (k + 1) n\<rparr>)"

inductive hs_step :: "nat \<Rightarrow> hs_state \<Rightarrow> hs_state \<Rightarrow> bool" for N where
  thread: "i < N \<Longrightarrow> th_step (hs_counter s) (hs_thread s i) (g_received_signal s) th r \<Longrightarrow>
    hs_step N s (s\<lparr>hs_thread := (hs_thread s)(i := th), g_received_signal := r\<rparr>)"
| reset: "hs_gc s = Idle \<Longrightarrow> hs_step N s (s\<lparr>g_received_signal := 0, hs_gc := Send 0 0\<rparr>)"
| send: "hs_gc s = Send k n \<Longrightarrow> k < N \<Longrightarrow> hs_step N s (send_signal k esrch n s)"
| sent: "hs_gc s = Send N n \<Longrightarrow> hs_step N s (s\<lparr>hs_gc := Wait n\<rparr>)"
| pass: "hs_gc s = Wait n \<Longrightarrow> \<not> g_received_signal s < n \<Longrightarrow> hs_step N s (s\<lparr>hs_gc := Fork\<rparr>)"
| fork: "hs_gc s = Fork \<Longrightarrow>
    hs_step N s (s\<lparr>hs_counter := hs_counter s + 1, hs_gc := Idle, hs_sent := {}, hs_round := hs_round s + 1\<rparr>)"

definition hs_init :: hs_state where
  "hs_init = \<lparr>hs_thread = (\<lambda>i. \<lparr>th_active = False, th_pending = False, g_in_malloc = False, g_waiting_to_fork = False, th_pc = User\<rparr>),
     g_received_signal = 0, hs_counter = 0, hs_gc = Idle, hs_sent = {}, hs_round = 0\<rparr>"

inductive hs_reach :: "nat \<Rightarrow> hs_state \<Rightarrow> bool" for N where
  init: "hs_reach N hs_init"
| step: "hs_reach N s \<Longrightarrow> hs_step N s s' \<Longrightarrow> hs_reach N s'"

section \<open>The invariant of one thread\<close>

text \<open>Nothing to acknowledge: only frames that still spin on an old value of the counter.\<close>

fun calm :: "nat \<Rightarrow> hs_pc \<Rightarrow> bool" where
  "calm n (Spin old h k) = ((\<exists>r<n. old = of_nat r) \<and> k \<noteq> Malloc \<and> calm n k)"
| "calm n (Ack h k) = False"
| "calm n (Add old h k) = False"
| "calm n _ = True"

definition spinning :: "nat \<Rightarrow> hs_thread \<Rightarrow> bool" where
  "spinning n th \<longleftrightarrow> \<not> th_pending th \<and> \<not> g_waiting_to_fork th \<and>
     (\<exists>h k. th_pc th = Spin (of_nat n) h k \<and> k \<noteq> Malloc \<and> calm n k)"

definition due :: "nat \<Rightarrow> hs_thread \<Rightarrow> bool" where
  "due n th \<longleftrightarrow> (th_pending th \<and> \<not> g_waiting_to_fork th \<and> calm n (th_pc th)) \<or>
     (\<not> th_pending th \<and> g_waiting_to_fork th \<and> (th_pc th = Malloc \<or> th_pc th = Leave)) \<or>
     (\<not> th_pending th \<and> \<not> g_waiting_to_fork th \<and>
       (\<exists>h k. (th_pc th = Ack h k \<or> th_pc th = Add (of_nat n) h k) \<and> k \<noteq> Malloc \<and> calm n k))"

definition th_ok :: "nat \<Rightarrow> bool \<Rightarrow> hs_thread \<Rightarrow> bool" where
  "th_ok n sent th \<longleftrightarrow> (g_in_malloc th \<longleftrightarrow> th_pc th = Malloc) \<and>
     (if sent then due n th \<or> spinning n th
      else \<not> th_pending th \<and> \<not> g_waiting_to_fork th \<and> calm n (th_pc th))"

lemma of_nat_old: "r < n \<Longrightarrow> n < 2 ^ 64 \<Longrightarrow> (of_nat r :: size_t) \<noteq> of_nat n"
  by (simp add: word_of_nat_eq_iff take_bit_nat_eq_self)

lemma calm_mono: "calm n k \<Longrightarrow> n \<le> m \<Longrightarrow> calm m k"
  by (induction n k rule: calm.induct) (auto dest: less_le_trans)

lemma calm_stale: "calm n (th_pc th) \<Longrightarrow> n < 2 ^ 64 \<Longrightarrow> \<not> spinning n th"
  using of_nat_old by (fastforce simp: spinning_def)

lemma th_step_ok:
  assumes "th_step (of_nat n) th r th' r'" "th_ok n sent th" "n < 2 ^ 64"
  shows "th_ok n sent th' \<and> (spinning n th \<longrightarrow> spinning n th') \<and>
    r' = r + (if spinning n th' then 1 else 0) - (if spinning n th then 1 else 0) \<and> (spinning n th' \<longrightarrow> sent)"
  using assms(1)
proof cases
  case deliver
  have d: "sent" "calm n (th_pc th)" "\<not> g_waiting_to_fork th" "g_in_malloc th \<longleftrightarrow> th_pc th = Malloc"
    using assms(2) deliver(3) by (auto simp: th_ok_def due_def spinning_def split: if_splits)
  have "\<not> spinning n th" "\<not> spinning n (signal_handler (th\<lparr>th_pending := False\<rparr>))"
    using deliver(3) by (auto simp: spinning_def signal_handler_def)
  moreover have "th_ok n sent (signal_handler (th\<lparr>th_pending := False\<rparr>))"
    using d by (auto simp: th_ok_def due_def signal_handler_def)
  ultimately show ?thesis using deliver(1,2) by simp
next
  case (spin old h k)
  have ns: "\<not> spinning n th" using spin(3,4) by (auto simp: spinning_def)
  then have c: "calm n (Spin old h k)" "\<not> g_waiting_to_fork th" "\<not> g_in_malloc th"
    using assms(2) spin(3) by (auto simp: th_ok_def due_def split: if_splits)
  have ok: "th_ok n sent (th\<lparr>th_pc := k\<rparr>)"
    using assms(2) spin(3) c ns by (auto simp: th_ok_def due_def split: if_splits)
  have "\<not> spinning n (th\<lparr>th_pc := k\<rparr>)" using calm_stale [of n "th\<lparr>th_pc := k\<rparr>"] c(1) assms(3) by simp
  then show ?thesis using spin(1,2) ok ns by simp
next
  case (add old h k)
  then show ?thesis using assms(2) by (auto simp: th_ok_def due_def spinning_def split: if_splits)
qed (use assms in \<open>auto simp: th_ok_def due_def spinning_def enter_malloc_def leave_malloc_def test_waiting_def split: if_splits\<close>)

section \<open>The invariant of the handshake\<close>

definition stopped :: "hs_state \<Rightarrow> nat set" where
  "stopped s = {i \<in> hs_sent s. spinning (hs_round s) (hs_thread s i)}"

definition hs_inv :: "nat \<Rightarrow> hs_state \<Rightarrow> bool" where
  "hs_inv N s \<longleftrightarrow> hs_counter s = of_nat (hs_round s) \<and> hs_sent s \<subseteq> {..<N} \<and>
     (\<forall>i. th_ok (hs_round s) (i \<in> hs_sent s) (hs_thread s i)) \<and>
     (hs_gc s \<noteq> Idle \<longrightarrow> g_received_signal s = int (card (stopped s))) \<and>
     (case hs_gc s of Idle \<Rightarrow> hs_sent s = {} | Send k n \<Rightarrow> hs_sent s \<subseteq> {..<k} \<and> n = int (card (hs_sent s))
      | Wait n \<Rightarrow> n = int (card (hs_sent s)) | Fork \<Rightarrow> stopped s = hs_sent s)"

lemma stopped_finite: "hs_inv N s \<Longrightarrow> finite (hs_sent s) \<and> finite (stopped s) \<and> stopped s \<subseteq> hs_sent s"
  using finite_subset [of "hs_sent s" "{..<N}"] finite_subset [of "stopped s" "hs_sent s"] by (auto simp: hs_inv_def stopped_def)

lemma thread_step_inv:
  assumes inv: "hs_inv N s" and i: "i < N" and st: "th_step (hs_counter s) (hs_thread s i) (g_received_signal s) th r"
    and n: "hs_round s < 2 ^ 64"
  shows "hs_inv N (s\<lparr>hs_thread := (hs_thread s)(i := th), g_received_signal := r\<rparr>)"
proof -
  let ?n = "hs_round s" and ?s = "s\<lparr>hs_thread := (hs_thread s)(i := th), g_received_signal := r\<rparr>"
  have step: "th_step (of_nat ?n) (hs_thread s i) (g_received_signal s) th r" "th_ok ?n (i \<in> hs_sent s) (hs_thread s i)"
    using st inv by (simp_all add: hs_inv_def)
  note ok = th_step_ok [OF step n]
  have eq: "stopped ?s = (if spinning ?n th then insert i (stopped s) else stopped s)"
    using ok by (auto simp: stopped_def)
  have fin: "finite (stopped s)" "stopped s \<subseteq> hs_sent s" using stopped_finite [OF inv] by auto
  have "i \<in> stopped s \<longleftrightarrow> spinning ?n (hs_thread s i)" using ok by (auto simp: stopped_def)
  then have "int (card (stopped ?s)) = int (card (stopped s)) + (if spinning ?n th then 1 else 0) - (if spinning ?n (hs_thread s i) then 1 else 0)"
    using fin(1) ok eq by (auto simp: insert_absorb)
  then have cnt: "r = int (card (stopped ?s))" if "hs_gc s \<noteq> Idle"
    using inv ok that unfolding hs_inv_def by linarith
  have "stopped ?s = hs_sent s" if "hs_gc s = Fork" using inv that eq ok fin(2) by (auto simp: hs_inv_def split: if_splits)
  with inv ok cnt show ?thesis by (auto simp: hs_inv_def split: hs_gc.splits)
qed

lemma send_inv:
  assumes inv: "hs_inv N s" and gc: "hs_gc s = Send k n" "k < N" and r: "hs_round s < 2 ^ 64"
  shows "hs_inv N (send_signal k esrch n s)"
proof (cases "th_active (hs_thread s k) \<and> \<not> esrch")
  case True
  let ?th = "(hs_thread s k)\<lparr>th_pending := True\<rparr>" and ?n = "hs_round s"
  let ?s = "s\<lparr>hs_thread := (hs_thread s)(k := ?th), hs_gc := Send (k + 1) (n + 1), hs_sent := insert k (hs_sent s)\<rparr>"
  have out: "k \<notin> hs_sent s" "n = int (card (hs_sent s))" "hs_sent s \<subseteq> {..<k}" using inv gc by (auto simp: hs_inv_def)
  then have k: "th_ok ?n False (hs_thread s k)" using inv unfolding hs_inv_def by metis
  then have ok: "th_ok ?n True ?th" "\<not> spinning ?n ?th" by (auto simp: th_ok_def due_def spinning_def)
  have st: "stopped ?s = stopped s" using out(1) ok(2) by (auto simp: stopped_def)
  have "card (insert k (hs_sent s)) = Suc (card (hs_sent s))" using out(1) stopped_finite [OF inv] by simp
  then have "hs_inv N ?s" using inv gc out ok(1) unfolding hs_inv_def st by auto
  then show ?thesis using True by (simp add: send_signal_def Let_def)
next
  case False
  have "stopped (s\<lparr>hs_gc := Send (k + 1) n\<rparr>) = stopped s" by (simp add: stopped_def)
  then have "hs_inv N (s\<lparr>hs_gc := Send (k + 1) n\<rparr>)" using inv gc by (auto simp: hs_inv_def)
  then show ?thesis using False by (auto simp: send_signal_def Let_def)
qed

lemma calm_Suc: "calm n k \<Longrightarrow> calm (Suc n) k" "calm n k \<Longrightarrow> k \<noteq> Malloc \<Longrightarrow> calm (Suc n) (Spin (of_nat n) h k)"
  using calm_mono [of n k "Suc n"] by auto

lemma fork_ok: "th_ok n sent th \<Longrightarrow> (sent \<longrightarrow> spinning n th) \<Longrightarrow> th_ok (Suc n) False th"
  by (auto simp: th_ok_def spinning_def calm_Suc simp del: calm.simps split: if_splits)

lemma hs_step_inv:
  assumes "hs_step N s s'" "hs_inv N s" "hs_round s < 2 ^ 64"
  shows "hs_inv N s'"
  using assms(1)
proof cases
  case (thread i th r)
  then show ?thesis using thread_step_inv assms by blast
next
  case reset
  then have "hs_sent s = {}" using assms(2) by (simp add: hs_inv_def)
  then have "stopped s' = {}" using reset by (simp add: stopped_def)
  then show ?thesis using assms(2) reset by (auto simp: hs_inv_def)
next
  case (send k n esrch)
  then show ?thesis using send_inv [OF assms(2) send(2,3) assms(3)] by simp
next
  case (sent n)
  have "stopped (s\<lparr>hs_gc := Wait n\<rparr>) = stopped s" by (simp add: stopped_def)
  then show ?thesis using assms(2) sent by (simp add: hs_inv_def)
next
  case (pass n)
  have st: "stopped (s\<lparr>hs_gc := Fork\<rparr>) = stopped s" by (simp add: stopped_def)
  have "card (hs_sent s) \<le> card (stopped s)" using assms(2) pass by (simp add: hs_inv_def)
  then have "stopped s = hs_sent s" using stopped_finite [OF assms(2)] by (simp add: card_seteq)
  then show ?thesis using assms(2) pass st by (simp add: hs_inv_def)
next
  case fork
  have "th_ok (Suc (hs_round s)) False (hs_thread s i)" for i
  proof (rule fork_ok)
    show "th_ok (hs_round s) (i \<in> hs_sent s) (hs_thread s i)" using assms(2) by (simp add: hs_inv_def)
    show "i \<in> hs_sent s \<longrightarrow> spinning (hs_round s) (hs_thread s i)" using assms(2) fork(2) by (auto simp: hs_inv_def stopped_def)
  qed
  then show ?thesis using assms(2) fork by (simp add: hs_inv_def)
qed

lemma round_mono: "hs_step N s s' \<Longrightarrow> hs_round s \<le> hs_round s'"
  by (cases rule: hs_step.cases) (auto simp: send_signal_def Let_def)

lemma hs_reach_inv: "hs_reach N s \<Longrightarrow> hs_round s < 2 ^ 64 \<Longrightarrow> hs_inv N s"
proof (induction rule: hs_reach.induct)
  case init
  show ?case by (simp add: hs_inv_def hs_init_def th_ok_def stopped_def)
next
  case (step s s')
  then show ?case using hs_step_inv round_mono by (metis le_less_trans)
qed

section \<open>Progress of a signalled thread\<close>

text \<open>
  How many moves a signalled thread is away from the loop of \<^verbatim>\<open>forkscan_acknowledge_signal\<close>, with those
  it makes before its signal is delivered left out. A thread for which the signal were lost would
  have the largest value and no way down.
\<close>

fun frames :: "hs_pc \<Rightarrow> nat" where
  "frames (Ack h k) = Suc (frames k)"
| "frames (Add old h k) = Suc (frames k)"
| "frames (Spin old h k) = Suc (frames k)"
| "frames _ = 0"

definition to_go :: "nat \<Rightarrow> hs_thread \<Rightarrow> nat" where
  "to_go n th =
     (if spinning n th then 0
      else if th_pending th then 5 + frames (th_pc th)
      else case th_pc th of Add old h k \<Rightarrow> 1 | Ack h k \<Rightarrow> 2 | Leave \<Rightarrow> 3 | Malloc \<Rightarrow> 4 | _ \<Rightarrow> 6)"

lemma to_go_eq_0: "to_go n th = 0 \<longleftrightarrow> spinning n th"
  by (simp add: to_go_def split: hs_pc.splits)

lemma to_go_pos: "0 < to_go n th \<longleftrightarrow> \<not> spinning n th"
  using to_go_eq_0 [of n th] by auto

lemma to_go_step:
  assumes "th_step (of_nat n) th r th' r'" "th_ok n True th" "n < 2 ^ 64"
  shows "to_go n th' \<le> to_go n th" "\<not> (th_pending th \<and> th_pending th') \<Longrightarrow> to_go n th \<noteq> 0 \<Longrightarrow> to_go n th' < to_go n th"
proof -
  note next_ok = th_step_ok [OF assms]
  have ok': "th_ok n True th'" and keep: "spinning n th \<longrightarrow> spinning n th'" using next_ok by auto
  have "to_go n th' \<le> to_go n th \<and> (\<not> (th_pending th \<and> th_pending th') \<longrightarrow> to_go n th \<noteq> 0 \<longrightarrow> to_go n th' < to_go n th)"
  proof (cases "spinning n th")
    case True
    then show ?thesis using keep by (simp add: to_go_def)
  next
    case False
    then have due: "due n th" using assms(2) by (simp add: th_ok_def)
    have ok: "g_in_malloc th \<longleftrightarrow> th_pc th = Malloc" using assms(2) by (simp add: th_ok_def)
    have due': "spinning n th' \<or> due n th'" using ok' by (auto simp: th_ok_def)
    from assms(1) show ?thesis
      by cases (use False due due' ok in \<open>auto simp: to_go_def due_def signal_handler_def enter_malloc_def leave_malloc_def test_waiting_def
        spinning_def split: if_splits hs_pc.splits\<close>)
  qed
  then show "to_go n th' \<le> to_go n th" "\<not> (th_pending th \<and> th_pending th') \<Longrightarrow> to_go n th \<noteq> 0 \<Longrightarrow> to_go n th' < to_go n th" by blast+
qed

lemma to_go_move:
  assumes "th_ok n True th" "n < 2 ^ 64" "to_go n th \<noteq> 0"
  shows "\<exists>th' r'. th_step (of_nat n) th r th' r' \<and> to_go n th' < to_go n th"
proof -
  have due: "due n th" using assms(1,3) by (auto simp: th_ok_def to_go_eq_0)
  show ?thesis
  proof (cases "th_pending th")
    case True
    then have calm: "calm n (th_pc th)" using due by (auto simp: due_def)
    show ?thesis
    proof (cases "blocked (th_pc th)")
      case False
      have "th_step (of_nat n) th r (signal_handler (th\<lparr>th_pending := False\<rparr>)) r" using True False by (rule th_step.deliver)
      moreover have "\<not> th_pending (signal_handler (th\<lparr>th_pending := False\<rparr>))" by (simp add: signal_handler_def)
      ultimately show ?thesis using to_go_step(2) [OF _ assms(1,2)] assms(3) by blast
    next
      case blocked: True
      then obtain old h k where pc: "th_pc th = Spin old h k" using calm by (cases "th_pc th") auto
      have "old \<noteq> of_nat n" using calm pc of_nat_old assms(2) by auto
      then have "th_step (of_nat n) th r (th\<lparr>th_pc := k\<rparr>) r" by (rule th_step.spin [OF pc])
      moreover have "to_go n (th\<lparr>th_pc := k\<rparr>) < to_go n th" using True pc by (simp add: to_go_def spinning_def)
      ultimately show ?thesis by blast
    qed
  next
    case False
    have "\<exists>th' r'. th_step (of_nat n) th r th' r'"
      using due False by (auto simp: due_def intro: th_step.leave th_step.test th_step.read th_step.add)
    then show ?thesis using to_go_step(2) [OF _ assms(1,2)] assms(3) False by blast
  qed
qed

section \<open>Properties\<close>

text \<open>
  C9: the snapshot is taken with every thread that was signalled standing still. When the collector
  forks, each of them is in the loop of \<^verbatim>\<open>forkscan_acknowledge_signal\<close> with the present value of the
  counter, which it cannot leave, and none is inside the allocator.
\<close>

theorem threads_stopped_at_fork:
  assumes "hs_reach N s" and "hs_round s < 2 ^ 64" and "hs_gc s = Fork" and "i \<in> hs_sent s"
  shows "(\<exists>h k. th_pc (hs_thread s i) = Spin (hs_counter s) h k) \<and> \<not> g_in_malloc (hs_thread s i) \<and>
    (\<forall>th r. \<not> th_step (hs_counter s) (hs_thread s i) (g_received_signal s) th r)"
proof -
  have inv: "hs_inv N s" by (rule hs_reach_inv [OF assms(1,2)])
  then have "stopped s = hs_sent s" "th_ok (hs_round s) (i \<in> hs_sent s) (hs_thread s i)" "hs_counter s = of_nat (hs_round s)"
    using assms(3) by (simp_all add: hs_inv_def)
  then have sp: "spinning (hs_round s) (hs_thread s i)" "th_ok (hs_round s) True (hs_thread s i)" "hs_counter s = of_nat (hs_round s)"
    using assms(4) by (auto simp: stopped_def)
  then have pc: "\<exists>h k. th_pc (hs_thread s i) = Spin (hs_counter s) h k" "\<not> th_pending (hs_thread s i)" by (auto simp: spinning_def)
  moreover have "\<not> g_in_malloc (hs_thread s i)" using sp(2) pc(1) by (auto simp: th_ok_def)
  moreover have "\<not> th_step (hs_counter s) (hs_thread s i) (g_received_signal s) th r" for th r
  proof
    assume "th_step (hs_counter s) (hs_thread s i) (g_received_signal s) th r"
    then show False by cases (use pc in auto)
  qed
  ultimately show ?thesis by blast
qed

text \<open>
  C10: the handshake cannot hang, as long as the system delivers signals. While the collector waits for
  \<open>n\<close> acknowledgements and has fewer, some signalled thread is not yet stopped; no step of anybody takes
  a signalled thread further away from stopping; each that is not stopped has a move that brings it nearer,
  and every move of it does, except those it makes while its signal is still to be delivered. And a thread
  that waits for a snapshot that has been taken can leave the loop. (A thread that has been signalled is
  taken not to vanish before the handler has run: it cannot leave the thread list while the collector
  holds its lock to signal.)
\<close>

theorem handshake_progress:
  assumes "hs_reach N s" and "hs_round s < 2 ^ 64"
  shows "(\<forall>n. hs_gc s = Wait n \<longrightarrow>
      (g_received_signal s < n \<longleftrightarrow> (\<exists>i\<in>hs_sent s. 0 < to_go (hs_round s) (hs_thread s i))) \<and>
      (\<forall>s'. hs_step N s s' \<longrightarrow> hs_sent s' = hs_sent s \<and> hs_round s' = hs_round s \<and>
        (\<forall>i\<in>hs_sent s. to_go (hs_round s) (hs_thread s' i) \<le> to_go (hs_round s) (hs_thread s i)))) \<and>
    (\<forall>i\<in>hs_sent s. 0 < to_go (hs_round s) (hs_thread s i) \<longrightarrow>
      (\<exists>th r. th_step (hs_counter s) (hs_thread s i) (g_received_signal s) th r \<and>
        to_go (hs_round s) th < to_go (hs_round s) (hs_thread s i)) \<and>
      (\<forall>th r. th_step (hs_counter s) (hs_thread s i) (g_received_signal s) th r \<and> \<not> (th_pending (hs_thread s i) \<and> th_pending th) \<longrightarrow>
        to_go (hs_round s) th < to_go (hs_round s) (hs_thread s i))) \<and>
    (\<forall>i old h k. th_pc (hs_thread s i) = Spin old h k \<and> \<not> (i \<in> hs_sent s \<and> to_go (hs_round s) (hs_thread s i) = 0) \<longrightarrow>
      th_step (hs_counter s) (hs_thread s i) (g_received_signal s) ((hs_thread s i)\<lparr>th_pc := k\<rparr>) (g_received_signal s))"
proof -
  let ?n = "hs_round s"
  have inv: "hs_inv N s" by (rule hs_reach_inv [OF assms])
  have c: "hs_counter s = of_nat ?n" and ok: "\<And>i. th_ok ?n (i \<in> hs_sent s) (hs_thread s i)" using inv by (simp_all add: hs_inv_def)
  have sok: "th_ok ?n True (hs_thread s i)" if "i \<in> hs_sent s" for i using ok [of i] that by simp
  have wait: "g_received_signal s < n \<longleftrightarrow> (\<exists>i\<in>hs_sent s. 0 < to_go ?n (hs_thread s i))" if "hs_gc s = Wait n" for n
  proof -
    have "g_received_signal s < n \<longleftrightarrow> stopped s \<noteq> hs_sent s"
      using inv that psubset_card_mono [of "hs_sent s" "stopped s"] stopped_finite [OF inv] by (auto simp: hs_inv_def)
    moreover have "stopped s \<noteq> hs_sent s \<longleftrightarrow> (\<exists>i\<in>hs_sent s. \<not> spinning ?n (hs_thread s i))" by (auto simp: stopped_def)
    ultimately show ?thesis unfolding to_go_pos by blast
  qed
  have step: "hs_sent s' = hs_sent s \<and> hs_round s' = ?n \<and> (\<forall>i\<in>hs_sent s. to_go ?n (hs_thread s' i) \<le> to_go ?n (hs_thread s i))"
    if "hs_gc s = Wait n" "hs_step N s s'" for n s'
    using that(2)
  proof cases
    case (thread i th r)
    then show ?thesis using to_go_step [OF _ sok assms(2)] by (auto simp: c)
  qed (use that(1) in auto)
  have nearer: "\<exists>th r. th_step (hs_counter s) (hs_thread s i) (g_received_signal s) th r \<and> to_go ?n th < to_go ?n (hs_thread s i)"
    if "i \<in> hs_sent s" "0 < to_go ?n (hs_thread s i)" for i
    using to_go_move [OF sok [OF that(1)] assms(2)] that(2) unfolding c by blast
  have must: "to_go ?n th < to_go ?n (hs_thread s i)"
    if "i \<in> hs_sent s" "0 < to_go ?n (hs_thread s i)" "th_step (hs_counter s) (hs_thread s i) (g_received_signal s) th r"
      "\<not> (th_pending (hs_thread s i) \<and> th_pending th)" for i th r
    using to_go_step(2) [OF that(3) [unfolded c] sok [OF that(1)] assms(2)] that(2,4) by simp
  have leave: "th_step (hs_counter s) (hs_thread s i) (g_received_signal s) ((hs_thread s i)\<lparr>th_pc := k\<rparr>) (g_received_signal s)"
    if "th_pc (hs_thread s i) = Spin old h k" "\<not> (i \<in> hs_sent s \<and> to_go ?n (hs_thread s i) = 0)" for i old h k
  proof -
    have "calm ?n (Spin old h k)" using ok [of i] that sok [of i] by (auto simp: th_ok_def due_def to_go_eq_0 split: if_splits)
    then have "old \<noteq> hs_counter s" using of_nat_old assms(2) c by auto
    then show ?thesis by (rule th_step.spin [OF that(1)])
  qed
  show ?thesis using wait step nearer must leave by (intro conjI allI impI ballI) (blast+)
qed

text \<open>A run in which the only thread is started and signalled while it allocates, up to the wait and up to the fork.\<close>

definition run_th :: "bool \<Rightarrow> bool \<Rightarrow> bool \<Rightarrow> hs_pc \<Rightarrow> hs_thread" where
  "run_th p m w pc = \<lparr>th_active = True, th_pending = p, g_in_malloc = m, g_waiting_to_fork = w, th_pc = pc\<rparr>"

definition run_st :: "hs_thread \<Rightarrow> int \<Rightarrow> hs_gc \<Rightarrow> nat set \<Rightarrow> hs_state" where
  "run_st th r gc sent = hs_init\<lparr>hs_thread := (hs_thread hs_init)(0 := th), g_received_signal := r, hs_sent := sent, hs_gc := gc\<rparr>"

lemma run_thread:
  assumes "hs_reach 1 (run_st th r gc sent)" "th_step 0 th r th' r'"
  shows "hs_reach 1 (run_st th' r' gc sent)"
proof -
  let ?s = "run_st th r gc sent"
  have "th_step (hs_counter ?s) (hs_thread ?s 0) (g_received_signal ?s) th' r'"
    using assms(2) by (simp add: run_st_def hs_init_def)
  moreover have "?s\<lparr>hs_thread := (hs_thread ?s)(0 := th'), g_received_signal := r'\<rparr> = run_st th' r' gc sent" by (simp add: run_st_def)
  ultimately have "hs_step 1 ?s (run_st th' r' gc sent)" using hs_step.thread [of 0 1 ?s th' r'] by simp
  with assms(1) show ?thesis by (rule hs_reach.step)
qed

lemma run_gc: "hs_reach 1 s \<Longrightarrow> hs_step 1 s s'' \<Longrightarrow> s'' = s' \<Longrightarrow> hs_reach 1 s'"
  using hs_reach.step by blast

lemma run_wait: "hs_reach 1 (run_st (run_th True True False Malloc) 0 (Wait 1) {0})"
proof -
  have "run_st (hs_thread hs_init 0) 0 Idle {} = hs_init" by (simp add: run_st_def hs_init_def fun_eq_iff)
  then have "hs_reach 1 (run_st (hs_thread hs_init 0) 0 Idle {})" using hs_reach.init by metis
  then have "hs_reach 1 (run_st (run_th False False False User) 0 Idle {})"
    by (rule run_thread) (use th_step.start [of "hs_thread hs_init 0" 0 0] in \<open>simp add: hs_init_def run_th_def\<close>)
  then have "hs_reach 1 (run_st (run_th False True False Malloc) 0 Idle {})"
    by (rule run_thread) (use th_step.enter [of "run_th False False False User" 0 0] in \<open>simp add: enter_malloc_def run_th_def\<close>)
  then have "hs_reach 1 (run_st (run_th False True False Malloc) 0 (Send 0 0) {})"
    by (rule run_gc [OF _ hs_step.reset]) (simp_all add: run_st_def)
  then have "hs_reach 1 (run_st (run_th True True False Malloc) 0 (Send 1 1) {0})"
    by (rule run_gc [OF _ hs_step.send [of _ 0 0 1 False]]) (simp_all add: run_st_def run_th_def send_signal_def)
  then show ?thesis by (rule run_gc [OF _ hs_step.sent]) (simp_all add: run_st_def)
qed

lemma run_fork: "hs_reach 1 (run_st (run_th False False False (Spin 0 False User)) 1 Fork {0})"
proof -
  have "hs_reach 1 (run_st (run_th False True True Malloc) 0 (Wait 1) {0})" using run_wait
    by (rule run_thread) (use th_step.deliver [of "run_th True True False Malloc" 0 0] in \<open>simp add: signal_handler_def run_th_def\<close>)
  then have "hs_reach 1 (run_st (run_th False False True Leave) 0 (Wait 1) {0})"
    by (rule run_thread) (use th_step.leave [of "run_th False True True Malloc" 0 0] in \<open>simp add: leave_malloc_def run_th_def\<close>)
  then have "hs_reach 1 (run_st (run_th False False False (Ack False User)) 0 (Wait 1) {0})"
    by (rule run_thread) (use th_step.test [of "run_th False False True Leave" 0 0] in \<open>simp add: test_waiting_def run_th_def\<close>)
  then have "hs_reach 1 (run_st (run_th False False False (Add 0 False User)) 0 (Wait 1) {0})"
    by (rule run_thread) (use th_step.read [of "run_th False False False (Ack False User)" False User 0 0] in \<open>simp add: run_th_def\<close>)
  then have "hs_reach 1 (run_st (run_th False False False (Spin 0 False User)) 1 (Wait 1) {0})"
    by (rule run_thread) (use th_step.add [of "run_th False False False (Add 0 False User)" 0 False User 0 0] in \<open>simp add: run_th_def\<close>)
  then show ?thesis by (rule run_gc [OF _ hs_step.pass [where n = 1]]) (simp_all add: run_st_def)
qed

lemma sample_waiting:
  obtains s where "hs_reach 1 s" "hs_gc s = Wait 1" "g_received_signal s = 0" "hs_sent s = {0}" "hs_round s = 0" "g_in_malloc (hs_thread s 0)"
  by (rule that [OF run_wait]) (simp_all add: run_st_def run_th_def hs_init_def)

lemma sample_handshake:
  obtains s where "hs_reach 1 s" "hs_gc s = Fork" "hs_sent s = {0}" "hs_round s = 0"
  by (rule that [OF run_fork]) (simp_all add: run_st_def hs_init_def)

theorem threads_stopped_at_fork_witness:
  "\<exists>s. hs_reach 1 s \<and> hs_gc s = Fork \<and> 0 \<in> hs_sent s \<and> (\<exists>h k. th_pc (hs_thread s 0) = Spin (hs_counter s) h k)"
proof -
  obtain s where s: "hs_reach 1 s" "hs_gc s = Fork" "hs_sent s = {0}" "hs_round s = 0" by (rule sample_handshake)
  have "\<exists>h k. th_pc (hs_thread s 0) = Spin (hs_counter s) h k"
    using threads_stopped_at_fork [OF s(1) _ s(2), of 0] s(3,4) by simp
  with s show ?thesis by blast
qed

theorem handshake_progress_witness:
  "\<exists>s. hs_reach 1 s \<and> hs_gc s = Wait 1 \<and> g_received_signal s = 0 \<and> hs_sent s = {0} \<and> g_in_malloc (hs_thread s 0) \<and>
     0 < to_go (hs_round s) (hs_thread s 0) \<and>
     (\<exists>th r. th_step (hs_counter s) (hs_thread s 0) (g_received_signal s) th r \<and> to_go (hs_round s) th < to_go (hs_round s) (hs_thread s 0))"
proof -
  obtain s where s: "hs_reach 1 s" "hs_gc s = Wait 1" "g_received_signal s = 0" "hs_sent s = {0}" "hs_round s = 0" "g_in_malloc (hs_thread s 0)"
    by (rule sample_waiting)
  have r: "hs_round s < 2 ^ 64" using s(5) by simp
  have "0 < to_go (hs_round s) (hs_thread s 0)" using handshake_progress [OF s(1) r] s(2-4) by force
  moreover from this have "\<exists>th r. th_step (hs_counter s) (hs_thread s 0) (g_received_signal s) th r \<and> to_go (hs_round s) th < to_go (hs_round s) (hs_thread s 0)"
    using handshake_progress [OF s(1) r] s(4) by blast
  ultimately show ?thesis using s by blast
qed

end
