(* ===== verification/Threads.thy ===== *)
theory Threads
  imports Pool Proc Thread_Data
begin

text \<open>
  The registry of threads: thread data and the list of threads (\<^verbatim>\<open>src/util.c\<close>, \<^verbatim>\<open>src/proc.c\<close>), the
  entry and exit of a thread (\<^verbatim>\<open>src/thread.c\<close>) and the functions that replace \<^verbatim>\<open>pthread_create\<close>,
  \<^verbatim>\<open>pthread_exit\<close>, \<^verbatim>\<open>pthread_join\<close> and \<^verbatim>\<open>main\<close> (\<^verbatim>\<open>src/wrappers.c\<close>). Each function is one step. In the code
  the count, the pools and the lists are each changed atomically or under a mutex of their own, so two
  calls can overlap; the histories here are of calls that do not. What pthreads answers is a parameter. The objects of the pools keep
  their contents when they are given back, as their memory stays mapped; only the first word, which is
  \<^verbatim>\<open>user_routine\<close> and written before it is read again, holds the link of the pool's list in between.
\<close>

section \<open>Thread data\<close>

record registry =
  rg_tds :: "thread_data_t store"
  rg_lists :: "size_t store"
  thread_list_head :: size_t
  thread_list_count :: "32 word"
  g_td_staged_to_free :: size_t
  rg_td_pool :: pool_t
  rg_list_pool :: pool_t
  rg_stack_pool :: pool_t
  rg_alloc :: alloc_state
  g_thread_count :: int
  g_total_wait_time_ms :: size_t

definition td_modify :: "size_t \<Rightarrow> (thread_data_t \<Rightarrow> thread_data_t) \<Rightarrow> registry \<Rightarrow> registry res" where
  "td_modify td f r = bind_res (modify (rg_tds r) td f) (\<lambda>s. Inr (r\<lparr>rg_tds := s\<rparr>))"

definition td_blank :: thread_data_t where
  "td_blank = \<lparr>td_user_routine = 0, td_user_arg = 0, td_next = 0, td_self = 0, td_user_stack_low = 0, td_user_stack_high = 0,
     td_stack_is_ours = False, td_is_active = False, td_ptr_list = \<lparr>q_e = [], q_capacity = 0, q_idx_head = 0, q_idx_tail = 0\<rparr>,
     td_wait_time_ms = 0, td_retiree_buffer = 0, td_begin_retiree_idx = 0, td_end_retiree_idx = 0, td_local_timestamp = 0,
     td_times_without_update = 0, td_local_block = \<lparr>mr_low = 0, mr_high = 0\<rparr>, td_ref_count = 0\<rparr>"

text \<open>\<open>rg_lists\<close> has the address of the array of the queue, \<^verbatim>\<open>td->ptr_list.e\<close>.\<close>

definition forkscan_util_thread_data_new :: "os_t \<Rightarrow> size_t \<Rightarrow> registry \<Rightarrow> (size_t \<times> registry) res" where
  "forkscan_util_thread_data_new os ptrs r =
     bind_res (pool_alloc_threaddata os (rg_td_pool r) (rg_alloc r)) (\<lambda>(td, tp, al).
     bind_res (pool_alloc_ptrlist os ptrs (rg_list_pool r) al) (\<lambda>(local_list, lp, al).
     let d = (case map_of (rg_tds r) td of Some d \<Rightarrow> d | None \<Rightarrow> td_blank);
         d = d\<lparr>td_ptr_list := forkscan_queue_init (td_ptr_list d) (slots (ptrs * 8)) ptrs,
               td_local_block := \<lparr>mr_low = 0, mr_high = 0\<rparr>, td_ref_count := 1, td_retiree_buffer := 0\<rparr>
     in Inr (td, r\<lparr>rg_tds := AList.update td d (rg_tds r), rg_lists := AList.update td local_list (rg_lists r),
                   rg_td_pool := tp, rg_list_pool := lp, rg_alloc := al\<rparr>)))"

definition forkscan_util_thread_data_decr_ref :: "size_t \<Rightarrow> registry \<Rightarrow> registry res" where
  "forkscan_util_thread_data_decr_ref td r =
     bind_res (ld (rg_tds r) td) (\<lambda>d.
     bind_res (cint (td_ref_count d - 1)) (\<lambda>n.
     bind_res (td_modify td (\<lambda>d. d\<lparr>td_ref_count := n\<rparr>) r) (\<lambda>r.
     if n = 0
     then bind_res (td_modify td (\<lambda>d. d\<lparr>td_next := g_td_staged_to_free r\<rparr>) r) (\<lambda>r.
          Inr (r\<lparr>g_td_staged_to_free := td\<rparr>))
     else Inr r)))"

definition forkscan_util_thread_data_free :: "size_t \<Rightarrow> registry \<Rightarrow> registry res" where
  "forkscan_util_thread_data_free td r =
     bind_res (ld (rg_lists r) td) (\<lambda>e.
     Inr (r\<lparr>rg_list_pool := pool_free e (rg_list_pool r), rg_td_pool := pool_free td (rg_td_pool r)\<rparr>))"

text \<open>The search for the thread data of a thread among those staged, with the one in front of it.\<close>

fun seek_staged :: "nat \<Rightarrow> thread_data_t store \<Rightarrow> size_t \<Rightarrow> size_t \<Rightarrow> size_t \<Rightarrow> (size_t \<times> size_t) res" where
  "seek_staged 0 s tid td prev = Inl No_return"
| "seek_staged (Suc k) s tid td prev =
     bind_res (ld s td) (\<lambda>d. if td_self d = tid then Inr (td, prev) else seek_staged k s tid (td_next d) td)"

definition forkscan_util_thread_data_cleanup :: "size_t \<Rightarrow> registry \<Rightarrow> registry res" where
  "forkscan_util_thread_data_cleanup tid r =
     bind_res (seek_staged (Suc (length (rg_tds r))) (rg_tds r) tid (g_td_staged_to_free r) 0) (\<lambda>(td, prev).
     bind_res (ld (rg_tds r) td) (\<lambda>d.
     bind_res (if prev \<noteq> 0 then td_modify prev (\<lambda>l. l\<lparr>td_next := td_next d\<rparr>) r
               else Inr (r\<lparr>g_td_staged_to_free := td_next d\<rparr>)) (\<lambda>r.
     if td_ref_count d > 0 then Inl (Fatal ''Forkscan: detected data race on exiting thread.'')
     else
       let r = (if td_stack_is_ours d
                then r\<lparr>rg_stack_pool := forkscan_buffer_freestack (td_user_stack_low d) (rg_stack_pool r)\<rparr> else r)
       in forkscan_util_thread_data_free td r)))"

section \<open>The list of threads\<close>

definition forkscan_util_thread_list_init :: "registry \<Rightarrow> registry" where
  "forkscan_util_thread_list_init r = (if thread_list_head r = 0 then r\<lparr>thread_list_count := 0\<rparr> else r)"

definition forkscan_util_thread_list_add :: "size_t \<Rightarrow> registry \<Rightarrow> registry res" where
  "forkscan_util_thread_list_add td r =
     bind_res (td_modify td (\<lambda>d. d\<lparr>td_next := thread_list_head r\<rparr>) r) (\<lambda>r.
     Inr (r\<lparr>thread_list_head := td, thread_list_count := thread_list_count r + 1\<rparr>))"

definition forkscan_util_thread_list_remove :: "size_t \<Rightarrow> registry \<Rightarrow> registry res" where
  "forkscan_util_thread_list_remove td r =
     bind_res
       (if thread_list_head r = td
        then bind_res (ld (rg_tds r) td) (\<lambda>d. Inr (r\<lparr>thread_list_head := td_next d\<rparr>))
        else
          bind_res (seek (Suc (length (rg_tds r))) (\<lambda>d. td_next d = td) td_next (rg_tds r) (thread_list_head r)) (\<lambda>tmp.
          bind_res (ld (rg_tds r) td) (\<lambda>d.
          td_modify tmp (\<lambda>t. t\<lparr>td_next := td_next d\<rparr>) r))) (\<lambda>r.
     Inr (r\<lparr>thread_list_count := thread_list_count r - 1\<rparr>))"

fun find_loop :: "nat \<Rightarrow> thread_data_t store \<Rightarrow> size_t \<Rightarrow> size_t \<Rightarrow> size_t res" where
  "find_loop 0 s addr ret = Inl No_return"
| "find_loop (Suc k) s addr ret =
     (if ret = 0 then Inr 0
      else bind_res (ld s ret) (\<lambda>d.
        if addr \<ge> td_user_stack_low d \<and> addr < td_user_stack_high d then Inr ret else find_loop k s addr (td_next d)))"

definition forkscan_util_thread_list_find :: "size_t \<Rightarrow> registry \<Rightarrow> (size_t \<times> registry) res" where
  "forkscan_util_thread_list_find addr r =
     bind_res (find_loop (Suc (length (rg_tds r))) (rg_tds r) addr (thread_list_head r)) (\<lambda>ret.
     if ret = 0 then Inr (0, r)
     else
       bind_res (ld (rg_tds r) ret) (\<lambda>d.
       bind_res (cint (td_ref_count d + 1)) (\<lambda>n.
       bind_res (td_modify ret (\<lambda>d. d\<lparr>td_ref_count := n\<rparr>) r) (\<lambda>r. Inr (ret, r)))))"

definition proc_init :: "registry \<Rightarrow> registry" where
  "proc_init r = r\<lparr>thread_list_head := 0\<rparr>"

definition forkscan_proc_add_thread_data :: "size_t \<Rightarrow> registry \<Rightarrow> registry res" where
  "forkscan_proc_add_thread_data td r = forkscan_util_thread_list_add td (forkscan_util_thread_list_init r)"

definition forkscan_proc_remove_thread_data :: "size_t \<Rightarrow> registry \<Rightarrow> registry res" where
  "forkscan_proc_remove_thread_data td r = forkscan_util_thread_list_remove td r"

text \<open>Signalling the threads of the list: the signals sent, in order. \<open>kill\<close> is what \<^verbatim>\<open>pthread_kill\<close> answers.\<close>

datatype kill_result = Killed | Einval | Esrch

fun signal_loop :: "nat \<Rightarrow> (size_t \<Rightarrow> kill_result) \<Rightarrow> (size_t \<Rightarrow> bool) \<Rightarrow> thread_data_t store \<Rightarrow> size_t \<Rightarrow> size_t list \<Rightarrow>
    int \<Rightarrow> (size_t list \<times> int) res" where
  "signal_loop 0 kill wanted s td sent n = Inl No_return"
| "signal_loop (Suc k) kill wanted s td sent n =
     (if td = 0 then Inr (sent, n)
      else bind_res (ld s td) (\<lambda>d.
        if wanted td \<and> td_is_active d
        then (case kill (td_self d) of
            Einval \<Rightarrow> Inl (Fatal ''pthread_kill() returned EINVAL.'')
          | Esrch \<Rightarrow> signal_loop k kill wanted s (td_next d) sent n
          | Killed \<Rightarrow> bind_res (cint (n + 1)) (signal_loop k kill wanted s (td_next d) (sent @ [td])))
        else signal_loop k kill wanted s (td_next d) sent n))"

definition forkscan_proc_signal :: "(size_t \<Rightarrow> kill_result) \<Rightarrow> registry \<Rightarrow> (size_t list \<times> int) res" where
  "forkscan_proc_signal kill r =
     signal_loop (Suc (length (rg_tds r))) kill (\<lambda>td. True) (rg_tds r) (thread_list_head r) [] 0"

definition forkscan_proc_signal_all_except :: "(size_t \<Rightarrow> kill_result) \<Rightarrow> size_t \<Rightarrow> registry \<Rightarrow> (size_t list \<times> int) res" where
  "forkscan_proc_signal_all_except kill except r =
     signal_loop (Suc (length (rg_tds r))) kill (\<lambda>td. td \<noteq> except) (rg_tds r) (thread_list_head r) [] 0"

definition forkscan_thread_signal_all_but_me :: "(size_t \<Rightarrow> kill_result) \<Rightarrow> size_t \<Rightarrow> registry \<Rightarrow> (size_t list \<times> int) res" where
  "forkscan_thread_signal_all_but_me kill me r = forkscan_proc_signal_all_except kill me r"

section \<open>Threads come and go\<close>

text \<open>The start of a thread; \<open>sp\<close> is its stack pointer, read by inline assembly.\<close>

definition forkscan_thread_base :: "size_t \<Rightarrow> size_t \<Rightarrow> size_t \<Rightarrow> registry \<Rightarrow> registry res" where
  "forkscan_thread_base td self sp r =
     (let buffer_size = sp AND (PAGESIZE - 1) in
      td_modify td (\<lambda>d. d\<lparr>td_user_stack_high := sp - buffer_size, td_local_timestamp := 0, td_self := self, td_is_active := True\<rparr>) r)"

definition forkscan_thread_cleanup :: "size_t \<Rightarrow> registry \<Rightarrow> registry res" where
  "forkscan_thread_cleanup td r =
     bind_res (td_modify td (\<lambda>d. d\<lparr>td_is_active := False\<rparr>) r) (\<lambda>r.
     bind_res (forkscan_proc_remove_thread_data td r) (\<lambda>r.
     bind_res (ld (rg_tds r) td) (\<lambda>d.
     forkscan_util_thread_data_decr_ref td (r\<lparr>g_total_wait_time_ms := g_total_wait_time_ms r + td_wait_time_ms d\<rparr>))))"

text \<open>What pthreads answers to the calls of \<^verbatim>\<open>pthread_create\<close>; a null stack means that the user has given none.\<close>

record create_env =
  ce_attr_init :: int
  ce_getstack :: int
  ce_stack :: "size_t \<times> size_t"
  ce_setstack :: int
  ce_create :: int

definition choose_stack :: "os_t \<Rightarrow> create_env \<Rightarrow> registry \<Rightarrow> (size_t \<times> size_t \<times> bool \<times> registry) res" where
  "choose_stack os env r =
     (let (stack, stacksize) = ce_stack env in
      if stack = 0
      then
        bind_res (forkscan_buffer_makestack os (rg_stack_pool r) (rg_alloc r)) (\<lambda>((stack, stacksize), sp, al).
        if ce_setstack env \<noteq> 0 then Inl (Fatal ''unable to set stack attributes.'')
        else Inr (stack, stacksize, True, r\<lparr>rg_stack_pool := sp, rg_alloc := al\<rparr>))
      else Inr (stack, stacksize, False, r))"

definition pthread_create :: "os_t \<Rightarrow> size_t \<Rightarrow> create_env \<Rightarrow> bool \<Rightarrow> size_t \<Rightarrow> size_t \<Rightarrow> registry \<Rightarrow> (int \<times> size_t \<times> registry) res" where
  "pthread_create os ptrs env attr_is_null start_routine arg r =
     (if MAX_THREAD_COUNT < g_thread_count r then Inl (Fatal ''Exceeded maximum thread count.'')
      else
        bind_res (forkscan_util_thread_data_new os ptrs (r\<lparr>g_thread_count := g_thread_count r + 1\<rparr>)) (\<lambda>(td, r).
        bind_res (td_modify td (\<lambda>d. d\<lparr>td_user_routine := start_routine, td_user_arg := arg, td_is_active := False\<rparr>) r) (\<lambda>r.
        if attr_is_null \<and> ce_attr_init env \<noteq> 0 then Inl (Fatal ''could not create thread.'')
        else if ce_getstack env \<noteq> 0 then Inl (Fatal ''unable to get stack attributes.'')
        else
          bind_res (choose_stack os env r) (\<lambda>(stack, stacksize, ours, r).
          bind_res (td_modify td (\<lambda>d. d\<lparr>td_stack_is_ours := ours, td_user_stack_low := stack,
            td_user_stack_high := stack + stacksize, td_wait_time_ms := 0\<rparr>) r) (\<lambda>r.
          bind_res (forkscan_proc_add_thread_data td r) (\<lambda>r.
          if ce_create env = 0 then Inr (0, td, r)
          else
            bind_res (forkscan_util_thread_data_free td
              (if ours then r\<lparr>rg_stack_pool := forkscan_buffer_freestack stack (rg_stack_pool r)\<rparr> else r)) (\<lambda>r.
            Inr (ce_create env, td, r))))))))"

definition exit_wrapper :: "size_t \<Rightarrow> registry \<Rightarrow> registry res" where
  "exit_wrapper td r =
     bind_res (forkscan_thread_cleanup td r) (\<lambda>r. Inr (r\<lparr>g_thread_count := g_thread_count r - 1\<rparr>))"

definition pthread_join :: "int \<Rightarrow> size_t \<Rightarrow> registry \<Rightarrow> (int \<times> registry) res" where
  "pthread_join ret thread r =
     bind_res (forkscan_util_thread_data_cleanup thread r) (\<lambda>r. Inr (ret, r))"

definition main_replacement :: "os_t \<Rightarrow> size_t \<Rightarrow> string option \<Rightarrow> size_t \<Rightarrow> size_t \<Rightarrow> size_t \<Rightarrow> size_t \<Rightarrow> size_t \<Rightarrow> registry \<Rightarrow>
    (size_t \<times> registry) res" where
  "main_replacement os ptrs maps stack_data main_thunk main_args self sp r =
     bind_res (forkscan_util_thread_data_new os ptrs r) (\<lambda>(td, r).
     bind_res (forkscan_proc_stack_from_addr maps stack_data) (\<lambda>st.
     bind_res (td_modify td (\<lambda>d. d\<lparr>td_user_routine := main_thunk, td_user_arg := main_args, td_user_stack_low := mr_low st\<rparr>) r) (\<lambda>r.
     bind_res (forkscan_proc_add_thread_data td r) (\<lambda>r.
     bind_res (forkscan_thread_base td self sp r) (\<lambda>r.
     Inr (td, r))))))"

section \<open>What is in use\<close>

text \<open>The objects of a pool that are handed out, as a multiset.\<close>

definition pool_used :: "nat \<Rightarrow> (size_t \<times> size_t) list \<Rightarrow> pool_t \<Rightarrow> size_t multiset \<Rightarrow> bool" where
  "pool_used sz maps p L \<longleftrightarrow> (\<exists>fs ls. pool_inv sz maps p fs ls \<and> mset ls = L)"

lemma pool_used_alloc:
  assumes "block_source mmap" "alloc_ok al" "pool_used (unat dtsize) (al_mapped al) p L" "0 < unat dtsize" "0 < n" "unat dtsize * n < 2 ^ 62"
  shows "or_fatal (pool_alloc mmap dtsize n reason p al) (\<lambda>(x, p', al'). alloc_ok al' \<and> set (al_mapped al) \<subseteq> set (al_mapped al') \<and>
    x \<noteq> 0 \<and> x \<notin># L \<and> pool_used (unat dtsize) (al_mapped al') p' (add_mset x L))"
proof -
  obtain fs ls where p: "pool_inv (unat dtsize) (al_mapped al) p fs ls" "mset ls = L" using assms(3) by (auto simp: pool_used_def)
  show ?thesis
  proof (rule or_fatal_mono [OF pool_alloc_ok [OF assms(1,2) p(1) assms(4-6), of reason]], clarify)
    fix x p' al' fs' assume "x \<notin> set ls" "pool_inv (unat dtsize) (al_mapped al') p' fs' (x # ls)"
    then show "x \<notin># L \<and> pool_used (unat dtsize) (al_mapped al') p' (add_mset x L)"
      using p(2) unfolding pool_used_def by (intro conjI exI [of _ fs'] exI [of _ "x # ls"]) auto
  qed
qed

lemma pool_used_free:
  assumes "pool_used sz maps p L" "x \<in># L"
  shows "pool_used sz maps (pool_free x p) (L - {#x#})"
proof -
  obtain fs ls where p: "pool_inv sz maps p fs ls" "mset ls = L" using assms(1) by (auto simp: pool_used_def)
  then have "x \<in> set ls" using assms(2) by auto
  from pool_free_ok [OF p(1) this] p(2) show ?thesis unfolding pool_used_def
    by (intro exI [of _ "x # fs"] exI [of _ "remove1 x ls"]) auto
qed

lemma pool_used_mono: "pool_used sz maps p L \<Longrightarrow> set maps \<subseteq> set maps' \<Longrightarrow> pool_used sz maps' p L"
  unfolding pool_used_def using pool_inv_mono by blast

lemma pool_used_distinct: "pool_used sz maps p (mset xs) \<Longrightarrow> distinct xs"
  unfolding pool_used_def pool_inv_def objects_apart_def by (metis distinct_append mset_eq_imp_distinct_iff)

lemma pool_used_nonnull: "pool_used sz maps p L \<Longrightarrow> x \<in># L \<Longrightarrow> x \<noteq> 0"
  by (auto simp: pool_used_def pool_inv_def)

section \<open>The invariant of the registry\<close>

definition td_of :: "registry \<Rightarrow> size_t \<Rightarrow> thread_data_t" where
  "td_of r t = the (map_of (rg_tds r) t)"

definition list_of :: "registry \<Rightarrow> size_t \<Rightarrow> size_t" where
  "list_of r t = the (map_of (rg_lists r) t)"

definition own_stacks :: "registry \<Rightarrow> size_t list \<Rightarrow> size_t multiset" where
  "own_stacks r ts = mset (map (\<lambda>t. td_user_stack_low (td_of r t)) (filter (\<lambda>t. td_stack_is_ours (td_of r t)) ts))"

text \<open>
  \<open>ts\<close> are the threads on the list, \<open>ss\<close> those that have exited and are not joined, \<open>hs\<close> and \<open>xs\<close> the
  thread data and stacks that an operation has in hand. The thread count exceeds the list by \<open>k\<close>.
\<close>

definition reg_inv :: "size_t \<Rightarrow> int \<Rightarrow> size_t list \<Rightarrow> size_t multiset \<Rightarrow> registry \<Rightarrow> size_t list \<Rightarrow> size_t list \<Rightarrow> bool" where
  "reg_inv ptrs k hs xs r ts ss \<longleftrightarrow> alloc_ok (rg_alloc r) \<and>
     path td_next (rg_tds r) (thread_list_head r) ts 0 \<and> path td_next (rg_tds r) (g_td_staged_to_free r) ss 0 \<and>
     thread_list_count r = of_nat (length ts) \<and> g_thread_count r = int (length ts) + k \<and>
     pool_used (unat MEMBLOCK_SIZE) (al_mapped (rg_alloc r)) (rg_td_pool r) (mset (hs @ ts @ ss)) \<and>
     pool_used (unat (ptrs * 8)) (al_mapped (rg_alloc r)) (rg_list_pool r) (mset (map (list_of r) (hs @ ts @ ss))) \<and>
     pool_used (unat STACKSIZE) (al_mapped (rg_alloc r)) (rg_stack_pool r) (xs + own_stacks r (ts @ ss)) \<and>
     (\<forall>t\<in>set (hs @ ts @ ss). t \<noteq> 0 \<and> map_of (rg_tds r) t \<noteq> None \<and> map_of (rg_lists r) t \<noteq> None) \<and>
     (\<forall>t\<in>set ts. td_ref_count (td_of r t) = 1) \<and> (\<forall>s\<in>set ss. td_ref_count (td_of r s) = 0)"

lemma reg_distinct: "reg_inv ptrs k hs xs r ts ss \<Longrightarrow> distinct (hs @ ts @ ss)"
  unfolding reg_inv_def using pool_used_distinct by blast

lemma reg_td:
  assumes "reg_inv ptrs k hs xs r ts ss" "t \<in> set (hs @ ts @ ss)"
  obtains d where "t \<noteq> 0" "map_of (rg_tds r) t = Some d" "td_of r t = d"
  using assms unfolding reg_inv_def td_of_def by fastforce

text \<open>Writing thread data that is in hand, and fields that the lists do not depend on.\<close>

lemma td_of_update [simp]: "td_of (r\<lparr>rg_tds := AList.update t d (rg_tds r)\<rparr>) u = (if u = t then d else td_of r u)"
  by (simp add: td_of_def)

lemma list_of_update [simp]: "list_of (r\<lparr>rg_tds := s\<rparr>) = list_of r"
  by (simp add: list_of_def fun_eq_iff)

lemma td_of_other [simp]:
  "td_of (r\<lparr>thread_list_head := h\<rparr>) = td_of r" "td_of (r\<lparr>thread_list_count := n\<rparr>) = td_of r"
  "td_of (r\<lparr>g_td_staged_to_free := h\<rparr>) = td_of r" "td_of (r\<lparr>g_thread_count := c\<rparr>) = td_of r"
  "td_of (r\<lparr>g_total_wait_time_ms := w\<rparr>) = td_of r" "td_of (r\<lparr>rg_stack_pool := p\<rparr>) = td_of r"
  "td_of (r\<lparr>rg_list_pool := p\<rparr>) = td_of r" "td_of (r\<lparr>rg_td_pool := p\<rparr>) = td_of r" "td_of (r\<lparr>rg_alloc := al\<rparr>) = td_of r"
  by (simp_all add: td_of_def fun_eq_iff)

lemma list_of_other [simp]:
  "list_of (r\<lparr>thread_list_head := h\<rparr>) = list_of r" "list_of (r\<lparr>thread_list_count := n\<rparr>) = list_of r"
  "list_of (r\<lparr>g_td_staged_to_free := h\<rparr>) = list_of r" "list_of (r\<lparr>g_thread_count := c\<rparr>) = list_of r"
  "list_of (r\<lparr>g_total_wait_time_ms := w\<rparr>) = list_of r" "list_of (r\<lparr>rg_stack_pool := p\<rparr>) = list_of r"
  "list_of (r\<lparr>rg_list_pool := p\<rparr>) = list_of r" "list_of (r\<lparr>rg_td_pool := p\<rparr>) = list_of r" "list_of (r\<lparr>rg_alloc := al\<rparr>) = list_of r"
  by (simp_all add: list_of_def fun_eq_iff)

lemma own_stacks_other [simp]:
  "own_stacks (r\<lparr>thread_list_head := h\<rparr>) = own_stacks r" "own_stacks (r\<lparr>thread_list_count := n\<rparr>) = own_stacks r"
  "own_stacks (r\<lparr>g_td_staged_to_free := h\<rparr>) = own_stacks r" "own_stacks (r\<lparr>g_thread_count := c\<rparr>) = own_stacks r"
  "own_stacks (r\<lparr>g_total_wait_time_ms := w\<rparr>) = own_stacks r" "own_stacks (r\<lparr>rg_stack_pool := p\<rparr>) = own_stacks r"
  "own_stacks (r\<lparr>rg_list_pool := p\<rparr>) = own_stacks r" "own_stacks (r\<lparr>rg_td_pool := p\<rparr>) = own_stacks r"
  "own_stacks (r\<lparr>rg_alloc := al\<rparr>) = own_stacks r"
  by (simp_all add: own_stacks_def fun_eq_iff)

lemma own_stacks_append [simp]: "own_stacks r (xs @ ys) = own_stacks r xs + own_stacks r ys"
  by (simp add: own_stacks_def)

lemma own_stacks_cong:
  "(\<And>t. t \<in> set ts \<Longrightarrow> td_stack_is_ours (td_of r' t) = td_stack_is_ours (td_of r t) \<and>
    td_user_stack_low (td_of r' t) = td_user_stack_low (td_of r t)) \<Longrightarrow> own_stacks r' ts = own_stacks r ts"
  unfolding own_stacks_def by (intro arg_cong [of _ _ mset] map_cong filter_cong) auto

lemma td_modify_eq: "t \<noteq> 0 \<Longrightarrow> map_of (rg_tds r) t = Some d \<Longrightarrow> td_modify t f r = Inr (r\<lparr>rg_tds := AList.update t (f d) (rg_tds r)\<rparr>)"
  by (simp add: td_modify_def)

lemma reg_modify_hand:
  assumes inv: "reg_inv ptrs k hs xs r ts ss" and t: "t \<in> set hs" "map_of (rg_tds r) t = Some d"
  shows "reg_inv ptrs k hs xs (r\<lparr>rg_tds := AList.update t e (rg_tds r)\<rparr>) ts ss"
proof -
  have out: "t \<notin> set (ts @ ss)" using reg_distinct [OF inv] t(1) by auto
  have "own_stacks (r\<lparr>rg_tds := AList.update t e (rg_tds r)\<rparr>) (ts @ ss) = own_stacks r (ts @ ss)"
    by (rule own_stacks_cong) (use out in auto)
  then show ?thesis using inv out unfolding reg_inv_def by auto
qed

lemma reg_modify_listed:
  assumes inv: "reg_inv ptrs k hs xs r ts ss" and t: "t \<in> set (ts @ ss)" "map_of (rg_tds r) t = Some d"
    and e: "td_next e = td_next d" "td_stack_is_ours e = td_stack_is_ours d" "td_user_stack_low e = td_user_stack_low d" "td_ref_count e = td_ref_count d"
  shows "reg_inv ptrs k hs xs (r\<lparr>rg_tds := AList.update t e (rg_tds r)\<rparr>) ts ss"
proof -
  have d: "td_of r t = d" using t(2) by (simp add: td_of_def)
  have "own_stacks (r\<lparr>rg_tds := AList.update t e (rg_tds r)\<rparr>) (ts @ ss) = own_stacks r (ts @ ss)"
    by (rule own_stacks_cong) (use e d in auto)
  moreover have "path td_next (AList.update t e (rg_tds r)) p ps 0" if "path td_next (rg_tds r) p ps 0" for p ps
    by (rule path_cong [OF that]) (use t(2) e(1) in auto)
  ultimately show ?thesis using inv d e(4) unfolding reg_inv_def by auto
qed

section \<open>What the operations do to the registry\<close>

definition ptrs_ok :: "size_t \<Rightarrow> bool" where
  "ptrs_ok ptrs \<longleftrightarrow> 0 < unat (ptrs * 8) \<and> unat (ptrs * 8) * 8 < 2 ^ 62"

lemma td_new_ok:
  assumes os: "mmap_fresh os" and ptrs: "ptrs_ok ptrs" and inv: "reg_inv ptrs k [] xs r ts ss"
  shows "or_fatal (forkscan_util_thread_data_new os ptrs r) (\<lambda>(td, r'). reg_inv ptrs k [td] xs r' ts ss \<and>
    td_ref_count (td_of r' td) = 1 \<and>
    td_stack_is_ours (td_of r' td) = td_stack_is_ours (case map_of (rg_tds r) td of Some d \<Rightarrow> d | None \<Rightarrow> td_blank))"
proof -
  let ?maps = "\<lambda>al. al_mapped al"
  have i: "alloc_ok (rg_alloc r)" "pool_used (unat MEMBLOCK_SIZE) (?maps (rg_alloc r)) (rg_td_pool r) (mset (ts @ ss))"
    "pool_used (unat (ptrs * 8)) (?maps (rg_alloc r)) (rg_list_pool r) (mset (map (list_of r) (ts @ ss)))"
    "pool_used (unat STACKSIZE) (?maps (rg_alloc r)) (rg_stack_pool r) (xs + own_stacks r (ts @ ss))"
    using inv by (simp_all add: reg_inv_def)
  note src = block_sources(2) [OF os]
  have tp: "or_fatal (pool_alloc_threaddata os (rg_td_pool r) (rg_alloc r)) (\<lambda>(x, p', al'). alloc_ok al' \<and>
      set (?maps (rg_alloc r)) \<subseteq> set (?maps al') \<and> x \<noteq> 0 \<and> x \<notin># mset (ts @ ss) \<and>
      pool_used (unat MEMBLOCK_SIZE) (?maps al') p' (add_mset x (mset (ts @ ss))))"
    unfolding pool_alloc_threaddata_def
    by (rule pool_used_alloc [OF src i(1,2)]) (simp_all add: MEMBLOCK_SIZE_def PAGESIZE_def)
  show ?thesis unfolding forkscan_util_thread_data_new_def
  proof (rule or_fatal_bind [OF tp], clarify, goal_cases)
    case (1 td tpl al)
    have lp: "or_fatal (pool_alloc_ptrlist os ptrs (rg_list_pool r) al) (\<lambda>(x, p', al'). alloc_ok al' \<and>
        set (?maps al) \<subseteq> set (?maps al') \<and> x \<noteq> 0 \<and> x \<notin># mset (map (list_of r) (ts @ ss)) \<and>
        pool_used (unat (ptrs * 8)) (?maps al') p' (add_mset x (mset (map (list_of r) (ts @ ss)))))"
      unfolding pool_alloc_ptrlist_def
      by (rule pool_used_alloc [OF src 1(1) pool_used_mono [OF i(3) 1(2)]]) (use ptrs in \<open>simp_all add: ptrs_ok_def\<close>)
    show ?case
    proof (rule or_fatal_bind [OF lp], clarify, goal_cases)
      case (1 e lpl al')
      let ?d0 = "case map_of (rg_tds r) td of Some d \<Rightarrow> d | None \<Rightarrow> td_blank"
      let ?d = "?d0\<lparr>td_ptr_list := forkscan_queue_init (td_ptr_list ?d0) (slots (ptrs * 8)) ptrs,
               td_local_block := \<lparr>mr_low = 0, mr_high = 0\<rparr>, td_ref_count := 1, td_retiree_buffer := 0\<rparr>"
      let ?r = "r\<lparr>rg_tds := AList.update td ?d (rg_tds r), rg_lists := AList.update td e (rg_lists r),
                   rg_td_pool := tpl, rg_list_pool := lpl, rg_alloc := al'\<rparr>"
      have out: "td \<notin> set (ts @ ss)" using \<open>td \<notin># mset (ts @ ss)\<close> by simp
      have ls: "map (list_of ?r) (ts @ ss) = map (list_of r) (ts @ ss)" "list_of ?r td = e"
        using out by (auto simp: list_of_def intro!: map_cong)
      have "pool_used (unat (ptrs * 8)) (?maps al') lpl (mset (map (list_of ?r) ([td] @ ts @ ss)))"
        using 1(5) ls(2) unfolding ls(1) [symmetric] by simp
      moreover have "own_stacks ?r (ts @ ss) = own_stacks r (ts @ ss)"
        by (rule own_stacks_cong) (use out in \<open>auto simp: td_of_def\<close>)
      moreover have sub: "set (?maps (rg_alloc r)) \<subseteq> set (?maps al')" using 1(2) \<open>set (?maps (rg_alloc r)) \<subseteq> set (?maps al)\<close> by blast
      moreover have "pool_used (unat MEMBLOCK_SIZE) (?maps al') tpl (mset ([td] @ ts @ ss))"
        using pool_used_mono [OF _ 1(2)] \<open>pool_used (unat MEMBLOCK_SIZE) (?maps al) tpl (add_mset td (mset (ts @ ss)))\<close> by simp
      moreover have "td_of ?r t = (if t = td then ?d else td_of r t)" for t by (simp add: td_of_def)
      ultimately have "reg_inv ptrs k [td] xs ?r ts ss"
        using inv out 1(1) \<open>td \<noteq> 0\<close> pool_used_mono [OF i(4) sub] unfolding reg_inv_def by auto
      then show ?case by (simp add: Let_def td_of_def)
    qed
  qed
qed

lemma list_add_ok:
  assumes inv: "reg_inv ptrs k [td] xs r ts ss" and rc: "td_ref_count (td_of r td) = 1"
    and st: "xs = (if td_stack_is_ours (td_of r td) then {#td_user_stack_low (td_of r td)#} else {#})"
  shows "\<exists>r'. forkscan_proc_add_thread_data td r = Inr r' \<and> reg_inv ptrs (k - 1) [] {#} r' (td # ts) ss \<and>
    td_of r' td = (td_of r td)\<lparr>td_next := thread_list_head r\<rparr>"
proof -
  obtain d where d: "td \<noteq> 0" "map_of (rg_tds r) td = Some d" "td_of r td = d" using reg_td [OF inv, of td] by auto
  have "forkscan_util_thread_list_init r = r" using inv path_head [of td_next "rg_tds r" "thread_list_head r" ts]
    by (auto simp: forkscan_util_thread_list_init_def reg_inv_def)
  let ?d = "d\<lparr>td_next := thread_list_head r\<rparr>"
  let ?r1 = "r\<lparr>rg_tds := AList.update td ?d (rg_tds r)\<rparr>"
  let ?r = "?r1\<lparr>thread_list_head := td, thread_list_count := thread_list_count r + 1\<rparr>"
  have out: "td \<notin> set (ts @ ss)" using reg_distinct [OF inv] by simp
  have run: "forkscan_proc_add_thread_data td r = Inr ?r"
    using d \<open>forkscan_util_thread_list_init r = r\<close> by (simp add: forkscan_proc_add_thread_data_def forkscan_util_thread_list_add_def td_modify_def)
  have tdr: "td_of ?r t = (if t = td then ?d else td_of r t)" for t by (simp add: td_of_def)
  have os: "own_stacks ?r (ts @ ss) = own_stacks r (ts @ ss)" by (rule own_stacks_cong) (use out tdr in auto)
  have "own_stacks ?r ((td # ts) @ ss) = xs + own_stacks r (ts @ ss)"
    using os d(3) st by (simp add: own_stacks_def tdr)
  moreover have "list_of ?r = list_of r" by (simp add: list_of_def fun_eq_iff)
  ultimately have "reg_inv ptrs (k - 1) [] {#} ?r (td # ts) ss"
    using inv out d rc tdr unfolding reg_inv_def by (auto simp: fun_upd_def)
  with run d(3) show ?thesis by (intro exI [of _ ?r]) simp
qed

text \<open>Taking an object out of a chain.\<close>

lemma path_first_next: "path nxt s p (a # as) q \<Longrightarrow> map_of s a = Some v \<Longrightarrow> p = a \<and> path nxt s (nxt v) as q"
  by simp

lemma path_unlink:
  assumes "path nxt s p (as @ [b, c] @ cs) 0" "map_of s b = Some v" "map_of s c = Some w" "nxt v' = nxt w"
  shows "path nxt (AList.update b v' s) p (as @ [b] @ cs) 0"
proof -
  have d: "distinct (as @ [b, c] @ cs)" by (rule path_distinct [OF assms(1)])
  obtain q where q: "path nxt s p as q" "path nxt s q (b # c # cs) 0" using assms(1) by (auto simp: path_append)
  then have "path nxt s (nxt w) cs 0" "q = b" "b \<noteq> 0" using assms(2,3) by auto
  then show ?thesis using q(1) d assms(4) by (auto simp: path_append)
qed

text \<open>Changing where one object of the lists points to changes nothing else.\<close>

lemma next_only:
  assumes "s = rg_tds r \<or> (\<exists>e n. map_of (rg_tds r) p = Some e \<and> s = AList.update p (e\<lparr>td_next := n\<rparr>) (rg_tds r))"
  shows "td_stack_is_ours (td_of (r\<lparr>rg_tds := s\<rparr>) x) = td_stack_is_ours (td_of r x)"
    and "td_user_stack_low (td_of (r\<lparr>rg_tds := s\<rparr>) x) = td_user_stack_low (td_of r x)"
    and "td_ref_count (td_of (r\<lparr>rg_tds := s\<rparr>) x) = td_ref_count (td_of r x)"
    and "map_of s x \<noteq> None \<longleftrightarrow> map_of (rg_tds r) x \<noteq> None"
    and "own_stacks (r\<lparr>rg_tds := s\<rparr>) zs = own_stacks r zs"
    and "p \<notin> set ps \<Longrightarrow> path td_next (rg_tds r) h ps 0 \<Longrightarrow> path td_next s h ps 0"
proof -
  show f: "td_stack_is_ours (td_of (r\<lparr>rg_tds := s\<rparr>) x) = td_stack_is_ours (td_of r x)"
    "td_user_stack_low (td_of (r\<lparr>rg_tds := s\<rparr>) x) = td_user_stack_low (td_of r x)" for x
    using assms by (auto simp: td_of_def split: if_splits)
  show "td_ref_count (td_of (r\<lparr>rg_tds := s\<rparr>) x) = td_ref_count (td_of r x)"
    "map_of s x \<noteq> None \<longleftrightarrow> map_of (rg_tds r) x \<noteq> None" using assms by (auto simp: td_of_def split: if_splits)
  show "own_stacks (r\<lparr>rg_tds := s\<rparr>) zs = own_stacks r zs" by (rule own_stacks_cong) (use f in simp)
  show "path td_next s h ps 0" if "p \<notin> set ps" "path td_next (rg_tds r) h ps 0" using assms that by auto
qed

lemma list_remove_ok:
  assumes inv: "reg_inv ptrs k [] {#} r ts ss" and t: "td \<in> set ts"
  shows "\<exists>r'. forkscan_proc_remove_thread_data td r = Inr r' \<and> td_ref_count (td_of r' td) = 1 \<and>
    reg_inv ptrs (k + 1) [td] (own_stacks r [td]) r' (remove1 td ts) ss \<and> own_stacks r' [td] = own_stacks r [td]"
proof -
  have pa: "path td_next (rg_tds r) (thread_list_head r) ts 0" using inv by (simp add: reg_inv_def)
  have dist: "distinct (ts @ ss)" using reg_distinct [OF inv] by simp
  obtain d where d: "td \<noteq> 0" "map_of (rg_tds r) td = Some d" "td_of r td = d" using reg_td [OF inv, of td] t by auto
  obtain as bs where ts: "ts = as @ td # bs" "td \<notin> set as" using t by (meson split_list_first)
  have rm: "remove1 td ts = as @ bs" using ts by (simp add: remove1_append)
  have count: "thread_list_count r - 1 = of_nat (length (as @ bs))" using inv ts by (simp add: reg_inv_def)
  have fin: "reg_inv ptrs (k + 1) [td] (own_stacks r [td]) (r'\<lparr>thread_list_count := thread_list_count r' - 1\<rparr>) (as @ bs) ss \<and>
      td_ref_count (td_of r' td) = 1 \<and> own_stacks r' [td] = own_stacks r [td]"
    if r': "r' = r\<lparr>rg_tds := s, thread_list_head := h\<rparr>" and h: "path td_next s h (as @ bs) 0"
      and u: "s = rg_tds r \<or> (\<exists>e n. p \<in> set as \<and> map_of (rg_tds r) p = Some e \<and> s = AList.update p (e\<lparr>td_next := n\<rparr>) (rg_tds r))" for r' s h p
  proof -
    have "s = rg_tds r \<or> (\<exists>e n. map_of (rg_tds r) p = Some e \<and> s = AList.update p (e\<lparr>td_next := n\<rparr>) (rg_tds r))" using u by blast
    note nx = next_only [OF this]
    have td': "td_of r' = td_of (r\<lparr>rg_tds := s\<rparr>)" unfolding r' by (simp only: td_of_other)
    have f: "td_ref_count (td_of r' x) = td_ref_count (td_of r x)" for x unfolding td' by (rule nx(3))
    have live: "map_of s x \<noteq> None" if "map_of (rg_tds r) x \<noteq> None" for x using nx(4) that by simp
    have "path td_next (rg_tds r) (g_td_staged_to_free r) ss 0" using inv by (simp add: reg_inv_def)
    then have st: "path td_next s (g_td_staged_to_free r) ss 0" using nx(6) [of ss] u ts dist by auto
    have os: "own_stacks r' zs = own_stacks r zs" for zs unfolding r' own_stacks_other by (rule nx(5))
    have ls: "list_of r' = list_of r" using r' by simp
    have "own_stacks r ts = own_stacks r [td] + own_stacks r (as @ bs)" using ts by (simp add: own_stacks_def)
    then have pools: "mset ([td] @ (as @ bs) @ ss) = mset (ts @ ss)" "mset (map (list_of r) ([td] @ (as @ bs) @ ss)) = mset (map (list_of r) (ts @ ss))"
      "own_stacks r [td] + own_stacks r ((as @ bs) @ ss) = {#} + own_stacks r (ts @ ss)" using ts by (simp, simp, simp add: own_stacks_def)
    have "\<forall>t\<in>set (ts @ ss). t \<noteq> 0 \<and> map_of s t \<noteq> None \<and> map_of (rg_lists r) t \<noteq> None" using inv live by (auto simp: reg_inv_def)
    moreover have "g_thread_count r = int (length (as @ bs)) + (k + 1)" using inv ts by (simp add: reg_inv_def)
    ultimately have "reg_inv ptrs (k + 1) [td] (own_stacks r [td]) (r'\<lparr>thread_list_count := thread_list_count r' - 1\<rparr>) (as @ bs) ss"
      unfolding reg_inv_def list_of_other own_stacks_other td_of_other os ls
      using inv st h count f unfolding reg_inv_def by (simp add: r' pools ts del: set_append map_append append.simps mset_append map_map list.map own_stacks_append) (auto simp: ts own_stacks_def split: if_splits)
    then show ?thesis using os [of "[td]"] f [of td] inv t by (simp add: reg_inv_def)
  qed
  show ?thesis
  proof (cases "as = []")
    case True
    then have h: "thread_list_head r = td" "path td_next (rg_tds r) (td_next d) bs 0" using pa ts d by auto
    let ?r' = "r\<lparr>rg_tds := rg_tds r, thread_list_head := td_next d\<rparr>"
    have "forkscan_proc_remove_thread_data td r = Inr (?r'\<lparr>thread_list_count := thread_list_count ?r' - 1\<rparr>)"
      using h d by (simp add: forkscan_proc_remove_thread_data_def forkscan_util_thread_list_remove_def)
    moreover have "reg_inv ptrs (k + 1) [td] (own_stacks r [td]) (?r'\<lparr>thread_list_count := thread_list_count ?r' - 1\<rparr>) (as @ bs) ss \<and>
        td_ref_count (td_of ?r' td) = 1 \<and> own_stacks ?r' [td] = own_stacks r [td]"
      by (rule fin [where s = "rg_tds r" and p = 0, OF refl]) (use h True in simp_all)
    ultimately show ?thesis unfolding rm by (intro exI [of _ "?r'\<lparr>thread_list_count := thread_list_count ?r' - 1\<rparr>"]) simp
  next
    case False
    then obtain cs p where as: "as = cs @ [p]" by (metis append_butlast_last_id)
    then have path: "path td_next (rg_tds r) (thread_list_head r) (cs @ [p, td] @ bs) 0" using pa ts by simp
    obtain e where e: "p \<noteq> 0" "map_of (rg_tds r) p = Some e" using path_live [OF path, of p] by auto
    have nx: "td_next e = td" using path e by (auto simp: path_append)
    let ?s = "AList.update p (e\<lparr>td_next := td_next d\<rparr>) (rg_tds r)"
    have head: "thread_list_head r \<noteq> td" using path dist ts as by (cases cs) auto
    have "seek (Suc (length (rg_tds r))) (\<lambda>d. td_next d = td) td_next (rg_tds r) (thread_list_head r) = Inr p"
    proof (rule seek_ok)
      show "path td_next (rg_tds r) (thread_list_head r) (cs @ p # td # bs) 0" using path by simp
      show "length cs < Suc (length (rg_tds r))" using chain_fuel [OF path] by simp
      show "td_next v \<noteq> td" if c: "c \<in> set cs" "map_of (rg_tds r) c = Some v" for c v
      proof
        assume n: "td_next v = td"
        obtain us vs where us: "cs = us @ c # vs" using c(1) by (auto dest: split_list)
        then have "path td_next (rg_tds r) (td_next v) (vs @ [p, td] @ bs) 0" using path c(2) by (auto simp: path_append)
        then have "td = hd (vs @ [p])" using n path_first [of td_next "rg_tds r" td "vs @ [p, td] @ bs" 0] by (cases vs) auto
        then have "td \<in> set as" unfolding as us by (cases vs) auto
        then show False using ts(2) by simp
      qed
    qed (use e nx in simp_all)
    then have run: "forkscan_proc_remove_thread_data td r =
        Inr (r\<lparr>rg_tds := ?s, thread_list_count := thread_list_count r - 1\<rparr>)"
      using head d e by (simp add: forkscan_proc_remove_thread_data_def forkscan_util_thread_list_remove_def td_modify_def)
    have "path td_next ?s (thread_list_head r) (as @ bs) 0"
      using path_unlink [OF path e(2) d(2), of "e\<lparr>td_next := td_next d\<rparr>"] as by simp
    let ?r' = "r\<lparr>rg_tds := ?s, thread_list_head := thread_list_head r\<rparr>"
    have "reg_inv ptrs (k + 1) [td] (own_stacks r [td]) (?r'\<lparr>thread_list_count := thread_list_count ?r' - 1\<rparr>) (as @ bs) ss \<and>
        td_ref_count (td_of ?r' td) = 1 \<and> own_stacks ?r' [td] = own_stacks r [td]"
      by (rule fin [where s = ?s and p = p, OF refl \<open>path td_next ?s (thread_list_head r) (as @ bs) 0\<close>]) (use e as in auto)
    moreover have "r\<lparr>rg_tds := ?s, thread_list_head := thread_list_head r\<rparr> = r\<lparr>rg_tds := ?s\<rparr>" by (cases r) simp
    ultimately show ?thesis using run rm by (intro exI [of _ "r\<lparr>rg_tds := ?s, thread_list_count := thread_list_count r - 1\<rparr>"]) simp
  qed
qed

lemma reg_inv_wait [simp]: "reg_inv ptrs k hs xs (r\<lparr>g_total_wait_time_ms := w\<rparr>) ts ss = reg_inv ptrs k hs xs r ts ss"
  by (simp add: reg_inv_def)

lemma reg_count: "reg_inv ptrs k hs xs r ts ss \<Longrightarrow> reg_inv ptrs (k + j) hs xs (r\<lparr>g_thread_count := g_thread_count r + j\<rparr>) ts ss"
  by (simp add: reg_inv_def)

lemma decr_ref_ok:
  assumes inv: "reg_inv ptrs k [td] (own_stacks r [td]) r ts ss" and rc: "td_ref_count (td_of r td) = 1"
  shows "\<exists>r'. forkscan_util_thread_data_decr_ref td r = Inr r' \<and> reg_inv ptrs k [] {#} r' ts (td # ss) \<and>
    g_thread_count r' = g_thread_count r"
proof -
  obtain d where d: "td \<noteq> 0" "map_of (rg_tds r) td = Some d" "td_of r td = d" using reg_td [OF inv, of td] by auto
  let ?d = "d\<lparr>td_ref_count := 0, td_next := g_td_staged_to_free r\<rparr>"
  let ?r1 = "r\<lparr>rg_tds := AList.update td ?d (rg_tds r)\<rparr>"
  let ?r = "?r1\<lparr>g_td_staged_to_free := td\<rparr>"
  have out: "td \<notin> set (ts @ ss)" using reg_distinct [OF inv] by simp
  have run: "forkscan_util_thread_data_decr_ref td r = Inr ?r"
    using d rc by (simp add: forkscan_util_thread_data_decr_ref_def td_modify_def cint_def)
  have os1: "own_stacks ?r1 (ts @ ss) = own_stacks r (ts @ ss)" by (rule own_stacks_cong) (use out in auto)
  have os2: "own_stacks ?r1 [td] = own_stacks r [td]" by (rule own_stacks_cong) (use d in auto)
  have "own_stacks ?r1 (ts @ td # ss) = own_stacks ?r1 [td] + own_stacks ?r1 (ts @ ss)" by (simp add: own_stacks_def)
  then have "own_stacks ?r1 (ts @ td # ss) = own_stacks r [td] + own_stacks r (ts @ ss)" unfolding os1 os2 .
  moreover have "mset (ts @ td # ss) = mset ([td] @ ts @ ss)" "mset (map (list_of r) (ts @ td # ss)) = mset (map (list_of r) ([td] @ ts @ ss))" by simp_all
  moreover have "td_of ?r t = (if t = td then ?d else td_of r t)" for t by simp
  ultimately have "reg_inv ptrs k [] {#} ?r ts (td # ss)"
    unfolding reg_inv_def
  proof (intro conjI, goal_cases)
    case 3
    have "path td_next (rg_tds r) (g_td_staged_to_free r) ss 0" using inv by (simp add: reg_inv_def)
    then show ?case using out d(1) by simp
  next
    case 8
    then show ?case using inv by (simp add: reg_inv_def own_stacks_def)
  next
    case 9
    then show ?case using inv by (auto simp: reg_inv_def)
  next
    case 10
    then show ?case using inv out by (auto simp: reg_inv_def)
  next
    case 11
    then show ?case using inv out by (auto simp: reg_inv_def)
  qed (use inv out in \<open>simp_all add: reg_inv_def\<close>)
  with run show ?thesis by auto
qed

lemma exit_ok:
  assumes inv: "reg_inv ptrs k [] {#} r ts ss" and t: "td \<in> set ts"
  shows "\<exists>r'. exit_wrapper td r = Inr r' \<and> reg_inv ptrs k [] {#} r' (remove1 td ts) (td # ss)"
proof -
  obtain d where d: "td \<noteq> 0" "map_of (rg_tds r) td = Some d" "td_of r td = d" using reg_td [OF inv, of td] t by auto
  let ?r1 = "r\<lparr>rg_tds := AList.update td (d\<lparr>td_is_active := False\<rparr>) (rg_tds r)\<rparr>"
  have m: "td_modify td (\<lambda>d. d\<lparr>td_is_active := False\<rparr>) r = Inr ?r1" using d by (simp add: td_modify_def)
  have inv1: "reg_inv ptrs k [] {#} ?r1 ts ss" by (rule reg_modify_listed [OF inv _ d(2)]) (use t in simp_all)
  obtain r2 where r2: "forkscan_proc_remove_thread_data td ?r1 = Inr r2" "td_ref_count (td_of r2 td) = 1"
    "reg_inv ptrs (k + 1) [td] (own_stacks r2 [td]) r2 (remove1 td ts) ss" using list_remove_ok [OF inv1 t] by auto
  obtain e where e: "map_of (rg_tds r2) td = Some e" "td \<noteq> 0" using reg_td [OF r2(3), of td] by auto
  let ?r3 = "r2\<lparr>g_total_wait_time_ms := g_total_wait_time_ms r2 + td_wait_time_ms e\<rparr>"
  obtain r4 where r4: "forkscan_util_thread_data_decr_ref td ?r3 = Inr r4" "reg_inv ptrs (k + 1) [] {#} r4 (remove1 td ts) (td # ss)"
    using decr_ref_ok [of ptrs "k + 1" td ?r3 "remove1 td ts" ss] r2(2,3) by auto
  have "exit_wrapper td r = Inr (r4\<lparr>g_thread_count := g_thread_count r4 - 1\<rparr>)"
    using m r2(1) e r4(1) by (simp add: exit_wrapper_def forkscan_thread_cleanup_def)
  then show ?thesis using reg_count [OF r4(2), of "-1"] by simp
qed

text \<open>The search among the staged thread data.\<close>

lemma seek_staged_found:
  assumes "path td_next s p (as @ b # bs) 0" "length as < k" "map_of s b = Some d" "td_self d = tid"
    and "\<And>a e. a \<in> set as \<Longrightarrow> map_of s a = Some e \<Longrightarrow> td_self e \<noteq> tid"
  shows "seek_staged k s tid p q = Inr (b, if as = [] then q else last as)"
  using assms
proof (induction as arbitrary: p k q)
  case Nil
  then show ?case by (cases k) auto
next
  case (Cons a as)
  obtain e k' where e: "p = a" "a \<noteq> 0" "map_of s a = Some e" "path td_next s (td_next e) (as @ b # bs) 0" "k = Suc k'" "length as < k'"
    using Cons.prems(1,2) by (cases k) (auto split: option.splits)
  have "td_self e \<noteq> tid" using Cons.prems(5) [OF _ e(3)] by simp
  moreover have "seek_staged k' s tid (td_next e) a = Inr (b, if as = [] then a else last as)"
    by (rule Cons.IH [OF e(4,6) Cons.prems(3,4)]) (use Cons.prems(5) in auto)
  ultimately show ?case using e by auto
qed

lemma seek_staged_none:
  assumes "path td_next s p as 0" "length as < k" "\<And>a e. a \<in> set as \<Longrightarrow> map_of s a = Some e \<Longrightarrow> td_self e \<noteq> tid"
  shows "seek_staged k s tid p q = Inl Null_deref"
  using assms
proof (induction as arbitrary: p k q)
  case Nil
  then show ?case by (cases k) (auto simp: ld_def)
next
  case (Cons a as)
  obtain e k' where e: "p = a" "a \<noteq> 0" "map_of s a = Some e" "path td_next s (td_next e) as 0" "k = Suc k'" "length as < k'"
    using Cons.prems(1,2) by (cases k) (auto split: option.splits)
  have "seek_staged k' s tid (td_next e) a = Inl Null_deref" by (rule Cons.IH [OF e(4,6)]) (use Cons.prems(3) in auto)
  then show ?case using e Cons.prems(3) [OF _ e(3)] by simp
qed

definition fatal_or :: "'a res \<Rightarrow> ('a \<Rightarrow> bool) \<Rightarrow> bool" where
  "fatal_or m P \<longleftrightarrow> (case m of Inl (Fatal _) \<Rightarrow> True | Inl _ \<Rightarrow> False | Inr x \<Rightarrow> P x)"

lemma fatal_or_simps [simp]: "fatal_or (Inl (Fatal e)) P" "fatal_or (Inr x) P \<longleftrightarrow> P x"
  by (simp_all add: fatal_or_def)

lemma fatal_or_bind: "fatal_or m P \<Longrightarrow> (\<And>x. P x \<Longrightarrow> fatal_or (f x) Q) \<Longrightarrow> fatal_or (bind_res m f) Q"
  by (cases m) (auto simp: fatal_or_def split: c_error.splits)

lemma fatal_or_if: "(b \<Longrightarrow> fatal_or m P) \<Longrightarrow> (\<not> b \<Longrightarrow> fatal_or n P) \<Longrightarrow> fatal_or (if b then m else n) P"
  by simp

lemma or_fatal_fatal_or: "or_fatal m P \<Longrightarrow> fatal_or m P"
  by (auto simp: or_fatal_def)

lemma choose_stack_ok:
  assumes os: "mmap_fresh os" and inv: "reg_inv ptrs k [td] {#} r ts ss"
  shows "fatal_or (choose_stack os env r) (\<lambda>(st, sz, ours, r'). reg_inv ptrs k [td] (if ours then {#st#} else {#}) r' ts ss \<and>
    rg_tds r' = rg_tds r)"
proof -
  obtain st sz where st: "ce_stack env = (st, sz)" by fastforce
  have i: "alloc_ok (rg_alloc r)" "pool_used (unat STACKSIZE) (al_mapped (rg_alloc r)) (rg_stack_pool r) (own_stacks r (ts @ ss))"
    "pool_used (unat MEMBLOCK_SIZE) (al_mapped (rg_alloc r)) (rg_td_pool r) (mset ([td] @ ts @ ss))"
    "pool_used (unat (ptrs * 8)) (al_mapped (rg_alloc r)) (rg_list_pool r) (mset (map (list_of r) ([td] @ ts @ ss)))"
    using inv by (simp_all only: reg_inv_def add_0)
  have sp: "or_fatal (pool_alloc_stack os (rg_stack_pool r) (rg_alloc r)) (\<lambda>(x, p', al'). alloc_ok al' \<and>
      set (al_mapped (rg_alloc r)) \<subseteq> set (al_mapped al') \<and> x \<noteq> 0 \<and> x \<notin># own_stacks r (ts @ ss) \<and>
      pool_used (unat STACKSIZE) (al_mapped al') p' (add_mset x (own_stacks r (ts @ ss))))"
    unfolding pool_alloc_stack_def
    by (rule pool_used_alloc [OF block_sources(1) [OF os] i(1,2)]) (simp_all add: STACKSIZE_def NSTACKS_def)
  have "reg_inv ptrs k [td] {#x#} (r\<lparr>rg_stack_pool := p, rg_alloc := al\<rparr>) ts ss"
    if al: "alloc_ok al" "set (al_mapped (rg_alloc r)) \<subseteq> set (al_mapped al)"
      "pool_used (unat STACKSIZE) (al_mapped al) p (add_mset x (own_stacks r (ts @ ss)))" for x p al
    using inv al(1,3) pool_used_mono [OF i(3) al(2)] pool_used_mono [OF i(4) al(2)] unfolding reg_inv_def by simp
  then show ?thesis
    using sp inv st by (auto simp: choose_stack_def forkscan_buffer_makestack_def or_fatal_def)
qed

lemma create_ok:
  assumes os: "mmap_fresh os" and ptrs: "ptrs_ok ptrs" and inv: "reg_inv ptrs k [] {#} r ts ss"
  shows "fatal_or (pthread_create os ptrs env an f a r) (\<lambda>(ret, td, r'). ret = ce_create env \<and>
    (ret = 0 \<longrightarrow> reg_inv ptrs k [] {#} r' (td # ts) ss \<and> td_user_routine (td_of r' td) = f \<and> td_user_arg (td_of r' td) = a \<and>
      \<not> td_is_active (td_of r' td)))"
proof -
  note inv1 = reg_count [OF inv, of 1]
  note new = or_fatal_fatal_or [OF td_new_ok [OF os ptrs inv1]]
  have "fatal_or (bind_res (forkscan_util_thread_data_new os ptrs (r\<lparr>g_thread_count := g_thread_count r + 1\<rparr>)) (\<lambda>(td, r).
        bind_res (td_modify td (\<lambda>d. d\<lparr>td_user_routine := f, td_user_arg := a, td_is_active := False\<rparr>) r) (\<lambda>r.
        if an \<and> ce_attr_init env \<noteq> 0 then Inl (Fatal ''could not create thread.'')
        else if ce_getstack env \<noteq> 0 then Inl (Fatal ''unable to get stack attributes.'')
        else
          bind_res (choose_stack os env r) (\<lambda>(stack, stacksize, ours, r).
          bind_res (td_modify td (\<lambda>d. d\<lparr>td_stack_is_ours := ours, td_user_stack_low := stack,
            td_user_stack_high := stack + stacksize, td_wait_time_ms := 0\<rparr>) r) (\<lambda>r.
          bind_res (forkscan_proc_add_thread_data td r) (\<lambda>r.
          if ce_create env = 0 then Inr (0, td, r)
          else
            bind_res (forkscan_util_thread_data_free td
              (if ours then r\<lparr>rg_stack_pool := forkscan_buffer_freestack stack (rg_stack_pool r)\<rparr> else r)) (\<lambda>r.
            Inr (ce_create env, td, r)))))))) (\<lambda>(ret, td, r'). ret = ce_create env \<and>
    (ret = 0 \<longrightarrow> reg_inv ptrs k [] {#} r' (td # ts) ss \<and> td_user_routine (td_of r' td) = f \<and> td_user_arg (td_of r' td) = a \<and>
      \<not> td_is_active (td_of r' td)))"
  proof (rule fatal_or_bind [OF new], clarify, goal_cases)
    case (1 td r1)
    obtain d where d: "td \<noteq> 0" "map_of (rg_tds r1) td = Some d" "td_of r1 td = d" using reg_td [OF 1(1), of td] by auto
    let ?d = "d\<lparr>td_user_routine := f, td_user_arg := a, td_is_active := False\<rparr>"
    let ?r2 = "r1\<lparr>rg_tds := AList.update td ?d (rg_tds r1)\<rparr>"
    have inv2: "reg_inv ptrs (k + 1) [td] {#} ?r2 ts ss" by (rule reg_modify_hand [OF 1(1) _ d(2)]) simp
    have "fatal_or (bind_res (choose_stack os env ?r2) g) Q"
      if g: "\<And>st sz ours r3. reg_inv ptrs (k + 1) [td] (if ours then {#st#} else {#}) r3 ts ss \<Longrightarrow> rg_tds r3 = rg_tds ?r2 \<Longrightarrow>
        fatal_or (g (st, sz, ours, r3)) Q" for g and Q :: "int \<times> size_t \<times> registry \<Rightarrow> bool"
      by (rule fatal_or_bind [OF choose_stack_ok [OF os inv2]]) (use g in auto)
    note step = this
    show ?case
      unfolding td_modify_eq [OF d(1,2)] bind_res_Inr
    proof (intro fatal_or_if step, goal_cases)
      case (3 st sz ours r3)
      let ?e = "?d\<lparr>td_stack_is_ours := ours, td_user_stack_low := st, td_user_stack_high := st + sz, td_wait_time_ms := 0\<rparr>"
      let ?r4 = "r3\<lparr>rg_tds := AList.update td ?e (rg_tds r3)\<rparr>"
      have d3: "map_of (rg_tds r3) td = Some ?d" using 3 by simp
      have inv4: "reg_inv ptrs (k + 1) [td] (if ours then {#st#} else {#}) ?r4 ts ss"
        by (rule reg_modify_hand [OF 3(3) _ d3]) simp
      have td4: "td_of ?r4 td = ?e" by (simp add: td_of_def)
      have own: "(if ours then {#st#} else {#}) = (if td_stack_is_ours (td_of ?r4 td) then {#td_user_stack_low (td_of ?r4 td)#} else {#})"
        unfolding td4 by (cases ours) simp_all
      have "td_ref_count d = 1" using 1 d(3) by simp
      then obtain r5 where r5: "forkscan_proc_add_thread_data td ?r4 = Inr r5" "reg_inv ptrs (k + 1 - 1) [] {#} r5 (td # ts) ss"
        "td_of r5 td = ?e\<lparr>td_next := thread_list_head ?r4\<rparr>"
        using list_add_ok [OF inv4 _ own] unfolding td4 by auto
      obtain e where e: "map_of (rg_lists r5) td = Some e" using r5(2) by (auto simp: reg_inv_def)
      show ?case
        using d(1) d3 r5 e by (simp add: td_modify_eq forkscan_util_thread_data_free_def ld_def Let_def)
    qed simp_all
  qed
  then show ?thesis unfolding pthread_create_def by simp
qed

lemma staged_free_ok:
  assumes inv: "reg_inv ptrs k [] {#} r ts (as @ s # bs)" and d: "td_of r s = d"
    and upd: "rg_tds r' = rg_tds r \<or> (\<exists>e n. p \<in> set as \<and> map_of (rg_tds r) p = Some e \<and> rg_tds r' = AList.update p (e\<lparr>td_next := n\<rparr>) (rg_tds r))"
    and r': "r' = r\<lparr>rg_tds := rg_tds r', g_td_staged_to_free := h\<rparr>" and h: "path td_next (rg_tds r') h (as @ bs) 0"
  shows "\<exists>r2. forkscan_util_thread_data_free s (if td_stack_is_ours d
      then r'\<lparr>rg_stack_pool := forkscan_buffer_freestack (td_user_stack_low d) (rg_stack_pool r')\<rparr> else r') = Inr r2 \<and>
    reg_inv ptrs k [] {#} r2 ts (as @ bs)"
proof -
  let ?m = "al_mapped (rg_alloc r)" and ?x = "{#td_user_stack_low d#}" and ?L = "list_of r"
  have i: "pool_used (unat MEMBLOCK_SIZE) ?m (rg_td_pool r) (mset (ts @ as @ s # bs))"
    "pool_used (unat (ptrs * 8)) ?m (rg_list_pool r) (mset (map ?L (ts @ as @ s # bs)))"
    "pool_used (unat STACKSIZE) ?m (rg_stack_pool r) (own_stacks r (ts @ as @ s # bs))"
    using inv by (simp_all only: reg_inv_def append_Nil add_0)
  have own: "own_stacks r (ts @ as @ s # bs) = (if td_stack_is_ours d then ?x else {#}) + own_stacks r (ts @ as @ bs)"
    using d by (simp add: own_stacks_def)
  have tp: "pool_used (unat MEMBLOCK_SIZE) ?m (pool_free s (rg_td_pool r)) (mset (ts @ as @ bs))"
    using pool_used_free [OF i(1), of s] by simp
  have lp: "pool_used (unat (ptrs * 8)) ?m (pool_free (?L s) (rg_list_pool r)) (mset (map ?L (ts @ as @ bs)))"
    using pool_used_free [OF i(2), of "?L s"] by simp
  have sp: "pool_used (unat STACKSIZE) ?m (if td_stack_is_ours d then pool_free (td_user_stack_low d) (rg_stack_pool r) else rg_stack_pool r)
      (own_stacks r (ts @ as @ bs))"
    using i(3) pool_used_free [OF i(3), of "td_user_stack_low d"] unfolding own by (simp split: if_splits)
  have all: "\<forall>t\<in>set (ts @ as @ s # bs). t \<noteq> 0 \<and> map_of (rg_tds r) t \<noteq> None \<and> map_of (rg_lists r) t \<noteq> None"
    using inv by (simp add: reg_inv_def)
  then obtain e where e: "map_of (rg_lists r) s = Some e" "s \<noteq> 0" "?L s = e" by (auto simp: list_of_def)
  let ?r2 = "r\<lparr>rg_tds := rg_tds r', g_td_staged_to_free := h,
      rg_stack_pool := (if td_stack_is_ours d then pool_free (td_user_stack_low d) (rg_stack_pool r) else rg_stack_pool r),
      rg_list_pool := pool_free e (rg_list_pool r), rg_td_pool := pool_free s (rg_td_pool r)\<rparr>"
  have fl: "rg_lists r' = rg_lists r" "rg_stack_pool r' = rg_stack_pool r" "rg_list_pool r' = rg_list_pool r" "rg_td_pool r' = rg_td_pool r"
    by (subst r', simp)+
  have run: "forkscan_util_thread_data_free s (if td_stack_is_ours d
      then r'\<lparr>rg_stack_pool := forkscan_buffer_freestack (td_user_stack_low d) (rg_stack_pool r')\<rparr> else r') = Inr ?r2"
    unfolding forkscan_util_thread_data_free_def using e fl
    by (subst (1 2 3 4) r') (simp add: ld_def forkscan_buffer_freestack_def)
  have u: "rg_tds r' = rg_tds r \<or> (\<exists>e n. map_of (rg_tds r) p = Some e \<and> rg_tds r' = AList.update p (e\<lparr>td_next := n\<rparr>) (rg_tds r))"
    using upd by blast
  note nx = next_only [OF u]
  have pt: "path td_next (rg_tds r') (thread_list_head r) ts 0"
    using nx(6) [of ts "thread_list_head r"] upd inv reg_distinct [OF inv] by (auto simp: reg_inv_def)
  have td2: "td_of ?r2 = td_of (r\<lparr>rg_tds := rg_tds r'\<rparr>)" "list_of ?r2 = ?L" "own_stacks ?r2 = own_stacks (r\<lparr>rg_tds := rg_tds r'\<rparr>)"
    by (simp_all add: td_of_def list_of_def own_stacks_def fun_eq_iff)
  have "reg_inv ptrs k [] {#} ?r2 ts (as @ bs)"
    unfolding reg_inv_def td2 nx(3,5)
    using inv pt h tp lp sp all nx(4) e(3) unfolding reg_inv_def by simp
  with run show ?thesis by blast
qed

lemma join_ok:
  assumes inv: "reg_inv ptrs k [] {#} r ts (as @ s # bs)" and tid: "td_self (td_of r s) = tid"
    and first: "\<And>a. a \<in> set as \<Longrightarrow> td_self (td_of r a) \<noteq> tid"
  shows "\<exists>r'. pthread_join ret tid r = Inr (ret, r') \<and> reg_inv ptrs k [] {#} r' ts (as @ bs)"
proof -
  have pa: "path td_next (rg_tds r) (g_td_staged_to_free r) (as @ s # bs) 0" using inv by (simp add: reg_inv_def)
  obtain d where d: "s \<noteq> 0" "map_of (rg_tds r) s = Some d" "td_of r s = d" using reg_td [OF inv, of s] by auto
  have rc: "td_ref_count d = 0" using inv d(3) by (auto simp: reg_inv_def)
  let ?prev = "if as = [] then 0 else last as"
  have found: "seek_staged (Suc (length (rg_tds r))) (rg_tds r) tid (g_td_staged_to_free r) 0 = Inr (s, ?prev)"
  proof (rule seek_staged_found [OF pa _ d(2)])
    show "td_self e \<noteq> tid" if "a \<in> set as" "map_of (rg_tds r) a = Some e" for a e
      using first [OF that(1)] that(2) by (simp add: td_of_def)
  qed (use chain_fuel [OF pa] tid d(3) in simp_all)
  obtain r' h p where r': "(if ?prev \<noteq> 0 then td_modify ?prev (\<lambda>l. l\<lparr>td_next := td_next d\<rparr>) r else Inr (r\<lparr>g_td_staged_to_free := td_next d\<rparr>)) = Inr r'"
    "rg_tds r' = rg_tds r \<or> (\<exists>e n. p \<in> set as \<and> map_of (rg_tds r) p = Some e \<and> rg_tds r' = AList.update p (e\<lparr>td_next := n\<rparr>) (rg_tds r))"
    "r' = r\<lparr>rg_tds := rg_tds r', g_td_staged_to_free := h\<rparr>" "path td_next (rg_tds r') h (as @ bs) 0"
  proof (cases as rule: rev_cases)
    case Nil
    let ?r' = "r\<lparr>g_td_staged_to_free := td_next d\<rparr>"
    show thesis by (rule that [of ?r' 0 "td_next d"]) (use Nil pa d(2) in auto)
  next
    case (snoc cs p)
    have path: "path td_next (rg_tds r) (g_td_staged_to_free r) (cs @ [p, s] @ bs) 0" using pa snoc by simp
    obtain e where e: "p \<noteq> 0" "map_of (rg_tds r) p = Some e" using path_live [OF path, of p] by auto
    let ?r' = "r\<lparr>rg_tds := AList.update p (e\<lparr>td_next := td_next d\<rparr>) (rg_tds r)\<rparr>"
    have upd: "path td_next (rg_tds ?r') (g_td_staged_to_free r) (as @ bs) 0"
      using path_unlink [OF path e(2) d(2), of "e\<lparr>td_next := td_next d\<rparr>"] snoc by simp
    show thesis by (rule that [OF _ _ _ upd, of p]) (use snoc e in \<open>auto simp: td_modify_def\<close>)
  qed
  from staged_free_ok [OF inv d(3) r'(2-4)] show ?thesis
    using found d rc r'(1) by (auto simp: pthread_join_def forkscan_util_thread_data_cleanup_def Let_def)
qed

lemma join_missing:
  assumes inv: "reg_inv ptrs k hs xs r ts ss" and none: "\<And>a. a \<in> set ss \<Longrightarrow> td_self (td_of r a) \<noteq> tid"
  shows "pthread_join ret tid r = Inl Null_deref"
proof -
  have pa: "path td_next (rg_tds r) (g_td_staged_to_free r) ss 0" using inv by (simp add: reg_inv_def)
  have "seek_staged (Suc (length (rg_tds r))) (rg_tds r) tid (g_td_staged_to_free r) 0 = Inl Null_deref"
  proof (rule seek_staged_none [OF pa])
    show "td_self e \<noteq> tid" if "a \<in> set ss" "map_of (rg_tds r) a = Some e" for a e
      using none [OF that(1)] that(2) by (simp add: td_of_def)
  qed (use chain_fuel [OF pa] in simp)
  then show ?thesis by (simp add: pthread_join_def forkscan_util_thread_data_cleanup_def)
qed

lemma base_ok:
  assumes inv: "reg_inv ptrs k [] {#} r ts ss" and t: "td \<in> set ts"
  shows "\<exists>r'. forkscan_thread_base td self sp r = Inr r' \<and> reg_inv ptrs k [] {#} r' ts ss \<and>
    td_is_active (td_of r' td) \<and> td_self (td_of r' td) = self"
proof -
  obtain d where d: "td \<noteq> 0" "map_of (rg_tds r) td = Some d" using reg_td [OF inv, of td] t by auto
  let ?d = "d\<lparr>td_user_stack_high := sp - (sp AND (PAGESIZE - 1)), td_local_timestamp := 0, td_self := self, td_is_active := True\<rparr>"
  have "reg_inv ptrs k [] {#} (r\<lparr>rg_tds := AList.update td ?d (rg_tds r)\<rparr>) ts ss"
    by (rule reg_modify_listed [OF inv _ d(2)]) (use t in simp_all)
  then show ?thesis using d by (simp add: forkscan_thread_base_def Let_def td_modify_def)
qed

definition reg_start :: registry where
  "reg_start = \<lparr>rg_tds = [], rg_lists = [], thread_list_head = 1, thread_list_count = 0, g_td_staged_to_free = 0,
     rg_td_pool = pool_init, rg_list_pool = pool_init, rg_stack_pool = pool_init, rg_alloc = alloc_init,
     g_thread_count = 1, g_total_wait_time_ms = 0\<rparr>"

lemma pool_used_init [simp]: "pool_used sz maps pool_init {#}"
  unfolding pool_used_def by (intro exI [of _ "[]"]) (simp add: pool_inv_def pool_init_def objects_apart_def)

lemma reg_start_ok: "reg_inv ptrs 1 [] {#} (proc_init reg_start) [] []"
  using alloc_init_inv by (auto simp: reg_inv_def proc_init_def reg_start_def own_stacks_def alloc_ok_def)

lemma main_ok:
  assumes os: "mmap_fresh os" and ptrs: "ptrs_ok ptrs"
    and run: "main_replacement os ptrs maps stack_data main_thunk args self sp (proc_init reg_start) = Inr (td, r)"
  shows "reg_inv ptrs 0 [] {#} r [td] []"
proof -
  obtain r1 where r1: "forkscan_util_thread_data_new os ptrs (proc_init reg_start) = Inr (td, r1)"
    "reg_inv ptrs 1 [td] {#} r1 [] []" "td_ref_count (td_of r1 td) = 1" "\<not> td_stack_is_ours (td_of r1 td)"
    using td_new_ok [OF os ptrs reg_start_ok] run
    by (fastforce simp: or_fatal_def main_replacement_def bind_res_eq_Inr proc_init_def reg_start_def td_blank_def)
  obtain d where d: "td \<noteq> 0" "map_of (rg_tds r1) td = Some d" "td_of r1 td = d" using reg_td [OF r1(2), of td] by auto
  obtain st where st: "forkscan_proc_stack_from_addr maps stack_data = Inr st"
    using run r1(1) by (auto simp: main_replacement_def bind_res_eq_Inr)
  let ?d = "d\<lparr>td_user_routine := main_thunk, td_user_arg := args, td_user_stack_low := mr_low st\<rparr>"
  let ?r2 = "r1\<lparr>rg_tds := AList.update td ?d (rg_tds r1)\<rparr>"
  have inv2: "reg_inv ptrs 1 [td] {#} ?r2 [] []" by (rule reg_modify_hand [OF r1(2) _ d(2)]) simp
  obtain r3 where r3: "forkscan_proc_add_thread_data td ?r2 = Inr r3" "reg_inv ptrs (1 - 1) [] {#} r3 [td] []"
    using list_add_ok [OF inv2] r1(3,4) d(3) by auto
  show ?thesis using run r1(1) st r3 d base_ok [OF r3(2), of td self sp]
    by (auto simp: main_replacement_def td_modify_def)
qed

section \<open>Histories\<close>

text \<open>
  What the registry stands for: the threads that are listed and those that have exited and are not
  joined, the newest first. The operations of a history have succeeded; the state after a creation that
  pthreads has refused is in no history, and the properties say what it is. A run starts with \<^verbatim>\<open>main_replacement\<close>; any thread is created, started,
  ended or joined next. What the operating system answers is the same function of the mapped blocks
  throughout.
\<close>

inductive reg_reach :: "os_t \<Rightarrow> size_t \<Rightarrow> registry \<Rightarrow> size_t list \<Rightarrow> size_t list \<Rightarrow> bool" for os ptrs where
  main: "main_replacement os ptrs maps stack_data thunk args self sp (proc_init reg_start) = Inr (td, r) \<Longrightarrow> reg_reach os ptrs r [td] []"
| create: "reg_reach os ptrs r ts ss \<Longrightarrow> pthread_create os ptrs env an f a r = Inr (0, td, r') \<Longrightarrow> reg_reach os ptrs r' (td # ts) ss"
| base: "reg_reach os ptrs r ts ss \<Longrightarrow> td \<in> set ts \<Longrightarrow> forkscan_thread_base td self sp r = Inr r' \<Longrightarrow> reg_reach os ptrs r' ts ss"
| exit: "reg_reach os ptrs r ts ss \<Longrightarrow> td \<in> set ts \<Longrightarrow> exit_wrapper td r = Inr r' \<Longrightarrow> reg_reach os ptrs r' (remove1 td ts) (td # ss)"
| join: "reg_reach os ptrs r ts (as @ s # bs) \<Longrightarrow> td_self (td_of r s) = tid \<Longrightarrow> (\<And>a. a \<in> set as \<Longrightarrow> td_self (td_of r a) \<noteq> tid) \<Longrightarrow>
    pthread_join ret tid r = Inr (ret, r') \<Longrightarrow> reg_reach os ptrs r' ts (as @ bs)"

lemma reg_reach_inv:
  assumes os: "mmap_fresh os" and ptrs: "ptrs_ok ptrs" and r: "reg_reach os ptrs r ts ss"
  shows "reg_inv ptrs 0 [] {#} r ts ss \<and> length ts \<le> nat MAX_THREAD_COUNT + 1"
  using r
proof induction
  case (main maps stack_data thunk args self sp td r)
  then show ?case using main_ok [OF os ptrs] by (simp add: MAX_THREAD_COUNT_def)
next
  case (create r ts ss env an f a td r')
  have "g_thread_count r \<le> MAX_THREAD_COUNT" using create(2) by (auto simp: pthread_create_def split: if_splits)
  then have "length (td # ts) \<le> nat MAX_THREAD_COUNT + 1" using create(3) by (auto simp: reg_inv_def MAX_THREAD_COUNT_def)
  then show ?case using create_ok [OF os ptrs conjunct1 [OF create(3)], of env an f a] create(2) by simp
next
  case (base r ts ss td self sp r')
  then show ?case using base_ok [of ptrs 0 r ts ss td self sp] by auto
next
  case (exit r ts ss td r')
  then show ?case using exit_ok [of ptrs 0 r ts ss td] length_remove1 [of td ts] by (auto split: if_splits)
next
  case (join r ts as s bs tid ret r')
  then show ?case using join_ok [of ptrs 0 r ts as s bs tid ret] by auto
qed

lemma signal_loop_ok:
  assumes "path td_next s p ts 0" "length ts < k" "0 \<le> n" "n + int (length ts) < 2 ^ 31"
    and "\<And>t d. t \<in> set ts \<Longrightarrow> map_of s t = Some d \<Longrightarrow> kill (td_self d) \<noteq> Einval"
  shows "signal_loop k kill wanted s p sent n =
    (let hit = filter (\<lambda>t. wanted t \<and> td_is_active (the (map_of s t)) \<and> kill (td_self (the (map_of s t))) = Killed) ts
     in Inr (sent @ hit, n + int (length hit)))"
  using assms
proof (induction ts arbitrary: p k sent n)
  case Nil
  then show ?case by (cases k) auto
next
  case (Cons t ts)
  obtain d k' where d: "p = t" "t \<noteq> 0" "map_of s t = Some d" "path td_next s (td_next d) ts 0" "k = Suc k'" "length ts < k'"
    using Cons.prems(1,2) by (cases k) (auto split: option.splits)
  have kill: "kill (td_self d) \<noteq> Einval" using Cons.prems(5) [OF _ d(3)] by simp
  have c: "cint (n + 1) = Inr (n + 1)" using Cons.prems(3,4) by (simp add: cint_def)
  have IH: "signal_loop k' kill wanted s (td_next d) sent m =
    (let hit = filter (\<lambda>t. wanted t \<and> td_is_active (the (map_of s t)) \<and> kill (td_self (the (map_of s t))) = Killed) ts
     in Inr (sent @ hit, m + int (length hit)))" if "0 \<le> m" "m \<le> n + 1" for m sent
    by (rule Cons.IH [OF d(4,6) that(1)]) (use that(2) Cons.prems(4,5) in auto)
  show ?case
    using d kill c IH [of n sent] IH [of "n + 1" "sent @ [t]"] Cons.prems(3,4)
    by (cases "kill (td_self d)") (simp_all add: Let_def)
qed

section \<open>Sample runs\<close>

lemma sample_pool:
  assumes al: "alloc_ok al" "maps_top (al_mapped al) < 2 ^ 61" and p: "pool_used (unat dtsize) (al_mapped al) p L"
    and sz: "0 < unat dtsize" "0 < n" "unat dtsize * n < 2 ^ 62" "dtsize * of_nat n \<noteq> 0" "uint (dtsize * of_nat n) \<le> 0x10000"
  obtains x p' al' where "pool_alloc (forkscan_alloc_mmap_shared sample_os) dtsize n reason p al = Inr (x, p', al')"
    "maps_top (al_mapped al') \<le> maps_top (al_mapped al) + 0x11000"
proof (cases "pl_head p = 0")
  case False
  then show thesis
    using pool_used_alloc [OF block_sources(2) [OF sample_os_ok(1)] al(1) p sz(1-3), of reason] that
    by (auto simp: or_fatal_def pool_alloc_def Let_def ld_def split: option.splits)
next
  case True
  let ?sz = "dtsize * of_nat n"
  obtain ps fs where inv: "alloc_inv al ps fs" using al(1) by (auto simp: alloc_ok_def)
  have "\<not> mmap_refuses sample_os (al_mapped al) ?sz True" by (rule sample_not_refused) (use al(2) sz(4,5) in simp_all)
  with alloc_mmap_ok [OF sample_os_ok(1) inv, of ?sz reason True]
  obtain x al' maps where run: "alloc_mmap sample_os ?sz reason True al = Inr (x, al')"
    and maps: "page_added sample_os (al_mapped al) maps" "al_mapped al' = (x, ?sz) # maps" "os_mmap sample_os maps ?sz True = Some x"
    by auto
  have page: "maps_top maps \<le> maps_top (al_mapped al) + 0x1000" by (rule sample_page [OF maps(1)]) (use al(2) in simp)
  then have "uint (word_of_int (maps_top maps) :: size_t) = maps_top maps"
    using maps_top_pos [of maps] al(2) by (simp add: uint_word_of_int_eq take_bit_int_eq_self)
  then have "maps_top (al_mapped al') \<le> maps_top (al_mapped al) + 0x11000"
    using maps(2,3) page sz(5) by (auto simp: sample_os_def maps_top_def split: if_splits)
  with that run True show thesis by (simp add: pool_alloc_def forkscan_alloc_mmap_shared_def)
qed

abbreviation reg_top :: "registry \<Rightarrow> int" where
  "reg_top r \<equiv> maps_top (al_mapped (rg_alloc r))"

lemma sample_td_new:
  assumes inv: "reg_inv 512 k [] {#} r ts ss" and top: "reg_top r < 2 ^ 60"
  obtains td r' where "forkscan_util_thread_data_new sample_os 512 r = Inr (td, r')" "reg_top r' \<le> reg_top r + 0x22000"
proof -
  have i: "alloc_ok (rg_alloc r)" "pool_used (unat MEMBLOCK_SIZE) (al_mapped (rg_alloc r)) (rg_td_pool r) (mset (ts @ ss))"
    "pool_used (unat (512 * 8 :: size_t)) (al_mapped (rg_alloc r)) (rg_list_pool r) (mset (map (list_of r) (ts @ ss)))"
    using inv by (simp_all only: reg_inv_def append_Nil)
  obtain x p al where 1: "pool_alloc_threaddata sample_os (rg_td_pool r) (rg_alloc r) = Inr (x, p, al)"
    "maps_top (al_mapped al) \<le> reg_top r + 0x11000"
    unfolding pool_alloc_threaddata_def
    by (rule sample_pool [OF i(1) _ i(2), where n = 8]) (use top in \<open>simp_all add: MEMBLOCK_SIZE_def PAGESIZE_def\<close>)
  have "or_fatal (pool_alloc_threaddata sample_os (rg_td_pool r) (rg_alloc r)) (\<lambda>(x, p', al'). alloc_ok al' \<and>
      set (al_mapped (rg_alloc r)) \<subseteq> set (al_mapped al') \<and> x \<noteq> 0 \<and> x \<notin># mset (ts @ ss) \<and>
      pool_used (unat MEMBLOCK_SIZE) (al_mapped al') p' (add_mset x (mset (ts @ ss))))"
    unfolding pool_alloc_threaddata_def
    by (rule pool_used_alloc [OF block_sources(2) [OF sample_os_ok(1)] i(1,2)]) (simp_all add: MEMBLOCK_SIZE_def PAGESIZE_def)
  then have al: "alloc_ok al" "set (al_mapped (rg_alloc r)) \<subseteq> set (al_mapped al)" using 1(1) by (simp_all add: or_fatal_def)
  obtain y q am where 2: "pool_alloc_ptrlist sample_os 512 (rg_list_pool r) al = Inr (y, q, am)"
    "maps_top (al_mapped am) \<le> maps_top (al_mapped al) + 0x11000"
    unfolding pool_alloc_ptrlist_def
    by (rule sample_pool [OF al(1) _ pool_used_mono [OF i(3) al(2)], where n = 8]) (use top 1(2) in simp_all)
  obtain r' where "forkscan_util_thread_data_new sample_os 512 r = Inr (x, r')" "rg_alloc r' = am"
    using 1(1) 2(1) by (simp add: forkscan_util_thread_data_new_def Let_def)
  then show thesis using that 1(2) 2(2) by simp
qed

definition user_stack :: "int \<Rightarrow> create_env" where
  "user_stack e = \<lparr>ce_attr_init = 0, ce_getstack = 0, ce_stack = (0x700000, 0x10000), ce_setstack = 0, ce_create = e\<rparr>"

lemma modify_alloc: "td_modify td f r = Inr r' \<Longrightarrow> rg_alloc r' = rg_alloc r"
  by (auto simp: td_modify_def bind_res_eq_Inr)

lemma add_alloc: "forkscan_proc_add_thread_data td r = Inr r' \<Longrightarrow> rg_alloc r' = rg_alloc r"
  by (auto simp: forkscan_proc_add_thread_data_def forkscan_util_thread_list_add_def forkscan_util_thread_list_init_def td_modify_def
    bind_res_eq_Inr split: if_splits)

lemma sample_create:
  assumes inv: "reg_inv 512 k [] {#} r ts ss" and top: "reg_top r < 2 ^ 60" and count: "g_thread_count r \<le> MAX_THREAD_COUNT"
  obtains td r' where "pthread_create sample_os 512 (user_stack e) True f a r = Inr (e, td, r')" "reg_top r' \<le> reg_top r + 0x22000"
proof -
  let ?r = "r\<lparr>g_thread_count := g_thread_count r + 1\<rparr>"
  obtain td r1 where 1: "forkscan_util_thread_data_new sample_os 512 ?r = Inr (td, r1)" "reg_top r1 \<le> reg_top r + 0x22000"
    using sample_td_new [OF reg_count [OF inv, of 1]] top by auto
  have ok: "fatal_or (pthread_create sample_os 512 (user_stack e) True f a r) (\<lambda>(ret, td, r'). ret = e)"
    using create_ok [OF sample_os_ok(1) _ inv, of "user_stack e" True f a]
    by (auto simp: fatal_or_def ptrs_ok_def user_stack_def split: sum.splits c_error.splits)
  have "pthread_create sample_os 512 (user_stack e) True f a r \<noteq> Inl (Fatal msg)" for msg
    using 1(1) count
    by (auto simp: pthread_create_def user_stack_def choose_stack_def bind_res_def td_modify_def modify_def ld_def forkscan_proc_add_thread_data_def
      forkscan_util_thread_list_add_def forkscan_util_thread_data_free_def split: sum.splits option.splits if_splits)
  then obtain td' r' where run: "pthread_create sample_os 512 (user_stack e) True f a r = Inr (e, td', r')"
    using ok by (cases "pthread_create sample_os 512 (user_stack e) True f a r") (auto simp: fatal_or_def split: c_error.splits)
  have "rg_alloc r' = rg_alloc r1" using run 1(1) count
    by (auto simp: pthread_create_def user_stack_def choose_stack_def bind_res_eq_Inr forkscan_util_thread_data_free_def
      dest!: modify_alloc add_alloc split: if_splits)
  with that run 1(2) show thesis by simp
qed

definition sample_map :: string where
  "sample_map = ''0040f000-00410000 rw-p 0000001a 08:01 42   /lib/a.so (deleted)'' @ [CHR 0x0A]"

lemma sample_stack_found: "forkscan_proc_stack_from_addr (Some sample_map) 0x40F010 = Inr \<lparr>mr_low = 0x40F000, mr_high = 0x410000\<rparr>"
proof -
  have "map_text [sample_line] sample_map"
    unfolding map_text_def sample_map_def
    by (rule exI [of _ "[''0040f000-00410000 rw-p 0000001a 08:01 42   /lib/a.so (deleted)'' @ [CHR 0x0A]]"])
      (simp only: list.rel_intros sample_line_text concat.simps append_Nil2 simp_thms)
  from stack_from_addr_text [OF this, of "Suc (length sample_map)" "0x40F010"] show ?thesis
    by (simp add: forkscan_proc_stack_from_addr_def sample_line_def)
qed

lemma sample_main:
  obtains td r where "reg_reach sample_os 512 r [td] []" "reg_inv 512 0 [] {#} r [td] []" "reg_top r < 2 ^ 30"
proof -
  have top: "reg_top (proc_init reg_start) = 0x10000" by (simp add: proc_init_def reg_start_def alloc_init_def maps_top_def)
  obtain td r1 where 1: "forkscan_util_thread_data_new sample_os 512 (proc_init reg_start) = Inr (td, r1)" "reg_top r1 \<le> 0x10000 + 0x22000"
    by (rule sample_td_new [OF reg_start_ok]) (use top in simp_all)
  have new: "reg_inv 512 1 [td] {#} r1 [] []"
    using td_new_ok [OF sample_os_ok(1) _ reg_start_ok, of 512] 1(1) by (simp add: or_fatal_def ptrs_ok_def)
  obtain d where d: "td \<noteq> 0" "map_of (rg_tds r1) td = Some d" using reg_td [OF new, of td] by auto
  obtain r where run: "main_replacement sample_os 512 (Some sample_map) 0x40F010 1 2 3 0x40F020 (proc_init reg_start) = Inr (td, r)"
    "rg_alloc r = rg_alloc r1"
    using 1(1) d sample_stack_found
    by (simp add: main_replacement_def td_modify_def forkscan_proc_add_thread_data_def forkscan_util_thread_list_add_def
      forkscan_util_thread_list_init_def forkscan_thread_base_def Let_def)
  show thesis
    by (rule that [OF reg_reach.main [OF run(1)] main_ok [OF sample_os_ok(1) _ run(1)]]) (use run(2) 1(2) in \<open>simp_all add: ptrs_ok_def\<close>)
qed

section \<open>What a creation leaves in the list\<close>

lemma td_modify_InrE:
  assumes "td_modify td f r = Inr r'"
  obtains d where "td \<noteq> 0" "map_of (rg_tds r) td = Some d" "r' = r\<lparr>rg_tds := AList.update td (f d) (rg_tds r)\<rparr>"
  using assms by (auto simp: td_modify_def modify_def bind_res_eq_Inr ld_eq_Inr)

lemma choose_stack_InrE:
  assumes "choose_stack os env r = Inr (st, sz, ours, r')"
  obtains sp al where "r' = r\<lparr>rg_stack_pool := sp, rg_alloc := al\<rparr>"
proof -
  have "\<exists>sp al. r' = r\<lparr>rg_stack_pool := sp, rg_alloc := al\<rparr>"
    using assms by (auto simp: choose_stack_def bind_res_eq_Inr split: if_splits prod.splits)
      (metis registry.surjective registry.update_convs(8,9))
  with that show thesis by blast
qed

lemma add_InrE:
  assumes "forkscan_proc_add_thread_data td r = Inr r'"
  obtains d n where "td \<noteq> 0" "map_of (rg_tds r) td = Some d"
    "r' = r\<lparr>rg_tds := AList.update td (d\<lparr>td_next := thread_list_head r\<rparr>) (rg_tds r), thread_list_head := td, thread_list_count := n\<rparr>"
  using assms by (auto simp: forkscan_proc_add_thread_data_def forkscan_util_thread_list_add_def forkscan_util_thread_list_init_def
    bind_res_eq_Inr split: if_splits elim!: td_modify_InrE)

lemma create_runs:
  assumes "pthread_create os ptrs env an f a r = Inr (e, td, r')"
  obtains ra rx sp where "forkscan_util_thread_data_new os ptrs (r\<lparr>g_thread_count := g_thread_count r + 1\<rparr>) = Inr (td, ra)" "td \<noteq> 0"
    "thread_list_head rx = td" "\<not> td_is_active (td_of rx td)" "td_next (td_of rx td) = thread_list_head ra" "map_of (rg_tds rx) td \<noteq> None"
    "g_thread_count rx = g_thread_count ra" "rg_td_pool rx = rg_td_pool ra" "e = ce_create env"
    "if e = 0 then r' = rx else forkscan_util_thread_data_free td (rx\<lparr>rg_stack_pool := sp\<rparr>) = Inr r'"
proof -
  obtain ra rb st sz ours rc rx' rx where
    run: "forkscan_util_thread_data_new os ptrs (r\<lparr>g_thread_count := g_thread_count r + 1\<rparr>) = Inr (td, ra)"
      "td_modify td (\<lambda>d. d\<lparr>td_user_routine := f, td_user_arg := a, td_is_active := False\<rparr>) ra = Inr rb"
      "choose_stack os env rb = Inr (st, sz, ours, rc)"
      "td_modify td (\<lambda>d. d\<lparr>td_stack_is_ours := ours, td_user_stack_low := st, td_user_stack_high := st + sz, td_wait_time_ms := 0\<rparr>) rc = Inr rx'"
      "forkscan_proc_add_thread_data td rx' = Inr rx" "e = ce_create env"
    and fin: "if ce_create env = 0 then r' = rx else forkscan_util_thread_data_free td
        (if ours then rx\<lparr>rg_stack_pool := forkscan_buffer_freestack st (rg_stack_pool rx)\<rparr> else rx) = Inr r'"
    using assms by (auto simp: pthread_create_def bind_res_eq_Inr split: if_splits)
  obtain d1 where 1: "td \<noteq> 0" "rb = ra\<lparr>rg_tds := AList.update td (d1\<lparr>td_is_active := False\<rparr>) (rg_tds ra)\<rparr>" using run(2) by (auto elim: td_modify_InrE)
  obtain sp al where 2: "rc = rb\<lparr>rg_stack_pool := sp, rg_alloc := al\<rparr>" using run(3) by (rule choose_stack_InrE)
  obtain d2 where 3: "rx' = rc\<lparr>rg_tds := AList.update td d2 (rg_tds rc)\<rparr>" "\<not> td_is_active d2"
    using run(4) unfolding 2 1(2) by (auto elim!: td_modify_InrE)
  obtain d3 n where 4: "map_of (rg_tds rx') td = Some d3" "rx = rx'\<lparr>rg_tds := AList.update td (d3\<lparr>td_next := thread_list_head rx'\<rparr>) (rg_tds rx'), thread_list_head := td, thread_list_count := n\<rparr>"
    using run(5) by (rule add_InrE)
  let ?sp = "if ours then forkscan_buffer_freestack st (rg_stack_pool rx) else rg_stack_pool rx"
  have "(if ours then rx\<lparr>rg_stack_pool := forkscan_buffer_freestack st (rg_stack_pool rx)\<rparr> else rx) = rx\<lparr>rg_stack_pool := ?sp\<rparr>" by simp
  with fin run(6) have f: "if e = 0 then r' = rx else forkscan_util_thread_data_free td (rx\<lparr>rg_stack_pool := ?sp\<rparr>) = Inr r'"
    by (simp split: if_splits)
  have "thread_list_head rx = td" "\<not> td_is_active (td_of rx td)" "td_next (td_of rx td) = thread_list_head ra" "map_of (rg_tds rx) td \<noteq> None"
    "g_thread_count rx = g_thread_count ra" "rg_td_pool rx = rg_td_pool ra"
    using 3(2) 4(1) unfolding 4(2) 3(1) 2 1(2) by (simp_all add: td_of_def)
  with run(1,6) 1(1) f show thesis using that by blast
qed

section \<open>Properties\<close>

text \<open>
  C14: in every history of starting the program and creating, starting, ending and joining threads,
  the two linked lists are acyclic and hold exactly the threads that run and those that have exited
  and are not joined; the counters count the former and exceed the maximum by at most one; no two
  threads share thread data, a list of retired pointers or any byte of a stack Forkscan has made.
\<close>

theorem registry_history:
  assumes "mmap_fresh os" and "ptrs_ok ptrs" and "reg_reach os ptrs r ts ss"
  shows "path td_next (rg_tds r) (thread_list_head r) ts 0 \<and> path td_next (rg_tds r) (g_td_staged_to_free r) ss 0 \<and>
    distinct (ts @ ss) \<and> thread_list_count r = of_nat (length ts) \<and> g_thread_count r = int (length ts) \<and>
    g_thread_count r \<le> MAX_THREAD_COUNT + 1 \<and> distinct (map (list_of r) (ts @ ss)) \<and>
    (\<exists>ls. mset ls = own_stacks r (ts @ ss) \<and> objects_apart (unat STACKSIZE) ls)"
proof -
  have inv: "reg_inv ptrs 0 [] {#} r ts ss" "length ts \<le> nat MAX_THREAD_COUNT + 1" using reg_reach_inv [OF assms] by auto
  obtain ls where "mset ls = own_stacks r (ts @ ss)" "objects_apart (unat STACKSIZE) ls"
    using inv(1) unfolding reg_inv_def pool_used_def pool_inv_def objects_apart_def by fastforce
  moreover have "distinct (map (list_of r) (ts @ ss))"
    using inv(1) by (intro pool_used_distinct [of "unat (ptrs * 8)" "al_mapped (rg_alloc r)" "rg_list_pool r"]) (simp only: reg_inv_def append_Nil)
  ultimately show ?thesis using inv reg_distinct [OF inv(1)] by (auto simp: reg_inv_def MAX_THREAD_COUNT_def)
qed

theorem registry_history_witness:
  "\<exists>r td. reg_reach sample_os 512 r [td] [] \<and> thread_list_count r = 1 \<and> path td_next (rg_tds r) (thread_list_head r) [td] 0"
proof -
  obtain td r where r: "reg_reach sample_os 512 r [td] []" by (rule sample_main)
  from registry_history [OF sample_os_ok(1) _ r] show ?thesis using r by (auto simp: ptrs_ok_def)
qed

lemma failed_create:
  assumes "pthread_create os ptrs env an f a r = Inr (e, td, r1)" "e \<noteq> 0"
  shows "thread_list_head r1 = td" "g_thread_count r1 = g_thread_count r + 1" "pl_head (rg_td_pool r1) = td" "td \<noteq> 0"
proof -
  obtain ra rx sp where run: "forkscan_util_thread_data_new os ptrs (r\<lparr>g_thread_count := g_thread_count r + 1\<rparr>) = Inr (td, ra)"
    "td \<noteq> 0" "thread_list_head rx = td" "g_thread_count rx = g_thread_count ra"
    "forkscan_util_thread_data_free td (rx\<lparr>rg_stack_pool := sp\<rparr>) = Inr r1"
    by (rule create_runs [OF assms(1)]) (use assms(2) in auto)
  show "thread_list_head r1 = td" "g_thread_count r1 = g_thread_count r + 1" "pl_head (rg_td_pool r1) = td" "td \<noteq> 0"
    using run by (auto simp: forkscan_util_thread_data_free_def forkscan_util_thread_data_new_def bind_res_eq_Inr Let_def
      pool_free_def pool_push_def)
qed

text \<open>
  C15: in every such history, a listed thread can always start and end, an exited thread can always be
  joined and leaves no record behind, each with the next state of the history; no search runs off the end
  of a list or for ever. Creating a thread ends in \<^verbatim>\<open>forkscan_fatal\<close> or returns what pthreads answers. When
  that is success, the state is the next one of the history; otherwise the new thread data is the
  head of the list of threads and of the pool of free thread data at once, and the thread stays counted.
\<close>

theorem registry_operations_return:
  assumes "mmap_fresh os" and "ptrs_ok ptrs" and "reg_reach os ptrs r ts ss"
  shows "(\<forall>td\<in>set ts. \<exists>r'. forkscan_thread_base td self sp r = Inr r' \<and> reg_reach os ptrs r' ts ss) \<and>
    (\<forall>td\<in>set ts. \<exists>r'. exit_wrapper td r = Inr r' \<and> reg_reach os ptrs r' (remove1 td ts) (td # ss)) \<and>
    (\<forall>s\<in>set ss. \<exists>r' as u bs. ss = as @ u # bs \<and> td_self (td_of r u) = td_self (td_of r s) \<and>
       pthread_join ret (td_self (td_of r s)) r = Inr (ret, r') \<and> reg_reach os ptrs r' ts (as @ bs)) \<and>
    (case pthread_create os ptrs env an f a r of
       Inl e \<Rightarrow> \<exists>msg. e = Fatal msg
     | Inr (e, td, r') \<Rightarrow> e = ce_create env \<and>
         (if e = 0 then reg_reach os ptrs r' (td # ts) ss \<and> td_user_routine (td_of r' td) = f \<and> td_user_arg (td_of r' td) = a
          else thread_list_head r' = td \<and> pl_head (rg_td_pool r') = td \<and> g_thread_count r' = g_thread_count r + 1))"
proof -
  have inv: "reg_inv ptrs 0 [] {#} r ts ss" using reg_reach_inv [OF assms] by simp
  have "\<exists>r'. forkscan_thread_base td self sp r = Inr r' \<and> reg_reach os ptrs r' ts ss" if "td \<in> set ts" for td
    using base_ok [OF inv that] reg_reach.base [OF assms(3) that] by blast
  moreover have "\<exists>r'. exit_wrapper td r = Inr r' \<and> reg_reach os ptrs r' (remove1 td ts) (td # ss)" if "td \<in> set ts" for td
    using exit_ok [OF inv that] reg_reach.exit [OF assms(3) that] by blast
  moreover have "\<exists>r' as u bs. ss = as @ u # bs \<and> td_self (td_of r u) = td_self (td_of r s) \<and>
       pthread_join ret (td_self (td_of r s)) r = Inr (ret, r') \<and> reg_reach os ptrs r' ts (as @ bs)" if "s \<in> set ss" for s
  proof -
    obtain as u bs where u: "ss = as @ u # bs" "td_self (td_of r u) = td_self (td_of r s)" "\<forall>a\<in>set as. td_self (td_of r a) \<noteq> td_self (td_of r s)"
      using split_list_first_prop [of ss "\<lambda>u. td_self (td_of r u) = td_self (td_of r s)"] \<open>s \<in> set ss\<close> by blast
    obtain r' where r': "pthread_join ret (td_self (td_of r s)) r = Inr (ret, r')"
      using join_ok [OF inv [unfolded u(1)] u(2)] u(3) by blast
    from reg_reach.join [OF assms(3) [unfolded u(1)] u(2) _ r'] u r' show ?thesis by blast
  qed
  moreover have "case pthread_create os ptrs env an f a r of
       Inl e \<Rightarrow> \<exists>msg. e = Fatal msg
     | Inr (e, td, r') \<Rightarrow> e = ce_create env \<and>
         (if e = 0 then reg_reach os ptrs r' (td # ts) ss \<and> td_user_routine (td_of r' td) = f \<and> td_user_arg (td_of r' td) = a
          else thread_list_head r' = td \<and> pl_head (rg_td_pool r') = td \<and> g_thread_count r' = g_thread_count r + 1)"
    using create_ok [OF assms(1,2) inv, of env an f a] reg_reach.create [OF assms(3), of env an f a]
      failed_create [of os ptrs env an f a r]
    by (auto simp: fatal_or_def split: sum.splits c_error.splits)
  ultimately show ?thesis by blast
qed

theorem registry_operations_return_witness:
  "\<exists>r td r'. reg_reach sample_os 512 r [td] [] \<and> exit_wrapper td r = Inr r' \<and> reg_reach sample_os 512 r' [] [td]"
proof -
  obtain td r where r: "reg_reach sample_os 512 r [td] []" by (rule sample_main)
  from registry_operations_return [OF sample_os_ok(1) _ r] show ?thesis using r by (fastforce simp: ptrs_ok_def)
qed

text \<open>
  C38: signalling all threads but the caller sends one signal to each other listed thread that is
  active and alive, in the order of the list, and returns their number, unless \<^verbatim>\<open>pthread_kill\<close> rejects
  the signal.
\<close>

theorem signals_active_threads:
  assumes "mmap_fresh os" and "ptrs_ok ptrs" and "reg_reach os ptrs r ts ss"
    and "\<forall>t\<in>set ts. kill (td_self (td_of r t)) \<noteq> Einval"
  shows "forkscan_thread_signal_all_but_me kill me r =
    (let hit = filter (\<lambda>t. t \<noteq> me \<and> td_is_active (td_of r t) \<and> kill (td_self (td_of r t)) = Killed) ts
     in Inr (hit, int (length hit)))"
proof -
  have inv: "reg_inv ptrs 0 [] {#} r ts ss" and len: "length ts \<le> nat MAX_THREAD_COUNT + 1" using reg_reach_inv [OF assms(1-3)] by auto
  have pa: "path td_next (rg_tds r) (thread_list_head r) ts 0" using inv by (simp add: reg_inv_def)
  have kill: "kill (td_self d) \<noteq> Einval" if "t \<in> set ts" "map_of (rg_tds r) t = Some d" for t d
    using assms(4) that by (auto simp: td_of_def)
  have "length ts < Suc (length (rg_tds r))" using chain_fuel [OF pa] by simp
  from signal_loop_ok [OF pa this, of 0 kill "\<lambda>td. td \<noteq> me" "[]", OF _ _ kill] len show ?thesis
    by (simp add: forkscan_thread_signal_all_but_me_def forkscan_proc_signal_all_except_def td_of_def MAX_THREAD_COUNT_def Let_def)
qed

theorem signals_active_threads_witness:
  "\<exists>r td. reg_reach sample_os 512 r [td] [] \<and> forkscan_thread_signal_all_but_me (\<lambda>_. Killed) (td + 8) r = Inr ([td], 1)"
proof -
  obtain td r0 where r0: "reg_reach sample_os 512 r0 [td] []" "reg_inv 512 0 [] {#} r0 [td] []" by (rule sample_main)
  obtain r where run: "forkscan_thread_base td 3 0x40F020 r0 = Inr r" "td_is_active (td_of r td)"
    using base_ok [OF r0(2), of td 3 "0x40F020"] by auto
  have r: "reg_reach sample_os 512 r [td] []" by (rule reg_reach.base [OF r0(1) _ run(1)]) simp
  have "\<forall>t\<in>set [td]. (\<lambda>_. Killed) (td_self (td_of r t)) \<noteq> Einval" by simp
  from signals_active_threads [OF sample_os_ok(1) _ r this, of "td + 8"] show ?thesis using r run(2) by (auto simp: ptrs_ok_def)
qed

text \<open>
  C39: when the call of the original \<^verbatim>\<open>pthread_create\<close> fails, the thread data given back stays at the
  head of the list of threads and the count of threads is not taken back. The next thread created
  gets the same thread data, which then follows itself in the list: no walk along the list that
  does not stop there ever returns, such as the one that signals the threads.
\<close>

theorem failed_create_cycles:
  assumes "pthread_create os ptrs env an f a r = Inr (e, td, r1)" and "e \<noteq> 0"
    and "pthread_create os ptrs env' an' f' a' r1 = Inr (0, td', r2)"
  shows "thread_list_head r1 = td \<and> g_thread_count r1 = g_thread_count r + 1 \<and> td' = td \<and> td_next (td_of r2 td) = td \<and>
    (\<forall>k sent n. signal_loop k kill wanted (rg_tds r2) (thread_list_head r2) sent n = Inl No_return)"
proof -
  note r1 = failed_create [OF assms(1,2)]
  obtain rb where again: "forkscan_util_thread_data_new os ptrs (r1\<lparr>g_thread_count := g_thread_count r1 + 1\<rparr>) = Inr (td', rb)"
    "thread_list_head r2 = td'" "td_next (td_of r2 td') = thread_list_head rb" "map_of (rg_tds r2) td' \<noteq> None" "td' \<noteq> 0"
    "\<not> td_is_active (td_of r2 td')"
    by (rule create_runs [OF assms(3)]) auto
  have td': "td' = td" "thread_list_head rb = td" using again(1) r1
    by (auto simp: forkscan_util_thread_data_new_def pool_alloc_threaddata_def pool_alloc_def bind_res_eq_Inr Let_def)
  then obtain d where d: "map_of (rg_tds r2) td = Some d" "td_next d = td" "\<not> td_is_active d"
    using again(3,4,6) by (auto simp: td_of_def)
  have "signal_loop k kill wanted (rg_tds r2) td sent n = Inl No_return" for k sent n
    using d r1(4) by (induction k arbitrary: sent n) simp_all
  then show ?thesis using r1 td' again by (simp add: td_of_def)
qed

lemma sample_fail:
  assumes "pthread_create sample_os 512 (user_stack 0) True f a r = Inr (0, td, rx)" "e \<noteq> 0"
    and "map_of (rg_lists rx) td = Some l" "td \<noteq> 0"
  shows "pthread_create sample_os 512 (user_stack e) True f a r =
    Inr (e, td, rx\<lparr>rg_list_pool := pool_free l (rg_list_pool rx), rg_td_pool := pool_free td (rg_td_pool rx)\<rparr>)"
  using assms
  by (auto simp: pthread_create_def user_stack_def choose_stack_def bind_res_eq_Inr forkscan_util_thread_data_free_def split: if_splits)

lemma sample_again:
  assumes "td \<noteq> 0" "l \<noteq> 0" "map_of (rg_tds rx) td = Some d" "g_thread_count rx \<le> MAX_THREAD_COUNT"
  shows "\<exists>r2. pthread_create sample_os 512 (user_stack 0) True f a
    (rx\<lparr>rg_list_pool := pool_free l (rg_list_pool rx), rg_td_pool := pool_free td (rg_td_pool rx)\<rparr>) = Inr (0, td, r2)"
  using assms
  by (simp add: pthread_create_def user_stack_def choose_stack_def forkscan_util_thread_data_new_def pool_alloc_threaddata_def
    pool_alloc_ptrlist_def pool_alloc_def pool_free_def pool_push_def Let_def td_modify_def forkscan_proc_add_thread_data_def
    forkscan_util_thread_list_add_def forkscan_util_thread_list_init_def)

theorem failed_create_cycles_witness:
  "\<exists>r td r1 r2. pthread_create sample_os 512 (user_stack 11) True 5 6 r = Inr (11, td, r1) \<and>
     pthread_create sample_os 512 (user_stack 0) True 7 8 r1 = Inr (0, td, r2) \<and>
     forkscan_proc_signal (\<lambda>_. Killed) r2 = Inl No_return"
proof -
  obtain m r where r: "reg_inv 512 0 [] {#} r [m] []" "reg_top r < 2 ^ 30" by (rule sample_main)
  have count: "g_thread_count r = 1" using r(1) by (simp add: reg_inv_def)
  obtain td rx where run: "pthread_create sample_os 512 (user_stack 0) True 5 6 r = Inr (0, td, rx)"
    by (rule sample_create [OF r(1), of 0 5 6]) (use r(2) count in \<open>simp_all add: MAX_THREAD_COUNT_def\<close>)
  have inv: "reg_inv 512 0 [] {#} rx [td, m] []"
    using create_ok [OF sample_os_ok(1) _ r(1), of "user_stack 0" True 5 6] run by (simp add: ptrs_ok_def)
  have "pool_used (unat (512 * 8 :: size_t)) (al_mapped (rg_alloc rx)) (rg_list_pool rx) (mset (map (list_of rx) [td, m]))"
    using inv by (simp only: reg_inv_def append_Nil append_Nil2)
  then have "list_of rx td \<noteq> 0" by (rule pool_used_nonnull) simp
  moreover obtain l d where d: "td \<noteq> 0" "map_of (rg_lists rx) td = Some l" "map_of (rg_tds rx) td = Some d"
    using inv by (auto simp: reg_inv_def)
  ultimately have l: "l \<noteq> 0" by (simp add: list_of_def)
  have eleven: "(11 :: int) \<noteq> 0" by simp
  note fail = sample_fail [OF run _ d(2,1), of 11, OF eleven]
  have "g_thread_count rx \<le> MAX_THREAD_COUNT" using inv by (simp add: reg_inv_def MAX_THREAD_COUNT_def)
  from sample_again [OF d(1) l d(3) this, of 7 8] obtain r2 where
    again: "pthread_create sample_os 512 (user_stack 0) True 7 8
      (rx\<lparr>rg_list_pool := pool_free l (rg_list_pool rx), rg_td_pool := pool_free td (rg_td_pool rx)\<rparr>) = Inr (0, td, r2)" by blast
  have "forkscan_proc_signal (\<lambda>_. Killed) r2 = Inl No_return"
    using failed_create_cycles [OF fail eleven again] unfolding forkscan_proc_signal_def by blast
  with fail again show ?thesis by blast
qed

text \<open>
  C40: \<^verbatim>\<open>pthread_join\<close> looks for the record of the thread whatever the original \<^verbatim>\<open>pthread_join\<close> has
  answered. If it has failed because no exited thread has the given name, the search dereferences
  the null pointer at the end of the list.
\<close>

theorem failed_join_null:
  assumes "mmap_fresh os" and "ptrs_ok ptrs" and "reg_reach os ptrs r ts ss" and "\<forall>s\<in>set ss. td_self (td_of r s) \<noteq> thread"
  shows "pthread_join ret thread r = Inl Null_deref"
  using join_missing [OF conjunct1 [OF reg_reach_inv [OF assms(1-3)]]] assms(4) by blast

theorem failed_join_null_witness:
  "\<exists>r td. reg_reach sample_os 512 r [td] [] \<and> pthread_join 35 (td_self (td_of r td)) r = Inl Null_deref"
proof -
  obtain td r where r: "reg_reach sample_os 512 r [td] []" by (rule sample_main)
  from failed_join_null [OF sample_os_ok(1) _ r, of "td_self (td_of r td)" 35] show ?thesis using r by (auto simp: ptrs_ok_def)
qed

end
