(* ===== verification/Frontend.thy ===== *)
theory Frontend
  imports Queue Buffer Thread_Data
begin

text \<open>
  Retiring addresses: \<^verbatim>\<open>forkscan_retire\<close> and \<^verbatim>\<open>forkscan_force_reclaim\<close> of \<^verbatim>\<open>src/frontend.c\<close>, with the
  timestamp of \<^verbatim>\<open>src/thread.c\<close> that elects the reclaimer. Any number of threads retire addresses
  into their queues while one of them, the reclaimer, empties the queues of all. A thread moves in
  steps between which the others move: a read or a compare and swap of the timestamp, a push, and
  for each queue the reclaimer empties the reading of its head index and the copying. The threads
  on the list are the same throughout, as \<^verbatim>\<open>FOREACH_IN_THREAD_LIST\<close> holds the lock of the list. The
  freeing at the start of \<^verbatim>\<open>forkscan_retire\<close> is in \<open>Free_Ptrs\<close>, the signals are in \<open>Handshake\<close>.
  A push and the test behind it whether the queue is full are one step; a reclaimer that empties the queue
  in between makes the test of the code fail where the one here succeeds, and then the thread has one round
  of the loop less to run.
\<close>

section \<open>Timestamps\<close>

definition TIMESTAMP_MASK :: size_t where
  "TIMESTAMP_MASK = 0x7FFFFFFFFFFFFFFF"

definition TIMESTAMP_FLAG :: size_t where
  "TIMESTAMP_FLAG = 0x8000000000000000"

definition TIMESTAMP :: "size_t \<Rightarrow> size_t" where
  "TIMESTAMP field = field AND TIMESTAMP_MASK"

definition TIMESTAMP_RAISE_FLAG :: "size_t \<Rightarrow> size_t" where
  "TIMESTAMP_RAISE_FLAG field = field OR TIMESTAMP_FLAG"

definition TIMESTAMP_IS_ACTIVE :: "size_t \<Rightarrow> bool" where
  "TIMESTAMP_IS_ACTIVE field \<longleftrightarrow> field AND TIMESTAMP_FLAG \<noteq> 0"

definition TIMESTAMP_SET_ACTIVE :: "size_t \<Rightarrow> size_t" where
  "TIMESTAMP_SET_ACTIVE field = TIMESTAMP_RAISE_FLAG field"

lemma bit_flag: "bit TIMESTAMP_FLAG n \<longleftrightarrow> n = 63"
proof -
  have f: "TIMESTAMP_FLAG = 2 ^ 63" by (simp add: TIMESTAMP_FLAG_def)
  show ?thesis unfolding f bit_exp_iff by auto
qed

lemma bit_stamp: "bit TIMESTAMP_MASK n \<longleftrightarrow> n < 63"
proof -
  have f: "TIMESTAMP_MASK = mask 63" by (simp add: TIMESTAMP_MASK_def mask_eq_exp_minus_1)
  show ?thesis unfolding f bit_mask_iff by auto
qed

lemma active_bit: "TIMESTAMP_IS_ACTIVE w \<longleftrightarrow> bit w 63"
proof -
  have "w AND TIMESTAMP_FLAG = (if bit w 63 then TIMESTAMP_FLAG else 0)"
    by (rule bit_word_eqI) (auto simp: bit_and_iff bit_flag)
  then show ?thesis by (simp add: TIMESTAMP_IS_ACTIVE_def TIMESTAMP_FLAG_def)
qed

lemma raised_active [simp]: "TIMESTAMP_IS_ACTIVE (TIMESTAMP_SET_ACTIVE w)"
  by (simp add: active_bit TIMESTAMP_SET_ACTIVE_def TIMESTAMP_RAISE_FLAG_def bit_or_iff bit_flag)

lemma timestamp_inactive [simp]: "\<not> TIMESTAMP_IS_ACTIVE (TIMESTAMP w)"
  by (simp add: active_bit TIMESTAMP_def bit_and_iff bit_stamp)

section \<open>The code\<close>

text \<open>
  Where a thread is. It is out of the loop, at the top of the loop, between the read and the compare
  and swap of the timestamp, waiting for the thread at a position of the list, in
  \<^verbatim>\<open>become_reclaimer\<close>, taking from the queue at a position of the list (with the number of addresses
  so far, the buffer, whether the iteration is forced, and for \<open>Copying\<close> the cached head index),
  handing the buffer over, about to release the timestamp, yielding, at the bottom of the loop.
\<close>

datatype fe_pc =
    Outside
  | Top
  | Swapping size_t
  | Awaiting nat size_t
  | Choosing
  | Taking nat int "size_t list" int
  | Copying nat int "size_t list" int size_t
  | Handing "size_t list" int
  | Releasing
  | Yielding
  | Bottom bool

record fe_thread =
  ft_queue :: queue_t
  ft_stamp :: size_t
  ft_forcing :: bool
  ft_pc :: fe_pc

text \<open>\<open>fe_given\<close> are the buffers given to \<^verbatim>\<open>forkscan_initiate_collection\<close>, \<open>fe_retired\<close> all addresses retired.\<close>

record fe_state =
  global_timestamp :: size_t
  g_force_iteration :: int
  fe_threads :: "fe_thread list"
  fe_given :: "(size_t list \<times> int) list"
  fe_retired :: "size_t list"

record config_t =
  cfg_max_ptrs :: int
  cfg_auto_run :: int
  cfg_working_buffer_sz :: size_t

definition register_signal_handlers :: "int \<Rightarrow> config_t res" where
  "register_signal_handlers g_forkscan_ptrs_per_thread =
     bind_res (cint (g_forkscan_ptrs_per_thread * MAX_THREAD_COUNT)) (\<lambda>n.
     Inr \<lparr>cfg_max_ptrs = n, cfg_auto_run = 1, cfg_working_buffer_sz = word_of_int n * 8 + PAGESIZE\<rparr>)"

definition forkscan_retire :: "size_t \<Rightarrow> fe_thread \<Rightarrow> fe_thread res" where
  "forkscan_retire ptr th =
     (if ptr = 0 then Inr th
      else
        bind_res (forkscan_queue_push (ft_queue th) ptr) (\<lambda>q.
        Inr (th\<lparr>ft_queue := q, ft_forcing := False,
                ft_pc := (if forkscan_queue_is_full q then Top else Outside)\<rparr>)))"

definition forkscan_force_reclaim :: "fe_thread \<Rightarrow> fe_state \<Rightarrow> fe_thread \<times> fe_state" where
  "forkscan_force_reclaim th s = (th\<lparr>ft_forcing := True, ft_pc := Top\<rparr>, s\<lparr>g_force_iteration := 1\<rparr>)"

definition acquire_read :: "size_t \<Rightarrow> fe_pc" where
  "acquire_read old_timestamp = (if TIMESTAMP_IS_ACTIVE old_timestamp then Yielding else Swapping old_timestamp)"

definition acquire_swap :: "size_t \<Rightarrow> size_t \<Rightarrow> size_t \<times> fe_pc" where
  "acquire_swap old_timestamp current =
     (let attempt = TIMESTAMP_SET_ACTIVE (old_timestamp + 1) in
      if current = old_timestamp then (attempt, Awaiting 0 (TIMESTAMP attempt)) else (current, Yielding))"

text \<open>Whether the reclaimer may pass a thread in \<^verbatim>\<open>forkscan_proc_wait_for_timestamp\<close>.\<close>

definition stamp_passes :: "size_t \<Rightarrow> size_t \<Rightarrow> bool" where
  "stamp_passes cur stamp \<longleftrightarrow> \<not> (TIMESTAMP_IS_ACTIVE stamp \<and> TIMESTAMP stamp \<noteq> cur)"

text \<open>
  The flag that a helping thread raises and lowers; nothing in the sources calls these, so no thread
  delays the reclaimer. A helper that has raised its flag is passed by the reclaimer it helps.
\<close>

definition forkscan_thread_cleanup_raise_flag :: "size_t \<Rightarrow> thread_data_t \<Rightarrow> thread_data_t" where
  "forkscan_thread_cleanup_raise_flag global td =
     (let old_timestamp = td_local_timestamp td;
          td = td\<lparr>td_local_timestamp := TIMESTAMP_RAISE_FLAG global\<rparr>
      in if TIMESTAMP global \<noteq> old_timestamp then td\<lparr>td_times_without_update := 0\<rparr>
         else if \<not> TIMESTAMP_IS_ACTIVE global \<and> td_times_without_update td < 2
         then td\<lparr>td_times_without_update := td_times_without_update td + 1\<rparr>
         else td)"

definition forkscan_thread_cleanup_lower_flag :: "thread_data_t \<Rightarrow> thread_data_t" where
  "forkscan_thread_cleanup_lower_flag td = td\<lparr>td_local_timestamp := TIMESTAMP (td_local_timestamp td)\<rparr>"

lemma timestamp_raise: "TIMESTAMP (TIMESTAMP_RAISE_FLAG w) = TIMESTAMP w"
  by (rule bit_word_eqI) (auto simp: TIMESTAMP_def TIMESTAMP_RAISE_FLAG_def bit_and_iff bit_or_iff bit_flag bit_stamp)

lemma helper_passed:
  "stamp_passes (TIMESTAMP global) (td_local_timestamp (forkscan_thread_cleanup_raise_flag global td))"
  "stamp_passes cur (td_local_timestamp (forkscan_thread_cleanup_lower_flag td))"
  by (simp_all add: stamp_passes_def forkscan_thread_cleanup_raise_flag_def forkscan_thread_cleanup_lower_flag_def
    Let_def timestamp_raise)

definition forkscan_thread_cleanup_release :: "fe_state \<Rightarrow> fe_state" where
  "forkscan_thread_cleanup_release s = s\<lparr>global_timestamp := TIMESTAMP (global_timestamp s)\<rparr>"

text \<open>The start of \<^verbatim>\<open>become_reclaimer\<close>; \<open>ab\<close> are the slots of the buffer, with what is left in them.\<close>

definition choose_force :: "fe_state \<Rightarrow> int \<times> fe_state" where
  "choose_force s = (if g_force_iteration s > 0 then (1, s\<lparr>g_force_iteration := 0\<rparr>) else (0, s))"

definition become_reclaimer :: "size_t list \<Rightarrow> fe_state \<Rightarrow> fe_pc \<times> fe_state" where
  "become_reclaimer ab s = (let (force, s) = choose_force s in (Taking 0 0 ab force, s))"

text \<open>
  One round of \<^verbatim>\<open>generate_working_pointers_list\<close>: \<^verbatim>\<open>forkscan_queue_pop_bulk\<close> reads the head index once, at its
  start; \<open>head\<close> is what it has read. The owner of the queue may push in between.
\<close>

definition take_queue :: "int \<Rightarrow> int \<Rightarrow> size_t list \<Rightarrow> size_t \<Rightarrow> queue_t \<Rightarrow> (int \<times> size_t list \<times> queue_t) res" where
  "take_queue max_ptrs n ab head q =
     bind_res (cint (max_ptrs - n)) (\<lambda>len.
     bind_res (forkscan_queue_pop_bulk (drop (nat n) ab) (word_of_int len) (q\<lparr>q_idx_head := head\<rparr>)) (\<lambda>(popped, out, q').
     bind_res (cint (n + popped)) (\<lambda>n'.
     Inr (n', take (nat n) ab @ out, q\<lparr>q_idx_tail := q_idx_tail q'\<rparr>))))"

text \<open>The bottom of the loops of \<^verbatim>\<open>forkscan_retire\<close> and \<^verbatim>\<open>forkscan_force_reclaim\<close>; \<open>acquired\<close>: the round was the reclaimer's.\<close>

definition loop_again :: "bool \<Rightarrow> int \<Rightarrow> fe_thread \<Rightarrow> bool" where
  "loop_again acquired force th =
     (if ft_forcing th then \<not> acquired \<and> force \<noteq> 0 else forkscan_queue_is_full (ft_queue th))"

section \<open>The steps of a thread\<close>

abbreviation move :: "nat \<Rightarrow> fe_thread \<Rightarrow> fe_state \<Rightarrow> fe_state" where
  "move i th s \<equiv> s\<lparr>fe_threads := (fe_threads s)[i := th]\<rparr>"

abbreviation at :: "nat \<Rightarrow> fe_state \<Rightarrow> fe_thread" where
  "at i s \<equiv> fe_threads s ! i"

text \<open>
  The 64-bit index of a queue must not wrap: \<open>index_room\<close> says that it will not with the next push.
  A new buffer has room for \<open>max_ptrs\<close> addresses.
\<close>

definition index_room :: "queue_t \<Rightarrow> bool" where
  "index_room q \<longleftrightarrow> unat (q_idx_head q) + unat (q_capacity q) + 1 < 2 ^ 64"

inductive fe_step :: "int \<Rightarrow> nat \<Rightarrow> fe_state \<Rightarrow> fe_state \<Rightarrow> bool" for max_ptrs i where
  retire: "ft_pc (at i s) = Outside \<Longrightarrow> ptr \<noteq> 0 \<Longrightarrow> index_room (ft_queue (at i s)) \<Longrightarrow> forkscan_retire ptr (at i s) = Inr th \<Longrightarrow>
    fe_step max_ptrs i s ((move i th s)\<lparr>fe_retired := fe_retired s @ [ptr]\<rparr>)"
| force: "ft_pc (at i s) = Outside \<Longrightarrow> forkscan_force_reclaim (at i s) s = (th, s') \<Longrightarrow> fe_step max_ptrs i s (move i th s')"
| acquire: "ft_pc (at i s) = Top \<Longrightarrow> fe_step max_ptrs i s (move i ((at i s)\<lparr>ft_pc := acquire_read (global_timestamp s)\<rparr>) s)"
| swap: "ft_pc (at i s) = Swapping old \<Longrightarrow> acquire_swap old (global_timestamp s) = (g, pc) \<Longrightarrow>
    fe_step max_ptrs i s (move i ((at i s)\<lparr>ft_pc := pc\<rparr>) (s\<lparr>global_timestamp := g\<rparr>))"
| pass: "ft_pc (at i s) = Awaiting j cur \<Longrightarrow> j < length (fe_threads s) \<Longrightarrow> stamp_passes cur (ft_stamp (at j s)) \<Longrightarrow>
    fe_step max_ptrs i s (move i ((at i s)\<lparr>ft_pc := Awaiting (Suc j) cur\<rparr>) s)"
| acquired: "ft_pc (at i s) = Awaiting (length (fe_threads s)) cur \<Longrightarrow>
    fe_step max_ptrs i s (move i ((at i s)\<lparr>ft_pc := Choosing\<rparr>) s)"
| become: "ft_pc (at i s) = Choosing \<Longrightarrow> length ab = nat max_ptrs \<Longrightarrow> become_reclaimer ab s = (pc, s') \<Longrightarrow>
    fe_step max_ptrs i s (move i ((at i s)\<lparr>ft_pc := pc\<rparr>) s')"
| cache: "ft_pc (at i s) = Taking j n ab force \<Longrightarrow> j < length (fe_threads s) \<Longrightarrow>
    fe_step max_ptrs i s (move i ((at i s)\<lparr>ft_pc := Copying j n ab force (q_idx_head (ft_queue (at j s)))\<rparr>) s)"
| copy: "ft_pc (at i s) = Copying j n ab force head \<Longrightarrow> take_queue max_ptrs n ab head (ft_queue (at j s)) = Inr (n', ab', q) \<Longrightarrow>
    s' = move j ((at j s)\<lparr>ft_queue := q\<rparr>) s \<Longrightarrow>
    fe_step max_ptrs i s (move i ((at i s')\<lparr>ft_pc := Taking (Suc j) n' ab' force\<rparr>) s')"
| filled: "ft_pc (at i s) = Taking (length (fe_threads s)) n ab force \<Longrightarrow>
    fe_step max_ptrs i s (move i ((at i s)\<lparr>ft_pc := Handing (take (nat n) ab) force\<rparr>) s)"
| give: "ft_pc (at i s) = Handing xs force \<Longrightarrow>
    fe_step max_ptrs i s ((move i ((at i s)\<lparr>ft_pc := Releasing\<rparr>) s)\<lparr>fe_given := fe_given s @ [(xs, force)]\<rparr>)"
| release: "ft_pc (at i s) = Releasing \<Longrightarrow>
    fe_step max_ptrs i s (forkscan_thread_cleanup_release (move i ((at i s)\<lparr>ft_pc := Bottom True\<rparr>) s))"
| yield: "ft_pc (at i s) = Yielding \<Longrightarrow> fe_step max_ptrs i s (move i ((at i s)\<lparr>ft_pc := Bottom False\<rparr>) s)"
| bottom: "ft_pc (at i s) = Bottom acquired \<Longrightarrow>
    fe_step max_ptrs i s (move i ((at i s)\<lparr>ft_pc := (if loop_again acquired (g_force_iteration s) (at i s) then Top else Outside)\<rparr>) s)"

text \<open>The start: \<open>n\<close> threads with empty queues of a given capacity.\<close>

definition fe_init :: "size_t \<Rightarrow> nat \<Rightarrow> fe_state" where
  "fe_init ptrs n = \<lparr>global_timestamp = 1, g_force_iteration = 0,
     fe_threads = replicate n \<lparr>ft_queue = \<lparr>q_e = replicate (unat ptrs) 0, q_capacity = ptrs, q_idx_head = 0, q_idx_tail = ptrs\<rparr>,
       ft_stamp = 0, ft_forcing = False, ft_pc = Outside\<rparr>,
     fe_given = [], fe_retired = []\<rparr>"

inductive fe_reach :: "size_t \<Rightarrow> int \<Rightarrow> nat \<Rightarrow> fe_state \<Rightarrow> bool" for ptrs max_ptrs n where
  init: "fe_reach ptrs max_ptrs n (fe_init ptrs n)"
| step: "fe_reach ptrs max_ptrs n s \<Longrightarrow> i < n \<Longrightarrow> fe_step max_ptrs i s s' \<Longrightarrow> fe_reach ptrs max_ptrs n s'"

section \<open>One reclaimer\<close>

fun critical :: "fe_pc \<Rightarrow> bool" where
  "critical (Awaiting j c) = True"
| "critical Choosing = True"
| "critical (Taking j n ab f) = True"
| "critical (Copying j n ab f h) = True"
| "critical (Handing xs f) = True"
| "critical Releasing = True"
| "critical _ = False"

definition lock_inv :: "fe_state \<Rightarrow> bool" where
  "lock_inv s \<longleftrightarrow>
     (\<forall>i<length (fe_threads s). \<forall>j<length (fe_threads s). critical (ft_pc (at i s)) \<longrightarrow> critical (ft_pc (at j s)) \<longrightarrow> i = j) \<and>
     (TIMESTAMP_IS_ACTIVE (global_timestamp s) \<longleftrightarrow> (\<exists>i<length (fe_threads s). critical (ft_pc (at i s)))) \<and>
     (\<forall>i<length (fe_threads s). \<forall>old. ft_pc (at i s) = Swapping old \<longrightarrow> \<not> TIMESTAMP_IS_ACTIVE old)"

text \<open>Moves that neither enter nor leave the critical section, and the one that enters it.\<close>

lemma lock_move:
  assumes inv: "lock_inv s" and i: "i < length (fe_threads s)" and g: "global_timestamp s' = global_timestamp s"
    and ths: "fe_threads s' = (fe_threads s)[i := th]" and pc: "critical (ft_pc th) = critical (ft_pc (at i s))"
    and old: "\<And>old. ft_pc th = Swapping old \<Longrightarrow> \<not> TIMESTAMP_IS_ACTIVE old"
  shows "lock_inv s' \<and> length (fe_threads s') = length (fe_threads s)"
proof -
  have c: "critical (ft_pc (at j s')) = critical (ft_pc (at j s))" if "j < length (fe_threads s)" for j
    using pc that by (cases "j = i") (simp_all add: ths)
  moreover have "\<not> TIMESTAMP_IS_ACTIVE old" if "j < length (fe_threads s)" "ft_pc (at j s') = Swapping old" for j old
    using that inv old unfolding lock_inv_def by (cases "j = i") (auto simp: ths)
  ultimately show ?thesis using inv unfolding lock_inv_def g ths length_list_update by metis
qed

lemma lock_enter:
  assumes inv: "lock_inv s" and i: "i < length (fe_threads s)" and free: "\<not> TIMESTAMP_IS_ACTIVE (global_timestamp s)"
    and th: "critical (ft_pc th)" and g: "TIMESTAMP_IS_ACTIVE g"
  shows "lock_inv (move i th (s\<lparr>global_timestamp := g\<rparr>))"
proof -
  have none: "\<not> critical (ft_pc (at j s))" if "j < length (fe_threads s)" for j using inv free that unfolding lock_inv_def by blast
  have "critical (ft_pc ((fe_threads s)[i := th] ! j)) \<longleftrightarrow> j = i" if "j < length (fe_threads s)" for j
    using none [OF that] th that by (cases "j = i") auto
  moreover have "ft_pc ((fe_threads s)[i := th] ! j) \<noteq> Swapping old \<or> \<not> TIMESTAMP_IS_ACTIVE old" if "j < length (fe_threads s)" for j old
    using that inv th unfolding lock_inv_def by (cases "j = i") auto
  ultimately show ?thesis using i g unfolding lock_inv_def by auto
qed

lemma lock_leave:
  assumes inv: "lock_inv s" and i: "i < length (fe_threads s)" and c: "critical (ft_pc (at i s))" and th: "ft_pc th = Bottom b"
  shows "lock_inv (forkscan_thread_cleanup_release (move i th s))"
proof -
  have none: "\<not> critical (ft_pc (at j s))" if "j < length (fe_threads s)" "j \<noteq> i" for j
    using inv i c that unfolding lock_inv_def by blast
  have "\<not> critical (ft_pc ((fe_threads s)[i := th] ! j))" if "j < length (fe_threads s)" for j
    using none [OF that] th that by (cases "j = i") auto
  moreover have "ft_pc ((fe_threads s)[i := th] ! j) \<noteq> Swapping old \<or> \<not> TIMESTAMP_IS_ACTIVE old" if "j < length (fe_threads s)" for j old
    using that inv th unfolding lock_inv_def by (cases "j = i") auto
  ultimately show ?thesis unfolding lock_inv_def forkscan_thread_cleanup_release_def by auto
qed

lemma lock_step:
  assumes inv: "lock_inv s" and i: "i < length (fe_threads s)" and step: "fe_step max_ptrs i s s'"
  shows "lock_inv s' \<and> length (fe_threads s') = length (fe_threads s)"
  using step
proof cases
  case (retire ptr th)
  show ?thesis by (rule lock_move [OF inv i, where th = th]) (use retire in \<open>auto simp: forkscan_retire_def bind_res_eq_Inr split: if_splits\<close>)
next
  case (force th s1)
  show ?thesis by (rule lock_move [OF inv i, where th = th]) (use force in \<open>auto simp: forkscan_force_reclaim_def\<close>)
next
  case acquire
  show ?thesis unfolding acquire(1)
    by (rule lock_move [OF inv i, where th = "(at i s)\<lparr>ft_pc := acquire_read (global_timestamp s)\<rparr>"]) (auto simp: acquire(2) acquire_read_def split: if_splits)
next
  case (swap old g pc)
  show ?thesis
  proof (cases "global_timestamp s = old")
    case True
    then have "\<not> TIMESTAMP_IS_ACTIVE (global_timestamp s)" using inv i swap(2) unfolding lock_inv_def by blast
    then show ?thesis using lock_enter [OF inv i] swap True by (auto simp: acquire_swap_def Let_def)
  next
    case False
    show ?thesis unfolding swap(1)
      by (rule lock_move [OF inv i, where th = "(at i s)\<lparr>ft_pc := pc\<rparr>"]) (use swap(2,3) False in \<open>auto simp: acquire_swap_def Let_def\<close>)
  qed
next
  case release
  then show ?thesis using lock_leave [OF inv i] by (auto simp: forkscan_thread_cleanup_release_def)
next
  case (become ab pc s1)
  then show ?thesis
    by (intro lock_move [OF inv i, where th = "(at i s)\<lparr>ft_pc := pc\<rparr>"])
      (auto simp: become_reclaimer_def choose_force_def split: if_splits)
next
  case (copy j n ab force head n' ab' q s1)
  have s1: "lock_inv s1 \<and> length (fe_threads s1) = length (fe_threads s)"
  proof (cases "j < length (fe_threads s)")
    case True
    have "\<not> TIMESTAMP_IS_ACTIVE old" if "ft_pc (at j s) = Swapping old" for old
      using inv True that unfolding lock_inv_def by blast
    then show ?thesis unfolding copy(4) by (intro lock_move [OF inv True, where th = "(at j s)\<lparr>ft_queue := q\<rparr>"]) simp_all
  next
    case False
    then have "s1 = s" unfolding copy(4) by (simp add: list_update_beyond)
    then show ?thesis using inv by simp
  qed
  have pc: "ft_pc (at i s1) = ft_pc (at i s)" using i copy(4) by (cases "i = j") simp_all
  have i1: "i < length (fe_threads s1)" using s1 i by simp
  have "lock_inv s' \<and> length (fe_threads s') = length (fe_threads s1)"
    unfolding copy(1)
    by (rule lock_move [OF conjunct1 [OF s1] i1, where th = "(at i s1)\<lparr>ft_pc := Taking (Suc j) n' ab' force\<rparr>"]) (simp_all add: copy(2) pc)
  then show ?thesis using s1 by simp
next
  case (pass j cur)
  show ?thesis unfolding pass(1) by (rule lock_move [OF inv i, where th = "(at i s)\<lparr>ft_pc := Awaiting (Suc j) cur\<rparr>"]) (simp_all add: pass)
next
  case (acquired cur)
  show ?thesis unfolding acquired(1) by (rule lock_move [OF inv i, where th = "(at i s)\<lparr>ft_pc := Choosing\<rparr>"]) (simp_all add: acquired)
next
  case (cache j n ab force)
  show ?thesis unfolding cache(1) by (rule lock_move [OF inv i, where th = "(at i s)\<lparr>ft_pc := Copying j n ab force (q_idx_head (ft_queue (at j s)))\<rparr>"]) (simp_all add: cache)
next
  case (filled n ab force)
  show ?thesis unfolding filled(1) by (rule lock_move [OF inv i, where th = "(at i s)\<lparr>ft_pc := Handing (take (nat n) ab) force\<rparr>"]) (simp_all add: filled)
next
  case (give xs force)
  show ?thesis unfolding give(1) by (rule lock_move [OF inv i, where th = "(at i s)\<lparr>ft_pc := Releasing\<rparr>"]) (simp_all add: give)
next
  case yield
  show ?thesis unfolding yield(1) by (rule lock_move [OF inv i, where th = "(at i s)\<lparr>ft_pc := Bottom False\<rparr>"]) (simp_all add: yield)
next
  case (bottom acquired)
  show ?thesis unfolding bottom(1) by (rule lock_move [OF inv i, where th = "(at i s)\<lparr>ft_pc := (if loop_again acquired (g_force_iteration s) (at i s) then Top else Outside)\<rparr>"]) (auto simp: bottom(2) split: if_splits)
qed

section \<open>What the queues and the buffers hold\<close>

definition q_ok :: "size_t \<Rightarrow> queue_t \<Rightarrow> bool" where
  "q_ok ptrs q \<longleftrightarrow> queue_inv q \<and> q_capacity q = ptrs \<and> unat (q_idx_head q) + unat ptrs < 2 ^ 64"

lemma queue_cached:
  assumes q: "queue_inv q" and h: "unat (q_idx_tail q) \<le> unat h + unat (q_capacity q)" "unat h \<le> unat (q_idx_head q)"
  defines "lo \<equiv> unat (q_idx_tail q) - unat (q_capacity q)"
  shows "queue_inv (q\<lparr>q_idx_head := h\<rparr>)" "queue_list (q\<lparr>q_idx_head := h\<rparr>) = take (unat h - lo) (queue_list q)"
proof -
  note D = queue_invD [OF q]
  show "queue_inv (q\<lparr>q_idx_head := h\<rparr>)" using q h D by (auto simp: queue_inv_def)
  have "unat h - lo \<le> unat (q_idx_head q) - lo" "lo + (unat h - lo) = unat h" using h D by (simp_all add: lo_def)
  then show "queue_list (q\<lparr>q_idx_head := h\<rparr>) = take (unat h - lo) (queue_list q)"
    unfolding queue_list_def lo_def by (simp add: take_window)
qed

lemma unat_word_of_int_small: "0 \<le> m \<Longrightarrow> m < 2 ^ 64 \<Longrightarrow> unat (word_of_int m :: size_t) = nat m"
  by (simp add: unat_eq_nat_uint uint_word_of_int_eq take_bit_int_eq_self)

lemma le_add_diff_back: "k \<le> m - n \<Longrightarrow> n \<le> m \<Longrightarrow> n + (k + (m - n - k)) = (m :: nat)"
  by linarith

lemma take_front: "length xs = m \<Longrightarrow> take m (xs @ ys) = xs"
  by simp

lemma take_queue_ok:
  assumes q: "q_ok ptrs q" and cap: "unat ptrs \<le> 2 ^ 31" and n: "0 \<le> n" "n \<le> mx" "mx < 2 ^ 31" and ab: "length ab = nat mx"
    and h: "unat (q_idx_tail q) \<le> unat h + unat ptrs" "unat h \<le> unat (q_idx_head q)"
  obtains k q' ab' where "k = min (nat (mx - n)) (unat h - (unat (q_idx_tail q) - unat ptrs))"
    "take_queue mx n ab h q = Inr (n + int k, ab', q')" "q_ok ptrs q'" "length ab' = nat mx" "k \<le> length (queue_list q)"
    "take (nat (n + int k)) ab' = take (nat n) ab @ take k (queue_list q)" "queue_list q' = drop k (queue_list q)"
    "q_idx_head q' = q_idx_head q" "unat (q_idx_tail q') = unat (q_idx_tail q) + k"
proof -
  let ?lo = "unat (q_idx_tail q) - unat ptrs" and ?q = "q\<lparr>q_idx_head := h\<rparr>"
  define L where "L = (word_of_int (mx - n) :: size_t)"
  have qi: "queue_inv q" "q_capacity q = ptrs" using q by (simp_all add: q_ok_def)
  note D = queue_invD [OF qi(1)]
  note c = queue_cached [OF qi(1), of h, unfolded qi(2), OF h]
  have "0 \<le> mx - n" "mx - n < 2 ^ 64" using n by simp_all
  then have len: "unat L = nat (mx - n)" unfolding L_def by (rule unat_word_of_int_small)
  have ql: "length (queue_list q) = unat (q_idx_head q) - ?lo" using qi D by (simp add: queue_list_length)
  define k where "k = min (nat (mx - n)) (unat h - ?lo)"
  have kl: "min (unat L) (length (queue_list ?q)) = k" "k \<le> unat h - ?lo" "k \<le> length (queue_list q)"
    using c(2) ql h(2) by (auto simp: k_def len)
  have nowrap: "unat h + unat ptrs < 2 ^ 64" using q h(2) by (simp add: q_ok_def)
  obtain q2 where q2: "forkscan_queue_pop_bulk (drop (nat n) ab) L ?q = Inr (int k, take k (queue_list ?q) @ drop k (drop (nat n) ab), q2)"
    "queue_inv q2" "queue_list q2 = drop k (queue_list ?q)" "q_capacity q2 = ptrs" "q_idx_head q2 = h"
    by (rule queue_pop_bulk_ok [OF c(1), of L "drop (nat n) ab"]) (use ab n cap nowrap qi kl(1) len in auto)
  have len2: "length (queue_list q2) = unat h - (unat (q_idx_tail q2) - unat ptrs)"
    using queue_list_length [OF q2(2)] queue_invD(3) [OF q2(2)] q2(4,5) by simp
  have "length (queue_list q2) = unat h - ?lo - k" using q2(3) c(2) ql h(2) by simp
  then have tail: "unat (q_idx_tail q2) = unat (q_idx_tail q) + k" "unat ptrs \<le> unat (q_idx_tail q2)"
    using len2 queue_invD(3-5) [OF q2(2), unfolded q2(4,5)] D(3-5) [unfolded qi(2)] h kl(2) by linarith+
  let ?q' = "q\<lparr>q_idx_tail := q_idx_tail q2\<rparr>"
  have "queue_inv ?q'" using qi h D tail kl(2) by (auto simp: queue_inv_def)
  then have ok: "q_ok ptrs ?q'" using q by (simp add: q_ok_def)
  have rest: "queue_list ?q' = drop k (queue_list q)"
    using kl(3) ql tail qi(2) D unfolding queue_list_def by (simp add: drop_window)
  have tk: "take k (queue_list ?q) = take k (queue_list q)" using c(2) kl(2) by (simp add: min_def)
  have c1: "cint (mx - n) = Inr (mx - n)" "cint (n + int k) = Inr (n + int k)"
    using n k_def by (auto simp: cint_def)
  have run: "take_queue mx n ab h q = Inr (n + int k, take (nat n) ab @ take k (queue_list q) @ drop k (drop (nat n) ab), ?q')"
    using q2(1) c1 tk by (simp add: take_queue_def L_def)
  have k: "nat (n + int k) = nat n + k" "k \<le> nat mx - nat n" "nat n \<le> nat mx"
    using n unfolding k_def by (simp_all add: nat_add_distrib nat_diff_distrib)
  have tn: "length (take (nat n) ab) = nat n" "length (take k (queue_list q)) = k" using ab k kl(3) by simp_all
  show thesis
  proof (rule that [OF k_def run ok _ kl(3) _ rest])
    show "unat (q_idx_tail ?q') = unat (q_idx_tail q) + k" using tail by simp
    show "length (take (nat n) ab @ take k (queue_list q) @ drop k (drop (nat n) ab)) = nat mx"
      unfolding length_append tn length_drop ab by (rule le_add_diff_back [OF k(2,3)])
    show "take (nat (n + int k)) (take (nat n) ab @ take k (queue_list q) @ drop k (drop (nat n) ab)) = take (nat n) ab @ take k (queue_list q)"
      unfolding k(1) append_assoc [symmetric] by (rule take_front) (simp only: length_append tn)
  qed simp
qed

definition pc_ok :: "size_t \<Rightarrow> int \<Rightarrow> fe_state \<Rightarrow> fe_pc \<Rightarrow> bool" where
  "pc_ok ptrs mx s pc = (case pc of
      Awaiting j c \<Rightarrow> j \<le> length (fe_threads s)
    | Taking j n ab f \<Rightarrow> j \<le> length (fe_threads s) \<and> 0 \<le> n \<and> n \<le> mx \<and> length ab = nat mx
    | Copying j n ab f h \<Rightarrow> j < length (fe_threads s) \<and> 0 \<le> n \<and> n \<le> mx \<and> length ab = nat mx \<and>
        unat (q_idx_tail (ft_queue (at j s))) \<le> unat h + unat ptrs \<and> unat h \<le> unat (q_idx_head (ft_queue (at j s)))
    | _ \<Rightarrow> True)"

definition thread_ok :: "size_t \<Rightarrow> fe_thread \<Rightarrow> bool" where
  "thread_ok ptrs th \<longleftrightarrow> q_ok ptrs (ft_queue th) \<and> ft_stamp th = 0 \<and>
     (ft_pc th = Outside \<or> ft_forcing th \<longrightarrow> \<not> forkscan_queue_is_full (ft_queue th))"

text \<open>The addresses that a thread has in its queue and, as the reclaimer, in the buffer.\<close>

fun carried :: "fe_pc \<Rightarrow> size_t list" where
  "carried (Taking j n ab f) = take (nat n) ab"
| "carried (Copying j n ab f h) = take (nat n) ab"
| "carried (Handing xs f) = xs"
| "carried _ = []"

definition held :: "fe_thread \<Rightarrow> size_t multiset" where
  "held th = mset (queue_list (ft_queue th)) + mset (carried (ft_pc th))"

definition given :: "fe_state \<Rightarrow> size_t multiset" where
  "given s = mset (concat (map fst (fe_given s)))"

text \<open>\<open>X\<close> are addresses on their way from a queue to the buffer.\<close>

definition data_inv :: "size_t \<Rightarrow> int \<Rightarrow> size_t multiset \<Rightarrow> fe_state \<Rightarrow> bool" where
  "data_inv ptrs mx X s \<longleftrightarrow> (\<forall>i<length (fe_threads s). thread_ok ptrs (at i s) \<and> pc_ok ptrs mx s (ft_pc (at i s))) \<and>
     mset (fe_retired s) = given s + sum_list (map held (fe_threads s)) + X"

lemma sum_list_list_update:
  "i < length xs \<Longrightarrow> sum_list (map f (xs[i := x])) + f (xs ! i) = sum_list (map f xs) + (f x :: 'a :: comm_monoid_add)"
  by (induction xs arbitrary: i) (auto simp: ac_simps split: nat.splits)

lemma data_move:
  assumes inv: "data_inv ptrs mx X s" and i: "i < length (fe_threads s)" and ths: "fe_threads s' = (fe_threads s)[i := th]"
    and th: "thread_ok ptrs th" "pc_ok ptrs mx s' (ft_pc th)"
    and others: "\<And>j. j < length (fe_threads s) \<Longrightarrow> j \<noteq> i \<Longrightarrow> pc_ok ptrs mx s (ft_pc (at j s)) \<Longrightarrow> pc_ok ptrs mx s' (ft_pc (at j s))"
    and sum: "mset (fe_retired s') + given s + held (at i s) + X = mset (fe_retired s) + given s' + held th + X'"
  shows "data_inv ptrs mx X' s'"
proof -
  have "thread_ok ptrs (at j s') \<and> pc_ok ptrs mx s' (ft_pc (at j s'))" if "j < length (fe_threads s)" for j
    using inv that th others [OF that] unfolding data_inv_def by (cases "j = i") (auto simp: ths)
  moreover have "mset (fe_retired s') = given s' + sum_list (map held (fe_threads s')) + X'"
  proof -
    have "sum_list (map held (fe_threads s')) + held (at i s) = sum_list (map held (fe_threads s)) + held th"
      unfolding ths by (rule sum_list_list_update [OF i])
    moreover have "mset (fe_retired s) = given s + sum_list (map held (fe_threads s)) + X" using inv by (simp add: data_inv_def)
    ultimately have "mset (fe_retired s') + (given s + held (at i s) + X) = given s' + sum_list (map held (fe_threads s')) + X' + (given s + held (at i s) + X)"
      using sum by (metis (no_types, lifting) add.assoc add.commute add.left_commute)
    then show ?thesis by (simp only: add_right_cancel)
  qed
  ultimately show ?thesis by (simp add: data_inv_def ths)
qed

lemma pc_ok_same:
  assumes "length (fe_threads s') = length (fe_threads s)"
    and "\<And>j. j < length (fe_threads s) \<Longrightarrow> q_idx_tail (ft_queue (at j s')) = q_idx_tail (ft_queue (at j s)) \<and>
      unat (q_idx_head (ft_queue (at j s))) \<le> unat (q_idx_head (ft_queue (at j s')))"
    and "pc_ok ptrs mx s pc"
  shows "pc_ok ptrs mx s' pc"
  using assms by (auto simp: pc_ok_def split: fe_pc.splits intro: le_trans)

lemma pc_ok_move:
  assumes "fe_threads s' = (fe_threads s)[i := th]" and "ft_queue th = ft_queue (at i s)" and "pc_ok ptrs mx s pc"
  shows "pc_ok ptrs mx s' pc"
proof (rule pc_ok_same [OF _ _ assms(3)])
  have "ft_queue (at j s') = ft_queue (at j s)" if "j < length (fe_threads s)" for j
    using that assms(1,2) by (cases "j = i") simp_all
  then show "q_idx_tail (ft_queue (at j s')) = q_idx_tail (ft_queue (at j s)) \<and>
      unat (q_idx_head (ft_queue (at j s))) \<le> unat (q_idx_head (ft_queue (at j s')))" if "j < length (fe_threads s)" for j
    using that by simp
qed (simp add: assms(1))

text \<open>Moves that change nothing but where a thread is.\<close>

lemma data_pc:
  assumes inv: "data_inv ptrs mx X s" and i: "i < length (fe_threads s)"
    and s': "fe_threads s' = (fe_threads s)[i := (at i s)\<lparr>ft_pc := pc\<rparr>]" "fe_retired s' = fe_retired s" "fe_given s' = fe_given s"
    and pc: "pc_ok ptrs mx s pc" "carried pc = carried (ft_pc (at i s))"
    and out: "pc = Outside \<Longrightarrow> \<not> forkscan_queue_is_full (ft_queue (at i s))"
  shows "data_inv ptrs mx X s'"
proof (rule data_move [OF inv i s'(1)])
  have th: "thread_ok ptrs (at i s)" using inv i by (simp add: data_inv_def)
  then show "thread_ok ptrs ((at i s)\<lparr>ft_pc := pc\<rparr>)" using out by (auto simp: thread_ok_def)
  have pcs: "pc_ok ptrs mx s' p" if "pc_ok ptrs mx s p" for p by (rule pc_ok_move [OF s'(1) _ that]) simp
  show "pc_ok ptrs mx s' (ft_pc ((at i s)\<lparr>ft_pc := pc\<rparr>))" using pcs [OF pc(1)] by simp
  show "pc_ok ptrs mx s' (ft_pc (at j s))" if "pc_ok ptrs mx s (ft_pc (at j s))" for j by (rule pcs [OF that])
  show "mset (fe_retired s') + given s + held (at i s) + X = mset (fe_retired s) + given s' + held ((at i s)\<lparr>ft_pc := pc\<rparr>) + X"
    using s'(2,3) pc(2) by (simp add: held_def given_def)
qed

lemma pc_ok_other:
  assumes "length (fe_threads s') = length (fe_threads s)" and "\<And>j n ab f h. pc \<noteq> Copying j n ab f h" and "pc_ok ptrs mx s pc"
  shows "pc_ok ptrs mx s' pc"
  using assms by (auto simp: pc_ok_def split: fe_pc.splits)

lemma retire_ok:
  assumes th: "thread_ok ptrs th" and pc: "ft_pc th = Outside" and ptr: "ptr \<noteq> 0" and room: "index_room (ft_queue th)"
  obtains th' where "forkscan_retire ptr th = Inr th'" "thread_ok ptrs th'" "queue_list (ft_queue th') = queue_list (ft_queue th) @ [ptr]"
    "q_idx_tail (ft_queue th') = q_idx_tail (ft_queue th)" "unat (q_idx_head (ft_queue th')) = unat (q_idx_head (ft_queue th)) + 1"
    "ft_pc th' = (if forkscan_queue_is_full (ft_queue th') then Top else Outside)" "\<not> ft_forcing th'"
proof -
  have q: "queue_inv (ft_queue th)" "\<not> forkscan_queue_is_full (ft_queue th)" using th pc by (simp_all add: thread_ok_def q_ok_def)
  obtain q' where q': "forkscan_queue_push (ft_queue th) ptr = Inr q'" "queue_inv q'" "queue_list q' = queue_list (ft_queue th) @ [ptr]"
    "q_capacity q' = q_capacity (ft_queue th)" "unat (q_idx_head q') = unat (q_idx_head (ft_queue th)) + 1"
    by (rule queue_push_ok [OF q])
  have tail: "q_idx_tail q' = q_idx_tail (ft_queue th)" using q'(1) by (auto simp: forkscan_queue_push_def bind_res_eq_Inr)
  let ?th = "th\<lparr>ft_queue := q', ft_forcing := False, ft_pc := (if forkscan_queue_is_full q' then Top else Outside)\<rparr>"
  have "thread_ok ptrs ?th" using th q' room by (simp add: thread_ok_def q_ok_def index_room_def)
  then show thesis using that [of ?th] q' tail ptr by (simp add: forkscan_retire_def)
qed

lemma retire_step:
  assumes inv: "data_inv ptrs mx X s" and i: "i < length (fe_threads s)" and pc: "ft_pc (at i s) = Outside"
    and run: "ptr \<noteq> 0" "index_room (ft_queue (at i s))" "forkscan_retire ptr (at i s) = Inr th"
  shows "data_inv ptrs mx X ((move i th s)\<lparr>fe_retired := fe_retired s @ [ptr]\<rparr>)"
proof -
  have ok: "thread_ok ptrs (at i s)" using inv i by (simp add: data_inv_def)
  obtain th' where th': "forkscan_retire ptr (at i s) = Inr th'" "thread_ok ptrs th'"
    "queue_list (ft_queue th') = queue_list (ft_queue (at i s)) @ [ptr]" "q_idx_tail (ft_queue th') = q_idx_tail (ft_queue (at i s))"
    "unat (q_idx_head (ft_queue th')) = unat (q_idx_head (ft_queue (at i s))) + 1"
    "ft_pc th' = (if forkscan_queue_is_full (ft_queue th') then Top else Outside)"
    by (rule retire_ok [OF ok pc run(1,2)])
  then have th: "th' = th" using run(3) by simp
  let ?s = "(move i th s)\<lparr>fe_retired := fe_retired s @ [ptr]\<rparr>"
  have q: "q_idx_tail (ft_queue (at j ?s)) = q_idx_tail (ft_queue (at j s)) \<and>
      unat (q_idx_head (ft_queue (at j s))) \<le> unat (q_idx_head (ft_queue (at j ?s)))" if "j < length (fe_threads s)" for j
    using that th'(4,5) unfolding th by (cases "j = i") simp_all
  show ?thesis
  proof (rule data_move [OF inv i _ th'(2) [unfolded th]])
    show "pc_ok ptrs mx ?s (ft_pc th)" using th'(6) unfolding th by (simp add: pc_ok_def)
    show "pc_ok ptrs mx ?s (ft_pc (at j s))" if "pc_ok ptrs mx s (ft_pc (at j s))" for j
      by (rule pc_ok_same [OF _ q that]) simp
    show "mset (fe_retired ?s) + given s + held (at i s) + X = mset (fe_retired s) + given ?s + held th + X"
      using th'(3,6) pc unfolding th by (simp add: held_def given_def)
  qed simp
qed

lemma copy_step:
  assumes inv: "data_inv ptrs mx {#} s" and lock: "lock_inv s" and mx: "mx < 2 ^ 31" and cap: "unat ptrs \<le> 2 ^ 31"
    and i: "i < length (fe_threads s)" and pc: "ft_pc (at i s) = Copying j n ab f h"
  obtains k q ab' where "take_queue mx n ab h (ft_queue (at j s)) = Inr (n + int k, ab', q)"
    "k = min (nat (mx - n)) (unat h - (unat (q_idx_tail (ft_queue (at j s))) - unat ptrs))" "k \<le> length (queue_list (ft_queue (at j s)))"
    "queue_list q = drop k (queue_list (ft_queue (at j s)))" "q_idx_head q = q_idx_head (ft_queue (at j s))"
    "data_inv ptrs mx {#} (move i ((at i (move j ((at j s)\<lparr>ft_queue := q\<rparr>) s))\<lparr>ft_pc := Taking (Suc j) (n + int k) ab' f\<rparr>)
       (move j ((at j s)\<lparr>ft_queue := q\<rparr>) s))"
proof -
  let ?q = "ft_queue (at j s)"
  have pok: "pc_ok ptrs mx s (Copying j n ab f h)" using inv i pc unfolding data_inv_def by metis
  then have b: "j < length (fe_threads s)" "0 \<le> n" "n \<le> mx" "length ab = nat mx"
    "unat (q_idx_tail ?q) \<le> unat h + unat ptrs" "unat h \<le> unat (q_idx_head ?q)" by (simp_all add: pc_ok_def)
  have tj: "thread_ok ptrs (at j s)" using inv b(1) by (simp add: data_inv_def)
  then have qj: "q_ok ptrs ?q" by (simp add: thread_ok_def)
  obtain k q ab' where k: "k = min (nat (mx - n)) (unat h - (unat (q_idx_tail ?q) - unat ptrs))"
    "take_queue mx n ab h ?q = Inr (n + int k, ab', q)" "q_ok ptrs q" "length ab' = nat mx" "k \<le> length (queue_list ?q)"
    "take (nat (n + int k)) ab' = take (nat n) ab @ take k (queue_list ?q)" "queue_list q = drop k (queue_list ?q)"
    "q_idx_head q = q_idx_head ?q" "unat (q_idx_tail q) = unat (q_idx_tail ?q) + k"
    by (rule take_queue_ok [OF qj cap b(2,3) mx b(4-6)])
  let ?s1 = "move j ((at j s)\<lparr>ft_queue := q\<rparr>) s"
  have "queue_inv ?q" "queue_inv q" "q_capacity q = ptrs" "q_capacity ?q = ptrs" using qj k(3) by (simp_all add: q_ok_def)
  then have full: "\<not> forkscan_queue_is_full q" if "\<not> forkscan_queue_is_full ?q"
    using that queue_invD [of ?q] queue_invD [of q] queue_list_length [of ?q] by (auto simp: queue_is_full_iff k(7))
  have n': "n + int k \<le> mx" using k(1) b(3) by simp
  have "unat ptrs \<le> unat (q_idx_tail ?q)" using qj queue_invD(3) [of ?q] by (auto simp: q_ok_def)
  moreover have "k \<le> unat h - (unat (q_idx_tail ?q) - unat ptrs)" using k(1) by simp
  ultimately have tail: "unat (q_idx_tail q) \<le> unat h + unat ptrs" using k(9) b(5) by linarith
  have split: "mset (queue_list q) + mset (take k (queue_list ?q)) = mset (queue_list ?q)"
    unfolding k(7) by (metis append_take_drop_id mset_append add.commute)
  have inv1: "data_inv ptrs mx (mset (take k (queue_list ?q))) ?s1"
  proof (rule data_move [OF inv b(1)])
    show "thread_ok ptrs ((at j s)\<lparr>ft_queue := q\<rparr>)" using tj k(3) full by (auto simp: thread_ok_def)
    have pcs: "pc_ok ptrs mx ?s1 (ft_pc (at t s))" if t: "t < length (fe_threads s)" for t
    proof (cases "t = i")
      case True
      then show ?thesis using pc b tail by (simp add: pc_ok_def k(8))
    next
      case False
      then have "\<not> critical (ft_pc (at t s))" using lock t i pc unfolding lock_inv_def by force
      moreover have "pc_ok ptrs mx s (ft_pc (at t s))" using inv t by (simp add: data_inv_def)
      ultimately show ?thesis by (intro pc_ok_other [of ?s1 s]) auto
    qed
    show "pc_ok ptrs mx ?s1 (ft_pc ((at j s)\<lparr>ft_queue := q\<rparr>))" using pcs [OF b(1)] by simp
    show "pc_ok ptrs mx ?s1 (ft_pc (at t s))" if "t < length (fe_threads s)" for t by (rule pcs [OF that])
    show "mset (fe_retired ?s1) + given s + held (at j s) + {#} =
        mset (fe_retired s) + given ?s1 + held ((at j s)\<lparr>ft_queue := q\<rparr>) + mset (take k (queue_list ?q))"
      unfolding split [symmetric] held_def by (simp add: given_def split [symmetric])
  qed simp
  let ?th = "(at i ?s1)\<lparr>ft_pc := Taking (Suc j) (n + int k) ab' f\<rparr>"
  let ?s2 = "move i ?th ?s1"
  have pc1: "ft_pc (at i ?s1) = Copying j n ab f h" using pc i b(1) by (cases "i = j") simp_all
  have q2: "ft_queue (at t ?s2) = ft_queue (at t ?s1)" if "t < length (fe_threads s)" for t
    using that by (cases "t = i") simp_all
  have i1: "i < length (fe_threads ?s1)" using i by simp
  have "data_inv ptrs mx {#} ?s2"
  proof (rule data_move [OF inv1 i1])
    show "thread_ok ptrs ?th" using inv1 i1 pc1 by (auto simp: data_inv_def thread_ok_def)
    show "pc_ok ptrs mx ?s2 (ft_pc ?th)" using b n' k(4) by (simp add: pc_ok_def)
    show "pc_ok ptrs mx ?s2 (ft_pc (at t ?s1))" if "pc_ok ptrs mx ?s1 (ft_pc (at t ?s1))" for t
      by (rule pc_ok_same [OF _ _ that]) (use q2 in simp_all)
    show "mset (fe_retired ?s2) + given ?s1 + held (at i ?s1) + mset (take k (queue_list ?q)) = mset (fe_retired ?s1) + given ?s2 + held ?th + {#}"
      using pc1 k(6) by (simp add: held_def given_def)
  qed simp
  with that k show thesis by blast
qed

lemma data_step:
  assumes inv: "data_inv ptrs mx {#} s" and lock: "lock_inv s" and mx: "0 \<le> mx" "mx < 2 ^ 31" and cap: "unat ptrs \<le> 2 ^ 31"
    and i: "i < length (fe_threads s)" and step: "fe_step mx i s s'"
  shows "data_inv ptrs mx {#} s'"
  using step
proof cases
  case (retire ptr th)
  show ?thesis unfolding retire(1) by (rule retire_step [OF inv i retire(2-5)])
next
  case (force th s1)
  have th: "th = (at i s)\<lparr>ft_forcing := True, ft_pc := Top\<rparr>" "fe_threads s1 = fe_threads s" "fe_given s1 = fe_given s" "fe_retired s1 = fe_retired s"
    using force(3) by (auto simp: forkscan_force_reclaim_def)
  have ok: "thread_ok ptrs (at i s)" using inv i by (simp add: data_inv_def)
  show ?thesis
  proof (rule data_move [OF inv i, where th = th])
    show "thread_ok ptrs th" using ok force(2) by (simp add: th(1) thread_ok_def)
    show "pc_ok ptrs mx s' (ft_pc (at t s))" if "pc_ok ptrs mx s (ft_pc (at t s))" "t \<noteq> i" for t
      by (rule pc_ok_move [OF _ _ that(1), where i = i and th = th]) (use force(1) th in simp_all)
  qed (use force th in \<open>simp_all add: pc_ok_def held_def given_def\<close>)
next
  case acquire
  show ?thesis by (rule data_pc [OF inv i, where pc = "acquire_read (global_timestamp s)"])
      (use acquire in \<open>auto simp: acquire_read_def pc_ok_def split: if_splits\<close>)
next
  case (swap old g pc)
  show ?thesis by (rule data_pc [OF inv i, where pc = pc]) (use swap in \<open>auto simp: acquire_swap_def Let_def pc_ok_def split: if_splits\<close>)
next
  case (pass j cur)
  show ?thesis by (rule data_pc [OF inv i, where pc = "Awaiting (Suc j) cur"]) (use pass in \<open>simp_all add: pc_ok_def\<close>)
next
  case (acquired cur)
  show ?thesis by (rule data_pc [OF inv i, where pc = Choosing]) (use acquired in \<open>simp_all add: pc_ok_def\<close>)
next
  case (become ab pc s1)
  show ?thesis by (rule data_pc [OF inv i, where pc = pc])
      (use become mx(1) in \<open>auto simp: become_reclaimer_def choose_force_def pc_ok_def split: if_splits\<close>)
next
  case (cache j n ab force)
  have "pc_ok ptrs mx s (Taking j n ab force)" "thread_ok ptrs (at j s)" using inv i cache(2,3) unfolding data_inv_def by metis+
  moreover from this have "unat (q_idx_tail (ft_queue (at j s))) \<le> unat (q_idx_head (ft_queue (at j s))) + unat ptrs"
    using queue_invD(4) by (auto simp: thread_ok_def q_ok_def)
  ultimately show ?thesis
    by (intro data_pc [OF inv i, where pc = "Copying j n ab force (q_idx_head (ft_queue (at j s)))"]) (use cache in \<open>simp_all add: pc_ok_def\<close>)
next
  case (copy j n ab force h n' ab' q s1)
  obtain k q' ab2 where r: "take_queue mx n ab h (ft_queue (at j s)) = Inr (n + int k, ab2, q')"
    "data_inv ptrs mx {#} (move i ((at i (move j ((at j s)\<lparr>ft_queue := q'\<rparr>) s))\<lparr>ft_pc := Taking (Suc j) (n + int k) ab2 force\<rparr>)
       (move j ((at j s)\<lparr>ft_queue := q'\<rparr>) s))"
    by (rule copy_step [OF inv lock mx(2) cap i copy(2)])
  have "n' = n + int k" "ab' = ab2" "q = q'" using r(1) copy(3) by simp_all
  then show ?thesis using r(2) unfolding copy(1,4) by simp
next
  case (filled n ab force)
  show ?thesis by (rule data_pc [OF inv i, where pc = "Handing (take (nat n) ab) force"]) (use filled in \<open>simp_all add: pc_ok_def\<close>)
next
  case (give xs force)
  have ok: "thread_ok ptrs (at i s)" using inv i by (simp add: data_inv_def)
  let ?th = "(at i s)\<lparr>ft_pc := Releasing\<rparr>"
  show ?thesis
  proof (rule data_move [OF inv i, where th = ?th])
    show "thread_ok ptrs ?th" using ok by (simp add: thread_ok_def)
    show "pc_ok ptrs mx s' (ft_pc (at t s))" if "pc_ok ptrs mx s (ft_pc (at t s))" "t \<noteq> i" for t
      by (rule pc_ok_move [OF _ _ that(1), where i = i and th = ?th]) (use give(1) in simp_all)
  qed (use give in \<open>simp_all add: pc_ok_def held_def given_def\<close>)
next
  case release
  show ?thesis by (rule data_pc [OF inv i, where pc = "Bottom True"])
      (use release in \<open>simp_all add: pc_ok_def forkscan_thread_cleanup_release_def\<close>)
next
  case yield
  show ?thesis by (rule data_pc [OF inv i, where pc = "Bottom False"]) (use yield in \<open>simp_all add: pc_ok_def\<close>)
next
  case (bottom acquired)
  have ok: "thread_ok ptrs (at i s)" using inv i by (simp add: data_inv_def)
  show ?thesis by (rule data_pc [OF inv i, where pc = "if loop_again acquired (g_force_iteration s) (at i s) then Top else Outside"])
      (use bottom ok in \<open>auto simp: pc_ok_def loop_again_def thread_ok_def split: if_splits\<close>)
qed

section \<open>The reclaimer's own queue\<close>

text \<open>
  With at most as many threads as the buffer has room for, the reclaimer empties each queue it passes,
  and its own queue stays empty until it leaves the loop.
\<close>

definition drained :: "size_t \<Rightarrow> nat \<Rightarrow> fe_thread \<Rightarrow> bool" where
  "drained ptrs i th \<longleftrightarrow> (case ft_pc th of
      Taking j n ab f \<Rightarrow> n \<le> int j * int (unat ptrs - 1) \<and> (i < j \<longrightarrow> queue_list (ft_queue th) = [])
    | Copying j n ab f h \<Rightarrow> n \<le> int j * int (unat ptrs - 1) \<and> (i < j \<longrightarrow> queue_list (ft_queue th) = []) \<and>
        (i = j \<longrightarrow> h = q_idx_head (ft_queue th))
    | Handing xs f \<Rightarrow> queue_list (ft_queue th) = []
    | Releasing \<Rightarrow> queue_list (ft_queue th) = []
    | Bottom True \<Rightarrow> queue_list (ft_queue th) = []
    | _ \<Rightarrow> True)"

definition drain_inv :: "size_t \<Rightarrow> fe_state \<Rightarrow> bool" where
  "drain_inv ptrs s \<longleftrightarrow> (\<forall>i<length (fe_threads s). drained ptrs i (at i s))"

lemma drain_move:
  assumes "drain_inv ptrs s" and "i < length (fe_threads s)" and "fe_threads s' = (fe_threads s)[i := th]" and "drained ptrs i th"
  shows "drain_inv ptrs s'"
proof -
  have "drained ptrs u (at u s')" if "u < length (fe_threads s)" for u
    using assms that unfolding drain_inv_def by (cases "u = i") simp_all
  then show ?thesis using assms(3) by (simp add: drain_inv_def)
qed

lemma queue_short: "q_ok ptrs q \<Longrightarrow> length (queue_list q) \<le> unat ptrs - 1"
  using queue_invD [of q] queue_list_length [of q] by (auto simp: q_ok_def)

lemma drain_copy:
  assumes inv: "data_inv ptrs mx {#} s" and lock: "lock_inv s" and dr: "drain_inv ptrs s"
    and mx: "mx < 2 ^ 31" and cap: "unat ptrs \<le> 2 ^ 31" and room: "int (length (fe_threads s)) * int (unat ptrs - 1) \<le> mx"
    and i: "i < length (fe_threads s)" and pc: "ft_pc (at i s) = Copying j n ab force h"
    and run: "take_queue mx n ab h (ft_queue (at j s)) = Inr (n', ab', q)" and s1: "s1 = move j ((at j s)\<lparr>ft_queue := q\<rparr>) s"
  shows "drain_inv ptrs (move i ((at i s1)\<lparr>ft_pc := Taking (Suc j) n' ab' force\<rparr>) s1)"
proof -
  let ?th = "(at i s1)\<lparr>ft_pc := Taking (Suc j) n' ab' force\<rparr>" and ?ql = "\<lambda>th. queue_list (ft_queue th)"
  have pok: "pc_ok ptrs mx s (Copying j n ab force h)" using inv i pc unfolding data_inv_def by metis
  then have b: "j < length (fe_threads s)" "0 \<le> n" by (simp_all add: pc_ok_def)
  obtain k q' ab2 where r: "take_queue mx n ab h (ft_queue (at j s)) = Inr (n + int k, ab2, q')"
    "k = min (nat (mx - n)) (unat h - (unat (q_idx_tail (ft_queue (at j s))) - unat ptrs))" "k \<le> length (?ql (at j s))"
    "?ql ((at j s)\<lparr>ft_queue := q'\<rparr>) = drop k (?ql (at j s))"
    by (rule copy_step [OF inv lock mx cap i pc]) simp
  have eq: "n' = n + int k" "q = q'" using r(1) run by simp_all
  have qj: "q_ok ptrs (ft_queue (at j s))" using inv b(1) by (simp add: data_inv_def thread_ok_def)
  note short = queue_short [OF qj]
  have d: "n \<le> int j * int (unat ptrs - 1)" "i < j \<longrightarrow> ?ql (at i s) = []" "i = j \<longrightarrow> h = q_idx_head (ft_queue (at i s))"
    using dr i pc unfolding drain_inv_def by (auto simp: drained_def)
  have "int k \<le> int (unat ptrs - 1)" using r(3) short by linarith
  then have n': "n' \<le> int (Suc j) * int (unat ptrs - 1)" using d(1) eq(1) by (simp add: algebra_simps)
  have "?ql (at i s1) = []" if "i < Suc j"
  proof (cases "i = j")
    case True
    have "int (Suc j) * int (unat ptrs - 1) \<le> int (length (fe_threads s)) * int (unat ptrs - 1)" by (rule mult_right_mono) (use b(1) in simp_all)
    then have "int (unat ptrs - 1) \<le> mx - n" using d(1) room by (simp add: algebra_simps)
    moreover have "length (?ql (at j s)) = unat (q_idx_head (ft_queue (at j s))) - (unat (q_idx_tail (ft_queue (at j s))) - unat ptrs)"
      using qj queue_list_length [of "ft_queue (at j s)"] queue_invD(3) [of "ft_queue (at j s)"] by (auto simp: q_ok_def)
    ultimately have "k = length (?ql (at j s))" using r(2) d(3) True short by simp
    then show ?thesis using r(4) eq True i by (simp add: s1)
  next
    case False
    then show ?thesis using that d(2) i by (simp add: s1)
  qed
  then have own: "drained ptrs i ?th" using n' by (simp add: drained_def)
  have "drained ptrs u (at u s1)" if u: "u < length (fe_threads s)" "u \<noteq> i" for u
  proof -
    have "\<not> critical (ft_pc (at u s))" using lock u i pc unfolding lock_inv_def by force
    moreover have "ft_pc (at u s1) = ft_pc (at u s)" "?ql (at u s) = [] \<Longrightarrow> ?ql (at u s1) = []"
      using u r(4) eq by (cases "u = j"; simp add: s1)+
    moreover have "drained ptrs u (at u s)" using dr u by (simp add: drain_inv_def)
    ultimately show ?thesis by (auto simp: drained_def split: fe_pc.splits bool.splits)
  qed
  then have "drained ptrs u (at u (move i ?th s1))" if "u < length (fe_threads s)" for u
    using that own by (cases "u = i") (simp_all add: s1)
  then show ?thesis by (simp add: drain_inv_def s1)
qed

lemma drain_step:
  assumes inv: "data_inv ptrs mx {#} s" and lock: "lock_inv s" and dr: "drain_inv ptrs s"
    and mx: "mx < 2 ^ 31" and cap: "unat ptrs \<le> 2 ^ 31" and room: "int (length (fe_threads s)) * int (unat ptrs - 1) \<le> mx"
    and i: "i < length (fe_threads s)" and step: "fe_step mx i s s'"
  shows "drain_inv ptrs s'"
proof -
  have own: "drained ptrs i (at i s)" using dr i by (simp add: drain_inv_def)
  note move = drain_move [OF dr i]
  show ?thesis using step
  proof cases
    case (retire ptr th)
    show ?thesis by (rule move [of s' th]) (use retire in \<open>auto simp: drained_def forkscan_retire_def bind_res_eq_Inr\<close>)
  next
    case (force th s1)
    show ?thesis by (rule move [of s' th]) (use force in \<open>auto simp: drained_def forkscan_force_reclaim_def\<close>)
  next
    case (copy j n ab force h n' ab' q s1)
    show ?thesis unfolding copy(1) by (rule drain_copy [OF inv lock dr mx cap room i copy(2-4)])
  next
    case acquire
    show ?thesis by (rule move, subst acquire, simp) (auto simp: drained_def acquire_read_def)
  next
    case (swap old g pc)
    show ?thesis by (rule move, subst swap, simp) (use swap in \<open>auto simp: drained_def acquire_swap_def Let_def split: if_splits\<close>)
  next
    case (pass j cur)
    show ?thesis by (rule move, subst pass, simp) (simp add: drained_def)
  next
    case (acquired cur)
    show ?thesis by (rule move, subst acquired, simp) (simp add: drained_def)
  next
    case (become ab pc s1)
    show ?thesis by (rule move [of s' "(at i s)\<lparr>ft_pc := pc\<rparr>"])
      (use become in \<open>auto simp: drained_def become_reclaimer_def choose_force_def split: if_splits\<close>)
  next
    case (cache j n ab force)
    show ?thesis by (rule move, subst cache, simp) (use cache own in \<open>auto simp: drained_def\<close>)
  next
    case (filled n ab force)
    show ?thesis by (rule move, subst filled, simp) (use filled own i in \<open>auto simp: drained_def\<close>)
  next
    case (give xs force)
    show ?thesis by (rule move, subst give, simp) (use give own in \<open>auto simp: drained_def\<close>)
  next
    case release
    show ?thesis by (rule move, subst release, simp add: forkscan_thread_cleanup_release_def) (use release own in \<open>auto simp: drained_def\<close>)
  next
    case yield
    show ?thesis by (rule move, subst yield, simp) (simp add: drained_def)
  next
    case (bottom acquired)
    show ?thesis by (rule move, subst bottom, simp) (simp add: drained_def)
  qed
qed

section \<open>Histories\<close>

definition fe_ok :: "size_t \<Rightarrow> int \<Rightarrow> bool" where
  "fe_ok ptrs mx \<longleftrightarrow> (\<exists>k<64. unat ptrs = 2 ^ k) \<and> 2 \<le> unat ptrs \<and> unat ptrs \<le> 2 ^ 31 \<and> 0 \<le> mx \<and> mx < 2 ^ 31"

lemma sum_list_empty: "sum_list (replicate n {#}) = {#}"
  by (induction n) simp_all

lemma fe_init_inv:
  assumes ok: "fe_ok ptrs mx"
  shows "lock_inv (fe_init ptrs n)" "data_inv ptrs mx {#} (fe_init ptrs n)" "drain_inv ptrs (fe_init ptrs n)"
proof -
  let ?q = "\<lparr>q_e = replicate (unat ptrs) 0, q_capacity = ptrs, q_idx_head = 0, q_idx_tail = ptrs\<rparr>"
  have q: "queue_inv ?q" "queue_list ?q = []" using ok by (auto simp: queue_inv_def queue_list_def window_def fe_ok_def)
  have "\<not> forkscan_queue_is_full ?q" using queue_is_full_iff [OF q(1)] q(2) ok by (simp add: fe_ok_def)
  then have t: "thread_ok ptrs \<lparr>ft_queue = ?q, ft_stamp = 0, ft_forcing = False, ft_pc = Outside\<rparr>"
    using q ok unat_less_64 [of ptrs] by (simp add: thread_ok_def q_ok_def fe_ok_def)
  have "\<not> TIMESTAMP_IS_ACTIVE 1" by (simp add: TIMESTAMP_IS_ACTIVE_def TIMESTAMP_FLAG_def)
  then show "lock_inv (fe_init ptrs n)" by (simp add: lock_inv_def fe_init_def)
  show "data_inv ptrs mx {#} (fe_init ptrs n)" using t q(2)
    by (simp add: data_inv_def fe_init_def pc_ok_def given_def held_def map_replicate_const sum_list_empty)
  show "drain_inv ptrs (fe_init ptrs n)" by (simp add: drain_inv_def drained_def fe_init_def)
qed

lemma fe_reach_inv:
  assumes ok: "fe_ok ptrs mx" and r: "fe_reach ptrs mx n s"
  shows "length (fe_threads s) = n \<and> lock_inv s \<and> data_inv ptrs mx {#} s \<and> (int n * int (unat ptrs - 1) \<le> mx \<longrightarrow> drain_inv ptrs s)"
  using r
proof induction
  case init
  show ?case using fe_init_inv [OF ok] by (simp add: fe_init_def)
next
  case (step s i s')
  have o: "0 \<le> mx" "mx < 2 ^ 31" "unat ptrs \<le> 2 ^ 31" using ok by (simp_all add: fe_ok_def)
  have i: "i < length (fe_threads s)" and inv: "lock_inv s" "data_inv ptrs mx {#} s" using step.IH step.hyps(2) by simp_all
  have "drain_inv ptrs s'" if "int n * int (unat ptrs - 1) \<le> mx"
    by (rule drain_step [OF inv(2,1) _ o(2,3) _ i step.hyps(3)]) (use step.IH that in simp_all)
  then show ?case using lock_step [OF inv(1) i step.hyps(3)] data_step [OF inv(2,1) o i step.hyps(3)] step.IH by simp
qed

text \<open>How many moves a reclaimer has left, with \<open>n\<close> threads.\<close>

fun moves_left :: "nat \<Rightarrow> fe_pc \<Rightarrow> nat" where
  "moves_left n (Awaiting j c) = 2 * n + 5 + (n - j)"
| "moves_left n Choosing = 2 * n + 4"
| "moves_left n (Taking j k ab f) = 2 * (n - j) + 3"
| "moves_left n (Copying j k ab f h) = 2 * (n - j) + 2"
| "moves_left n (Handing xs f) = 2"
| "moves_left n Releasing = 1"
| "moves_left n _ = 0"

lemma can_move:
  assumes inv: "data_inv ptrs mx {#} s" and lock: "lock_inv s" and ok: "fe_ok ptrs mx"
    and i: "i < length (fe_threads s)" and pc: "ft_pc (at i s) \<noteq> Outside"
  shows "\<exists>s'. fe_step mx i s s'"
proof -
  have o: "mx < 2 ^ 31" "unat ptrs \<le> 2 ^ 31" using ok by (simp_all add: fe_ok_def)
  have pok: "pc_ok ptrs mx s (ft_pc (at i s))" using inv i by (simp add: data_inv_def)
  show ?thesis
  proof (cases "ft_pc (at i s)")
    case (Swapping old)
    then show ?thesis using fe_step.swap [OF Swapping] by (metis surj_pair)
  next
    case (Awaiting j cur)
    then have "j \<le> length (fe_threads s)" using pok by (simp add: pc_ok_def)
    moreover have "stamp_passes cur (ft_stamp (at j s))" if "j < length (fe_threads s)"
      using inv that by (simp add: data_inv_def thread_ok_def stamp_passes_def TIMESTAMP_IS_ACTIVE_def)
    ultimately show ?thesis using fe_step.pass [OF Awaiting] fe_step.acquired [where i = i and s = s] Awaiting by (cases "j = length (fe_threads s)") force+
  next
    case Choosing
    have len: "length (replicate (nat mx) 0) = nat mx" by simp
    show ?thesis using fe_step.become [OF Choosing len] by (metis surj_pair)
  next
    case (Taking j n ab f)
    then have "j \<le> length (fe_threads s)" using pok by (simp add: pc_ok_def)
    then show ?thesis using fe_step.cache [OF Taking] fe_step.filled [where i = i and s = s] Taking by (cases "j = length (fe_threads s)") force+
  next
    case (Copying j n ab f h)
    from copy_step [OF inv lock o i Copying] obtain r where "take_queue mx n ab h (ft_queue (at j s)) = Inr r" by metis
    then show ?thesis using fe_step.copy [OF Copying] by (metis prod_cases3)
  next
    case Top
    show ?thesis using fe_step.acquire [OF Top] by blast
  next
    case (Handing xs f)
    show ?thesis using fe_step.give [OF Handing] by blast
  next
    case Releasing
    show ?thesis using fe_step.release [OF Releasing] by blast
  next
    case Yielding
    show ?thesis using fe_step.yield [OF Yielding] by blast
  next
    case (Bottom acquired)
    show ?thesis using fe_step.bottom [OF Bottom] by blast
  qed (use pc in simp)
qed

lemma moves_left_step:
  assumes inv: "data_inv ptrs mx {#} s" and i: "i < length (fe_threads s)" and c: "critical (ft_pc (at i s))" and step: "fe_step mx i s s'"
  shows "moves_left (length (fe_threads s)) (ft_pc (at i s')) < moves_left (length (fe_threads s)) (ft_pc (at i s))"
  using step
proof cases
  case (become ab pc s1)
  then show ?thesis using i by (auto simp: become_reclaimer_def choose_force_def split: if_splits)
next
  case (copy j n ab f h n' ab' q s1)
  have "pc_ok ptrs mx s (Copying j n ab f h)" using inv i copy(2) unfolding data_inv_def by metis
  then have "j < length (fe_threads s)" by (simp add: pc_ok_def)
  then show ?thesis using copy i by simp
qed (use i c in \<open>simp_all add: forkscan_thread_cleanup_release_def\<close>)

text \<open>A thread with a queue for one address retires one.\<close>

lemma sample_retire:
  obtains s where "fe_reach 2 512 1 s" "ft_pc (at 0 s) = Top" "fe_retired s = [8]" "queue_list (ft_queue (at 0 s)) = [8]" "fe_given s = []"
proof -
  let ?s = "fe_init 2 1"
  have pc: "ft_pc (at 0 ?s) = Outside" "index_room (ft_queue (at 0 ?s))" by (simp_all add: fe_init_def index_room_def)
  obtain th where th: "forkscan_retire 8 (at 0 ?s) = Inr th" "ft_pc th = Top" "queue_list (ft_queue th) = [8]"
    by (simp add: fe_init_def forkscan_retire_def forkscan_queue_push_def forkscan_queue_is_full_def wr_def INDEXIFY_def queue_list_def window_def)
  have step: "fe_step 512 0 ?s ((move 0 th ?s)\<lparr>fe_retired := fe_retired ?s @ [8]\<rparr>)" by (rule fe_step.retire [OF pc(1) _ pc(2) th(1)]) simp
  have "fe_reach 2 512 1 ((move 0 th ?s)\<lparr>fe_retired := fe_retired ?s @ [8]\<rparr>)" by (rule fe_reach.step [OF fe_reach.init _ step]) simp
  then show thesis by (rule that) (use th in \<open>simp_all add: fe_init_def\<close>)
qed

lemma sample_ok: "fe_ok 2 512"
  by (auto simp: fe_ok_def intro!: exI [of _ "Suc 0"])

section \<open>Properties\<close>

text \<open>
  C7: in every interleaving of threads that retire addresses and force collections, at most one
  thread is the reclaimer, between the compare and swap of the timestamp and its release, and the
  timestamp is flagged as active exactly while there is one: the queues have a single consumer.
\<close>

theorem one_reclaimer:
  assumes "fe_ok ptrs max_ptrs" and "fe_reach ptrs max_ptrs n s"
  shows "(\<forall>i<n. \<forall>j<n. critical (ft_pc (at i s)) \<longrightarrow> critical (ft_pc (at j s)) \<longrightarrow> i = j) \<and>
    (TIMESTAMP_IS_ACTIVE (global_timestamp s) \<longleftrightarrow> (\<exists>i<n. critical (ft_pc (at i s))))"
  using fe_reach_inv [OF assms] unfolding lock_inv_def by blast

theorem one_reclaimer_witness:
  "\<exists>s. fe_reach 2 512 1 s \<and> fe_retired s = [8] \<and> (TIMESTAMP_IS_ACTIVE (global_timestamp s) \<longleftrightarrow> critical (ft_pc (at 0 s)))"
proof -
  obtain s where s: "fe_reach 2 512 1 s" "fe_retired s = [8]" by (rule sample_retire)
  from one_reclaimer [OF sample_ok s(1)] s show ?thesis by auto
qed

text \<open>
  C6: in every such interleaving no address is lost or duplicated: those retired so far are those
  given to the collector, those still in the queues and those in the reclaimer's buffer. The queues
  stay well formed, a thread outside of the loop finds room in its queue, and the buffer is not
  written behind its end.
\<close>

theorem retired_conserved:
  assumes "fe_ok ptrs max_ptrs" and "fe_reach ptrs max_ptrs n s"
  shows "mset (fe_retired s) = mset (concat (map fst (fe_given s))) +
      (\<Sum>th\<leftarrow>fe_threads s. mset (queue_list (ft_queue th)) + mset (carried (ft_pc th))) \<and>
    (\<forall>i<n. queue_inv (ft_queue (at i s)) \<and> (ft_pc (at i s) = Outside \<longrightarrow> \<not> forkscan_queue_is_full (ft_queue (at i s))) \<and>
      (\<forall>j k ab f. ft_pc (at i s) = Taking j k ab f \<longrightarrow> 0 \<le> k \<and> k \<le> max_ptrs \<and> length ab = nat max_ptrs))"
proof -
  have inv: "length (fe_threads s) = n" "data_inv ptrs max_ptrs {#} s" using fe_reach_inv [OF assms] by simp_all
  have th: "thread_ok ptrs (at i s) \<and> pc_ok ptrs max_ptrs s (ft_pc (at i s))" if "i < n" for i
    using inv that by (simp add: data_inv_def)
  have "queue_inv (ft_queue (at i s)) \<and> (ft_pc (at i s) = Outside \<longrightarrow> \<not> forkscan_queue_is_full (ft_queue (at i s))) \<and>
      (\<forall>j k ab f. ft_pc (at i s) = Taking j k ab f \<longrightarrow> 0 \<le> k \<and> k \<le> max_ptrs \<and> length ab = nat max_ptrs)" if "i < n" for i
    using th [OF that] by (auto simp: thread_ok_def q_ok_def pc_ok_def)
  moreover have "mset (fe_retired s) = mset (concat (map fst (fe_given s))) +
      (\<Sum>th\<leftarrow>fe_threads s. mset (queue_list (ft_queue th)) + mset (carried (ft_pc th)))"
    using inv(2) unfolding data_inv_def given_def held_def by simp
  ultimately show ?thesis by blast
qed

theorem retired_conserved_witness:
  "\<exists>s. fe_reach 2 512 1 s \<and> mset (fe_retired s) = {#8#} \<and> queue_inv (ft_queue (at 0 s))"
proof -
  obtain s where s: "fe_reach 2 512 1 s" "fe_retired s = [8]" by (rule sample_retire)
  from retired_conserved [OF sample_ok s(1)] s show ?thesis by auto
qed

text \<open>
  C12: a thread in the loop of \<^verbatim>\<open>forkscan_retire\<close> or \<^verbatim>\<open>forkscan_force_reclaim\<close> can always move
  (but for the throttling in \<^verbatim>\<open>forkscan_initiate_collection\<close>, which is in \<open>Collector\<close>), a reclaimer
  has a bounded number of moves left until it has released the timestamp, and with at most
  \<^verbatim>\<open>MAX_THREAD_COUNT\<close> threads it then finds its own queue empty and returns.
\<close>

theorem reclaimer_returns:
  assumes "register_signal_handlers (int (unat ptrs)) = Inr cfg" and "fe_ok ptrs (cfg_max_ptrs cfg)" and "int n \<le> MAX_THREAD_COUNT"
    and "fe_reach ptrs (cfg_max_ptrs cfg) n s" and "i < n" and "ft_pc (at i s) \<noteq> Outside"
  shows "(\<exists>s'. fe_step (cfg_max_ptrs cfg) i s s') \<and>
    (\<forall>s'. fe_step (cfg_max_ptrs cfg) i s s' \<longrightarrow>
      (critical (ft_pc (at i s)) \<longrightarrow> moves_left n (ft_pc (at i s')) < moves_left n (ft_pc (at i s))) \<and>
      (ft_pc (at i s) = Bottom True \<longrightarrow> queue_list (ft_queue (at i s')) = [] \<and> ft_pc (at i s') = Outside))"
proof -
  have "int (unat ptrs - 1) \<le> int (unat ptrs)" by (simp only: of_nat_le_iff diff_le_self)
  then have "int n * int (unat ptrs - 1) \<le> MAX_THREAD_COUNT * int (unat ptrs)"
    by (rule mult_mono [OF assms(3)]) (simp_all add: MAX_THREAD_COUNT_def)
  then have room: "int n * int (unat ptrs - 1) \<le> cfg_max_ptrs cfg"
    using assms(1) by (auto simp: register_signal_handlers_def bind_res_eq_Inr cint_def mult.commute split: if_splits)
  have inv: "length (fe_threads s) = n" "lock_inv s" "data_inv ptrs (cfg_max_ptrs cfg) {#} s" "drain_inv ptrs s"
    using fe_reach_inv [OF assms(2,4)] room by simp_all
  have i: "i < length (fe_threads s)" using assms(5) inv(1) by simp
  have "queue_list (ft_queue (at i s')) = [] \<and> ft_pc (at i s') = Outside" if b: "ft_pc (at i s) = Bottom True" and s': "fe_step (cfg_max_ptrs cfg) i s s'" for s'
  proof -
    have empty: "queue_list (ft_queue (at i s)) = []" using inv(4) i b by (auto simp: drain_inv_def drained_def)
    moreover have "q_ok ptrs (ft_queue (at i s))" using inv(3) i by (simp add: data_inv_def thread_ok_def)
    ultimately have "\<not> forkscan_queue_is_full (ft_queue (at i s))"
      using assms(2) by (auto simp: q_ok_def queue_is_full_iff fe_ok_def)
    then have "\<not> loop_again True (g_force_iteration s) (at i s)" by (simp add: loop_again_def)
    with s' show ?thesis by cases (use b i empty in simp_all)
  qed
  then show ?thesis
    using can_move [OF inv(3,2) assms(2) i assms(6)] moves_left_step [OF inv(3) i] unfolding inv(1) by blast
qed

theorem reclaimer_returns_witness:
  "\<exists>s. fe_reach 2 512 1 s \<and> ft_pc (at 0 s) = Top \<and> (\<exists>s'. fe_step 512 0 s s')"
proof -
  obtain s where s: "fe_reach 2 512 1 s" "ft_pc (at 0 s) = Top" by (rule sample_retire)
  obtain cfg where c: "register_signal_handlers (int (unat (2 :: size_t))) = Inr cfg" "cfg_max_ptrs cfg = 512"
    by (simp add: register_signal_handlers_def cint_def MAX_THREAD_COUNT_def)
  have "int 1 \<le> MAX_THREAD_COUNT" by (simp add: MAX_THREAD_COUNT_def)
  from reclaimer_returns [OF c(1) _ this, unfolded c(2), OF sample_ok s(1), of 0] s show ?thesis by auto
qed

end
