(* ===== verification/Round.thy ===== *)
theory Round
  imports Frontend Pool Collector
begin

text \<open>
  A whole round of the reclaimer as one function: \<^verbatim>\<open>become_reclaimer\<close> with
  \<^verbatim>\<open>generate_working_pointers_list\<close> of \<^verbatim>\<open>src/frontend.c\<close>, over the queues of the threads in the order of
  the list, the address buffers and the collector. The theory composes \<open>Frontend\<close>, \<open>Queue\<close>, \<open>Buffer\<close> and
  \<open>Collector\<close>; the interleaving with other threads is in \<open>Frontend\<close>. Left out is the assertion of
  \<^verbatim>\<open>generate_working_pointers_list\<close> that the thread's own queue is not full afterwards: all queues are empty,
  so it can fail only for queues of capacity one.
\<close>

section \<open>The code\<close>




section \<open>Emptying the queues\<close>




section \<open>Handing the addresses to the collector\<close>













section \<open>Properties\<close>





end
