(* ===== verification/Sleep.thy ===== *)
theory Sleep
  imports Prelude
begin

text \<open>
  Sleeping that is not cut short by signals, \<^verbatim>\<open>src/sleep.c\<close>. The readings of the monotonic clock are a
  list, in the order of the calls of \<^verbatim>\<open>clock_gettime\<close>; when it is used up, the code still sleeps.
\<close>

definition clock_us :: "int \<times> int \<Rightarrow> size_t" where
  "clock_us ts = word_of_int (fst ts * 1000 * 1000 + snd ts div 1000)"

text \<open>The result: the time at the last reading, and what is left of the readings.\<close>

fun usleep_loop :: "size_t \<Rightarrow> size_t \<Rightarrow> (int \<times> int) list \<Rightarrow> (size_t \<times> (int \<times> int) list) res" where
  "usleep_loop current_us end_us [] = (if current_us < end_us then Inl No_return else Inr (current_us, []))"
| "usleep_loop current_us end_us (ts # clock) =
     (if current_us < end_us then usleep_loop (clock_us ts) end_us clock else Inr (current_us, ts # clock))"

definition forkscan_usleep :: "size_t \<Rightarrow> (int \<times> int) list \<Rightarrow> (size_t \<times> (int \<times> int) list) res" where
  "forkscan_usleep usec clock =
     (case clock of
        [] \<Rightarrow> Inl No_return
      | ts # clock \<Rightarrow> let begin_us = clock_us ts in usleep_loop begin_us (begin_us + usec) clock)"

definition forkscan_sleep :: "32 word \<Rightarrow> (int \<times> int) list \<Rightarrow> (size_t \<times> (int \<times> int) list) res" where
  "forkscan_sleep seconds clock = forkscan_usleep (ucast (seconds * 1000 * 1000)) clock"

lemma usleep_loop_waits: "usleep_loop cur end_us clock = Inr (t, rest) \<Longrightarrow> end_us \<le> t"
  by (induction clock arbitrary: cur) (auto split: if_splits)

text \<open>A sleep that returns has lasted at least as long as was asked for.\<close>

lemma forkscan_usleep_waits:
  assumes "forkscan_usleep usec (ts # clock) = Inr (t, rest)" and "unat (clock_us ts) + unat usec < 2 ^ 64"
  shows "unat (clock_us ts) + unat usec \<le> unat t"
proof -
  have "clock_us ts + usec \<le> t" using assms(1) by (auto simp: forkscan_usleep_def Let_def dest: usleep_loop_waits)
  then show ?thesis using assms(2) by (simp add: word_le_nat_alt unat_word_ariths)
qed

text \<open>The seconds are converted in 32 bits: a sleep of 4295 seconds returns after 33 milliseconds.\<close>

lemma forkscan_sleep_wraps:
  "forkscan_sleep 4295 [(0, 0), (0, 33000000)] = Inr (33000, [])"
  by (simp add: forkscan_sleep_def forkscan_usleep_def clock_us_def Let_def)

end
