(* ===== verification/Spec2Isabelle.thy ===== *)
theory Spec2Isabelle
  imports Queue Util_Sort Scan Roots Free_Trace Env Pool Proc Collector Handshake Threads Frontend Round Sleep
begin

text \<open>
  A verification library for Forkscan, an automatic memory reclamation library for C and C++
  programs (the sources are under \<^verbatim>\<open>src/\<close>).

  \<^bold>\<open>The program.\<close> Threads hand the addresses of blocks they no longer use to Forkscan
  (\<^verbatim>\<open>frontend.c\<close>). Each thread keeps them in a queue (\<^verbatim>\<open>queue.c\<close>) and moves them in bulk to address
  buffers (\<^verbatim>\<open>buffer.c\<close>). A collector thread (\<^verbatim>\<open>forkscan.c\<close>) aggregates the buffers, stops the threads
  with a signal, forks a snapshot of the process and lets the child (\<^verbatim>\<open>child.c\<close>) scan the memory of
  the snapshot for references: it reads the memory map (\<^verbatim>\<open>proc.c\<close>), leaves out Forkscan's own memory
  (\<^verbatim>\<open>alloc.c\<close>), cuts the rest to ranges, and forked siblings scan the ranges and mark in a shared
  buffer each address that is still referenced. When the child has reported, the collector
  publishes the buffer as a retiree: threads free its unmarked addresses in small portions
  (\<^verbatim>\<open>forkscan_util_free_ptrs\<close> of \<^verbatim>\<open>util.c\<close>), the marked ones go into the next collection.

  \<^bold>\<open>The theories.\<close>
  \<^item> \<open>Prelude\<close>: \<open>size_t\<close> as a 64-bit word, the result type of fallible C code (an access out of bounds,
    a null dereference, an overflow of \<open>int\<close>, a call of \<^verbatim>\<open>forkscan_fatal\<close>, no return), checked arrays,
    counted loops, the address macros of \<^verbatim>\<open>util.h\<close>, lemmas on words.
  \<^item> \<open>Queue\<close> (\<^verbatim>\<open>queue.c\<close>): the circular queue with its free-running indices; the locale \<open>fifo_queue\<close>
    states what its client relies on, and the queue implements a bounded list over whole histories.
  \<^item> \<open>Util_Sort\<close> (\<^verbatim>\<open>util.c\<close>): sorting, shuffling, removing duplicates; sortedness, permutation, no
    access out of bounds.
  \<^item> \<open>Store\<close>: objects behind pointers, chains and circular lists.
  \<^item> \<open>Alloc\<close> (\<^verbatim>\<open>alloc.c\<close>): the circular sorted list of mapped blocks; over all histories of mapping and
    unmapping, each a complete operation, it records exactly the mapped blocks; \<open>forkscan_alloc_next_subrange\<close> cuts Forkscan's
    memory out of a range, the contract of the locale \<open>subrange_cutter\<close>.
  \<^item> \<open>Pool\<close> (\<^verbatim>\<open>metautil.h\<close>, \<^verbatim>\<open>buffer.c\<close>, \<^verbatim>\<open>util.c\<close>): the pools of fixed-size objects; the locale \<open>object_pool\<close> is
    interpreted on the pools of stacks and of thread data.
  \<^item> \<open>Addr_Buffer\<close>, \<open>Buffer\<close> (\<^verbatim>\<open>buffer.h\<close>, \<^verbatim>\<open>buffer.c\<close>, the minimap of \<^verbatim>\<open>forkscan.c\<close>): the address buffers, their
    free lists and the queue of retirees, with a separation invariant over the store of buffers.
  \<^item> \<open>Scan\<close> (\<^verbatim>\<open>child.c\<close>): searching an address through the minimap, marking, the lookaside list.
  \<^item> \<open>Roots\<close> (\<^verbatim>\<open>child.c\<close>): \<open>find_roots\<close>, the scan of one range that leaves out tracked and dead blocks.
  \<^item> \<open>Proc\<close> (\<^verbatim>\<open>proc.c\<close>): reading the memory map; a line is read back as it was written, the iteration
    over a file is the iteration over its lines and ends on any file of whole lines.
  \<^item> \<open>Ranges\<close> (\<^verbatim>\<open>child.c\<close>): the choice of the ranges; a mapping is cut to disjoint pieces that hold exactly
    its addresses that are not Forkscan's.
  \<^item> \<open>Child\<close> (\<^verbatim>\<open>child.c\<close>): \<open>forkscan_child\<close>, the siblings as a step relation; by rule induction the parent is
    notified only when every range is scanned and flushed, and always in the end.
  \<^item> \<open>Reclaim\<close>, \<open>Collection\<close> (\<^verbatim>\<open>forkscan.c\<close>): \<open>aggregate_addrs\<close> and \<open>reclaim_iteration\<close>, one collection from the list
    of buffers to the published one. \<open>Reclaim\<close> has the code and the lemmas on gathering the addresses,
    \<open>Collection\<close> the preparation of the snapshot, the publication and their composition with \<open>Child\<close>:
    nothing is lost and nothing referenced is freed. This is for collections of at least one address: the code
    rules out an empty one by an assertion only, and \<open>empty_collection_pooled\<close> shows that an empty one leaves
    its buffer in the queue of retirees and in a pool at once.
  \<^item> \<open>Collector\<close> (\<^verbatim>\<open>forkscan.c\<close>): \<open>forkscan_thread\<close> and \<open>forkscan_initiate_collection\<close>, the collector and the threads
    that hand it work as a step relation; no wakeup is lost.
  \<^item> \<open>Handshake\<close> (\<^verbatim>\<open>forkscan.c\<close>, \<^verbatim>\<open>proc.c\<close>, \<^verbatim>\<open>frontend.c\<close>): stopping the threads for the snapshot with signals, an
    acknowledgement and a counter; at the fork every signalled thread stands still outside of the
    allocator; while the collector waits, no step takes a thread further from stopping, and there is always
    one that brings it nearer.
  \<^item> \<open>Thread_Data\<close>, \<open>Free_Ptrs\<close>, \<open>Free_Trace\<close> (\<^verbatim>\<open>util.h\<close>, \<^verbatim>\<open>util.c\<close>): freeing. \<open>Free_Ptrs\<close> has the loop as a
    function and as an interleaving of threads and collectors, and its invariant: claimed ranges are
    disjoint, reference counts are exact. Two flags of the interleaving say what it rests on: that no thread
    reads \<^verbatim>\<open>free_idx\<close> again at the end of its buffer (\<open>free_ptrs_past_end\<close> shows what happens otherwise), and
    that no empty buffer is published. \<open>Free_Trace\<close> has the properties over whole runs.
  \<^item> \<open>Frontend\<close> (\<^verbatim>\<open>frontend.c\<close>, \<^verbatim>\<open>thread.c\<close>, \<^verbatim>\<open>proc.c\<close>): retiring addresses and electing the reclaimer with the
    timestamp, as an interleaving of any number of threads; there is one reclaimer at a time, no address
    is lost on the way from the queues to the collector, and a reclaimer returns.
  \<^item> \<open>Round\<close> (\<^verbatim>\<open>frontend.c\<close>): a round of the reclaimer as one function, from the queues through the reclaimer's
    buffer to the list the collector starts from; with at most \<^verbatim>\<open>MAX_THREAD_COUNT\<close> threads it ends in a
    state of which \<open>Collection\<close> shows that a collection is safe, if the addresses are such as it needs.
  \<^item> \<open>Threads\<close> (\<^verbatim>\<open>util.c\<close>, \<^verbatim>\<open>proc.c\<close>, \<^verbatim>\<open>thread.c\<close>, \<^verbatim>\<open>wrappers.c\<close>): the registry. Over all histories of creating, starting,
    ending and joining threads the lists and the counters are exact and nothing is shared; what happens
    when \<^verbatim>\<open>pthread_create\<close> and \<^verbatim>\<open>pthread_join\<close> fail.
  \<^item> \<open>Sleep\<close> (\<^verbatim>\<open>sleep.c\<close>): sleeping until a deadline.
  \<^item> \<open>Env\<close> (\<^verbatim>\<open>env.c\<close>): the configuration, with the parsing of the settings.

  \<^bold>\<open>How the state is modelled.\<close> A C struct is a record with a prefix on its fields, a file's static
  variables are one record that the operations take and return, pointers are addresses into a
  store per struct type, arrays are lists read and written with a check. Arithmetic on \<open>size_t\<close>
  wraps, arithmetic on \<open>int\<close> is checked for overflow. The build is the release build: assertions are
  not compiled in. A function that runs under a mutex is one step; code that is not protected is
  split into the steps between which other threads can act. Two theories are coarser: the operations of
  \<open>Alloc\<close> and of \<open>Threads\<close> have several critical sections each, and the histories there are of complete
  operations, one after the other.

  \<^bold>\<open>Parameters.\<close> The operating system's \<^verbatim>\<open>mmap\<close> and \<^verbatim>\<open>munmap\<close> (\<open>os_t\<close>; a new mapping overlaps none of the
  old ones), the memory of the snapshot (\<open>mem\<close>), \<^verbatim>\<open>malloc_usable_size\<close> (\<open>usable\<close>), the environment
  (\<open>getenv\<close>), the random numbers, the readings of the clock, the answers of pthreads (\<open>create_env\<close>),
  the text of the memory map, the address of the lock of \<^verbatim>\<open>stderr\<close>, and
  for a collection whether the pipe and the child could be had and what the scan reported (\<open>gc_env\<close>; the
  hypothesis \<open>scans\<close> says that a report comes from a run of the processes of \<open>Child\<close>).

  \<^bold>\<open>Fuel.\<close> Loops along a chain of pointers get one step more than the store has objects: a longer walk
  has come back to an object and never ends. The loop over a file gets one round per character, the
  loop over the chunks of a range one per byte, as each round moves ahead; \<open>find_roots\<close> gets one
  round per block; marking recurses at most once per tracked address. In each case a lemma shows that
  the result is never \<open>No_return\<close>, or that it is exactly when the C code does not return.

  \<^bold>\<open>Not modelled.\<close> What is left are calls of the system and code without behaviour of its own: diagnostics
  and statistics (\<^verbatim>\<open>forkscan_diagnostic\<close>, \<^verbatim>\<open>forkscan_print_statistics\<close>), looking up the replaced functions
  with \<^verbatim>\<open>dlsym\<close>, installing the signal handler, \<^verbatim>\<open>__libc_start_main\<close> and \<^verbatim>\<open>forkscan_set_allocator\<close>, the counters
  of the \<^verbatim>\<open>TIMING\<close> build. \<^verbatim>\<open>forkscan_util_push_free_list\<close> and its counterpart are never called. A collection
  takes the list of threads as it is: the histories of \<open>Threads\<close>, in which threads come and go, and the
  interleavings of \<open>Frontend\<close>, in which they retire addresses, are separate; \<open>Round\<close> composes a round with
  the collector, with no other thread in between. In \<open>Frontend\<close> a push and the test for a full queue
  behind it are one step; the value a push writes is not read before the head index has moved.
\<close>

end
